(* ===== verification/Prelude.thy ===== *)
theory Prelude
  imports Main "HOL-Library.AList"
begin

section \<open>Shared vocabulary of the development\<close>

text \<open>
  What every component uses: results with a typed error (a raise or an early refusal of the
  source is the left summand), JavaScript's insertion-ordered \<open>Map\<close> as an association list,
  its stable \<open>Array.prototype.sort\<close> by a numeric key as \<open>sort_key\<close>, and the numbers that
  arrive from outside before they were validated (\<open>jsnum\<close>). The collections
  \<open>result_simps\<close> and \<open>window_simps\<close> gather what the component proofs hand to the simplifier.
\<close>

named_theorems result_simps \<open>evaluation of results and of their sequencing\<close>
named_theorems window_simps \<open>facts about windows of blocks and their order\<close>

subsection \<open>Results\<close>

type_synonym ('e, 'a) result = "'e + 'a"

definition and_then :: "('e, 'a) result \<Rightarrow> ('a \<Rightarrow> ('e, 'b) result) \<Rightarrow> ('e, 'b) result" where
  "and_then r f = (case r of Inl e \<Rightarrow> Inl e | Inr a \<Rightarrow> f a)"

definition guard :: "bool \<Rightarrow> 'e \<Rightarrow> ('e, unit) result" where
  "guard c e = (if c then Inr () else Inl e)"

fun traverse :: "('a \<Rightarrow> ('e, 'b) result) \<Rightarrow> 'a list \<Rightarrow> ('e, 'b list) result" where
  "traverse f [] = Inr []"
| "traverse f (x # xs) = and_then (f x) (\<lambda>y. and_then (traverse f xs) (\<lambda>ys. Inr (y # ys)))"

lemma and_then_Inl [simp, result_simps]: "and_then (Inl e) f = Inl e"
  by (simp add: and_then_def)

lemma and_then_Inr [simp, result_simps]: "and_then (Inr a) f = f a"
  by (simp add: and_then_def)

lemma and_then_eq_Inr [simp, result_simps]:
  "and_then r f = Inr b \<longleftrightarrow> (\<exists>a. r = Inr a \<and> f a = Inr b)"
  by (cases r) simp_all

lemma and_then_eq_Inl [result_simps]:
  "and_then r f = Inl e \<longleftrightarrow> r = Inl e \<or> (\<exists>a. r = Inr a \<and> f a = Inl e)"
  by (cases r) simp_all

lemma guard_eq_Inr [simp, result_simps]: "guard c e = Inr u \<longleftrightarrow> c"
  by (simp add: guard_def)

lemma guard_eq_Inl [simp, result_simps]: "guard c e = Inl e' \<longleftrightarrow> \<not> c \<and> e' = e"
  by (auto simp add: guard_def)

lemma guard_True [simp]: "guard True e = Inr ()"
  by (simp add: guard_def)

lemma traverse_Inr_iff:
  "traverse f xs = Inr ys \<longleftrightarrow> list_all2 (\<lambda>x y. f x = Inr y) xs ys"
proof (induction xs arbitrary: ys)
  case Nil
  then show ?case by auto
next
  case (Cons x xs)
  then show ?case by (cases ys) (auto simp: list_all2_Cons1)
qed

lemma traverse_length: "traverse f xs = Inr ys \<Longrightarrow> length ys = length xs"
  by (auto simp: traverse_Inr_iff dest: list_all2_lengthD)

subsection \<open>Numbers read from outside\<close>

text \<open>
  A JavaScript number that crossed a boundary unchecked: \<open>Whole n\<close> is a number that
  \<open>Number.isInteger\<close> accepts, \<open>NotWhole\<close> everything else (a fraction, NaN, an infinity, a
  value of another type).
\<close>

datatype jsnum = Whole int | NotWhole

fun is_block_number :: "jsnum \<Rightarrow> bool" where
  "is_block_number (Whole n) = (0 \<le> n)"
| "is_block_number NotWhole = False"

fun whole :: "jsnum \<Rightarrow> int" where
  "whole (Whole n) = n"
| "whole NotWhole = 0"

lemma is_block_numberE:
  assumes "is_block_number v"
  obtains n where "v = Whole n" "0 \<le> n"
  using assms by (cases v) auto

subsection \<open>Lists, sorting and insertion-ordered maps\<close>

lemma sort_key_sorted_id: "sorted (map f xs) \<Longrightarrow> sort_key f xs = xs"
  by (induction xs) (auto simp: insort_is_Cons)

lemma strict_sorted_map_distinct:
  fixes f :: "'a \<Rightarrow> 'b::linorder"
  shows "sorted_wrt (\<lambda>a b. f a < f b) xs \<Longrightarrow> distinct (map f xs)"
  by (induction xs) auto

lemma sorted_wrt_less_sorted:
  fixes f :: "'a \<Rightarrow> 'b::linorder"
  shows "sorted_wrt (\<lambda>a b. f a < f b) xs \<Longrightarrow> sorted (map f xs)"
  by (induction xs) auto

lemma sorted_distinct_strict:
  fixes f :: "'a \<Rightarrow> 'b::linorder"
  assumes "sorted (map f xs)" and "distinct (map f xs)"
  shows "sorted_wrt (\<lambda>a b. f a < f b) xs"
  using assms
proof (induction xs)
  case Nil
  then show ?case by simp
next
  case (Cons x xs)
  then show ?case by (auto simp: order.strict_iff_order)
qed

lemma image_filter_notin: "f ` {x \<in> S. f x \<notin> K} = f ` S - K"
  by auto

lemma image_disjointI:
  assumes "\<And>x y. x \<in> A \<Longrightarrow> y \<in> B \<Longrightarrow> f x \<noteq> g y"
  shows "f ` A \<inter> g ` B = {}"
  using assms by auto

lemma foldl_upd_dom:
  "foldl (\<lambda>m b. m(f b \<mapsto> g b)) m xs k =
    (case map_of (rev (map (\<lambda>b. (f b, g b)) xs)) k of None \<Rightarrow> m k | Some v \<Rightarrow> Some v)"
  by (induction xs arbitrary: m) (auto simp: map_add_def split: option.splits)

end
