(* ===== verification/Stream_Types.thy ===== *)
theory Stream_Types
  imports Prelude
begin

section \<open>Logs, blocks, cursors and the wire envelope\<close>

text \<open>
  The data of \<open>packages/core/src/types.ts\<close> that the engine, the receivers and the stream
  keepers share. Block numbers are unbounded integers: the source computes with JavaScript
  numbers, and \<open>latestBlock - finality\<close> may be negative. The part of an event that the ABI
  decoder of the viem package attaches (\<open>eventName\<close> and \<open>args\<close>, or \<open>decodeError\<close>) is never
  inspected by this code, so it is the type parameter \<open>'a\<close>.
\<close>

record 'a log_event =
  blockNumber :: int
  blockHash :: string
  transactionIndex :: int
  removed :: bool
  address :: string
  data :: string
  topics :: "string list"
  transactionHash :: string
  logIndex :: int
  blockTimestamp :: "int option"
  decoded :: 'a

text \<open>A block with the events it carried: an entry of the unconfirmed window.\<close>

record 'a event_block =
  number :: int
  hash :: string
  events :: "'a log_event list"

text \<open>A delivered group: the block, and whether the group applies it or takes it back.\<close>

record 'a stream_group = "'a event_block" +
  group_removed :: bool

record source_hash_entry =
  she_startBlock :: int
  she_hash :: string
  she_streamHash :: "string option"
  she_legacyHash :: "string option"

record context_identifier =
  ctx_source :: "source_hash_entry list"
  ctx_config :: string
  ctx_processor :: string

record 'a last_sync =
  context_id :: context_identifier
  latestBlock :: int
  lastFromBlock :: int
  lastToBlock :: int
  unconfirmedBlocks :: "'a event_block list"

record wire_context =
  wire_source :: "source_hash_entry list"
  wire_config :: string

text \<open>
  The envelope as it arrives, before \<open>assertWellFormed\<close> has looked at it: its three block
  numbers may be anything, and \<open>None\<close> is a \<open>logs\<close> member that is not an array.
\<close>

record 'a wire_batch =
  wb_context :: "wire_context option"
  wb_fromBlock :: jsnum
  wb_toBlock :: jsnum
  wb_latestBlock :: jsnum
  wb_logs :: "'a log_event list option"

datatype reorg_cause = Contradiction | Absence

record reorg_detection =
  rd_cause :: reorg_cause
  rd_blockNumber :: int
  rd_blockHash :: string

text \<open>The refusals of \<open>errors.ts\<close> that this part of the engine raises, with their data.\<close>

datatype invalid_batch =
    NotBlockNumbers
  | BackwardsRange int int
  | AboveTip int int
  | LogsNotArray
  | Unordered int int
  | LogOutsideRange int
  | LogMarkedRemoved int

datatype engine_error =
    UnexpectedFromBlock int int
  | WireContextMismatch
  | InvalidBatch invalid_batch
  | TimestamplessLog int string
  | StreamHole int int

abbreviation key_of :: "('a, 'z) event_block_scheme \<Rightarrow> int \<times> string" where
  "key_of b \<equiv> (number b, hash b)"

abbreviation event_key :: "'a log_event \<Rightarrow> int \<times> string" where
  "event_key e \<equiv> (blockNumber e, blockHash e)"


text \<open>A log with the given height, block hash and log index: the inputs of the witnesses.\<close>

definition sample_log :: "int \<Rightarrow> string \<Rightarrow> int \<Rightarrow> unit log_event" where
  "sample_log n h i =
     \<lparr>blockNumber = n, blockHash = h, transactionIndex = 0, removed = False,
      address = ''0x01'', data = ''0x'', topics = [''0xaa''], transactionHash = ''0xff'',
      logIndex = i, blockTimestamp = Some (1000 + n), decoded = ()\<rparr>"

lemma sample_log_simps [simp]:
  "blockNumber (sample_log n h i) = n" "blockHash (sample_log n h i) = h"
  "removed (sample_log n h i) = False" "logIndex (sample_log n h i) = i"
  "blockTimestamp (sample_log n h i) = Some (1000 + n)"
  by (simp_all add: sample_log_def)

end
