(* ===== verification/Invalidation.thy ===== *)
theory Invalidation
  imports Stream_Types "HOL-Library.Char_ord" "HOL-Library.List_Lexorder"
begin

section \<open>Which blocks a changed source or configuration invalidates\<close>

text \<open>
  The second half of \<open>packages/core/src/internal/engine/utils.ts\<close>: the verdicts on a stored
  cursor (\<open>verdictOn\<close>, \<open>sourceInvalidationOf\<close>, \<open>stateMatches\<close>, \<open>streamMatches\<close>), the
  canonical form of a stream configuration (\<open>canonicalArgumentFilter\<close>,
  \<open>canonicalFilterRules\<close>, \<open>dedupeSorted\<close>, \<open>resolveStreamConfig\<close>) and the comparison of
  envelope contexts. JavaScript compares strings by UTF-16 code unit; over the ASCII strings
  of this code that is the lexicographic order used here. The address checksum
  (\<open>getAddress\<close> of viem) and the text a value is deduplicated by (\<open>canonical_form\<close>, which ends
  in \<open>JSON.stringify\<close>) are arguments.
\<close>

subsection \<open>Verdicts\<close>

datatype invalidation_reason = StreamConfig | EntryChanged | EntryAdded | EntryRemoved

datatype invalidation_verdict = Valid | Invalid int invalidation_reason

record source_invalidation =
  si_state :: invalidation_verdict
  si_stream :: invalidation_verdict

fun isWholeSourceContext :: "source_hash_entry list \<Rightarrow> bool" where
  "isWholeSourceContext [e] = (she_startBlock e = 0 \<and> she_streamHash e = None)"
| "isWholeSourceContext _ = False"

definition invalid_from :: "(int \<times> invalidation_reason) option \<Rightarrow> int \<Rightarrow> invalidation_reason
    \<Rightarrow> (int \<times> invalidation_reason) option" where
  "invalid_from acc block why =
     (case acc of
        None \<Rightarrow> Some (block, why)
      | Some (b, r) \<Rightarrow> if block < b then Some (block, why) else Some (b, r))"

fun verdict_loop :: "int \<Rightarrow> (int \<Rightarrow> invalidation_reason) \<Rightarrow> (int \<times> invalidation_reason) option
    \<Rightarrow> source_hash_entry list \<Rightarrow> (int \<times> invalidation_reason) option" where
  "verdict_loop lastTo why acc [] = acc"
| "verdict_loop lastTo why acc (e # es) =
     (if she_startBlock e \<le> lastTo
      then verdict_loop lastTo why (invalid_from acc (she_startBlock e) (why (she_startBlock e))) es
      else verdict_loop lastTo why acc es)"

definition verdictOn :: "source_hash_entry list \<Rightarrow> source_hash_entry list
    \<Rightarrow> (source_hash_entry \<Rightarrow> 'k) \<Rightarrow> int \<Rightarrow> bool \<Rightarrow> invalidation_verdict" where
  "verdictOn current stored digestOf lastTo removalInvalidates =
     (let added = filter (\<lambda>e. digestOf e \<notin> digestOf ` set stored) current;
          gone = (if removalInvalidates
                  then filter (\<lambda>e. digestOf e \<notin> digestOf ` set current) stored else []);
          addedBlocks = she_startBlock ` set added;
          removedBlocks = she_startBlock ` set gone;
          acc = verdict_loop lastTo (\<lambda>b. if b \<in> removedBlocks then EntryChanged else EntryAdded) None added;
          final = verdict_loop lastTo (\<lambda>b. if b \<in> addedBlocks then EntryChanged else EntryRemoved) acc gone
      in case final of None \<Rightarrow> Valid | Some (b, r) \<Rightarrow> Invalid b r)"

definition sourceInvalidationOf :: "source_hash_entry list \<Rightarrow> string \<Rightarrow> int \<Rightarrow> context_identifier
    \<Rightarrow> source_invalidation" where
  "sourceInvalidationOf hashes config lastTo context =
     (if ctx_config context \<noteq> config
      then \<lparr>si_state = Invalid 0 StreamConfig, si_stream = Invalid 0 StreamConfig\<rparr>
      else
        (let stored = ctx_source context;
             legacy = (case hashes of [] \<Rightarrow> None | e # es \<Rightarrow> she_legacyHash e)
         in if legacy \<noteq> None \<and> isWholeSourceContext stored
            then (if Some (she_hash (hd stored)) = legacy
                  then \<lparr>si_state = Valid, si_stream = Valid\<rparr>
                  else \<lparr>si_state = Invalid 0 EntryChanged, si_stream = Invalid 0 EntryChanged\<rparr>)
            else
              (let state = verdictOn hashes stored she_hash lastTo True in
               \<lparr>si_state = state,
                si_stream =
                  (if (\<forall>e \<in> set hashes. she_streamHash e \<noteq> None) \<and>
                      (\<forall>e \<in> set stored. she_streamHash e \<noteq> None)
                   then verdictOn hashes stored (\<lambda>e. the (she_streamHash e)) lastTo False
                   else state)\<rparr>)))"

definition stateMatches :: "source_hash_entry list \<Rightarrow> string \<Rightarrow> int \<Rightarrow> context_identifier \<Rightarrow> bool" where
  "stateMatches hashes config lastTo context \<longleftrightarrow>
     si_state (sourceInvalidationOf hashes config lastTo context) = Valid"

definition streamMatches :: "source_hash_entry list \<Rightarrow> string \<Rightarrow> int \<Rightarrow> context_identifier \<Rightarrow> bool" where
  "streamMatches hashes config lastTo context \<longleftrightarrow>
     si_stream (sourceInvalidationOf hashes config lastTo context) = Valid"

subsection \<open>Verdicts: facts\<close>

text \<open>What one loop adds to an accumulator: the lowest touched block, the first reason there.\<close>

definition touched :: "int \<Rightarrow> source_hash_entry list \<Rightarrow> int set" where
  "touched lastTo es = {b \<in> she_startBlock ` set es. b \<le> lastTo}"

lemma touched_finite [simp]: "finite (touched lastTo es)"
  by (simp add: touched_def)

lemma touched_Cons:
  "touched lastTo (e # es) =
    (if she_startBlock e \<le> lastTo then insert (she_startBlock e) (touched lastTo es) else touched lastTo es)"
  by (auto simp: touched_def)

lemmas Min_opaque = Min.bounded_iff Min_gr_iff

declare Min_opaque [simp del]

lemma Min_touched_Cons:
  "she_startBlock e \<le> lastTo \<Longrightarrow> touched lastTo es \<noteq> {} \<Longrightarrow>
    Min (touched lastTo (e # es)) = min (she_startBlock e) (Min (touched lastTo es))"
  by (simp add: touched_Cons)

lemma verdict_loop_Some:
  "verdict_loop lastTo why (Some (b, r)) es =
    (if touched lastTo es \<noteq> {} \<and> Min (touched lastTo es) < b
     then Some (Min (touched lastTo es), why (Min (touched lastTo es))) else Some (b, r))"
proof (induction es arbitrary: b r)
  case Nil
  then show ?case by (simp add: touched_def)
next
  case (Cons e es)
  show ?case
  proof (cases "she_startBlock e \<le> lastTo \<and> touched lastTo es \<noteq> {}")
    case False
    then show ?thesis using Cons by (auto simp: touched_Cons invalid_from_def)
  next
    case True
    define m where "m = Min (touched lastTo es)"
    from True have "Min (touched lastTo (e # es)) = min (she_startBlock e) m"
      by (simp add: Min_touched_Cons m_def)
    moreover have "touched lastTo (e # es) \<noteq> {}" using True by (simp add: touched_Cons)
    ultimately show ?thesis
      using True Cons by (auto simp: invalid_from_def min_def simp flip: m_def)
  qed
qed

lemma verdict_loop_None:
  "verdict_loop lastTo why None es =
    (if touched lastTo es = {} then None
     else Some (Min (touched lastTo es), why (Min (touched lastTo es))))"
proof (induction es)
  case Nil
  then show ?case by (simp add: touched_def)
next
  case (Cons e es)
  show ?case
  proof (cases "she_startBlock e \<le> lastTo \<and> touched lastTo es \<noteq> {}")
    case False
    then show ?thesis using Cons by (auto simp: touched_Cons invalid_from_def verdict_loop_Some)
  next
    case True
    define m where "m = Min (touched lastTo es)"
    from True have "Min (touched lastTo (e # es)) = min (she_startBlock e) m"
      by (simp add: Min_touched_Cons m_def)
    moreover have "touched lastTo (e # es) \<noteq> {}" using True by (simp add: touched_Cons)
    ultimately show ?thesis
      using True by (auto simp: invalid_from_def verdict_loop_Some min_def simp flip: m_def)
  qed
qed

text \<open>The entries that changed sides between the stored source and the current one.\<close>

definition appeared :: "(source_hash_entry \<Rightarrow> 'k) \<Rightarrow> source_hash_entry list \<Rightarrow> source_hash_entry list
    \<Rightarrow> source_hash_entry list" where
  "appeared digestOf xs ys = filter (\<lambda>e. digestOf e \<notin> digestOf ` set ys) xs"

lemma verdictOn_closed:
  "verdictOn current stored digestOf lastTo removal =
    (let A = touched lastTo (appeared digestOf current stored);
         R = (if removal then touched lastTo (appeared digestOf stored current) else {}) in
     if A \<union> R = {} then Valid
     else let b = Min (A \<union> R) in
       Invalid b (if b \<in> A \<and> b \<in> R then EntryChanged else if b \<in> A then EntryAdded else EntryRemoved))"
proof -
  let ?added = "appeared digestOf current stored"
  let ?gone = "if removal then appeared digestOf stored current else []"
  let ?A = "touched lastTo ?added" and ?R = "touched lastTo ?gone"
  have R: "(if removal then touched lastTo (appeared digestOf stored current) else {}) = ?R"
    by (simp add: touched_def)
  have le: "she_startBlock e \<le> lastTo" if "she_startBlock e \<in> touched lastTo es" for e es
    using that by (simp add: touched_def)
  have memA: "b \<in> she_startBlock ` set ?added \<longleftrightarrow> b \<in> ?A" and memR: "b \<in> she_startBlock ` set ?gone \<longleftrightarrow> b \<in> ?R"
    if "b \<le> lastTo" for b
    using that by (auto simp: touched_def)
  have bound: "Min S \<le> lastTo" if "S \<noteq> {}" "finite S" "S \<subseteq> ?A \<union> ?R" for S
    using Min_in[OF that(2,1)] that(3) by (auto simp: touched_def split: if_splits)
  have mm: "Min (?A \<union> ?R) = (if ?A = {} then Min ?R else if ?R = {} then Min ?A else min (Min ?A) (Min ?R))"
    by (simp add: Min_Un)
  have notin: "Min ?A < Min ?R \<Longrightarrow> Min ?A \<notin> ?R" "Min ?R < Min ?A \<Longrightarrow> Min ?R \<notin> ?A"
    by (meson Min_le linorder_not_less touched_finite)+
  have eval: "verdictOn current stored digestOf lastTo removal =
     (case verdict_loop lastTo (\<lambda>b. if b \<in> she_startBlock ` set ?added then EntryChanged else EntryRemoved)
        (verdict_loop lastTo (\<lambda>b. if b \<in> she_startBlock ` set ?gone then EntryChanged else EntryAdded) None ?added) ?gone
      of None \<Rightarrow> Valid | Some (b, r) \<Rightarrow> Invalid b r)"
    by (simp add: verdictOn_def appeared_def Let_def)
  consider "?A = {}" "?R = {}" | "?A = {}" "?R \<noteq> {}" | "?A \<noteq> {}" "?R = {}"
    | "?A \<noteq> {}" "?R \<noteq> {}" by blast
  then show ?thesis
  proof cases
    case 1
    then show ?thesis unfolding R eval by (simp add: verdict_loop_None)
  next
    case 2
    then show ?thesis unfolding R eval
      using memA[OF bound[of ?R]] Min_in[of ?R] by (simp add: verdict_loop_None)
  next
    case 3
    then show ?thesis unfolding R eval
      using memR[OF bound[of ?A]] Min_in[of ?A] by (simp add: verdict_loop_None verdict_loop_Some)
  next
    case 4
    define a where "a = Min ?A"
    define r where "r = Min ?R"
    have a: "a \<in> ?A" "a \<le> lastTo" and r: "r \<in> ?R" "r \<le> lastTo"
      using 4 bound[of ?A] bound[of ?R] unfolding a_def r_def by simp_all
    show ?thesis unfolding R eval
      using 4 mm a r memA[OF r(2)] memR[OF a(2)] notin[folded a_def r_def]
      by (auto simp: verdict_loop_None verdict_loop_Some Let_def min_def simp flip: a_def r_def)
  qed
qed

text \<open>What a verdict leaves standing: the blocks below the first invalid one.\<close>

fun trusted_through :: "invalidation_verdict \<Rightarrow> int \<Rightarrow> bool" where
  "trusted_through Valid n = True"
| "trusted_through (Invalid b r) n = (n < b)"

lemma trusted_verdictOn:
  assumes "n \<le> lastTo"
  shows "trusted_through (verdictOn current stored digestOf lastTo removal) n \<longleftrightarrow>
    (\<forall>e \<in> set (appeared digestOf current stored). n < she_startBlock e) \<and>
    (removal \<longrightarrow> (\<forall>e \<in> set (appeared digestOf stored current). n < she_startBlock e))"
proof -
  let ?A = "touched lastTo (appeared digestOf current stored)"
  let ?R = "if removal then touched lastTo (appeared digestOf stored current) else {}"
  have touched_le: "(\<forall>b \<in> touched lastTo es. n < b) \<longleftrightarrow> (\<forall>e \<in> set es. n < she_startBlock e)" for es
    using assms by (force simp: touched_def)
  have "finite ?R" by simp
  then have "trusted_through (verdictOn current stored digestOf lastTo removal) n \<longleftrightarrow>
      (\<forall>b \<in> ?A \<union> ?R. n < b)"
    by (cases "?A \<union> ?R = {}") (simp_all add: verdictOn_closed Let_def Min_gr_iff)
  also have "\<dots> \<longleftrightarrow> (\<forall>b \<in> ?A. n < b) \<and> (removal \<longrightarrow> (\<forall>b \<in> touched lastTo (appeared digestOf stored current). n < b))"
    by auto
  finally show ?thesis by (simp only: touched_le)
qed

definition entry :: "int \<Rightarrow> string \<Rightarrow> string \<Rightarrow> source_hash_entry" where
  "entry b h sh = \<lparr>she_startBlock = b, she_hash = h, she_streamHash = Some sh, she_legacyHash = None\<rparr>"

lemma entry_simps [simp]:
  "she_startBlock (entry b h sh) = b" "she_hash (entry b h sh) = h"
  "she_streamHash (entry b h sh) = Some sh" "she_legacyHash (entry b h sh) = None"
  by (simp_all add: entry_def)

text \<open>
  C25. The state verdict is exact: for a cursor of the same configuration that is not in the
  legacy single-hash form, a synced block \<open>n\<close> keeps its state if and only if no source entry
  that was added or removed since starts at or below \<open>n\<close>. Nothing valid is thrown away and
  nothing stale is kept.
\<close>

theorem state_verdict_exact:
  assumes "ctx_config context = config" and "\<not> isWholeSourceContext (ctx_source context)"
    and "n \<le> lastTo"
  shows "trusted_through (si_state (sourceInvalidationOf hashes config lastTo context)) n \<longleftrightarrow>
    (\<forall>e \<in> set hashes. she_hash e \<notin> she_hash ` set (ctx_source context) \<longrightarrow> n < she_startBlock e) \<and>
    (\<forall>e \<in> set (ctx_source context). she_hash e \<notin> she_hash ` set hashes \<longrightarrow> n < she_startBlock e)"
  using assms
  by (simp add: sourceInvalidationOf_def Let_def trusted_verdictOn appeared_def Ball_def imp_conjL)

theorem state_verdict_exact_witness:
  "\<not> trusted_through (si_state (sourceInvalidationOf [entry 5 ''a'' ''s'', entry 9 ''c'' ''t''] ''cfg'' 20
      \<lparr>ctx_source = [entry 5 ''a'' ''s'', entry 7 ''b'' ''t''], ctx_config = ''cfg'', ctx_processor = []\<rparr>)) 7
    \<and> trusted_through (si_state (sourceInvalidationOf [entry 5 ''a'' ''s'', entry 9 ''c'' ''t''] ''cfg'' 20
      \<lparr>ctx_source = [entry 5 ''a'' ''s'', entry 7 ''b'' ''t''], ctx_config = ''cfg'', ctx_processor = []\<rparr>)) 6"
  by (simp add: state_verdict_exact)

text \<open>
  The stored stream is never judged more harshly than the state folded from it: where an
  entry's hash determines the hash of what it fetches, every block whose state is kept has its
  stream kept too, so a state that resumes never resumes over a stream that must be refetched.
\<close>

theorem stream_outlives_state:
  assumes digest: "\<forall>a \<in> set hashes \<union> set (ctx_source context). \<forall>b \<in> set hashes \<union> set (ctx_source context).
      she_hash a = she_hash b \<longrightarrow> she_streamHash a = she_streamHash b"
    and n: "n \<le> lastTo"
    and kept: "trusted_through (si_state (sourceInvalidationOf hashes config lastTo context)) n"
  shows "trusted_through (si_stream (sourceInvalidationOf hashes config lastTo context)) n"
proof -
  let ?stored = "ctx_source context"
  have "\<forall>e \<in> set (appeared (\<lambda>e. the (she_streamHash e)) hashes ?stored). n < she_startBlock e"
    if "trusted_through (verdictOn hashes ?stored she_hash lastTo True) n"
  proof
    fix e assume "e \<in> set (appeared (\<lambda>e. the (she_streamHash e)) hashes ?stored)"
    then have e: "e \<in> set hashes" "the (she_streamHash e) \<notin> (\<lambda>e. the (she_streamHash e)) ` set ?stored"
      by (simp_all add: appeared_def)
    have "she_hash e \<notin> she_hash ` set ?stored"
    proof
      assume "she_hash e \<in> she_hash ` set ?stored"
      then obtain x where x: "x \<in> set ?stored" "she_hash x = she_hash e" by force
      with digest e(1) have "she_streamHash x = she_streamHash e" by blast
      then have "the (she_streamHash e) = the (she_streamHash x)" by simp
      with e(2) imageI[OF x(1), of "\<lambda>e. the (she_streamHash e)"] show False by simp
    qed
    with e(1) have "e \<in> set (appeared she_hash hashes ?stored)" by (simp add: appeared_def)
    with that n show "n < she_startBlock e" by (simp add: trusted_verdictOn)
  qed
  then have "trusted_through (verdictOn hashes ?stored she_hash lastTo True) n \<longrightarrow>
      trusted_through (verdictOn hashes ?stored (\<lambda>e. the (she_streamHash e)) lastTo False) n"
    using trusted_verdictOn[OF n, of hashes ?stored "\<lambda>e. the (she_streamHash e)" False] by blast
  then show ?thesis
    using kept unfolding sourceInvalidationOf_def Let_def by (auto split: if_splits)
qed

theorem stream_outlives_state_witness:
  "trusted_through (si_stream (sourceInvalidationOf [entry 5 ''a'' ''s'', entry 9 ''c'' ''t''] ''cfg'' 20
      \<lparr>ctx_source = [entry 5 ''a'' ''s'', entry 7 ''b'' ''t''], ctx_config = ''cfg'', ctx_processor = []\<rparr>)) 6"
  by (rule stream_outlives_state)
    (simp_all add: sourceInvalidationOf_def Let_def trusted_verdictOn appeared_def)

subsection \<open>The canonical form of a stream configuration\<close>

datatype argument_slot = Anything | One string | OneOf "string list"

type_synonym argument_filter = "argument_slot list"

record filter_rule =
  rule_event :: string
  rule_contracts :: "string list option"
  rule_match :: "argument_filter list"

record log_parse_config =
  parseAllEventsIrrespectiveOfAddresses :: "bool option"
  parse_filters :: "filter_rule list option"

text \<open>
  \<open>ProvidedStreamConfig\<close>: the members that are \<open>undefined\<close> are \<open>None\<close>. \<open>'r\<close> is the rest of the
  configuration, which resolving copies.
\<close>

record 'r provided_stream_config =
  provided_finality :: "int option"
  provided_parse :: "log_parse_config option"
  provided_rest :: 'r

record 'r used_stream_config =
  used_finality :: int
  used_parse :: "log_parse_config option"
  used_rest :: 'r

definition sort_unique :: "string list \<Rightarrow> string list" where
  "sort_unique xs = sort (rev (remdups (rev xs)))"

fun canonical_slot :: "argument_slot \<Rightarrow> argument_slot" where
  "canonical_slot (OneOf xs) = OneOf (sort_unique xs)"
| "canonical_slot s = s"

definition canonicalArgumentFilter :: "argument_filter \<Rightarrow> argument_filter" where
  "canonicalArgumentFilter match =
     map canonical_slot (rev (dropWhile (\<lambda>s. s = Anything) (rev match)))"

fun first_by_key :: "('v \<Rightarrow> string) \<Rightarrow> (string \<times> 'v) list \<Rightarrow> 'v list \<Rightarrow> (string \<times> 'v) list" where
  "first_by_key key seen [] = seen"
| "first_by_key key seen (v # vs) =
     (if key v \<in> fst ` set seen then first_by_key key seen vs
      else first_by_key key (seen @ [(key v, v)]) vs)"

definition dedupeSorted :: "('v \<Rightarrow> string) \<Rightarrow> 'v list \<Rightarrow> 'v list" where
  "dedupeSorted key vs = map snd (sort_key fst (first_by_key key [] vs))"

definition canonical_rule :: "(string \<Rightarrow> string) \<Rightarrow> (argument_filter \<Rightarrow> string) \<Rightarrow> filter_rule \<Rightarrow> filter_rule" where
  "canonical_rule normalizeAddress key rule =
     \<lparr>rule_event = rule_event rule,
      rule_contracts = map_option (\<lambda>cs. sort_unique (map normalizeAddress cs)) (rule_contracts rule),
      rule_match = dedupeSorted key (map canonicalArgumentFilter (rule_match rule))\<rparr>"

definition canonicalFilterRules :: "(string \<Rightarrow> string) \<Rightarrow> (argument_filter \<Rightarrow> string)
    \<Rightarrow> (filter_rule \<Rightarrow> string) \<Rightarrow> filter_rule list \<Rightarrow> filter_rule list" where
  "canonicalFilterRules normalizeAddress key rkey rules =
     dedupeSorted rkey (map (canonical_rule normalizeAddress key) rules)"

definition resolveParseConfig :: "(string \<Rightarrow> string) \<Rightarrow> (argument_filter \<Rightarrow> string)
    \<Rightarrow> (filter_rule \<Rightarrow> string) \<Rightarrow> log_parse_config option \<Rightarrow> log_parse_config option" where
  "resolveParseConfig normalizeAddress key rkey parse =
     (case parse of
        None \<Rightarrow> None
      | Some p \<Rightarrow>
          (case parse_filters p of
             None \<Rightarrow> Some p
           | Some [] \<Rightarrow> Some (p\<lparr>parse_filters := None\<rparr>)
           | Some rules \<Rightarrow>
               Some (p\<lparr>parse_filters := Some (canonicalFilterRules normalizeAddress key rkey rules)\<rparr>)))"

definition resolveStreamConfig :: "(string \<Rightarrow> string) \<Rightarrow> (argument_filter \<Rightarrow> string)
    \<Rightarrow> (filter_rule \<Rightarrow> string) \<Rightarrow> 'r provided_stream_config \<Rightarrow> 'r used_stream_config" where
  "resolveStreamConfig normalizeAddress key rkey provided =
     \<lparr>used_finality = (case provided_finality provided of None \<Rightarrow> 17 | Some n \<Rightarrow> n),
      used_parse = resolveParseConfig normalizeAddress key rkey (provided_parse provided),
      used_rest = provided_rest provided\<rparr>"

definition streamConfigHashOf :: "('r used_stream_config \<Rightarrow> string) \<Rightarrow> (string \<Rightarrow> string)
    \<Rightarrow> (argument_filter \<Rightarrow> string) \<Rightarrow> (filter_rule \<Rightarrow> string) \<Rightarrow> 'r provided_stream_config \<Rightarrow> string" where
  "streamConfigHashOf simpleHash normalizeAddress key rkey stream =
     simpleHash (resolveStreamConfig normalizeAddress key rkey stream)"

text \<open>A resolved configuration handed back as a provided one.\<close>

definition provide :: "'r used_stream_config \<Rightarrow> 'r provided_stream_config" where
  "provide used =
     \<lparr>provided_finality = Some (used_finality used), provided_parse = used_parse used,
      provided_rest = used_rest used\<rparr>"

subsection \<open>Canonical forms: facts\<close>

lemma sort_unique_set [simp]: "set (sort_unique xs) = set xs"
  by (simp add: sort_unique_def)

lemma sort_unique_eq: "sort_unique xs = sorted_list_of_set (set xs)"
  by (rule sorted_distinct_set_unique) (simp_all add: sort_unique_def)

lemma sort_unique_cong: "set xs = set ys \<Longrightarrow> sort_unique xs = sort_unique ys"
  by (simp add: sort_unique_eq)

lemma sort_unique_idem [simp]: "sort_unique (sort_unique xs) = sort_unique xs"
  by (rule sort_unique_cong) simp

lemma canonical_slot_idem [simp]: "canonical_slot (canonical_slot s) = canonical_slot s"
  by (cases s) simp_all

lemma canonical_slot_Anything [simp]: "canonical_slot s = Anything \<longleftrightarrow> s = Anything"
  by (cases s) simp_all

lemma dropWhile_canonical:
  "dropWhile (\<lambda>s. s = Anything) (map canonical_slot xs) = map canonical_slot (dropWhile (\<lambda>s. s = Anything) xs)"
  by (induction xs) simp_all

lemma canonicalArgumentFilter_idem:
  "canonicalArgumentFilter (canonicalArgumentFilter match) = canonicalArgumentFilter match"
  by (simp add: canonicalArgumentFilter_def rev_map dropWhile_canonical dropWhile_idem comp_def)

lemma first_by_key_keys:
  "fst ` set (first_by_key key seen vs) = fst ` set seen \<union> key ` set vs"
  by (induction key seen vs rule: first_by_key.induct) auto

lemma first_by_key_ok:
  assumes "distinct (map fst seen)" and "\<forall>(k, v) \<in> set seen. k = key v"
  shows "distinct (map fst (first_by_key key seen vs)) \<and>
    (\<forall>(k, v) \<in> set (first_by_key key seen vs). k = key v) \<and>
    snd ` set (first_by_key key seen vs) \<subseteq> snd ` set seen \<union> set vs"
  using assms
proof (induction key seen vs rule: first_by_key.induct)
  case (1 key seen)
  then show ?case by simp
next
  case (2 key seen v vs)
  show ?case
  proof (cases "key v \<in> fst ` set seen")
    case True
    then show ?thesis using 2 by (auto simp: subset_iff)
  next
    case False
    then have "distinct (map fst (seen @ [(key v, v)]))" "\<forall>(k, v) \<in> set (seen @ [(key v, v)]). k = key v"
      using 2(3,4) by auto
    from 2(2)[OF False this] False show ?thesis by (auto simp: subset_iff)
  qed
qed

text \<open>What \<open>dedupeSorted\<close> returns: strictly sorted by key, from the values, every key once.\<close>

lemma dedupeSorted_spec:
  "sorted_wrt (<) (map key (dedupeSorted key vs))"
  "set (dedupeSorted key vs) \<subseteq> set vs"
  "key ` set (dedupeSorted key vs) = key ` set vs"
proof -
  let ?f = "first_by_key key [] vs"
  have ok: "distinct (map fst ?f)" "\<forall>(k, v) \<in> set ?f. k = key v" "snd ` set ?f \<subseteq> set vs"
    using first_by_key_ok[of "[]" key vs] by simp_all
  have keys: "map key (dedupeSorted key vs) = map fst (sort_key fst ?f)"
    using ok(2) by (auto simp: dedupeSorted_def)
  have "sorted (map fst (sort_key fst ?f))" by simp
  moreover have "distinct (map fst (sort_key fst ?f))"
    using ok(1) by (simp add: distinct_map)
  ultimately show "sorted_wrt (<) (map key (dedupeSorted key vs))"
    by (simp add: keys strict_sorted_iff)
  show "set (dedupeSorted key vs) \<subseteq> set vs" using ok(3) by (simp add: dedupeSorted_def)
  have "key ` set (dedupeSorted key vs) = set (map fst (sort_key fst ?f))"
    by (simp only: keys[symmetric] set_map)
  then show "key ` set (dedupeSorted key vs) = key ` set vs"
    by (simp add: first_by_key_keys)
qed

lemma strict_by_key_unique:
  fixes key :: "'v \<Rightarrow> string"
  assumes "sorted_wrt (<) (map key xs)" "sorted_wrt (<) (map key ys)" "set xs = set ys"
  shows "xs = ys"
proof -
  have "map key xs = map key ys"
    by (rule strict_sorted_equal[OF assms(2,1)]) (simp add: assms(3))
  moreover have "inj_on key (set xs \<union> set ys)"
    using assms(1,3) by (simp add: strict_sorted_iff distinct_map)
  ultimately show ?thesis by (rule map_inj_on)
qed

lemma dedupeSorted_id:
  assumes "sorted_wrt (<) (map key vs)"
  shows "dedupeSorted key vs = vs"
proof -
  have "inj_on key (set vs)" using assms by (simp add: strict_sorted_iff distinct_map)
  then have "set (dedupeSorted key vs) = set vs"
    using dedupeSorted_spec(2,3)[of key vs] by (metis inj_on_image_eq_iff order_refl)
  with dedupeSorted_spec(1)[of key vs] assms show ?thesis by (intro strict_by_key_unique)
qed

lemma dedupeSorted_cong:
  assumes "set xs = set ys" and "inj_on key (set xs)"
  shows "dedupeSorted key xs = dedupeSorted key ys"
proof -
  have "set (dedupeSorted key xs) = set xs" "set (dedupeSorted key ys) = set ys"
    using assms dedupeSorted_spec(2,3)[of key] by (metis inj_on_image_eq_iff order_refl)+
  with assms(1) dedupeSorted_spec(1)[of key] show ?thesis by (intro strict_by_key_unique) simp_all
qed

lemma map_fixed: "\<forall>x \<in> set xs. f x = x \<Longrightarrow> map f xs = xs"
  by (simp add: map_idI)

lemma canonical_rule_idem:
  assumes "\<And>a. normalizeAddress (normalizeAddress a) = normalizeAddress a"
  shows "canonical_rule normalizeAddress key (canonical_rule normalizeAddress key rule) =
    canonical_rule normalizeAddress key rule"
proof -
  let ?m = "dedupeSorted key (map canonicalArgumentFilter (rule_match rule))"
  have "map canonicalArgumentFilter ?m = ?m"
    using dedupeSorted_spec(2)[of key "map canonicalArgumentFilter (rule_match rule)"]
    by (intro map_fixed) (auto simp: canonicalArgumentFilter_idem)
  moreover have "sort_unique (map normalizeAddress (sort_unique (map normalizeAddress cs))) =
      sort_unique (map normalizeAddress cs)" for cs
    by (rule sort_unique_cong) (auto simp: assms image_iff)
  ultimately show ?thesis
    by (simp add: canonical_rule_def dedupeSorted_id dedupeSorted_spec(1) option.map_comp comp_def)
qed

lemma canonicalFilterRules_idem:
  assumes "\<And>a. normalizeAddress (normalizeAddress a) = normalizeAddress a"
  shows "canonicalFilterRules normalizeAddress key rkey (canonicalFilterRules normalizeAddress key rkey rules) =
    canonicalFilterRules normalizeAddress key rkey rules"
proof -
  let ?c = "canonical_rule normalizeAddress key"
  let ?r = "dedupeSorted rkey (map ?c rules)"
  have "map ?c ?r = ?r"
    using dedupeSorted_spec(2)[of rkey "map ?c rules"]
    by (intro map_fixed) (auto simp: canonical_rule_idem[OF assms])
  then show ?thesis
    by (simp add: canonicalFilterRules_def dedupeSorted_id dedupeSorted_spec(1))
qed

lemma canonicalFilterRules_empty: "canonicalFilterRules na key rkey rules = [] \<longleftrightarrow> rules = []"
proof -
  have "rkey ` set (dedupeSorted rkey (map (canonical_rule na key) rules)) = {} \<longleftrightarrow> rules = []"
    by (simp add: dedupeSorted_spec(3))
  then show ?thesis by (simp add: canonicalFilterRules_def)
qed

definition sample_filters :: "filter_rule list" where
  "sample_filters =
     [\<lparr>rule_event = ''Transfer'', rule_contracts = Some [''0xb'', ''0xa'', ''0xb''],
       rule_match = [[OneOf [''0x2'', ''0x1''], Anything], [OneOf [''0x1'', ''0x2'']]]\<rparr>,
      \<lparr>rule_event = ''Transfer'', rule_contracts = Some [''0xa'', ''0xb''],
       rule_match = [[OneOf [''0x1'', ''0x2'']]]\<rparr>]"

text \<open>
  Resolving a stream configuration is idempotent: a configuration that was already resolved
  and is handed back (as the reset paths and the wire context do) resolves to itself, so the
  digest taken from it, which keys the stored stream, does not move. The address checksum is
  idempotent, as viem documents it.
\<close>

theorem resolveStreamConfig_idem:
  assumes "\<And>a. normalizeAddress (normalizeAddress a) = normalizeAddress a"
  shows "resolveStreamConfig normalizeAddress key rkey
      (provide (resolveStreamConfig normalizeAddress key rkey provided)) =
    resolveStreamConfig normalizeAddress key rkey provided"
proof -
  have "resolveParseConfig normalizeAddress key rkey (resolveParseConfig normalizeAddress key rkey parse) =
      resolveParseConfig normalizeAddress key rkey parse" for parse
    using canonicalFilterRules_idem[OF assms, of key rkey] canonicalFilterRules_empty[of normalizeAddress key rkey]
    by (auto simp: resolveParseConfig_def split: option.splits list.splits)
       (metis neq_Nil_conv)+
  then show ?thesis by (simp add: resolveStreamConfig_def provide_def)
qed

theorem resolveStreamConfig_idem_witness:
  "resolveStreamConfig id (\<lambda>f. concat (map (case_argument_slot ''*'' id concat) f)) rule_event
     (provide (resolveStreamConfig id (\<lambda>f. concat (map (case_argument_slot ''*'' id concat) f)) rule_event
       \<lparr>provided_finality = None, provided_parse = Some \<lparr>parseAllEventsIrrespectiveOfAddresses = None,
         parse_filters = Some sample_filters\<rparr>, provided_rest = ()\<rparr>)) =
   resolveStreamConfig id (\<lambda>f. concat (map (case_argument_slot ''*'' id concat) f)) rule_event
       \<lparr>provided_finality = None, provided_parse = Some \<lparr>parseAllEventsIrrespectiveOfAddresses = None,
         parse_filters = Some sample_filters\<rparr>, provided_rest = ()\<rparr>"
  by (rule resolveStreamConfig_idem) simp

subsection \<open>Envelope contexts\<close>

definition wireContextOf :: "('s \<Rightarrow> string) \<Rightarrow> ('r used_stream_config \<Rightarrow> string) \<Rightarrow> 's
    \<Rightarrow> 'r used_stream_config \<Rightarrow> wire_context" where
  "wireContextOf sourceHash configHash source config =
     \<lparr>wire_source = [\<lparr>she_startBlock = 0, she_hash = sourceHash source, she_streamHash = None,
        she_legacyHash = None\<rparr>],
      wire_config = configHash config\<rparr>"

definition sameWireContext :: "wire_context option \<Rightarrow> wire_context option \<Rightarrow> bool" where
  "sameWireContext a b =
     (case (a, b) of
        (Some x, Some y) \<Rightarrow>
          wire_config x = wire_config y \<and> length (wire_source x) = length (wire_source y) \<and>
          (\<forall>(e, e') \<in> set (zip (wire_source x) (wire_source y)). she_hash e' = she_hash e)
      | _ \<Rightarrow> False)"

lemma sameWireContext_iff:
  "sameWireContext (Some a) (Some b) \<longleftrightarrow>
    wire_config a = wire_config b \<and> map she_hash (wire_source a) = map she_hash (wire_source b)"
proof -
  have "length xs = length ys \<and> (\<forall>(e, e') \<in> set (zip xs ys). she_hash e' = she_hash e) \<longleftrightarrow>
      map she_hash xs = map she_hash ys" for xs ys
    by (induction xs ys rule: list_induct2') auto
  from this[of "wire_source a" "wire_source b"] show ?thesis by (simp add: sameWireContext_def)
qed

lemma sameWireContext_None [simp]:
  "sameWireContext None b = False" "sameWireContext a None = False"
  by (auto simp: sameWireContext_def split: option.splits)

end
