(* ===== verification/Resume.thy ===== *)
theory Resume
  imports Stream_Types
begin

section \<open>Where a fold reads from next, and narrowing a cursor\<close>

text \<open>
  \<open>getFromBlock\<close>, \<open>defaultFromBlockOf\<close> and \<open>cursorSyncedThrough\<close> of
  \<open>packages/core/src/internal/engine/utils.ts\<close>.
\<close>

definition getFromBlock :: "'a last_sync \<Rightarrow> int \<Rightarrow> int \<Rightarrow> int" where
  "getFromBlock lastSync defaultFromBlock finality =
     (if latestBlock lastSync = 0 then defaultFromBlock
      else max (min (lastToBlock lastSync + 1) (latestBlock lastSync - finality)) defaultFromBlock)"

text \<open>
  The contracts of a source: a list (each with its optional \<open>startBlock\<close>) or one ABI for
  all contracts. Only \<open>startBlock\<close> matters here; \<open>0\<close> and absence are both falsy in the
  source.
\<close>

datatype contracts_data =
    Contracts "int option list"
  | AllContracts "int option"

fun start_of :: "int option \<Rightarrow> int" where
  "start_of None = 0"
| "start_of (Some b) = b"

fun default_scan :: "int option \<Rightarrow> int option list \<Rightarrow> int option" where
  "default_scan acc [] = acc"
| "default_scan acc (c # cs) =
     (if start_of c \<noteq> 0
      then (case acc of
              None \<Rightarrow> default_scan (Some (start_of c)) cs
            | Some m \<Rightarrow> if start_of c < m then default_scan (Some (start_of c)) cs
                        else default_scan (Some m) cs)
      else default_scan (Some 0) cs)"

fun defaultFromBlockOf :: "contracts_data \<Rightarrow> int" where
  "defaultFromBlockOf (Contracts cs) = start_of (default_scan None cs)"
| "defaultFromBlockOf (AllContracts c) = start_of c"

definition cursorSyncedThrough :: "'a last_sync \<Rightarrow> int \<Rightarrow> 'a last_sync" where
  "cursorSyncedThrough lastSync n =
     \<lparr>context_id = context_id lastSync, latestBlock = latestBlock lastSync,
      lastFromBlock = lastFromBlock lastSync, lastToBlock = n,
      unconfirmedBlocks = filter (\<lambda>b. number b \<le> n) (unconfirmedBlocks lastSync)\<rparr>"

subsection \<open>Facts\<close>

lemma getFromBlock_ge_default: "defaultFromBlock \<le> getFromBlock s defaultFromBlock finality"
  by (simp add: getFromBlock_def)

lemma default_scan_Some:
  assumes "\<forall>c \<in> set cs. 0 \<le> start_of c" and "0 \<le> m"
  shows "default_scan (Some m) cs = Some (Min (insert m (start_of ` set cs)))"
  using assms
proof (induction cs arbitrary: m)
  case Nil
  then show ?case by simp
next
  case (Cons c cs)
  have ins: "Min (insert m (insert (start_of c) (start_of ` set cs)))
      = Min (insert (min m (start_of c)) (start_of ` set cs))"
    by (cases "set cs = {}") (simp_all add: min.assoc)
  show ?case
  proof (cases "start_of c = 0")
    case True
    with Cons.prems have "default_scan (Some m) (c # cs) = Some (Min (insert 0 (start_of ` set cs)))"
      using Cons.IH[of 0] by simp
    with True Cons.prems ins show ?thesis by (simp add: min_def)
  next
    case False
    with Cons.prems show ?thesis
      using Cons.IH[of "start_of c"] Cons.IH[of m] ins by (simp add: min_def)
  qed
qed

lemma cursorSyncedThrough_sorted:
  assumes "sorted_wrt (\<lambda>a b. number a < number b) (unconfirmedBlocks s)"
  shows "sorted_wrt (\<lambda>a b. number a < number b) (unconfirmedBlocks (cursorSyncedThrough s n))"
  using assms by (simp add: cursorSyncedThrough_def sorted_wrt_filter)

lemma cursorSyncedThrough_fields [simp]:
  "lastToBlock (cursorSyncedThrough s n) = n"
  "latestBlock (cursorSyncedThrough s n) = latestBlock s"
  "context_id (cursorSyncedThrough s n) = context_id s"
  "lastFromBlock (cursorSyncedThrough s n) = lastFromBlock s"
  by (simp_all add: cursorSyncedThrough_def)

end
