(* ===== verification/Stream_Delta.thy ===== *)
theory Stream_Delta
  imports Resume
begin

section \<open>Deriving the emission stream of a fetched range\<close>

text \<open>
  The reorg engine of \<open>packages/core/src/internal/engine/utils.ts\<close>: grouping
  (\<open>groupLogsPerBlock\<close> for a fetch, \<open>groupStreamPerBlock\<close> for a generated stream) and
  \<open>generateStreamToAppend\<close>, which compares the cursor's unconfirmed window with a re-fetched
  range, emits the retractions it concludes and every block the window does not hold.
  The second half states what that means: the ledger of applied blocks, as the consumer of
  the stream keeps it, converges to the fetched range.
\<close>

subsection \<open>Grouping\<close>

fun add_to_group :: "'a log_event \<Rightarrow> 'a event_block list \<Rightarrow> 'a event_block list" where
  "add_to_group e [] = [\<lparr>number = blockNumber e, hash = blockHash e, events = [e]\<rparr>]"
| "add_to_group e (g # gs) =
     (if hash g = blockHash e then g\<lparr>events := events g @ [e]\<rparr> # gs
      else g # add_to_group e gs)"

definition groupLogsPerBlock :: "'a log_event list \<Rightarrow> 'a event_block list" where
  "groupLogsPerBlock logEvents =
     foldl (\<lambda>groups e. if removed e then groups else add_to_group e groups) [] logEvents"

definition open_group :: "'a log_event \<Rightarrow> 'a stream_group" where
  "open_group e =
     \<lparr>number = blockNumber e, hash = blockHash e, events = [e], group_removed = removed e\<rparr>"

fun runs_from :: "'a stream_group \<Rightarrow> 'a log_event list \<Rightarrow> 'a stream_group list" where
  "runs_from current [] = [current]"
| "runs_from current (e # es) =
     (if hash current \<noteq> blockHash e \<or> group_removed current \<noteq> removed e
      then current # runs_from (open_group e) es
      else runs_from (current\<lparr>events := events current @ [e]\<rparr>) es)"

fun groupStreamPerBlock :: "'a log_event list \<Rightarrow> 'a stream_group list" where
  "groupStreamPerBlock [] = []"
| "groupStreamPerBlock (e # es) = runs_from (open_group e) es"

subsection \<open>The reorg walk and the stream to append\<close>

definition windowKeyOf :: "int \<Rightarrow> string \<Rightarrow> int \<times> string" where
  "windowKeyOf n h = (n, h)"

definition newBlockHashPerNumber :: "'a event_block list \<Rightarrow> (int \<rightharpoonup> string)" where
  "newBlockHashPerNumber groups = foldl (\<lambda>m b. m(number b \<mapsto> hash b)) Map.empty groups"

text \<open>
  The walk over the window, with \<open>i\<close> the index it has reached: the reorged block with the
  cause, if any, and the final value of \<open>reorgedBlockIndex\<close>.
\<close>

fun find_reorg :: "(int \<rightharpoonup> string) \<Rightarrow> int \<Rightarrow> int \<Rightarrow> nat \<Rightarrow> 'a event_block list
    \<Rightarrow> ('a event_block \<times> reorg_cause) option \<times> nat" where
  "find_reorg hashes from to i [] = (None, i)"
| "find_reorg hashes from to i (b # bs) =
     (if number b < from \<or> number b > to then find_reorg hashes from to (Suc i) bs
      else if hashes (number b) \<noteq> Some (hash b)
      then (Some (b, if hashes (number b) = None then Absence else Contradiction), i)
      else find_reorg hashes from to (Suc i) bs)"

definition retractions_of :: "'a event_block list \<Rightarrow> 'a log_event list" where
  "retractions_of blocks = concat (map (\<lambda>b. map (\<lambda>e. e\<lparr>removed := True\<rparr>) (events b)) blocks)"

definition new_blocks :: "'a event_block list \<Rightarrow> 'a event_block list \<Rightarrow> 'a event_block list" where
  "new_blocks retained groups =
     filter (\<lambda>b. events b \<noteq> [] \<and>
                 windowKeyOf (number b) (hash b) \<notin>
                   set (map (\<lambda>r. windowKeyOf (number r) (hash r)) retained)) groups"

record range_args =
  newLatestBlock :: int
  newLastFromBlock :: int
  newLastToBlock :: int
  finality_depth :: int

record 'a generated =
  eventStream :: "'a log_event list"
  newLastSync :: "'a last_sync"
  reorg :: "reorg_detection option"

definition generateStreamToAppend ::
    "'a last_sync \<Rightarrow> int \<Rightarrow> 'a log_event list \<Rightarrow> range_args \<Rightarrow> (engine_error, 'a generated) result"
where
  "generateStreamToAppend lastSync defaultFromBlock newEvents args =
     (let expectedFromBlock = getFromBlock lastSync defaultFromBlock (finality_depth args);
          from = newLastFromBlock args; to = newLastToBlock args in
      if from \<noteq> expectedFromBlock then Inl (UnexpectedFromBlock expectedFromBlock from)
      else
        (let groups = groupLogsPerBlock newEvents;
             window = unconfirmedBlocks lastSync;
             walk = find_reorg (newBlockHashPerNumber groups) from to 0 window;
             retracted = (if fst walk = None then [] else drop (snd walk) window);
             retained = take (snd walk) window;
             fresh = new_blocks retained groups;
             kept = filter (\<lambda>b. to - number b \<le> finality_depth args) retained;
             entering = filter (\<lambda>b. newLatestBlock args - number b \<le> finality_depth args) fresh
         in Inr
           \<lparr>eventStream = retractions_of retracted @ concat (map events fresh),
            newLastSync =
              \<lparr>context_id = context_id lastSync, latestBlock = newLatestBlock args,
               lastFromBlock = from, lastToBlock = to,
               unconfirmedBlocks = sort_key number (kept @ entering)\<rparr>,
            reorg = map_option
              (\<lambda>(b, cause). \<lparr>rd_cause = cause, rd_blockNumber = number b, rd_blockHash = hash b\<rparr>)
              (fst walk)\<rparr>))"


subsection \<open>Grouping: facts\<close>

definition block_wf :: "('a, 'z) event_block_scheme \<Rightarrow> bool" where
  "block_wf b \<longleftrightarrow> events b \<noteq> [] \<and> (\<forall>e \<in> set (events b). event_key e = key_of b \<and> \<not> removed e)"

text \<open>A fetched range as a node answers it: inside its bounds, one block per height.\<close>

definition fetch_wf :: "int \<Rightarrow> int \<Rightarrow> 'a log_event list \<Rightarrow> bool" where
  "fetch_wf from to es \<longleftrightarrow>
     (\<forall>e \<in> set es. from \<le> blockNumber e \<and> blockNumber e \<le> to) \<and>
     (\<forall>e \<in> set es. \<forall>e' \<in> set es. blockNumber e = blockNumber e' \<longleftrightarrow> blockHash e = blockHash e')"

definition hash_names_height :: "'a log_event list \<Rightarrow> bool" where
  "hash_names_height es \<longleftrightarrow>
     (\<forall>e \<in> set es. \<forall>e' \<in> set es. blockHash e = blockHash e' \<longrightarrow> blockNumber e = blockNumber e')"

definition live_keys :: "'a log_event list \<Rightarrow> (int \<times> string) set" where
  "live_keys es = event_key ` {e \<in> set es. \<not> removed e}"

lemma live_keys_code: "live_keys es = event_key ` set (filter (\<lambda>e. \<not> removed e) es)"
  by (simp add: live_keys_def)

abbreviation group_fold :: "'a event_block list \<Rightarrow> 'a log_event list \<Rightarrow> 'a event_block list" where
  "group_fold \<equiv> foldl (\<lambda>groups e. if removed e then groups else add_to_group e groups)"

lemma add_to_group_hashes:
  "hash ` set (add_to_group e gs) = insert (blockHash e) (hash ` set gs)"
  by (induction gs) auto

lemma add_to_group_distinct:
  "distinct (map hash gs) \<Longrightarrow> distinct (map hash (add_to_group e gs))"
proof (induction gs)
  case Nil
  then show ?case by simp
next
  case (Cons g gs)
  then show ?case by (cases "hash g = blockHash e") (auto simp add: add_to_group_hashes)
qed

lemma add_to_group_keys:
  assumes "\<forall>g \<in> set gs. hash g = blockHash e \<longrightarrow> number g = blockNumber e"
  shows "key_of ` set (add_to_group e gs) = insert (event_key e) (key_of ` set gs)"
  using assms
proof (induction gs)
  case Nil
  then show ?case by simp
next
  case (Cons g gs)
  then show ?case by (cases "hash g = blockHash e") (simp_all add: insert_commute)
qed

lemma block_wf_push:
  assumes "block_wf g" and "event_key e = key_of g" and "\<not> removed e"
  shows "block_wf (g\<lparr>events := events g @ [e]\<rparr>)"
  using assms unfolding block_wf_def by auto

lemma add_to_group_wf:
  assumes "\<forall>g \<in> set gs. block_wf g" and "\<not> removed e"
    and "\<forall>g \<in> set gs. hash g = blockHash e \<longrightarrow> number g = blockNumber e"
  shows "\<forall>g \<in> set (add_to_group e gs). block_wf g"
  using assms
proof (induction gs)
  case Nil
  then show ?case by (simp add: block_wf_def)
next
  case (Cons g gs)
  show ?case
  proof (cases "hash g = blockHash e")
    case True
    then have "block_wf (g\<lparr>events := events g @ [e]\<rparr>)"
      using Cons.prems by (intro block_wf_push) simp_all
    with True Cons.prems(1) show ?thesis by simp
  next
    case False
    with Cons show ?thesis by simp
  qed
qed

lemma group_fold_distinct:
  "distinct (map hash gs) \<Longrightarrow> distinct (map hash (group_fold gs es))"
  by (induction es arbitrary: gs) (auto simp: add_to_group_distinct)

lemma group_fold_wf_keys:
  assumes "\<forall>g \<in> set gs. block_wf g"
    and "\<forall>g \<in> set gs. \<forall>e \<in> set es. hash g = blockHash e \<longrightarrow> number g = blockNumber e"
    and "hash_names_height es"
  shows "(\<forall>g \<in> set (group_fold gs es). block_wf g) \<and>
         key_of ` set (group_fold gs es) = key_of ` set gs \<union> live_keys es"
  using assms
proof (induction es arbitrary: gs)
  case Nil
  from Nil.prems(1) show ?case by (simp add: live_keys_def)
next
  case (Cons e es)
  show ?case
  proof (cases "removed e")
    case True
    have "live_keys (e # es) = live_keys es" using True by (auto simp: live_keys_def)
    moreover have "hash_names_height es"
      using Cons.prems(3) unfolding hash_names_height_def by (meson list.set_intros(2))
    ultimately show ?thesis using True Cons.IH[of gs] Cons.prems(1,2) by simp
  next
    case False
    let ?gs = "add_to_group e gs"
    have tl: "hash_names_height es"
      using Cons.prems(3) unfolding hash_names_height_def by (meson list.set_intros(2))
    have keys: "key_of ` set ?gs = insert (event_key e) (key_of ` set gs)"
      by (rule add_to_group_keys) (use Cons.prems in auto)
    have wf: "\<forall>g \<in> set ?gs. block_wf g"
      by (rule add_to_group_wf) (use Cons.prems False in auto)
    have "number g = blockNumber x" if "g \<in> set ?gs" "x \<in> set es" "hash g = blockHash x" for g x
    proof -
      from that(1) have "key_of g \<in> insert (event_key e) (key_of ` set gs)"
        using keys by blast
      then consider "key_of g = event_key e" | g' where "g' \<in> set gs" "key_of g = key_of g'"
        by blast
      then show ?thesis
      proof cases
        case 1
        then show ?thesis using Cons.prems(3) that(2,3) unfolding hash_names_height_def
          by (metis list.set_intros prod.inject)
      next
        case 2
        then show ?thesis using Cons.prems(2) that(2,3) by (metis list.set_intros(2) prod.inject)
      qed
    qed
    then have "(\<forall>g \<in> set (group_fold ?gs es). block_wf g) \<and>
        key_of ` set (group_fold ?gs es) = key_of ` set ?gs \<union> live_keys es"
      using Cons.IH[of ?gs] wf tl by simp
    moreover have "live_keys (e # es) = insert (event_key e) (live_keys es)"
      using False unfolding live_keys_def by auto
    ultimately show ?thesis using False keys by simp
  qed
qed

lemma groups_distinct_hash: "distinct (map hash (groupLogsPerBlock es))"
  by (simp add: groupLogsPerBlock_def group_fold_distinct)

lemma groups_wf:
  assumes "fetch_wf from to es"
  shows "\<forall>g \<in> set (groupLogsPerBlock es). block_wf g"
    and "key_of ` set (groupLogsPerBlock es) = live_keys es"
proof -
  have "hash_names_height es"
    using assms unfolding fetch_wf_def hash_names_height_def by blast
  from group_fold_wf_keys[of "[]" es, OF _ _ this]
  show "\<forall>g \<in> set (groupLogsPerBlock es). block_wf g"
    and "key_of ` set (groupLogsPerBlock es) = live_keys es"
    unfolding groupLogsPerBlock_def by simp_all
qed

lemma live_keys_range:
  assumes "fetch_wf from to es" and "k \<in> live_keys es"
  shows "from \<le> fst k \<and> fst k \<le> to"
  using assms unfolding live_keys_def fetch_wf_def by force

lemma live_keys_functional:
  assumes "fetch_wf from to es" and "(n, h) \<in> live_keys es" and "(n, h') \<in> live_keys es"
  shows "h = h'"
proof -
  from assms(2) obtain e where e: "e \<in> set es" "blockNumber e = n" "blockHash e = h"
    by (auto simp: live_keys_def)
  from assms(3) obtain e' where e': "e' \<in> set es" "blockNumber e' = n" "blockHash e' = h'"
    by (auto simp: live_keys_def)
  from assms(1) e(1) e'(1) have "blockNumber e = blockNumber e' \<longleftrightarrow> blockHash e = blockHash e'"
    unfolding fetch_wf_def by blast
  with e e' show ?thesis by simp
qed

lemma groups_distinct_number:
  assumes "fetch_wf from to es"
  shows "distinct (map number (groupLogsPerBlock es))"
proof -
  have "number g = number g' \<Longrightarrow> hash g = hash g'"
    if "g \<in> set (groupLogsPerBlock es)" "g' \<in> set (groupLogsPerBlock es)" for g g'
  proof -
    assume eq: "number g = number g'"
    from that have "key_of g \<in> live_keys es" "key_of g' \<in> live_keys es"
      using groups_wf(2)[OF assms] by blast+
    with eq show ?thesis using live_keys_functional[OF assms] by metis
  qed
  moreover have "distinct (groupLogsPerBlock es)" "inj_on hash (set (groupLogsPerBlock es))"
    using groups_distinct_hash[of es] unfolding distinct_map by simp_all
  ultimately show ?thesis
    unfolding distinct_map inj_on_def by blast
qed

lemma newBlockHashPerNumber_iff:
  assumes "fetch_wf from to es"
  shows "newBlockHashPerNumber (groupLogsPerBlock es) n = Some h \<longleftrightarrow> (n, h) \<in> live_keys es"
proof -
  let ?gs = "groupLogsPerBlock es"
  have "distinct (map fst (rev (map key_of ?gs)))"
    using groups_distinct_number[OF assms] by (simp add: rev_map[symmetric] comp_def)
  then have "map_of (rev (map key_of ?gs)) n = Some h \<longleftrightarrow> (n, h) \<in> key_of ` set ?gs"
    by (simp add: map_of_eq_Some_iff)
  then show ?thesis
    unfolding newBlockHashPerNumber_def foldl_upd_dom groups_wf(2)[OF assms]
    by (auto split: option.splits)
qed


subsection \<open>The reorg walk in closed form\<close>

definition settled :: "(int \<rightharpoonup> string) \<Rightarrow> int \<Rightarrow> int \<Rightarrow> ('a, 'z) event_block_scheme \<Rightarrow> bool" where
  "settled hashes from to b \<longleftrightarrow>
     number b < from \<or> number b > to \<or> hashes (number b) = Some (hash b)"

lemma find_reorg_snd:
  "snd (find_reorg hashes from to i bs) = i + length (takeWhile (settled hashes from to) bs)"
  by (induction bs arbitrary: i) (auto simp: settled_def)

lemma find_reorg_fst:
  "fst (find_reorg hashes from to i bs) =
     (case dropWhile (settled hashes from to) bs of
        [] \<Rightarrow> None
      | b # _ \<Rightarrow> Some (b, if hashes (number b) = None then Absence else Contradiction))"
  by (induction bs arbitrary: i) (auto simp: settled_def)

lemma take_length_takeWhile [simp]: "take (length (takeWhile P xs)) xs = takeWhile P xs"
  by (induction xs) auto

lemma drop_length_takeWhile [simp]: "drop (length (takeWhile P xs)) xs = dropWhile P xs"
  by (induction xs) auto

text \<open>The fetched range settles a prefix of the window; the rest is taken back.\<close>

definition survivors :: "'a last_sync \<Rightarrow> 'a log_event list \<Rightarrow> range_args \<Rightarrow> 'a event_block list" where
  "survivors s es args =
     takeWhile (settled (newBlockHashPerNumber (groupLogsPerBlock es))
                        (newLastFromBlock args) (newLastToBlock args)) (unconfirmedBlocks s)"

definition reverted :: "'a last_sync \<Rightarrow> 'a log_event list \<Rightarrow> range_args \<Rightarrow> 'a event_block list" where
  "reverted s es args =
     dropWhile (settled (newBlockHashPerNumber (groupLogsPerBlock es))
                        (newLastFromBlock args) (newLastToBlock args)) (unconfirmedBlocks s)"

definition admitted :: "'a last_sync \<Rightarrow> 'a log_event list \<Rightarrow> range_args \<Rightarrow> 'a event_block list" where
  "admitted s es args = new_blocks (survivors s es args) (groupLogsPerBlock es)"

lemma survivors_reverted: "unconfirmedBlocks s = survivors s es args @ reverted s es args"
  by (simp add: survivors_def reverted_def)

lemma retractions_of_Nil [simp]: "retractions_of [] = []"
  by (simp add: retractions_of_def)

lemma generate_closed:
  "generateStreamToAppend s d es args =
     (if newLastFromBlock args \<noteq> getFromBlock s d (finality_depth args)
      then Inl (UnexpectedFromBlock (getFromBlock s d (finality_depth args)) (newLastFromBlock args))
      else Inr
        \<lparr>eventStream =
           retractions_of (reverted s es args) @ concat (map events (admitted s es args)),
         newLastSync =
           \<lparr>context_id = context_id s, latestBlock = newLatestBlock args,
            lastFromBlock = newLastFromBlock args, lastToBlock = newLastToBlock args,
            unconfirmedBlocks = sort_key number
              (filter (\<lambda>b. newLastToBlock args - number b \<le> finality_depth args) (survivors s es args) @
               filter (\<lambda>b. newLatestBlock args - number b \<le> finality_depth args) (admitted s es args))\<rparr>,
         reorg = (case reverted s es args of
             [] \<Rightarrow> None
           | b # _ \<Rightarrow> Some
               \<lparr>rd_cause = (if newBlockHashPerNumber (groupLogsPerBlock es) (number b) = None
                            then Absence else Contradiction),
                rd_blockNumber = number b, rd_blockHash = hash b\<rparr>)\<rparr>)"
  unfolding generateStreamToAppend_def Let_def find_reorg_snd find_reorg_fst
    survivors_def reverted_def admitted_def
  by (simp split: list.split del: dropWhile_eq_Nil_conv)

lemma generate_accepts:
  assumes "generateStreamToAppend s d es args = Inr g"
  shows "newLastFromBlock args = getFromBlock s d (finality_depth args)"
    and "eventStream g =
           retractions_of (reverted s es args) @ concat (map events (admitted s es args))"
    and "unconfirmedBlocks (newLastSync g) =
           sort_key number
             (filter (\<lambda>b. newLastToBlock args - number b \<le> finality_depth args) (survivors s es args) @
              filter (\<lambda>b. newLatestBlock args - number b \<le> finality_depth args) (admitted s es args))"
    and "lastToBlock (newLastSync g) = newLastToBlock args"
    and "lastFromBlock (newLastSync g) = newLastFromBlock args"
    and "latestBlock (newLastSync g) = newLatestBlock args"
    and "context_id (newLastSync g) = context_id s"
    and "reorg g = None \<longleftrightarrow> reverted s es args = []"
  using assms by (auto simp: generate_closed split: if_splits list.splits)

subsection \<open>The ledger of applied blocks\<close>

text \<open>
  What the consumer of an emission stream holds: a \<open>removed\<close> event takes its block back, any
  other event applies its block.
\<close>

type_synonym ledger = "(int \<times> string) set"

definition ledger_step :: "ledger \<Rightarrow> 'a log_event \<Rightarrow> ledger" where
  "ledger_step L e = (if removed e then L - {event_key e} else insert (event_key e) L)"

definition ledger_after :: "ledger \<Rightarrow> 'a log_event list \<Rightarrow> ledger" where
  "ledger_after L es = foldl ledger_step L es"

lemma ledger_after_append: "ledger_after L (xs @ ys) = ledger_after (ledger_after L xs) ys"
  by (simp add: ledger_after_def)

lemma ledger_after_applied:
  assumes "\<forall>e \<in> set es. \<not> removed e"
  shows "ledger_after L es = L \<union> event_key ` set es"
  using assms by (induction es arbitrary: L) (auto simp: ledger_after_def ledger_step_def)

lemma ledger_after_removed:
  assumes "\<forall>e \<in> set es. removed e"
  shows "ledger_after L es = L - event_key ` set es"
  using assms by (induction es arbitrary: L) (auto simp: ledger_after_def ledger_step_def)

lemma block_events_keys:
  assumes "block_wf b"
  shows "event_key ` set (events b) = {key_of b}"
  using assms unfolding block_wf_def by (cases "events b") auto

lemma blocks_events_keys:
  assumes "\<forall>b \<in> set bs. block_wf b"
  shows "event_key ` set (concat (map events bs)) = key_of ` set bs"
  using assms by (induction bs) (auto simp: image_Un block_events_keys)

lemma ledger_after_blocks:
  assumes "\<forall>b \<in> set bs. block_wf b"
  shows "ledger_after L (concat (map events bs)) = L \<union> key_of ` set bs"
proof -
  have "\<forall>e \<in> set (concat (map events bs)). \<not> removed e"
    using assms unfolding block_wf_def by auto
  then show ?thesis by (simp only: ledger_after_applied blocks_events_keys[OF assms])
qed

lemma retractions_keys:
  "event_key ` set (retractions_of bs) = event_key ` set (concat (map events bs))"
proof -
  have "retractions_of bs = map (\<lambda>e. e\<lparr>removed := True\<rparr>) (concat (map events bs))"
    by (simp add: retractions_of_def map_concat comp_def)
  then show ?thesis by (simp add: image_image)
qed

lemma ledger_after_retractions:
  assumes "\<forall>b \<in> set bs. block_wf b"
  shows "ledger_after L (retractions_of bs) = L - key_of ` set bs"
proof -
  have "\<forall>e \<in> set (retractions_of bs). removed e"
    by (auto simp: retractions_of_def)
  then show ?thesis
    by (simp only: ledger_after_removed retractions_keys blocks_events_keys[OF assms])
qed


subsection \<open>The invariant of a cursor, and convergence to the fetched range\<close>

abbreviation ascending :: "'a event_block list \<Rightarrow> bool" where
  "ascending bs \<equiv> sorted_wrt (\<lambda>a b. number a < number b) bs"

text \<open>
  A cursor describes a ledger when its window is strictly ascending and well formed, holds
  only applied blocks, and holds every applied block the next fetch can re-read.
\<close>

definition cursor_inv :: "int \<Rightarrow> int \<Rightarrow> ledger \<Rightarrow> 'a last_sync \<Rightarrow> bool" where
  "cursor_inv d f L s \<longleftrightarrow>
     ascending (unconfirmedBlocks s) \<and>
     (\<forall>b \<in> set (unconfirmedBlocks s). block_wf b) \<and>
     key_of ` set (unconfirmedBlocks s) \<subseteq> L \<and>
     (\<forall>k \<in> L. getFromBlock s d f \<le> fst k \<longrightarrow> k \<in> key_of ` set (unconfirmedBlocks s)) \<and>
     0 \<le> latestBlock s"

definition single_branch :: "ledger \<Rightarrow> bool" where
  "single_branch L \<longleftrightarrow> (\<forall>n h h'. (n, h) \<in> L \<longrightarrow> (n, h') \<in> L \<longrightarrow> h = h')"

lemma ascending_keys_disjoint:
  assumes "ascending (xs @ ys)"
  shows "key_of ` set xs \<inter> key_of ` set ys = {}"
  using assms unfolding sorted_wrt_append by fastforce

lemma reverted_ge_from:
  assumes "ascending (unconfirmedBlocks s)" and "b \<in> set (reverted s es args)"
  shows "newLastFromBlock args \<le> number b"
proof -
  let ?r = "reverted s es args"
  have asc: "ascending ?r"
    using assms(1) survivors_reverted[of s es args] by (simp add: sorted_wrt_append)
  obtain c cs where r: "?r = c # cs" using assms(2) by (cases ?r) auto
  then have "\<not> settled (newBlockHashPerNumber (groupLogsPerBlock es))
      (newLastFromBlock args) (newLastToBlock args) c"
    unfolding reverted_def by (simp add: dropWhile_eq_Cons_conv)
  then have "newLastFromBlock args \<le> number c" by (simp add: settled_def)
  with asc r assms(2) show ?thesis by auto
qed

lemma survivors_matched:
  assumes "fetch_wf (newLastFromBlock args) (newLastToBlock args) es"
    and "b \<in> set (survivors s es args)"
    and "newLastFromBlock args \<le> number b" and "number b \<le> newLastToBlock args"
  shows "key_of b \<in> live_keys es"
proof -
  from assms(2) have "settled (newBlockHashPerNumber (groupLogsPerBlock es))
      (newLastFromBlock args) (newLastToBlock args) b"
    unfolding survivors_def by (rule set_takeWhileD[THEN conjunct2])
  with assms(3,4) show ?thesis
    using newBlockHashPerNumber_iff[OF assms(1)] by (simp add: settled_def)
qed

lemma admitted_keys:
  assumes "fetch_wf (newLastFromBlock args) (newLastToBlock args) es"
  shows "key_of ` set (admitted s es args) = live_keys es - key_of ` set (survivors s es args)"
proof -
  have "events g \<noteq> []" if "g \<in> set (groupLogsPerBlock es)" for g
    using groups_wf(1)[OF assms] that by (simp add: block_wf_def)
  then have "set (admitted s es args) =
      {g \<in> set (groupLogsPerBlock es). key_of g \<notin> key_of ` set (survivors s es args)}"
    unfolding admitted_def new_blocks_def windowKeyOf_def by auto
  then show ?thesis by (simp only: image_filter_notin groups_wf(2)[OF assms])
qed

lemma admitted_wf:
  assumes "fetch_wf from to es"
  shows "\<forall>b \<in> set (admitted s es args). block_wf b"
  using groups_wf(1)[OF assms] unfolding admitted_def new_blocks_def by auto

text \<open>The ledger after an accepted range, in closed form.\<close>

lemma ledger_after_generate:
  assumes "generateStreamToAppend s d es args = Inr g"
    and "\<forall>b \<in> set (unconfirmedBlocks s). block_wf b"
    and "fetch_wf (newLastFromBlock args) (newLastToBlock args) es"
  shows "ledger_after L (eventStream g) =
    (L - key_of ` set (reverted s es args)) \<union> (live_keys es - key_of ` set (survivors s es args))"
proof -
  have "\<forall>b \<in> set (reverted s es args). block_wf b"
    using assms(2) unfolding survivors_reverted[of s es args] by simp
  from ledger_after_retractions[OF this] show ?thesis
    unfolding generate_accepts(2)[OF assms(1)] ledger_after_append
    by (simp only: ledger_after_blocks[OF admitted_wf[OF assms(3)]] admitted_keys[OF assms(3)])
qed


text \<open>The three parts of the range: below it, inside it and above it.\<close>

lemma converges_inside:
  assumes gen: "generateStreamToAppend s d es args = Inr g"
    and inv: "cursor_inv d (finality_depth args) L s"
    and wf: "fetch_wf (newLastFromBlock args) (newLastToBlock args) es"
    and inside: "newLastFromBlock args \<le> fst k" "fst k \<le> newLastToBlock args"
  shows "k \<in> ledger_after L (eventStream g) \<longleftrightarrow> k \<in> live_keys es"
proof -
  let ?S = "key_of ` set (survivors s es args)" and ?R = "key_of ` set (reverted s es args)"
  have split: "key_of ` set (unconfirmedBlocks s) = ?S \<union> ?R"
    unfolding survivors_reverted[of s es args] by (simp add: image_Un)
  have disj: "?S \<inter> ?R = {}"
    using inv unfolding cursor_inv_def survivors_reverted[of s es args]
    by (intro ascending_keys_disjoint) simp
  have held: "k \<in> L \<Longrightarrow> k \<in> ?S \<union> ?R"
    using inv inside generate_accepts(1)[OF gen] split unfolding cursor_inv_def by simp
  have sub: "?S \<subseteq> L"
    using inv split unfolding cursor_inv_def by simp
  have match: "k \<in> ?S \<Longrightarrow> k \<in> live_keys es"
    using survivors_matched[OF wf] inside by auto
  have led: "ledger_after L (eventStream g) = (L - ?R) \<union> (live_keys es - ?S)"
    by (rule ledger_after_generate[OF gen _ wf]) (use inv in \<open>simp add: cursor_inv_def\<close>)
  show ?thesis unfolding led using disj held sub match by blast
qed

lemma converges_outside:
  assumes gen: "generateStreamToAppend s d es args = Inr g"
    and inv: "cursor_inv d (finality_depth args) L s"
    and wf: "fetch_wf (newLastFromBlock args) (newLastToBlock args) es"
  shows "fst k < newLastFromBlock args \<Longrightarrow> k \<in> ledger_after L (eventStream g) \<longleftrightarrow> k \<in> L"
    and "newLastToBlock args < fst k \<Longrightarrow> k \<in> ledger_after L (eventStream g) \<Longrightarrow> k \<in> L"
proof -
  let ?S = "key_of ` set (survivors s es args)" and ?R = "key_of ` set (reverted s es args)"
  have led: "ledger_after L (eventStream g) = (L - ?R) \<union> (live_keys es - ?S)"
    by (rule ledger_after_generate[OF gen _ wf]) (use inv in \<open>simp add: cursor_inv_def\<close>)
  show "k \<in> ledger_after L (eventStream g) \<longleftrightarrow> k \<in> L" if "fst k < newLastFromBlock args"
  proof -
    have "k \<notin> live_keys es" using live_keys_range[OF wf, of k] that by auto
    moreover have "k \<notin> ?R"
    proof
      assume "k \<in> ?R"
      then obtain b where "b \<in> set (reverted s es args)" "k = key_of b" by blast
      with reverted_ge_from[of s b es args] inv that show False
        unfolding cursor_inv_def by simp
    qed
    ultimately show ?thesis unfolding led by blast
  qed
  show "k \<in> L" if "newLastToBlock args < fst k" "k \<in> ledger_after L (eventStream g)"
  proof -
    have "k \<notin> live_keys es" using live_keys_range[OF wf, of k] that(1) by auto
    then show ?thesis using that(2) unfolding led by blast
  qed
qed

text \<open>No accepted range applies a held block twice or takes back a block that is not held.\<close>

lemma generate_no_double:
  assumes gen: "generateStreamToAppend s d es args = Inr g"
    and inv: "cursor_inv d (finality_depth args) L s"
    and wf: "fetch_wf (newLastFromBlock args) (newLastToBlock args) es"
  shows "event_key ` {e \<in> set (eventStream g). removed e} \<subseteq> L"
    and "event_key ` {e \<in> set (eventStream g). \<not> removed e} \<inter>
           (L - event_key ` {e \<in> set (eventStream g). removed e}) = {}"
proof -
  let ?S = "key_of ` set (survivors s es args)" and ?R = "key_of ` set (reverted s es args)"
  let ?ret = "set (retractions_of (reverted s es args))"
  let ?app = "set (concat (map events (admitted s es args)))"
  have split: "key_of ` set (unconfirmedBlocks s) = ?S \<union> ?R"
    unfolding survivors_reverted[of s es args] by (simp add: image_Un)
  have wfr: "\<forall>b \<in> set (reverted s es args). block_wf b"
    using inv unfolding cursor_inv_def survivors_reverted[of s es args] by simp
  have str: "set (eventStream g) = ?ret \<union> ?app"
    unfolding generate_accepts(2)[OF gen] by simp
  have r: "\<forall>e \<in> ?ret. removed e" by (auto simp: retractions_of_def)
  have a: "\<forall>e \<in> ?app. \<not> removed e"
    using admitted_wf[OF wf, of s args] unfolding block_wf_def by auto
  have "{e \<in> set (eventStream g). removed e} = ?ret" using str r a by blast
  then have ret: "event_key ` {e \<in> set (eventStream g). removed e} = ?R"
    by (simp only: retractions_keys blocks_events_keys[OF wfr])
  have "{e \<in> set (eventStream g). \<not> removed e} = ?app" using str r a by blast
  then have app: "event_key ` {e \<in> set (eventStream g). \<not> removed e} = live_keys es - ?S"
    by (simp only: blocks_events_keys[OF admitted_wf[OF wf]] admitted_keys[OF wf])
  show "event_key ` {e \<in> set (eventStream g). removed e} \<subseteq> L"
    unfolding ret using inv split unfolding cursor_inv_def by blast
  have "k \<notin> L - ?R" if k: "k \<in> live_keys es - ?S" for k
  proof
    assume "k \<in> L - ?R"
    then have "k \<in> ?S"
      using inv split live_keys_range[OF wf, of k] k generate_accepts(1)[OF gen]
      unfolding cursor_inv_def by auto
    with k show False by blast
  qed
  then show "event_key ` {e \<in> set (eventStream g). \<not> removed e} \<inter>
      (L - event_key ` {e \<in> set (eventStream g). removed e}) = {}"
    unfolding ret app by blast
qed


subsection \<open>The invariant is kept by every accepted range\<close>

lemma window_keys_after:
  assumes "generateStreamToAppend s d es args = Inr g"
    and "fetch_wf (newLastFromBlock args) (newLastToBlock args) es"
  shows "key_of ` set (unconfirmedBlocks (newLastSync g)) =
    {k \<in> key_of ` set (survivors s es args). newLastToBlock args - fst k \<le> finality_depth args} \<union>
    {k \<in> live_keys es - key_of ` set (survivors s es args).
       newLatestBlock args - fst k \<le> finality_depth args}"
proof -
  have filt: "key_of ` {b \<in> X. c - number b \<le> f} = {k \<in> key_of ` X. c - fst k \<le> f}"
    for X :: "'a event_block set" and c f
    by auto
  show ?thesis
    unfolding generate_accepts(3)[OF assms(1)]
    by (simp only: set_sort set_append set_filter image_Un filt admitted_keys[OF assms(2)])
qed

lemma window_after_wf:
  assumes gen: "generateStreamToAppend s d es args = Inr g"
    and asc: "ascending (unconfirmedBlocks s)"
    and wfw: "\<forall>b \<in> set (unconfirmedBlocks s). block_wf b"
    and wf: "fetch_wf (newLastFromBlock args) (newLastToBlock args) es"
  shows "ascending (unconfirmedBlocks (newLastSync g))"
    and "\<forall>b \<in> set (unconfirmedBlocks (newLastSync g)). block_wf b"
proof -
  let ?S = "survivors s es args" and ?A = "admitted s es args"
  let ?W = "unconfirmedBlocks (newLastSync g)"
  let ?kept = "filter (\<lambda>b. newLastToBlock args - number b \<le> finality_depth args) ?S"
  let ?ent = "filter (\<lambda>b. newLatestBlock args - number b \<le> finality_depth args) ?A"
  have W: "?W = sort_key number (?kept @ ?ent)" by (rule generate_accepts(3)[OF gen])
  have dS: "distinct (map number ?S)"
    using asc unfolding survivors_reverted[of s es args]
    by (intro strict_sorted_map_distinct) (simp add: sorted_wrt_append)
  have dA: "distinct (map number ?A)"
    unfolding admitted_def new_blocks_def
    by (rule distinct_map_filter) (rule groups_distinct_number[OF wf])
  have disj: "number b \<noteq> number c" if b: "b \<in> set ?S" and c: "c \<in> set ?A" for b c
  proof
    assume eq: "number b = number c"
    have c': "key_of c \<in> live_keys es" "key_of c \<notin> key_of ` set ?S"
      using c admitted_keys[OF wf, of s] by blast+
    from live_keys_range[OF wf c'(1)] eq have "key_of b \<in> live_keys es"
      by (intro survivors_matched[OF wf b]) simp_all
    then have "hash b = hash c"
      using live_keys_functional[OF wf] c'(1) eq by metis
    with eq have same: "key_of c = key_of b" by simp
    have "key_of c \<in> key_of ` set ?S" unfolding same using b by (rule imageI)
    with c'(2) show False by (rule notE)
  qed
  have "number ` set ?kept \<inter> number ` set ?ent = {}"
    by (intro image_disjointI disj) simp_all
  then have "distinct (map number (?kept @ ?ent))"
    unfolding map_append distinct_append set_map
    by (simp only: distinct_map_filter[OF dS] distinct_map_filter[OF dA])
  then have "distinct (map number ?W)"
    unfolding W by (simp only: distinct_map distinct_sort set_sort)
  then show "ascending ?W"
    unfolding W by (intro sorted_distinct_strict sorted_sort_key)
  have "\<forall>b \<in> set ?S. block_wf b"
    using wfw unfolding survivors_reverted[of s es args] by simp
  then show "\<forall>b \<in> set ?W. block_wf b"
    using admitted_wf[OF wf, of s args] unfolding W by auto
qed

text \<open>
  The resume point never moves backwards, provided the observed tip does not: this is what
  makes the pruned window a complete record of what a re-read can offer again.
\<close>

lemma resume_monotone:
  assumes "newLastFromBlock args = getFromBlock s d (finality_depth args)"
    and "generateStreamToAppend s d es args = Inr g"
    and "0 \<le> d" and "0 \<le> latestBlock s" and "latestBlock s \<le> newLatestBlock args"
    and "newLastFromBlock args \<le> newLastToBlock args"
  shows "getFromBlock s d (finality_depth args) \<le> getFromBlock (newLastSync g) d (finality_depth args)"
  using assms(1,3-6) unfolding getFromBlock_def generate_accepts(4,6)[OF assms(2)]
  by (auto split: if_splits simp: max_def min_def)

lemma cursor_inv_kept:
  assumes gen: "generateStreamToAppend s d es args = Inr g"
    and inv: "cursor_inv d (finality_depth args) L s"
    and wf: "fetch_wf (newLastFromBlock args) (newLastToBlock args) es"
    and bounds: "0 \<le> d" "0 \<le> finality_depth args" "newLastFromBlock args \<le> newLastToBlock args"
      "newLastToBlock args \<le> newLatestBlock args" "latestBlock s \<le> newLatestBlock args"
  shows "cursor_inv d (finality_depth args) (ledger_after L (eventStream g)) (newLastSync g)"
proof -
  let ?f = "finality_depth args"
  let ?S = "key_of ` set (survivors s es args)" and ?R = "key_of ` set (reverted s es args)"
  let ?W = "unconfirmedBlocks (newLastSync g)" and ?L = "ledger_after L (eventStream g)"
  have invs: "ascending (unconfirmedBlocks s)" "\<forall>b \<in> set (unconfirmedBlocks s). block_wf b"
      "key_of ` set (unconfirmedBlocks s) \<subseteq> L" "0 \<le> latestBlock s"
      "\<And>k. k \<in> L \<Longrightarrow> getFromBlock s d ?f \<le> fst k \<Longrightarrow> k \<in> key_of ` set (unconfirmedBlocks s)"
    using inv unfolding cursor_inv_def by simp_all
  have split: "key_of ` set (unconfirmedBlocks s) = ?S \<union> ?R"
    unfolding survivors_reverted[of s es args] by (simp add: image_Un)
  have disj: "?S \<inter> ?R = {}"
    using invs(1) unfolding survivors_reverted[of s es args] by (intro ascending_keys_disjoint)
  have led: "?L = (L - ?R) \<union> (live_keys es - ?S)"
    by (rule ledger_after_generate[OF gen invs(2) wf])
  have keys: "key_of ` set ?W = {k \<in> ?S. newLastToBlock args - fst k \<le> ?f} \<union>
      {k \<in> live_keys es - ?S. newLatestBlock args - fst k \<le> ?f}"
    by (rule window_keys_after[OF gen wf])
  have from_le: "newLastFromBlock args \<le> getFromBlock (newLastSync g) d ?f"
    using resume_monotone[OF generate_accepts(1)[OF gen] gen bounds(1) invs(4) bounds(5,3)]
      generate_accepts(1)[OF gen] by simp
  have "k \<in> key_of ` set ?W"
    if k: "k \<in> ?L" and ge: "getFromBlock (newLastSync g) d ?f \<le> fst k" for k
  proof -
    have near: "newLatestBlock args - fst k \<le> ?f \<or> newLastToBlock args < fst k"
      using ge bounds(1,2,4) unfolding getFromBlock_def generate_accepts(4,6)[OF gen]
      by (auto split: if_splits simp: max_def min_def)
    consider "k \<in> live_keys es - ?S" | "k \<in> L" "k \<notin> ?R" using k led by blast
    then show ?thesis
    proof cases
      case 1
      then show ?thesis using near live_keys_range[OF wf, of k] keys by auto
    next
      case 2
      have "getFromBlock s d ?f \<le> fst k"
        using ge from_le generate_accepts(1)[OF gen] by simp
      then have "k \<in> ?S" using invs(5) 2 split by blast
      then show ?thesis using near bounds(2,4) keys by auto
    qed
  qed
  moreover have "key_of ` set ?W \<subseteq> ?L"
  proof -
    have aux: "{k \<in> S. P k} \<union> {k \<in> K - S. Q k} \<subseteq> (M - R) \<union> (K - S)"
      if "S \<union> R \<subseteq> M" "S \<inter> R = {}" for S R M K :: ledger and P Q
      using that by blast
    from invs(3) have "?S \<union> ?R \<subseteq> L" unfolding split .
    then show ?thesis unfolding keys led by (rule aux[OF _ disj])
  qed
  ultimately show ?thesis
    unfolding cursor_inv_def
    using window_after_wf[OF gen invs(1,2) wf] generate_accepts(6)[OF gen] bounds(5) invs(4) by simp
qed

lemma single_branch_kept:
  assumes gen: "generateStreamToAppend s d es args = Inr g"
    and inv: "cursor_inv d (finality_depth args) L s"
    and wf: "fetch_wf (newLastFromBlock args) (newLastToBlock args) es"
    and sb: "single_branch L"
  shows "single_branch (ledger_after L (eventStream g))"
  unfolding single_branch_def
proof (intro allI impI)
  fix n h h'
  assume m: "(n, h) \<in> ledger_after L (eventStream g)" "(n, h') \<in> ledger_after L (eventStream g)"
  consider "n < newLastFromBlock args" | "newLastToBlock args < n"
    | "newLastFromBlock args \<le> n" "n \<le> newLastToBlock args" by linarith
  then show "h = h'"
  proof cases
    case 1
    then show ?thesis
      using m sb converges_outside(1)[OF gen inv wf] unfolding single_branch_def by auto
  next
    case 2
    then have "(n, h) \<in> L" "(n, h') \<in> L"
      using m converges_outside(2)[OF gen inv wf, of "(n, h)"]
        converges_outside(2)[OF gen inv wf, of "(n, h')"] by simp_all
    with sb show ?thesis unfolding single_branch_def by blast
  next
    case 3
    then show ?thesis
      using m converges_inside[OF gen inv wf, of "(n, h)"] converges_inside[OF gen inv wf, of "(n, h')"]
        live_keys_functional[OF wf] by auto
  qed
qed


subsection \<open>Runs of accepted ranges\<close>

definition fresh_last_sync :: "context_identifier \<Rightarrow> 'a last_sync" where
  "fresh_last_sync ctx =
     \<lparr>context_id = ctx, latestBlock = 0, lastFromBlock = 0, lastToBlock = 0, unconfirmedBlocks = []\<rparr>"

text \<open>
  The runs of one fold: it starts with nothing, and every step folds one answer of a node
  (\<open>fetch_wf\<close>) whose range is well formed and whose tip is not below the one seen before.
  The last argument is the answer folded last.
\<close>

inductive indexing :: "int \<Rightarrow> int \<Rightarrow> context_identifier \<Rightarrow> 'a last_sync \<Rightarrow> ledger
    \<Rightarrow> (int \<times> int \<times> 'a log_event list) option \<Rightarrow> bool" for d f ctx where
  start: "indexing d f ctx (fresh_last_sync ctx) {} None"
| fetched: "\<lbrakk>indexing d f ctx s L prev; generateStreamToAppend s d es args = Inr g;
    finality_depth args = f; fetch_wf (newLastFromBlock args) (newLastToBlock args) es;
    newLastFromBlock args \<le> newLastToBlock args; newLastToBlock args \<le> newLatestBlock args;
    latestBlock s \<le> newLatestBlock args\<rbrakk>
   \<Longrightarrow> indexing d f ctx (newLastSync g) (ledger_after L (eventStream g))
         (Some (newLastFromBlock args, newLastToBlock args, es))"

inductive_cases indexing_someE: "indexing d f ctx s L (Some answer)"

lemma cursor_inv_fresh: "cursor_inv d f {} (fresh_last_sync ctx)"
  by (simp add: cursor_inv_def fresh_last_sync_def)

lemma indexing_inv:
  assumes "indexing d f ctx s L prev" and "0 \<le> d" and "0 \<le> f"
  shows "cursor_inv d f L s \<and> single_branch L"
  using assms
proof (induction rule: indexing.induct)
  case start
  then show ?case by (simp add: cursor_inv_fresh single_branch_def)
next
  case (fetched s L prev es args g)
  then have inv: "cursor_inv d (finality_depth args) L s" and sb: "single_branch L" by simp_all
  from fetched have "cursor_inv d (finality_depth args) (ledger_after L (eventStream g)) (newLastSync g)"
    by (intro cursor_inv_kept[OF _ inv]) simp_all
  moreover from fetched have "single_branch (ledger_after L (eventStream g))"
    by (intro single_branch_kept[OF _ inv _ sb])
  ultimately show ?case using fetched.hyps(3) by simp
qed


subsection \<open>Properties\<close>

definition sample_context :: context_identifier where
  "sample_context = \<lparr>ctx_source = [], ctx_config = ''cfg'', ctx_processor = ''p''\<rparr>"

text \<open>A cursor at block 6 that holds the blocks 5 and 6 of a branch that loses.\<close>

definition sample_cursor :: "unit last_sync" where
  "sample_cursor =
     \<lparr>context_id = sample_context, latestBlock = 6, lastFromBlock = 0, lastToBlock = 6,
      unconfirmedBlocks =
        [\<lparr>number = 5, hash = ''a5'', events = [sample_log 5 ''a5'' 0]\<rparr>,
         \<lparr>number = 6, hash = ''a6'', events = [sample_log 6 ''a6'' 0]\<rparr>]\<rparr>"

definition sample_answer :: "unit log_event list" where
  "sample_answer = [sample_log 4 ''b4'' 0, sample_log 5 ''a5'' 0, sample_log 6 ''b6'' 1]"

definition sample_args :: range_args where
  "sample_args = \<lparr>newLatestBlock = 7, newLastFromBlock = 3, newLastToBlock = 7, finality_depth = 3\<rparr>"

lemmas sample_defs = sample_cursor_def sample_answer_def sample_args_def

lemma sample_fetch_wf: "fetch_wf 3 7 sample_answer"
  by (simp add: fetch_wf_def sample_answer_def)

lemma sample_cursor_inv: "cursor_inv 0 3 {(5, ''a5''), (6, ''a6'')} sample_cursor"
  by (simp add: cursor_inv_def block_wf_def getFromBlock_def sample_defs)

lemma sample_accepted: "\<exists>g. generateStreamToAppend sample_cursor 0 sample_answer sample_args = Inr g"
  by (simp add: generate_closed getFromBlock_def sample_defs)

text \<open>
  C1. After a fetched range is accepted, the ledger of applied blocks agrees with the node's
  answer inside the range (height and hash, both ways), is untouched below it, and gains
  nothing above it. So a reorg is followed exactly, also where the window is sparse and the
  replaced branch forks below its lowest block.
\<close>

theorem refetch_converges:
  assumes "generateStreamToAppend s d es args = Inr g"
    and "cursor_inv d (finality_depth args) L s"
    and "fetch_wf (newLastFromBlock args) (newLastToBlock args) es"
  shows "{k \<in> ledger_after L (eventStream g). newLastFromBlock args \<le> fst k \<and> fst k \<le> newLastToBlock args}
           = live_keys es
    \<and> {k \<in> ledger_after L (eventStream g). fst k < newLastFromBlock args}
           = {k \<in> L. fst k < newLastFromBlock args}
    \<and> {k \<in> ledger_after L (eventStream g). newLastToBlock args < fst k}
           \<subseteq> {k \<in> L. newLastToBlock args < fst k}"
  using converges_inside[OF assms] converges_outside[OF assms] live_keys_range[OF assms(3)]
  by blast

theorem refetch_converges_witness:
  "\<exists>g. generateStreamToAppend sample_cursor 0 sample_answer sample_args = Inr g \<and>
     {k \<in> ledger_after {(5, ''a5''), (6, ''a6'')} (eventStream g). 3 \<le> fst k \<and> fst k \<le> 7}
       = {(4, ''b4''), (5, ''a5''), (6, ''b6'')}"
proof -
  obtain g where g: "generateStreamToAppend sample_cursor 0 sample_answer sample_args = Inr g"
    using sample_accepted by blast
  have "live_keys sample_answer = {(4, ''b4''), (5, ''a5''), (6, ''b6'')}"
    by (simp add: live_keys_code sample_answer_def)
  moreover have "{k \<in> ledger_after {(5, ''a5''), (6, ''a6'')} (eventStream g). 3 \<le> fst k \<and> fst k \<le> 7}
      = live_keys sample_answer"
    using refetch_converges[OF g] sample_cursor_inv sample_fetch_wf by (simp add: sample_args_def)
  ultimately show ?thesis using g by simp
qed

text \<open>
  C2. In every run, whatever the node answered and however often the chain reorganised, the
  ledger never holds two blocks of one height, and inside the range folded last it is exactly
  the node's last answer.
\<close>

theorem indexing_single_branch:
  assumes "indexing d f ctx s L prev" and "0 \<le> d" and "0 \<le> f"
  shows "single_branch L \<and>
    (case prev of None \<Rightarrow> L = {}
     | Some (from, to, es) \<Rightarrow> {k \<in> L. from \<le> fst k \<and> fst k \<le> to} = live_keys es)"
  using assms
proof (cases rule: indexing.cases)
  case start
  then show ?thesis by (simp add: single_branch_def)
next
  case (fetched s0 L0 prev0 es args g)
  then have inv: "cursor_inv d (finality_depth args) L0 s0"
    using indexing_inv[OF _ assms(2,3)] by blast
  have "{k \<in> ledger_after L0 (eventStream g). newLastFromBlock args \<le> fst k \<and> fst k \<le> newLastToBlock args}
      = live_keys es"
    using converges_inside[OF fetched(5) inv fetched(7)] live_keys_range[OF fetched(7)] by blast
  then show ?thesis
    using indexing_inv[OF assms] fetched(1-3) by simp
qed


text \<open>
  A run of two ranges: the first folds block 4 and block 6 of one branch, the second finds
  block 6 replaced.
\<close>

lemma sample_run:
  "\<exists>s L. indexing 2 10 sample_context (s :: unit last_sync) L
     (Some (2, 8, [sample_log 4 ''a'' 0, sample_log 6 ''c'' 0])) \<and> (6, ''c'') \<in> L \<and> (6, ''b'') \<notin> L"
proof -
  let ?es = "[sample_log 4 ''a'' 0, sample_log 6 ''b'' 0]"
  let ?es' = "[sample_log 4 ''a'' 0, sample_log 6 ''c'' 0]"
  let ?args = "\<lparr>newLatestBlock = 7, newLastFromBlock = 2, newLastToBlock = 7, finality_depth = 10\<rparr>"
  let ?args' = "\<lparr>newLatestBlock = 8, newLastFromBlock = 2, newLastToBlock = 8, finality_depth = 10\<rparr>"
  define g :: "unit generated" where
    "g = projr (generateStreamToAppend (fresh_last_sync sample_context) 2 ?es ?args)"
  have g: "generateStreamToAppend (fresh_last_sync sample_context) 2 ?es ?args = Inr g"
    by (simp add: g_def generate_closed getFromBlock_def fresh_last_sync_def)
  have run1: "indexing 2 10 sample_context (newLastSync g) (ledger_after {} (eventStream g)) (Some (2, 7, ?es))"
    using indexing.fetched[OF indexing.start g] by (simp add: fetch_wf_def fresh_last_sync_def)
  have exp: "getFromBlock (newLastSync g) 2 10 = 2"
    using generate_accepts(4,6)[OF g] by (simp add: getFromBlock_def)
  define g' :: "unit generated" where
    "g' = projr (generateStreamToAppend (newLastSync g) 2 ?es' ?args')"
  have g': "generateStreamToAppend (newLastSync g) 2 ?es' ?args' = Inr g'"
    using exp by (simp add: g'_def generate_closed)
  have run2: "indexing 2 10 sample_context (newLastSync g')
      (ledger_after (ledger_after {} (eventStream g)) (eventStream g')) (Some (2, 8, ?es'))"
    using indexing.fetched[OF run1 g'] generate_accepts(6)[OF g] by (simp add: fetch_wf_def)
  have inv: "cursor_inv 2 10 (ledger_after {} (eventStream g)) (newLastSync g)"
    using indexing_inv[OF run1] by simp
  have "k \<in> ledger_after (ledger_after {} (eventStream g)) (eventStream g') \<longleftrightarrow> k \<in> live_keys ?es'"
    if "2 \<le> fst k" "fst k \<le> 8" for k
    using converges_inside[OF g', where L = "ledger_after {} (eventStream g)" and k = k] inv that
    by (simp add: fetch_wf_def)
  then have "(6, ''c'') \<in> ledger_after (ledger_after {} (eventStream g)) (eventStream g') \<and>
      (6, ''b'') \<notin> ledger_after (ledger_after {} (eventStream g)) (eventStream g')"
    by (simp add: live_keys_code)
  with run2 show ?thesis by blast
qed

theorem indexing_single_branch_witness:
  "\<exists>s L. single_branch L \<and>
     {k \<in> L. 2 \<le> fst k \<and> fst k \<le> 8} = live_keys [sample_log 4 ''a'' 0, sample_log 6 ''c'' 0] \<and>
     indexing 2 10 sample_context (s :: unit last_sync) L
       (Some (2, 8, [sample_log 4 ''a'' 0, sample_log 6 ''c'' 0]))"
proof -
  obtain s :: "unit last_sync" and L where
    run: "indexing 2 10 sample_context s L (Some (2, 8, [sample_log 4 ''a'' 0, sample_log 6 ''c'' 0]))"
    using sample_run by blast
  from indexing_single_branch[OF run] run show ?thesis by auto
qed

text \<open>
  C3. No step of a run delivers an event twice: what it takes back was applied and is still
  held, and what it applies is not held (a re-read block the window still holds is skipped; a
  block retracted by the same step may come back).
\<close>

theorem indexing_no_double_delivery:
  assumes "indexing d f ctx s L prev" and "0 \<le> d" and "0 \<le> f"
    and "generateStreamToAppend s d es args = Inr g" and "finality_depth args = f"
    and "fetch_wf (newLastFromBlock args) (newLastToBlock args) es"
  shows "event_key ` {e \<in> set (eventStream g). removed e} \<subseteq> L \<and>
    event_key ` {e \<in> set (eventStream g). \<not> removed e} \<inter>
      (L - event_key ` {e \<in> set (eventStream g). removed e}) = {}"
proof -
  have "cursor_inv d (finality_depth args) L s"
    using indexing_inv[OF assms(1-3)] assms(5) by simp
  from generate_no_double[OF assms(4) this assms(6)] show ?thesis by blast
qed

theorem indexing_no_double_delivery_witness:
  "\<exists>g. generateStreamToAppend (fresh_last_sync sample_context) 2 [sample_log 4 ''a'' 0]
      \<lparr>newLatestBlock = 7, newLastFromBlock = 2, newLastToBlock = 7, finality_depth = 10\<rparr> = Inr g \<and>
    event_key ` {e \<in> set (eventStream g). \<not> removed e} \<inter>
      ({} - event_key ` {e \<in> set (eventStream g). removed e}) = {}"
proof -
  let ?args = "\<lparr>newLatestBlock = 7, newLastFromBlock = 2, newLastToBlock = 7, finality_depth = 10\<rparr>"
  define g :: "unit generated" where
    "g = projr (generateStreamToAppend (fresh_last_sync sample_context) 2 [sample_log 4 ''a'' 0] ?args)"
  have g: "generateStreamToAppend (fresh_last_sync sample_context) 2 [sample_log 4 ''a'' 0] ?args = Inr g"
    by (simp add: g_def generate_closed getFromBlock_def fresh_last_sync_def)
  from indexing_no_double_delivery[OF indexing.start _ _ g] g show ?thesis
    by (simp add: fetch_wf_def)
qed


subsection \<open>Why the tip must not move backwards\<close>

text \<open>
  The bound \<open>latestBlock s \<le> newLatestBlock\<close> of a run is needed. A node that reports a lower
  tip (a lagging replica behind a load balancer) moves the resume point below the pruned
  window: block 87 was applied and pruned, the regressed tip 95 pulls the next read start
  back to 85, and the block is then delivered a second time.
\<close>

theorem tip_regression_redelivers:
  "\<exists>(s :: unit last_sync) g g'. cursor_inv 0 10 {(87, ''x'')} s \<and>
     generateStreamToAppend s 0 []
       \<lparr>newLatestBlock = 95, newLastFromBlock = 90, newLastToBlock = 95, finality_depth = 10\<rparr> = Inr g \<and>
     generateStreamToAppend (newLastSync g) 0 [sample_log 87 ''x'' 0]
       \<lparr>newLatestBlock = 101, newLastFromBlock = 85, newLastToBlock = 101, finality_depth = 10\<rparr> = Inr g' \<and>
     eventStream g' = [sample_log 87 ''x'' 0]"
proof -
  let ?s = "\<lparr>context_id = sample_context, latestBlock = 100, lastFromBlock = 90, lastToBlock = 100,
    unconfirmedBlocks = []\<rparr> :: unit last_sync"
  let ?a = "\<lparr>newLatestBlock = 95, newLastFromBlock = 90, newLastToBlock = 95, finality_depth = 10\<rparr>"
  let ?a' = "\<lparr>newLatestBlock = 101, newLastFromBlock = 85, newLastToBlock = 101, finality_depth = 10\<rparr>"
  define g :: "unit generated" where "g = projr (generateStreamToAppend ?s 0 [] ?a)"
  have g: "generateStreamToAppend ?s 0 [] ?a = Inr g"
    by (simp add: g_def generate_closed getFromBlock_def)
  have w: "unconfirmedBlocks (newLastSync g) = []"
    unfolding generate_accepts(3)[OF g]
    by (simp add: survivors_def admitted_def new_blocks_def groupLogsPerBlock_def)
  have exp: "getFromBlock (newLastSync g) 0 10 = 85"
    using generate_accepts(4,6)[OF g] by (simp add: getFromBlock_def)
  define g' :: "unit generated" where
    "g' = projr (generateStreamToAppend (newLastSync g) 0 [sample_log 87 ''x'' 0] ?a')"
  have g': "generateStreamToAppend (newLastSync g) 0 [sample_log 87 ''x'' 0] ?a' = Inr g'"
    using exp by (simp add: g'_def generate_closed)
  have "eventStream g' = [sample_log 87 ''x'' 0]"
    unfolding generate_accepts(2)[OF g']
    by (simp add: w reverted_def survivors_def admitted_def new_blocks_def groupLogsPerBlock_def)
  moreover have "cursor_inv 0 10 {(87, ''x'')} ?s"
    by (simp add: cursor_inv_def getFromBlock_def)
  ultimately show ?thesis using g g' by blast
qed

end
