(* ===== verification/Stream_Replay.thy ===== *)
theory Stream_Replay
  imports Stream_Delta
begin

section \<open>Replaying a stored stream, and cutting a stream into deliveries\<close>

text \<open>
  \<open>windowOfStoredStream\<close>, \<open>generateStreamFromReplay\<close> and \<open>batchStreamForDelivery\<close> of
  \<open>packages/core/src/internal/engine/utils.ts\<close>. A replay honours the verdicts a stored
  emission stream carries instead of deriving them; the walk keeps the live blocks by hash and
  the order of their first appearance, and prunes by finality once, at its end.
\<close>

subsection \<open>The walk over a stored stream\<close>

definition block_of_group :: "'a stream_group \<Rightarrow> 'a event_block" where
  "block_of_group g = \<lparr>number = number g, hash = hash g, events = events g\<rparr>"

fun window_walk :: "(string \<rightharpoonup> 'a event_block) \<Rightarrow> string list \<Rightarrow> 'a stream_group list
    \<Rightarrow> (string \<rightharpoonup> 'a event_block) \<times> string list" where
  "window_walk live order [] = (live, order)"
| "window_walk live order (g # gs) =
     (if group_removed g then window_walk (live(hash g := None)) order gs
      else if live (hash g) \<noteq> None then window_walk live order gs
      else window_walk (live(hash g \<mapsto> block_of_group g)) (order @ [hash g]) gs)"

text \<open>The blocks still live, each once, in order of appearance, that the bound keeps.\<close>

fun kept_blocks :: "(string \<rightharpoonup> 'a event_block) \<Rightarrow> ('a event_block \<Rightarrow> bool) \<Rightarrow> string list
    \<Rightarrow> string list \<Rightarrow> 'a event_block list" where
  "kept_blocks live p kept [] = []"
| "kept_blocks live p kept (h # hs) =
     (case live h of
        None \<Rightarrow> kept_blocks live p kept hs
      | Some b \<Rightarrow>
          if h \<in> set kept then kept_blocks live p kept hs
          else if p b then b # kept_blocks live p (h # kept) hs
          else kept_blocks live p (h # kept) hs)"

definition windowOfStoredStream :: "'a log_event list \<Rightarrow> int \<Rightarrow> int \<Rightarrow> 'a event_block list" where
  "windowOfStoredStream storedStream coveredThrough finality =
     (let (live, order) = window_walk Map.empty [] (groupStreamPerBlock storedStream)
      in sort_key number
           (kept_blocks live (\<lambda>b. coveredThrough - number b \<le> finality) [] order))"

subsection \<open>The replay\<close>

fun retractedLater :: "string \<Rightarrow> 'a stream_group list \<Rightarrow> bool" where
  "retractedLater h [] = False"
| "retractedLater h (g # gs) = (if hash g \<noteq> h then retractedLater h gs else group_removed g)"

fun replay_walk :: "int \<Rightarrow> (string \<rightharpoonup> 'a event_block) \<Rightarrow> string list \<Rightarrow> 'a stream_group list
    \<Rightarrow> (string \<rightharpoonup> 'a event_block) \<times> string list \<times> 'a log_event list" where
  "replay_walk syncedTo live order [] = (live, order, [])"
| "replay_walk syncedTo live order (g # gs) =
     (if group_removed g
      then (if live (hash g) = None then replay_walk syncedTo live order gs
            else let (l, r, es) = replay_walk syncedTo (live(hash g := None)) order gs
                 in (l, r, events g @ es))
      else if live (hash g) \<noteq> None then replay_walk syncedTo live order gs
      else if number g \<le> syncedTo \<and> retractedLater (hash g) gs
      then replay_walk syncedTo live order gs
      else let (l, r, es) = replay_walk syncedTo (live(hash g \<mapsto> block_of_group g))
                              (order @ [hash g]) gs
           in (l, r, events g @ es))"

fun seed_window :: "(string \<rightharpoonup> 'a event_block) \<Rightarrow> string list \<Rightarrow> 'a event_block list
    \<Rightarrow> (string \<rightharpoonup> 'a event_block) \<times> string list" where
  "seed_window live order [] = (live, order)"
| "seed_window live order (b # bs) =
     seed_window (live(hash b \<mapsto> b)) (if live (hash b) = None then order @ [hash b] else order) bs"

record 'a replayed =
  rp_eventStream :: "'a log_event list"
  rp_newLastSync :: "'a last_sync"

definition generateStreamFromReplay ::
    "'a last_sync \<Rightarrow> int \<Rightarrow> 'a log_event list \<Rightarrow> range_args \<Rightarrow> (engine_error, 'a replayed) result"
where
  "generateStreamFromReplay lastSync defaultFromBlock storedStream args =
     (let expectedFromBlock = getFromBlock lastSync defaultFromBlock (finality_depth args) in
      if newLastFromBlock args \<noteq> expectedFromBlock
      then Inl (UnexpectedFromBlock expectedFromBlock (newLastFromBlock args))
      else
        (let (live0, order0) = seed_window Map.empty [] (unconfirmedBlocks lastSync);
             (live, order, es) =
               replay_walk (lastToBlock lastSync) live0 order0 (groupStreamPerBlock storedStream)
         in Inr
           \<lparr>rp_eventStream = es,
            rp_newLastSync =
              \<lparr>context_id = context_id lastSync, latestBlock = newLatestBlock args,
               lastFromBlock = newLastFromBlock args, lastToBlock = newLastToBlock args,
               unconfirmedBlocks = sort_key number
                 (kept_blocks live (\<lambda>b. newLastToBlock args - number b \<le> finality_depth args) [] order)\<rparr>\<rparr>))"

subsection \<open>Cutting a stream into \<open>process()\<close> calls\<close>

record 'a delivery_batch =
  batch_events :: "'a log_event list"
  batch_lastSync :: "'a last_sync"

fun take_applied :: "int \<Rightarrow> 'a log_event list \<Rightarrow> 'a stream_group list
    \<Rightarrow> 'a log_event list \<times> 'a stream_group list" where
  "take_applied batchSize list [] = (list, [])"
| "take_applied batchSize list (g # gs) =
     (if \<not> group_removed g \<and> int (length list) < batchSize
      then take_applied batchSize (list @ events g) gs
      else (list, g # gs))"

definition foldedThrough :: "'a log_event list \<Rightarrow> int" where
  "foldedThrough list =
     (let applied = filter (\<lambda>e. \<not> removed e) list in
      if applied \<noteq> [] then blockNumber (last applied)
      else max 0 (Min (set (map blockNumber list)) - 1))"

lemma take_applied_length: "length (snd (take_applied n list gs)) \<le> length gs"
  by (induction n list gs rule: take_applied.induct) auto

lemma take_applied_progress:
  "fst (take_applied n list gs) \<noteq> list \<Longrightarrow> length (snd (take_applied n list gs)) < length gs"
proof (cases gs)
  case Nil
  then show "fst (take_applied n list gs) \<noteq> list \<Longrightarrow> ?thesis" by simp
next
  case (Cons g gs')
  then show "fst (take_applied n list gs) \<noteq> list \<Longrightarrow> ?thesis"
    using take_applied_length[of n "list @ events g" gs'] by (auto split: if_splits)
qed

function cut_batches :: "int \<Rightarrow> 'a last_sync \<Rightarrow> 'a stream_group list \<Rightarrow> 'a delivery_batch list" where
  "cut_batches batchSize finalSync gs =
     (if gs = [] then []
      else
        (let retracted = concat (map events (takeWhile group_removed gs));
             cut = take_applied batchSize retracted (dropWhile group_removed gs)
         in if fst cut = [] then []
            else
              \<lparr>batch_events = fst cut,
               batch_lastSync =
                 (if snd cut = [] then finalSync
                  else cursorSyncedThrough finalSync (foldedThrough (fst cut)))\<rparr>
              # cut_batches batchSize finalSync (snd cut)))"
  by pat_completeness auto
termination
proof (relation "measure (\<lambda>(n, s, gs). length gs)"; clarsimp)
  fix n :: int and gs :: "'a stream_group list"
  let ?r = "concat (map events (takeWhile group_removed gs))"
  let ?cut = "take_applied n ?r (dropWhile group_removed gs)"
  assume ne: "gs \<noteq> []" "fst ?cut \<noteq> []"
  have le: "length (snd ?cut) \<le> length (dropWhile group_removed gs)"
    by (rule take_applied_length)
  show "length (snd ?cut) < length gs"
  proof (cases "takeWhile group_removed gs = []")
    case True
    then have "fst ?cut \<noteq> ?r" using ne by simp
    then have "length (snd ?cut) < length (dropWhile group_removed gs)"
      by (rule take_applied_progress)
    then show ?thesis using length_dropWhile_le[of group_removed gs] by linarith
  next
    case False
    then have "length (dropWhile group_removed gs) < length gs"
      by (cases gs) (auto split: if_splits simp: le_imp_less_Suc length_dropWhile_le)
    with le show ?thesis by linarith
  qed
qed

declare cut_batches.simps [simp del]

definition batchStreamForDelivery ::
    "'a log_event list \<Rightarrow> 'a last_sync \<Rightarrow> int \<Rightarrow> 'a delivery_batch list" where
  "batchStreamForDelivery stream finalSync batchSize =
     cut_batches batchSize finalSync (groupStreamPerBlock stream)"


subsection \<open>Facts about grouping a stream\<close>

definition group_ok :: "'a stream_group \<Rightarrow> bool" where
  "group_ok g \<longleftrightarrow> events g \<noteq> [] \<and>
     (\<forall>e \<in> set (events g). blockHash e = hash g \<and> removed e = group_removed g)"

lemma runs_from_events: "concat (map events (runs_from c es)) = events c @ es"
  by (induction c es rule: runs_from.induct) (auto simp: open_group_def)

lemma groupStreamPerBlock_events: "concat (map events (groupStreamPerBlock es)) = es"
  by (cases es) (simp_all add: runs_from_events open_group_def)

lemma runs_from_number:
  "\<exists>e \<in> set (events c). blockNumber e = number c \<Longrightarrow>
    \<forall>g \<in> set (runs_from c es). \<exists>e \<in> set (events g). blockNumber e = number g"
proof (induction c es rule: runs_from.induct)
  case (1 c)
  then show ?case by simp
next
  case (2 c e es)
  have "\<exists>x \<in> set (events (open_group e)). blockNumber x = number (open_group e)"
    by (simp add: open_group_def)
  moreover have "\<exists>x \<in> set (events (c\<lparr>events := events c @ [e]\<rparr>)).
      blockNumber x = number (c\<lparr>events := events c @ [e]\<rparr>)" using 2(3) by auto
  ultimately show ?case using 2 by simp
qed

lemma groupStreamPerBlock_number:
  "\<forall>g \<in> set (groupStreamPerBlock es). \<exists>e \<in> set (events g). blockNumber e = number g"
proof (cases es)
  case Nil
  then show ?thesis by simp
next
  case (Cons e es')
  have "\<exists>x \<in> set (events (open_group e)). blockNumber x = number (open_group e)"
    by (simp add: open_group_def)
  from runs_from_number[OF this] Cons show ?thesis by simp
qed

lemma runs_from_ok: "group_ok c \<Longrightarrow> \<forall>g \<in> set (runs_from c es). group_ok g"
proof (induction c es rule: runs_from.induct)
  case (1 c)
  then show ?case by simp
next
  case (2 c e es)
  have "group_ok (open_group e)" by (simp add: group_ok_def open_group_def)
  moreover have "group_ok (c\<lparr>events := events c @ [e]\<rparr>)"
    if "\<not> (hash c \<noteq> blockHash e \<or> group_removed c \<noteq> removed e)"
    using 2(3) that by (auto simp: group_ok_def)
  ultimately show ?case using 2 by simp
qed

lemma groupStreamPerBlock_ok: "\<forall>g \<in> set (groupStreamPerBlock es). group_ok g"
proof (cases es)
  case Nil
  then show ?thesis by simp
next
  case (Cons e es')
  have "group_ok (open_group e)" by (simp add: group_ok_def open_group_def)
  with Cons show ?thesis by (simp add: runs_from_ok)
qed

lemma removed_of_groups:
  assumes "\<forall>g \<in> set gs. group_ok g"
  shows "\<forall>g \<in> set gs. group_removed g = r \<Longrightarrow> \<forall>e \<in> set (concat (map events gs)). removed e = r"
  using assms by (auto simp: group_ok_def)

lemma groups_nonempty:
  assumes "\<forall>g \<in> set gs. group_ok g" and "gs \<noteq> []"
  shows "concat (map events gs) \<noteq> []"
  using assms by (cases gs) (auto simp: group_ok_def)

subsection \<open>Facts about one cut\<close>

text \<open>What \<open>take_applied\<close> takes: whole applied groups, until the size is reached.\<close>

lemma take_applied_split:
  "\<exists>xs. gs = xs @ snd (take_applied n list gs) \<and> fst (take_applied n list gs) = list @ concat (map events xs)
     \<and> (\<forall>g \<in> set xs. \<not> group_removed g)"
proof (induction n list gs rule: take_applied.induct)
  case (1 n list)
  then show ?case by simp
next
  case (2 n list g gs)
  show ?case
  proof (cases "\<not> group_removed g \<and> int (length list) < n")
    case True
    with 2 obtain xs where xs: "gs = xs @ snd (take_applied n (list @ events g) gs)"
      "fst (take_applied n (list @ events g) gs) = (list @ events g) @ concat (map events xs)"
      "\<forall>g \<in> set xs. \<not> group_removed g" by auto
    show ?thesis
      by (rule exI[of _ "g # xs"]) (use True xs in simp)
  next
    case False
    then have "take_applied n list (g # gs) = (list, g # gs)" by auto
    then show ?thesis by simp
  qed
qed

lemma take_applied_short:
  "\<lbrakk>gs \<noteq> []; \<not> group_removed (hd gs); int (length list) < n\<rbrakk>
    \<Longrightarrow> \<exists>g gs'. gs = g # gs' \<and> take_applied n list gs = take_applied n (list @ events g) gs'"
  by (cases gs) auto

text \<open>One cut, as the batches are made of: retractions, then applications, then the rest.\<close>

lemma cut_once:
  assumes ok: "\<forall>g \<in> set gs. group_ok g" and ne: "gs \<noteq> []" and pos: "1 \<le> n"
  obtains rs xs rest where "gs = rs @ xs @ rest" "\<forall>g \<in> set rs. group_removed g"
    "\<forall>g \<in> set xs. \<not> group_removed g" "rs @ xs \<noteq> []"
    "xs = [] \<longrightarrow> rest \<noteq> [] \<longrightarrow> \<not> group_removed (hd rest)"
    "\<forall>s. cut_batches n s gs =
       \<lparr>batch_events = concat (map events (rs @ xs)),
        batch_lastSync = (if rest = [] then s
          else cursorSyncedThrough s (foldedThrough (concat (map events (rs @ xs)))))\<rparr>
       # cut_batches n s rest"
proof -
  let ?rs = "takeWhile group_removed gs" and ?ds = "dropWhile group_removed gs"
  let ?r = "concat (map events ?rs)"
  obtain xs where xs: "?ds = xs @ snd (take_applied n ?r ?ds)"
    "fst (take_applied n ?r ?ds) = ?r @ concat (map events xs)" "\<forall>g \<in> set xs. \<not> group_removed g"
    using take_applied_split by blast
  let ?rest = "snd (take_applied n ?r ?ds)"
  have gs: "gs = ?rs @ xs @ ?rest" using xs(1) by (metis takeWhile_dropWhile_id)
  have rem: "\<forall>g \<in> set ?rs. group_removed g" by (auto dest: set_takeWhileD)
  have ne': "?rs @ xs \<noteq> []"
  proof
    assume nil: "?rs @ xs = []"
    then have r: "?r = []" by simp
    from nil ne have "?ds \<noteq> []"
      by (metis append_is_Nil_conv append_self_conv2 takeWhile_dropWhile_id)
    note ds = this
    from ds have hd: "\<not> group_removed (hd ?ds)" by (rule hd_dropWhile)
    obtain g gs' where cons: "?ds = g # gs'"
        "take_applied n ?r ?ds = take_applied n (?r @ events g) gs'"
      using take_applied_short[OF ds hd, of ?r n] r pos by auto
    have "length ?rest \<le> length gs'"
      unfolding cons(2) by (rule take_applied_length)
    moreover have "length ?rest = length ?ds" using xs(1) nil by simp
    ultimately show False using cons(1) by simp
  qed
  have okc: "\<forall>g \<in> set (?rs @ xs). group_ok g" using ok gs by (metis Un_iff append_assoc set_append)
  have list: "fst (take_applied n ?r ?ds) = concat (map events (?rs @ xs))" using xs(2) by simp
  have nel: "concat (map events (?rs @ xs)) \<noteq> []" by (rule groups_nonempty[OF okc ne'])
  have hdr: "xs = [] \<longrightarrow> ?rest \<noteq> [] \<longrightarrow> \<not> group_removed (hd ?rest)"
    using xs(1) hd_dropWhile[of group_removed gs] by (metis append_Nil)
  have step: "\<forall>s. cut_batches n s gs =
       \<lparr>batch_events = concat (map events (?rs @ xs)),
        batch_lastSync = (if ?rest = [] then s
          else cursorSyncedThrough s (foldedThrough (concat (map events (?rs @ xs)))))\<rparr>
       # cut_batches n s ?rest"
  proof
    fix s
    show "cut_batches n s gs =
       \<lparr>batch_events = concat (map events (?rs @ xs)),
        batch_lastSync = (if ?rest = [] then s
          else cursorSyncedThrough s (foldedThrough (concat (map events (?rs @ xs)))))\<rparr>
       # cut_batches n s ?rest"
      using ne nel by (subst cut_batches.simps) (simp only: Let_def list if_False)
  qed
  show ?thesis by (rule that[OF gs rem xs(3) ne' hdr step])
qed


subsection \<open>Deliveries\<close>

text \<open>A call carries retractions first and applications after them, never the other way round.\<close>

definition retractions_first :: "'a log_event list \<Rightarrow> bool" where
  "retractions_first es \<longleftrightarrow>
     es \<noteq> [] \<and> (\<exists>rs xs. es = rs @ xs \<and> (\<forall>e \<in> set rs. removed e) \<and> (\<forall>e \<in> set xs. \<not> removed e))"

text \<open>What the calls of one stream satisfy, given the stream and its cursor.\<close>

definition deliveries_ok :: "'a last_sync \<Rightarrow> 'a log_event list \<Rightarrow> 'a delivery_batch list \<Rightarrow> bool" where
  "deliveries_ok s es bs \<longleftrightarrow>
     concat (map batch_events bs) = es \<and>
     (\<forall>b \<in> set bs. retractions_first (batch_events b)) \<and>
     (bs \<noteq> [] \<longrightarrow> batch_lastSync (last bs) = s) \<and>
     (\<forall>b \<in> set (butlast bs).
        batch_lastSync b = cursorSyncedThrough s (foldedThrough (batch_events b))) \<and>
     successively (\<lambda>b c. \<not> (removed (last (batch_events b)) \<and> removed (hd (batch_events c)))) bs"

lemma cut_batches_Nil [simp]: "cut_batches n s [] = []"
  by (subst cut_batches.simps) simp

lemma hd_events_group:
  assumes "\<forall>g \<in> set gs. group_ok g" and "gs \<noteq> []"
  shows "removed (hd (concat (map events gs))) = group_removed (hd gs)"
  using assms by (cases gs) (auto simp: group_ok_def hd_append)

lemma last_events_group:
  assumes "\<forall>g \<in> set gs. group_ok g" and "gs \<noteq> []"
  shows "removed (last (concat (map events gs))) = group_removed (last gs)"
  using assms
proof (induction gs rule: rev_induct)
  case Nil
  then show ?case by simp
next
  case (snoc g gs)
  then show ?case by (auto simp: group_ok_def last_append)
qed

lemma cut_batches_ok:
  assumes "\<forall>g \<in> set gs. group_ok g" and "1 \<le> n"
  shows "deliveries_ok s (concat (map events gs)) (cut_batches n s gs) \<and>
    (gs \<noteq> [] \<longrightarrow> cut_batches n s gs \<noteq> [])"
  using assms(1)
proof (induction "length gs" arbitrary: gs rule: less_induct)
  case less
  show ?case
  proof (cases "gs = []")
    case True
    then show ?thesis by (simp add: deliveries_ok_def)
  next
    case False
    obtain rs xs rest where gs: "gs = rs @ xs @ rest" and rs: "\<forall>g \<in> set rs. group_removed g"
      and xs: "\<forall>g \<in> set xs. \<not> group_removed g" and ne: "rs @ xs \<noteq> []"
      and hdr: "xs = [] \<longrightarrow> rest \<noteq> [] \<longrightarrow> \<not> group_removed (hd rest)"
      and step: "\<forall>s. cut_batches n s gs =
       \<lparr>batch_events = concat (map events (rs @ xs)),
        batch_lastSync = (if rest = [] then s
          else cursorSyncedThrough s (foldedThrough (concat (map events (rs @ xs)))))\<rparr>
       # cut_batches n s rest"
      by (rule cut_once[OF less.prems False assms(2)])
    let ?es = "concat (map events (rs @ xs))"
    have okc: "\<forall>g \<in> set (rs @ xs). group_ok g" and okr: "\<forall>g \<in> set rest. group_ok g"
      using less.prems gs by auto
    have "length rest < length gs" using gs ne by (cases "rs @ xs") auto
    from less.hyps[OF this okr]
    have IH: "deliveries_ok s (concat (map events rest)) (cut_batches n s rest)"
      and rest_ne: "rest \<noteq> [] \<Longrightarrow> cut_batches n s rest \<noteq> []" by auto
    have first: "retractions_first ?es"
      unfolding retractions_first_def
    proof (intro conjI exI)
      show "?es \<noteq> []" by (rule groups_nonempty[OF okc ne])
      show "?es = concat (map events rs) @ concat (map events xs)" by simp
      show "\<forall>e \<in> set (concat (map events rs)). removed e"
        using removed_of_groups[of rs True] okc rs by simp
      show "\<forall>e \<in> set (concat (map events xs)). \<not> removed e"
        using removed_of_groups[of xs False] okc xs by simp
    qed
    have edge: "\<not> (removed (last ?es) \<and> removed (hd (concat (map events rest))))" if "rest \<noteq> []"
    proof (cases "xs = []")
      case True
      then show ?thesis using hd_events_group[OF okr that] hdr that by simp
    next
      case False
      then show ?thesis using last_events_group[OF okc ne] xs by simp
    qed
    show ?thesis
    proof (cases "rest = []")
      case True
      then show ?thesis using step[rule_format, of s] gs first by (simp add: deliveries_ok_def)
    next
      case False
      then obtain c cs where cs: "cut_batches n s rest = c # cs"
        using rest_ne by (cases "cut_batches n s rest") auto
      have "batch_events c \<noteq> []"
        using IH cs by (simp add: deliveries_ok_def retractions_first_def)
      moreover have "batch_events c @ concat (map batch_events cs) = concat (map events rest)"
        using IH cs by (simp add: deliveries_ok_def)
      ultimately have "hd (concat (map events rest)) = hd (batch_events c)"
        by (metis hd_append2)
      then show ?thesis
        using step[rule_format, of s] gs first False IH cs edge[OF False]
        by (simp add: deliveries_ok_def successively_Cons)
    qed
  qed
qed

text \<open>
  C6. Cutting a generated stream into \<open>process()\<close> calls loses, repeats and reorders nothing;
  every call carries its retractions before its applications, so an application and its own
  retraction are never in one call; no cut separates two retractions; the last call carries the
  stream's cursor and every earlier one the cursor narrowed to what that call folded.
\<close>

theorem delivery_preserves_stream:
  assumes "1 \<le> batchSize"
  shows "deliveries_ok s es (batchStreamForDelivery es s batchSize)"
  using cut_batches_ok[OF groupStreamPerBlock_ok[of es] assms, of s]
  by (simp add: batchStreamForDelivery_def groupStreamPerBlock_events)

theorem delivery_preserves_stream_witness:
  "deliveries_ok sample_cursor
     [(sample_log 5 ''a'' 0)\<lparr>removed := True\<rparr>, sample_log 5 ''b'' 0, sample_log 6 ''c'' 0]
     (batchStreamForDelivery
       [(sample_log 5 ''a'' 0)\<lparr>removed := True\<rparr>, sample_log 5 ''b'' 0, sample_log 6 ''c'' 0]
       sample_cursor 2)"
  by (rule delivery_preserves_stream) simp


subsection \<open>What a replay leaves live\<close>

text \<open>The last verdict a stream records about a block: \<open>Some True\<close> is a retraction.\<close>

fun last_verdict :: "string \<Rightarrow> 'a stream_group list \<Rightarrow> bool option" where
  "last_verdict h [] = None"
| "last_verdict h (g # gs) =
     (case last_verdict h gs of
        Some r \<Rightarrow> Some r
      | None \<Rightarrow> if hash g = h then Some (group_removed g) else None)"

definition verdict_live :: "(string \<Rightarrow> bool) \<Rightarrow> 'a stream_group list \<Rightarrow> string \<Rightarrow> bool" where
  "verdict_live held gs h = (case last_verdict h gs of Some r \<Rightarrow> \<not> r | None \<Rightarrow> held h)"

lemma retractedLater_mentioned: "retractedLater h gs \<Longrightarrow> last_verdict h gs \<noteq> None"
  by (induction gs) (auto split: if_splits option.splits)

lemma verdict_live_Cons:
  "verdict_live held (g # gs) =
    verdict_live (\<lambda>x. if x = hash g then \<not> group_removed g else held x) gs"
  by (rule ext) (simp add: verdict_live_def split: option.splits)

lemma verdict_live_skip:
  assumes "held (hash g) = (\<not> group_removed g) \<or> last_verdict (hash g) gs \<noteq> None"
  shows "verdict_live held (g # gs) = verdict_live held gs"
  using assms by (intro ext) (auto simp: verdict_live_def split: option.splits)

text \<open>The four things the walk does with a group, as one equation per case.\<close>

lemma replay_walk_cases:
  obtains (drop) "live (hash g) \<noteq> None" "group_removed g"
      "replay_walk k live order (g # gs) =
        (let (l, r, es) = replay_walk k (live(hash g := None)) order gs in (l, r, events g @ es))"
    | (skip) "replay_walk k live order (g # gs) = replay_walk k live order gs"
      "(live (hash g) \<noteq> None) = (\<not> group_removed g) \<or>
        (\<not> group_removed g \<and> number g \<le> k \<and> retractedLater (hash g) gs)"
    | (add) "live (hash g) = None" "\<not> group_removed g"
      "\<not> (number g \<le> k \<and> retractedLater (hash g) gs)"
      "replay_walk k live order (g # gs) =
        (let (l, r, es) = replay_walk k (live(hash g \<mapsto> block_of_group g)) (order @ [hash g]) gs
         in (l, r, events g @ es))"
proof (cases "live (hash g) = None \<or> \<not> group_removed g")
  case False
  then have a: "live (hash g) \<noteq> None" and b: "group_removed g" by auto
  show ?thesis
    by (rule drop[OF a b]) (use a b in \<open>simp only: replay_walk.simps(2) if_True if_False simp_thms\<close>)
next
  case True
  show ?thesis
  proof (cases "live (hash g) = None \<and> \<not> group_removed g \<and>
      \<not> (number g \<le> k \<and> retractedLater (hash g) gs)")
    case True
    then have a: "live (hash g) = None" and b: "\<not> group_removed g"
      and c: "\<not> (number g \<le> k \<and> retractedLater (hash g) gs)" by blast+
    show ?thesis
      by (rule add[OF a b c])
        (use a b c in \<open>simp only: replay_walk.simps(2) if_True if_False simp_thms\<close>)
  next
    case False
    with True show ?thesis by (intro skip) (auto simp del: fun_upd_apply)
  qed
qed

lemma replay_walk_live:
  "(\<lambda>h. fst (replay_walk k live order gs) h \<noteq> None) = verdict_live (\<lambda>h. live h \<noteq> None) gs"
proof (induction gs arbitrary: live order)
  case Nil
  then show ?case by (simp add: verdict_live_def)
next
  case (Cons g gs)
  show ?case
  proof (cases rule: replay_walk_cases[of live g k order gs])
    case drop
    have "(\<lambda>h. (live(hash g := None)) h \<noteq> None) =
        (\<lambda>x. if x = hash g then \<not> group_removed g else live x \<noteq> None)"
      using drop(2) by auto
    with Cons[of "live(hash g := None)" order] show ?thesis
      by (simp only: drop(3) Let_def split_beta fst_conv verdict_live_Cons)
  next
    case skip
    have "verdict_live (\<lambda>h. live h \<noteq> None) (g # gs) = verdict_live (\<lambda>h. live h \<noteq> None) gs"
      by (rule verdict_live_skip) (use skip(2) retractedLater_mentioned in blast)
    with Cons[of live order] show ?thesis by (simp only: skip(1))
  next
    case add
    have "(\<lambda>h. (live(hash g \<mapsto> block_of_group g)) h \<noteq> None) =
        (\<lambda>x. if x = hash g then \<not> group_removed g else live x \<noteq> None)"
      using add(2) by auto
    with Cons[of "live(hash g \<mapsto> block_of_group g)" "order @ [hash g]"] show ?thesis
      by (simp only: add(4) Let_def split_beta fst_conv verdict_live_Cons)
  qed
qed

text \<open>Every height is a function of the hash; groups and live blocks follow it.\<close>

definition group_at :: "(string \<Rightarrow> int) \<Rightarrow> 'a stream_group \<Rightarrow> bool" where
  "group_at height g \<longleftrightarrow> group_ok g \<and> number g = height (hash g) \<and>
     (\<forall>e \<in> set (events g). blockNumber e = number g)"

definition live_ledger :: "(string \<Rightarrow> int) \<Rightarrow> (string \<rightharpoonup> 'a event_block) \<Rightarrow> ledger" where
  "live_ledger height live = (\<lambda>h. (height h, h)) ` dom live"

lemma group_at_keys:
  assumes "group_at height g"
  shows "event_key ` set (events g) = {(height (hash g), hash g)}"
  using assms unfolding group_at_def group_ok_def by (cases "events g") auto

lemma ledger_after_group:
  assumes "group_at height g"
  shows "ledger_after L (events g) =
    (if group_removed g then L - {(height (hash g), hash g)} else insert (height (hash g), hash g) L)"
proof (cases "group_removed g")
  case True
  then have "\<forall>e \<in> set (events g). removed e" using assms by (simp add: group_at_def group_ok_def)
  from ledger_after_removed[OF this] True show ?thesis by (simp only: group_at_keys[OF assms]) simp
next
  case False
  then have "\<forall>e \<in> set (events g). \<not> removed e" using assms by (simp add: group_at_def group_ok_def)
  from ledger_after_applied[OF this] False show ?thesis by (simp only: group_at_keys[OF assms]) simp
qed

lemma live_ledger_None: "live_ledger height (live(h := None)) = live_ledger height live - {(height h, h)}"
  by (auto simp: live_ledger_def)

lemma live_ledger_Some: "live_ledger height (live(h \<mapsto> b)) = insert (height h, h) (live_ledger height live)"
  by (auto simp: live_ledger_def)

lemma live_ledger_mem: "(height h, h) \<in> live_ledger height live \<longleftrightarrow> live h \<noteq> None"
  by (auto simp: live_ledger_def)

lemma replay_walk_ledger:
  assumes "\<forall>g \<in> set gs. group_at height g"
  shows "ledger_after (live_ledger height live) (snd (snd (replay_walk k live order gs))) =
    live_ledger height (fst (replay_walk k live order gs))"
  using assms
proof (induction gs arbitrary: live order)
  case Nil
  then show ?case by (simp add: ledger_after_def)
next
  case (Cons g gs)
  from Cons.prems have g: "group_at height g" and gs: "\<forall>g \<in> set gs. group_at height g" by simp_all
  note step = Let_def split_beta fst_conv snd_conv ledger_after_append ledger_after_group[OF g]
    live_ledger_None[symmetric] live_ledger_Some[symmetric]
  show ?case
  proof (cases rule: replay_walk_cases[of live g k order gs])
    case drop
    then show ?thesis using Cons.IH[OF gs] by (simp only: step if_True)
  next
    case skip
    then show ?thesis using Cons.IH[OF gs] by (simp only:)
  next
    case add
    have "ledger_after (live_ledger height live) (events g) =
        live_ledger height (live(hash g \<mapsto> block_of_group g))"
      using add(2) by (simp only: step if_False)
    then show ?thesis using Cons.IH[OF gs]
      by (simp only: add(4) Let_def split_beta fst_conv snd_conv ledger_after_append)
  qed
qed

lemma stored_ledger:
  assumes "\<forall>g \<in> set gs. group_at height g"
  shows "ledger_after L (concat (map events gs)) =
    {k. case last_verdict (snd k) gs of
          Some r \<Rightarrow> \<not> r \<and> fst k = height (snd k) | None \<Rightarrow> k \<in> L}
      \<union> {k \<in> L. last_verdict (snd k) gs \<noteq> None \<and> fst k \<noteq> height (snd k)}"
  using assms
proof (induction gs arbitrary: L)
  case Nil
  then show ?case by (simp add: ledger_after_def)
next
  case (Cons g gs)
  from Cons.prems have g: "group_at height g" by simp
  show ?case
    using Cons by (auto simp: ledger_after_append ledger_after_group[OF g] split: option.splits if_splits)
qed

subsection \<open>The seeded window, and what the walk keeps\<close>

definition live_at :: "(string \<Rightarrow> int) \<Rightarrow> (string \<rightharpoonup> 'a event_block) \<Rightarrow> string list \<Rightarrow> bool" where
  "live_at height live order \<longleftrightarrow> dom live \<subseteq> set order \<and>
     (\<forall>h b. live h = Some b \<longrightarrow> hash b = h \<and> number b = height h)"

lemma live_at_drop: "live_at height live order \<Longrightarrow> live_at height (live(h := None)) order"
  by (auto simp: live_at_def)

lemma live_at_add:
  "live_at height live order \<Longrightarrow> hash b = h \<Longrightarrow> number b = height h
    \<Longrightarrow> live_at height (live(h \<mapsto> b)) (order @ [h])"
  by (auto simp: live_at_def)

lemma seed_window_at:
  assumes "live_at height live order" and "\<forall>b \<in> set bs. number b = height (hash b)"
  shows "live_at height (fst (seed_window live order bs)) (snd (seed_window live order bs)) \<and>
    dom (fst (seed_window live order bs)) = dom live \<union> hash ` set bs"
  using assms
proof (induction bs arbitrary: live order)
  case Nil
  then show ?case by simp
next
  case (Cons b bs)
  have "live_at height (live(hash b \<mapsto> b)) (if live (hash b) = None then order @ [hash b] else order)"
    using Cons.prems by (auto simp: live_at_def)
  from Cons.IH[OF this] Cons.prems show ?case
    by (simp only: seed_window.simps list.set ball_simps dom_fun_upd) (auto simp del: fun_upd_apply)
qed

lemma replay_walk_at:
  assumes "\<forall>g \<in> set gs. group_at height g" and "live_at height live order"
  shows "live_at height (fst (replay_walk k live order gs)) (fst (snd (replay_walk k live order gs)))"
  using assms
proof (induction gs arbitrary: live order)
  case Nil
  then show ?case by simp
next
  case (Cons g gs)
  from Cons.prems have gs: "\<forall>g \<in> set gs. group_at height g" by simp
  show ?case
  proof (cases rule: replay_walk_cases[of live g k order gs])
    case drop
    from Cons.IH[OF gs live_at_drop[OF Cons.prems(2)]] show ?thesis
      by (simp only: drop(3) Let_def split_beta fst_conv snd_conv)
  next
    case skip
    from Cons.IH[OF gs Cons.prems(2)] show ?thesis by (simp only: skip(1))
  next
    case add
    have "live_at height (live(hash g \<mapsto> block_of_group g)) (order @ [hash g])"
      using Cons.prems by (intro live_at_add) (simp_all add: block_of_group_def group_at_def)
    from Cons.IH[OF gs this] show ?thesis
      by (simp only: add(4) Let_def split_beta fst_conv snd_conv)
  qed
qed

lemma kept_blocks_set:
  "set (kept_blocks live p kept hs) = {b. \<exists>h \<in> set hs - set kept. live h = Some b \<and> p b}"
proof (induction hs arbitrary: kept)
  case Nil
  then show ?case by simp
next
  case (Cons h hs)
  then show ?case by (auto split: option.splits)
qed

lemma kept_blocks_keys:
  assumes "live_at height live order"
  shows "key_of ` set (kept_blocks live (\<lambda>b. q (number b)) [] order) =
    {k \<in> live_ledger height live. q (fst k)}"
  using assms by (force simp: kept_blocks_set live_at_def live_ledger_def)

lemma window_walk_replay:
  assumes "\<forall>g \<in> set gs. k < number g"
  shows "(fst (replay_walk k live order gs), fst (snd (replay_walk k live order gs))) =
    window_walk live order gs"
  using assms
proof (induction gs arbitrary: live order)
  case Nil
  then show ?case by simp
next
  case (Cons g gs)
  then have "\<not> number g \<le> k" by simp
  moreover have "live(hash g := None) = live" if "live (hash g) = None" using that by auto
  ultimately show ?case using Cons
    by (cases "group_removed g"; cases "live (hash g) = None")
       (simp_all add: Let_def split_beta del: fun_upd_apply not_None_eq)
qed

text \<open>
  C9. Replaying a stored stream from the empty cursor leaves exactly the window that
  \<open>windowOfStoredStream\<close> re-derives from that stream: the two walks over stored verdicts agree,
  so a keeper that rebuilds its window after a restart resumes as the replay would.
\<close>

theorem replay_window_is_stored_window:
  assumes "generateStreamFromReplay (fresh_last_sync ctx) d stored args = Inr r"
    and "\<forall>e \<in> set stored. 0 < blockNumber e"
  shows "unconfirmedBlocks (rp_newLastSync r) =
    windowOfStoredStream stored (newLastToBlock args) (finality_depth args)"
proof -
  have "number g \<in> blockNumber ` set (concat (map events (groupStreamPerBlock stored)))"
    if "g \<in> set (groupStreamPerBlock stored)" for g
    using that groupStreamPerBlock_number[of stored] by force
  then have "\<forall>g \<in> set (groupStreamPerBlock stored). 0 < number g"
    using assms(2) by (force simp: groupStreamPerBlock_events)
  note walk = window_walk_replay[OF this, of Map.empty "[]", symmetric]
  from assms(1) show ?thesis
    by (auto simp: walk generateStreamFromReplay_def windowOfStoredStream_def fresh_last_sync_def Let_def
        split_beta split: if_splits)
qed

lemma last_verdict_height:
  assumes "last_verdict h gs \<noteq> None" and "\<forall>g \<in> set gs. group_at height g \<and> m \<le> number g"
  shows "m \<le> height h"
  using assms by (induction gs) (auto simp: group_at_def split: option.splits if_splits)

lemma replay_walk_heights:
  assumes "\<forall>g \<in> set gs. \<forall>e \<in> set (events g). m \<le> blockNumber e"
  shows "\<forall>e \<in> set (snd (snd (replay_walk k live order gs))). m \<le> blockNumber e"
  using assms
proof (induction gs arbitrary: live order)
  case Nil
  then show ?case by simp
next
  case (Cons g gs)
  show ?case
    by (cases rule: replay_walk_cases[of live g k order gs])
       (use Cons in \<open>auto simp: Let_def split_beta simp del: replay_walk.simps\<close>)
qed

text \<open>Events from a height up leave the ledger below it alone.\<close>

lemma ledger_after_split:
  assumes "\<forall>e \<in> set es. m \<le> blockNumber e"
  shows "ledger_after L es = {k \<in> L. fst k < m} \<union> ledger_after {k \<in> L. m \<le> fst k} es"
  using assms
proof (induction es arbitrary: L)
  case Nil
  then show ?case by (auto simp: ledger_after_def)
next
  case (Cons e es)
  have step: "ledger_after L (e # es) = ledger_after (ledger_step L e) es" for L
    by (simp add: ledger_after_def)
  have "{k \<in> ledger_step L e. fst k < m} = {k \<in> L. fst k < m}"
    "{k \<in> ledger_step L e. m \<le> fst k} = ledger_step {k \<in> L. m \<le> fst k} e"
    using Cons.prems by (auto simp: ledger_step_def)
  with Cons.IH[of "ledger_step L e"] Cons.prems show ?case by (simp only: step) simp
qed

definition replay_sample :: "unit log_event list" where
  "replay_sample = [sample_log 4 ''a'' 0, sample_log 5 ''b'' 0, sample_log 5 ''b'' 1,
     (sample_log 5 ''b'' 0)\<lparr>removed := True\<rparr>, (sample_log 5 ''b'' 1)\<lparr>removed := True\<rparr>,
     sample_log 5 ''c'' 0]"

definition replay_args :: range_args where
  "replay_args = \<lparr>newLatestBlock = 7, newLastFromBlock = 0, newLastToBlock = 7, finality_depth = 3\<rparr>"

theorem replay_window_is_stored_window_witness:
  "\<exists>r. generateStreamFromReplay (fresh_last_sync sample_context) 0 replay_sample replay_args = Inr r \<and>
     unconfirmedBlocks (rp_newLastSync r) = windowOfStoredStream replay_sample 7 3"
proof -
  obtain r where r: "generateStreamFromReplay (fresh_last_sync sample_context) 0 replay_sample replay_args = Inr r"
    by (simp add: generateStreamFromReplay_def fresh_last_sync_def getFromBlock_def replay_args_def
        Let_def split_beta)
  from replay_window_is_stored_window[OF r] show ?thesis
    using r by (simp add: replay_args_def replay_sample_def)
qed

text \<open>
  C4. Catching up by replay is the same as applying the stored stream whole: what a replay
  drops as already held or already taken back changes nothing. For a cursor whose window is
  the applied ledger from the resume height up, and a stored stream of that range, the ledger
  after the emitted events is the ledger after the stored ones.
\<close>

theorem replay_reproduces_ledger:
  assumes run: "generateStreamFromReplay s d stored args = Inr r"
    and groups: "\<forall>g \<in> set (groupStreamPerBlock stored). group_at height g \<and> newLastFromBlock args \<le> number g"
    and window: "key_of ` set (unconfirmedBlocks s) = {k \<in> L. newLastFromBlock args \<le> fst k}"
    and heights: "\<forall>k \<in> L. fst k = height (snd k)"
  shows "ledger_after L (rp_eventStream r) = ledger_after L stored"
proof -
  let ?gs = "groupStreamPerBlock stored" and ?w = "seed_window Map.empty [] (unconfirmedBlocks s)"
  let ?walk = "replay_walk (lastToBlock s) (fst ?w) (snd ?w) ?gs" and ?from = "newLastFromBlock args"
  have es: "rp_eventStream r = snd (snd ?walk)"
    using run by (auto simp: generateStreamFromReplay_def Let_def split_beta split: if_splits)
  have gat: "\<forall>g \<in> set ?gs. group_at height g" using groups by blast
  have wkeys: "\<forall>b \<in> set (unconfirmedBlocks s). key_of b \<in> {k \<in> L. ?from \<le> fst k}"
    using window by blast
  then have wheight: "\<forall>b \<in> set (unconfirmedBlocks s). number b = height (hash b)"
    using heights by fastforce
  from seed_window_at[of height Map.empty "[]", OF _ wheight]
  have seeded: "dom (fst ?w) = hash ` set (unconfirmedBlocks s)" by (simp add: live_at_def)
  have "live_ledger height (fst ?w) = key_of ` set (unconfirmedBlocks s)"
    using wheight by (simp add: live_ledger_def seeded image_image cong: image_cong)
  then have above: "live_ledger height (fst ?w) = {k \<in> L. ?from \<le> fst k}" using window by simp
  have held: "(fst ?w h \<noteq> None) \<longleftrightarrow> (height h, h) \<in> L \<and> ?from \<le> height h" for h
    using live_ledger_mem[of height h "fst ?w"] unfolding above by simp
  have mentioned: "?from \<le> height h" if "last_verdict h ?gs = Some v" for h v
    using last_verdict_height[of h ?gs] that groups by simp
  have sub: "\<forall>e \<in> set (rp_eventStream r). ?from \<le> blockNumber e"
    unfolding es by (rule replay_walk_heights) (use groups in \<open>auto simp: group_at_def\<close>)
  have out: "ledger_after L (rp_eventStream r) =
      {k \<in> L. fst k < ?from} \<union> live_ledger height (fst ?walk)"
    using ledger_after_split[OF sub, of L] replay_walk_ledger[OF gat, of "fst ?w" "lastToBlock s" "snd ?w"]
    by (simp only: es above)
  have inn: "ledger_after L stored = {k \<in> L. fst k < ?from} \<union>
      {k. case last_verdict (snd k) ?gs of Some r \<Rightarrow> \<not> r \<and> fst k = height (snd k)
            | None \<Rightarrow> k \<in> L \<and> ?from \<le> fst k}"
  proof (rule set_eqI)
    fix k :: "int \<times> string"
    have L: "k \<in> L \<Longrightarrow> fst k = height (snd k)" using heights by blast
    show "k \<in> ledger_after L stored \<longleftrightarrow> k \<in> {k \<in> L. fst k < ?from} \<union>
      {k. case last_verdict (snd k) ?gs of Some r \<Rightarrow> \<not> r \<and> fst k = height (snd k)
            | None \<Rightarrow> k \<in> L \<and> ?from \<le> fst k}"
    proof (cases "last_verdict (snd k) ?gs")
      case None
      then show ?thesis using stored_ledger[OF gat, of L] by (auto simp: groupStreamPerBlock_events)
    next
      case (Some v)
      from mentioned[OF Some] Some L show ?thesis
        using stored_ledger[OF gat, of L] by (auto simp: groupStreamPerBlock_events)
    qed
  qed
  have "live_ledger height (fst ?walk) = {k. case last_verdict (snd k) ?gs of
      Some r \<Rightarrow> \<not> r \<and> fst k = height (snd k) | None \<Rightarrow> k \<in> L \<and> ?from \<le> fst k}"
    using heights fun_cong[OF replay_walk_live[of "lastToBlock s" "fst ?w" "snd ?w" ?gs]] held
    by (auto simp: live_ledger_def dom_def verdict_live_def split: option.splits)
  then show ?thesis by (simp only: out inn)
qed

definition catch_up_sample :: "unit log_event list" where
  "catch_up_sample = [sample_log 5 ''a5'' 0, (sample_log 6 ''a6'' 0)\<lparr>removed := True\<rparr>,
     sample_log 6 ''b6'' 0, sample_log 7 ''c7'' 0]"

definition catch_up_args :: range_args where
  "catch_up_args = \<lparr>newLatestBlock = 7, newLastFromBlock = 3, newLastToBlock = 7, finality_depth = 3\<rparr>"

definition sample_height :: "string \<Rightarrow> int" where
  "sample_height h = (if h = ''a5'' then 5 else if h = ''c7'' then 7 else 6)"

theorem replay_reproduces_ledger_witness:
  "\<exists>r. generateStreamFromReplay sample_cursor 0 catch_up_sample catch_up_args = Inr r \<and>
     ledger_after {(5, ''a5''), (6, ''a6'')} (rp_eventStream r) = {(5, ''a5''), (6, ''b6''), (7, ''c7'')}"
proof -
  obtain r where r: "generateStreamFromReplay sample_cursor 0 catch_up_sample catch_up_args = Inr r"
    by (simp add: generateStreamFromReplay_def sample_cursor_def getFromBlock_def catch_up_args_def
        Let_def split_beta)
  have "ledger_after {(5, ''a5''), (6, ''a6'')} (rp_eventStream r) =
      ledger_after {(5, ''a5''), (6, ''a6'')} catch_up_sample"
    by (rule replay_reproduces_ledger[OF r, of sample_height])
      (auto simp: catch_up_sample_def catch_up_args_def sample_cursor_def sample_height_def
        open_group_def group_at_def group_ok_def)
  also have "\<dots> = {(5, ''a5''), (6, ''b6''), (7, ''c7'')}"
    by (auto simp: catch_up_sample_def ledger_after_def ledger_step_def)
  finally show ?thesis using r by blast
qed

end
