(* ===== verification/Stream_Segments.thy ===== *)
theory Stream_Segments
  imports Stream_Types
begin

section \<open>The segmented stream keeper\<close>

text \<open>
  \<open>packages/core/src/stream/segments.ts\<close>: a stored stream as numbered segments under one
  cursor. What a substrate supplies (\<open>StreamSegmentPort\<close>) is a record of operations on its
  state \<open>'s\<close>; the keeper's operations are written over that record, as \<open>createSegmentedStream\<close>
  writes them over its argument. The locale \<open>segment_port\<close> states what the port's comments
  promise; the keeper's lemmas are proved inside it once. A write operation of the port takes
  the keeper's decision function, which reads the current cursor and may decline.
\<close>

subsection \<open>Records and the port\<close>

record stream_cursor_record =
  scr_context :: context_identifier
  scr_latestBlock :: int
  scr_lastFromBlock :: int
  scr_lastToBlock :: int
  scr_startBlock :: int
  scr_nextOrdinal :: int

record 'a segment_commit =
  sgc_ordinal :: int
  sgc_segment :: "'a log_event list"
  sgc_cursor :: stream_cursor_record

text \<open>A segment as the substrate hands it back; \<open>None\<close> is a value that \<open>isSegment\<close> refuses.\<close>

record 'a stored_segment =
  sts_ordinal :: int
  sts_value :: "'a log_event list option"

record ('s, 'a) stream_segment_port =
  readCursor :: "'s \<Rightarrow> stream_cursor_record option"
  commitSegmentWithCursor :: "(stream_cursor_record option \<Rightarrow> 'a segment_commit option) \<Rightarrow> 's \<Rightarrow> 's"
  writeCursorOnly :: "(stream_cursor_record option \<Rightarrow> stream_cursor_record option) \<Rightarrow> 's \<Rightarrow> 's"
  readSegments :: "'s \<Rightarrow> 'a stored_segment list"
  clearSubtree :: "'s \<Rightarrow> 's"

datatype damage =
    SegmentsWithoutCursor nat
  | OrdinalGap int
  | UnparsedSegment int
  | SegmentCount int nat

datatype 'a stream_read =
    StreamFound "'a last_sync" "'a log_event list"
  | StreamAbsent
  | StreamInconsistent damage
  | DoesNotReachBack int

subsection \<open>The keeper\<close>

definition carryForward :: "stream_cursor_record option \<Rightarrow> 'a last_sync \<Rightarrow> (int \<times> int) option" where
  "carryForward current lastSync =
     (case current of
        None \<Rightarrow> Some (lastFromBlock lastSync, 0)
      | Some c \<Rightarrow>
          if lastFromBlock lastSync > scr_lastToBlock c + 1 then None
          else Some (scr_startBlock c, scr_nextOrdinal c))"

definition cursorRecord :: "'a last_sync \<Rightarrow> int \<times> int \<Rightarrow> stream_cursor_record" where
  "cursorRecord lastSync carried =
     \<lparr>scr_context = context_id lastSync, scr_latestBlock = latestBlock lastSync,
      scr_lastFromBlock = lastFromBlock lastSync, scr_lastToBlock = lastToBlock lastSync,
      scr_startBlock = fst carried, scr_nextOrdinal = snd carried\<rparr>"

fun scan_segments :: "int \<Rightarrow> 'a stored_segment list \<Rightarrow> (damage, 'a log_event list) result" where
  "scan_segments i [] = Inr []"
| "scan_segments i (s # ss) =
     (if sts_ordinal s \<noteq> i then Inl (OrdinalGap i)
      else (case sts_value s of
              None \<Rightarrow> Inl (UnparsedSegment i)
            | Some es \<Rightarrow> and_then (scan_segments (i + 1) ss) (\<lambda>rest. Inr (es @ rest))))"

definition fetchFrom :: "('s, 'a) stream_segment_port \<Rightarrow> 's \<Rightarrow> int \<Rightarrow> 'a stream_read" where
  "fetchFrom port s fromBlock =
     (case readCursor port s of
        None \<Rightarrow>
          if readSegments port s = [] then StreamAbsent
          else StreamInconsistent (SegmentsWithoutCursor (length (readSegments port s)))
      | Some c \<Rightarrow>
          (case scan_segments 0 (readSegments port s) of
             Inl d \<Rightarrow> StreamInconsistent d
           | Inr es \<Rightarrow>
               if int (length (readSegments port s)) \<noteq> scr_nextOrdinal c
               then StreamInconsistent (SegmentCount (scr_nextOrdinal c) (length (readSegments port s)))
               else if scr_startBlock c > fromBlock then DoesNotReachBack (scr_startBlock c)
               else StreamFound
                 \<lparr>context_id = scr_context c, latestBlock = scr_latestBlock c,
                  lastFromBlock = scr_lastFromBlock c, lastToBlock = scr_lastToBlock c,
                  unconfirmedBlocks = []\<rparr>
                 (filter (\<lambda>e. blockNumber e \<ge> fromBlock) es)))"

text \<open>Whether the decision function declines a batch, given the current cursor.\<close>

definition declines :: "stream_cursor_record option \<Rightarrow> 'a last_sync \<Rightarrow> bool" where
  "declines current lastSync \<longleftrightarrow> carryForward current lastSync = None"

definition nextCursor :: "'a last_sync \<Rightarrow> stream_cursor_record option \<Rightarrow> stream_cursor_record option" where
  "nextCursor lastSync current = map_option (cursorRecord lastSync) (carryForward current lastSync)"

definition allocateSegment :: "'a last_sync \<Rightarrow> 'a log_event list \<Rightarrow> stream_cursor_record option
    \<Rightarrow> 'a segment_commit option" where
  "allocateSegment lastSync es current =
     map_option
       (\<lambda>(start, ordinal).
          \<lparr>sgc_ordinal = ordinal, sgc_segment = es,
           sgc_cursor = cursorRecord lastSync (start, ordinal + 1)\<rparr>)
       (carryForward current lastSync)"

text \<open>The new state of the substrate, and whether the batch was declined.\<close>

definition saveNewEvents :: "('s, 'a) stream_segment_port \<Rightarrow> 'a last_sync \<Rightarrow> 'a log_event list \<Rightarrow> 's
    \<Rightarrow> 's \<times> bool" where
  "saveNewEvents port lastSync es s =
     ((if es = [] then writeCursorOnly port (nextCursor lastSync) s
       else commitSegmentWithCursor port (allocateSegment lastSync es) s),
      declines (readCursor port s) lastSync)"

definition clearStream :: "('s, 'a) stream_segment_port \<Rightarrow> 's \<Rightarrow> 's" where
  "clearStream port s = clearSubtree port s"

subsection \<open>What is stored\<close>

text \<open>
  A healthy subtree: nothing at all, or segments numbered from 0 without a gap, all readable,
  as many as the cursor counts.
\<close>

definition healthy :: "('s, 'a) stream_segment_port \<Rightarrow> 's \<Rightarrow> 'a log_event list list \<Rightarrow> bool" where
  "healthy port s ess \<longleftrightarrow>
     readSegments port s =
       map (\<lambda>(i, es). \<lparr>sts_ordinal = i, sts_value = Some es\<rparr>) (zip (map int [0..<length ess]) ess) \<and>
     (case readCursor port s of None \<Rightarrow> ess = [] | Some c \<Rightarrow> scr_nextOrdinal c = int (length ess))"

text \<open>The saves that are accepted after one another, from the cursor \<open>c\<close> on, and what they leave.\<close>

fun accepted :: "stream_cursor_record option \<Rightarrow> ('a last_sync \<times> 'a log_event list) list
    \<Rightarrow> ('a last_sync \<times> 'a log_event list) list" where
  "accepted c [] = []"
| "accepted c ((ls, es) # saves) =
     (case carryForward c ls of
        None \<Rightarrow> accepted c saves
      | Some (start, ordinal) \<Rightarrow>
          (ls, es) # accepted (Some (cursorRecord ls (start, if es = [] then ordinal else ordinal + 1))) saves)"

definition save_all :: "('s, 'a) stream_segment_port \<Rightarrow> ('a last_sync \<times> 'a log_event list) list \<Rightarrow> 's \<Rightarrow> 's" where
  "save_all port saves s = foldl (\<lambda>s (ls, es). fst (saveNewEvents port ls es s)) s saves"

fun cursor_after :: "stream_cursor_record option \<Rightarrow> ('a last_sync \<times> 'a log_event list) list
    \<Rightarrow> stream_cursor_record option" where
  "cursor_after c [] = c"
| "cursor_after c ((ls, es) # saves) =
     (case carryForward c ls of
        None \<Rightarrow> cursor_after c saves
      | Some (start, ordinal) \<Rightarrow>
          cursor_after (Some (cursorRecord ls (start, if es = [] then ordinal else ordinal + 1))) saves)"

text \<open>The cursor of a stream that starts empty: the last accepted save, the start of the first.\<close>

lemma cursor_after_Some:
  "\<exists>n. cursor_after (Some c) saves =
    (if accepted (Some c) saves = [] then Some c
     else Some (cursorRecord (fst (last (accepted (Some c) saves))) (scr_startBlock c, n)))"
proof (induction saves arbitrary: c)
  case Nil
  then show ?case by simp
next
  case (Cons sv saves)
  obtain ls es where sv: "sv = (ls, es)" by (cases sv)
  show ?case
  proof (cases "carryForward (Some c) ls")
    case None
    then show ?thesis using Cons[of c] by (cases "accepted (Some c) saves = []") (simp_all add: sv)
  next
    case (Some so)
    define d where
      "d = cursorRecord ls (scr_startBlock c, if es = [] then scr_nextOrdinal c else scr_nextOrdinal c + 1)"
    have so: "so = (scr_startBlock c, scr_nextOrdinal c)"
      using Some by (simp add: carryForward_def split: if_splits)
    have start: "scr_startBlock d = scr_startBlock c" by (simp add: cursorRecord_def d_def)
    have acc: "accepted (Some c) (sv # saves) = (ls, es) # accepted (Some d) saves"
      and aft: "cursor_after (Some c) (sv # saves) = cursor_after (Some d) saves"
      using Some so by (simp_all add: sv d_def)
    have d: "\<exists>n. Some d = Some (cursorRecord ls (scr_startBlock c, n))" by (auto simp: d_def)
    show ?thesis unfolding acc aft
      using Cons[of d] d by (cases "accepted (Some d) saves = []") (simp_all add: start)
  qed
qed

lemma cursor_after_None:
  assumes "saves \<noteq> []"
  shows "accepted None saves \<noteq> [] \<and> hd (accepted None saves) = hd saves \<and>
    (\<exists>n. cursor_after None saves =
      Some (cursorRecord (fst (last (accepted None saves))) (lastFromBlock (fst (hd saves)), n)))"
proof -
  obtain ls es rest where saves: "saves = (ls, es) # rest" using assms by (cases saves) auto
  let ?c = "cursorRecord ls (lastFromBlock ls, if es = [] then 0 else 1)"
  have start: "scr_startBlock ?c = lastFromBlock ls" by (simp add: cursorRecord_def)
  from cursor_after_Some[of ?c rest] obtain n where n: "cursor_after (Some ?c) rest =
      (if accepted (Some ?c) rest = [] then Some ?c
       else Some (cursorRecord (fst (last (accepted (Some ?c) rest))) (lastFromBlock ls, n)))"
    unfolding start by blast
  then show ?thesis by (cases "es = []") (auto simp: saves carryForward_def)
qed

text \<open>The ranges of accepted saves leave no hole: each starts at most one above the one before.\<close>

definition no_hole :: "('a last_sync \<times> 'a log_event list) list \<Rightarrow> bool" where
  "no_hole saves \<longleftrightarrow> successively (\<lambda>a b. lastFromBlock (fst b) \<le> lastToBlock (fst a) + 1) saves"

lemma accepted_no_hole:
  "no_hole (accepted c saves) \<and>
    (case c of None \<Rightarrow> True
     | Some r \<Rightarrow> accepted c saves \<noteq> [] \<longrightarrow>
         lastFromBlock (fst (hd (accepted c saves))) \<le> scr_lastToBlock r + 1)"
proof (induction c saves rule: accepted.induct)
  case (1 c)
  then show ?case by (simp add: no_hole_def split: option.splits)
next
  case (2 c ls es saves)
  show ?case
  proof (cases "carryForward c ls")
    case None
    then have "accepted c ((ls, es) # saves) = accepted c saves" by simp
    with 2(1)[OF None] show ?thesis by presburger
  next
    case (Some so)
    obtain start ordinal where so: "so = (start, ordinal)" by (cases so)
    let ?n = "if es = [] then ordinal else ordinal + 1"
    have "no_hole ((ls, es) # accepted (Some (cursorRecord ls (start, ?n))) saves)"
      using 2(2)[OF Some so[symmetric]] so
      by (cases "accepted (Some (cursorRecord ls (start, ?n))) saves")
        (auto simp: no_hole_def cursorRecord_def)
    moreover have "case c of None \<Rightarrow> True | Some r \<Rightarrow> lastFromBlock ls \<le> scr_lastToBlock r + 1"
      using Some by (auto simp: carryForward_def split: option.splits if_splits)
    moreover have "accepted c ((ls, es) # saves) = (ls, es) # accepted (Some (cursorRecord ls (start, ?n))) saves"
      using Some so by simp
    ultimately show ?thesis by (cases c) simp_all
  qed
qed

subsection \<open>The port's contract, and what the keeper has under it\<close>

locale segment_port =
  fixes port :: "('s, 'a) stream_segment_port"
    and ok :: "'s \<Rightarrow> bool"
  assumes commit_None: "\<lbrakk>ok s; f (readCursor port s) = None\<rbrakk> \<Longrightarrow> commitSegmentWithCursor port f s = s"
    and commit_cursor: "\<lbrakk>ok s; f (readCursor port s) = Some m\<rbrakk>
      \<Longrightarrow> readCursor port (commitSegmentWithCursor port f s) = Some (sgc_cursor m)"
    and commit_segments: "\<lbrakk>ok s; f (readCursor port s) = Some m; 0 \<le> sgc_ordinal m;
        \<forall>x \<in> set (readSegments port s). sts_ordinal x < sgc_ordinal m\<rbrakk>
      \<Longrightarrow> readSegments port (commitSegmentWithCursor port f s) =
        readSegments port s @ [\<lparr>sts_ordinal = sgc_ordinal m, sts_value = Some (sgc_segment m)\<rparr>]"
    and commit_ok: "ok s \<Longrightarrow> ok (commitSegmentWithCursor port f s)"
    and cursor_None: "\<lbrakk>ok s; g (readCursor port s) = None\<rbrakk> \<Longrightarrow> writeCursorOnly port g s = s"
    and cursor_cursor: "\<lbrakk>ok s; g (readCursor port s) = Some c\<rbrakk>
      \<Longrightarrow> readCursor port (writeCursorOnly port g s) = Some c"
    and cursor_segments: "ok s \<Longrightarrow> readSegments port (writeCursorOnly port g s) = readSegments port s"
    and cursor_ok: "ok s \<Longrightarrow> ok (writeCursorOnly port g s)"
    and clear_cursor: "ok s \<Longrightarrow> readCursor port (clearSubtree port s) = None"
    and clear_segments: "ok s \<Longrightarrow> readSegments port (clearSubtree port s) = []"
    and clear_ok: "ok s \<Longrightarrow> ok (clearSubtree port s)"
begin

lemma save_ok: "ok s \<Longrightarrow> ok (fst (saveNewEvents port ls es s))"
  by (simp add: saveNewEvents_def commit_ok cursor_ok)

lemma save_declined:
  assumes "ok s" and "snd (saveNewEvents port ls es s)"
  shows "fst (saveNewEvents port ls es s) = s"
  using assms commit_None[OF assms(1), of "allocateSegment ls es"] cursor_None[OF assms(1), of "nextCursor ls"]
  by (simp add: saveNewEvents_def declines_def allocateSegment_def nextCursor_def)

lemma save_cursor:
  assumes "ok s" and "carryForward (readCursor port s) ls = Some (start, ordinal)"
  shows "readCursor port (fst (saveNewEvents port ls es s)) =
    Some (cursorRecord ls (start, if es = [] then ordinal else ordinal + 1))"
  using assms commit_cursor[OF assms(1), of "allocateSegment ls es"]
    cursor_cursor[OF assms(1), of "nextCursor ls"]
  by (simp add: saveNewEvents_def allocateSegment_def nextCursor_def)

lemma carry_ordinal:
  assumes "healthy port s ess" and "carryForward (readCursor port s) ls = Some (start, ordinal)"
  shows "ordinal = int (length ess)"
  using assms by (auto simp: healthy_def carryForward_def split: option.splits if_splits)

lemma save_healthy:
  assumes ok: "ok s" and h: "healthy port s ess"
    and carry: "carryForward (readCursor port s) ls = Some (start, ordinal)"
  shows "healthy port (fst (saveNewEvents port ls es s)) (if es = [] then ess else ess @ [es])"
proof (cases "es = []")
  case True
  then show ?thesis
    using h save_cursor[OF ok carry, of es] carry_ordinal[OF h carry] cursor_segments[OF ok, of "nextCursor ls"]
    by (simp add: healthy_def saveNewEvents_def cursorRecord_def)
next
  case False
  let ?m = "\<lparr>sgc_ordinal = ordinal, sgc_segment = es, sgc_cursor = cursorRecord ls (start, ordinal + 1)\<rparr>"
  note ord = carry_ordinal[OF h carry]
  have m: "allocateSegment ls es (readCursor port s) = Some ?m"
    by (simp add: allocateSegment_def carry)
  have "\<forall>x \<in> set (readSegments port s). sts_ordinal x < sgc_ordinal ?m"
    using h ord by (auto simp: healthy_def dest!: set_zip_leftD)
  from commit_segments[where f = "allocateSegment ls es", OF ok m _ this] ord
  have "readSegments port (fst (saveNewEvents port ls es s)) =
      readSegments port s @ [\<lparr>sts_ordinal = ordinal, sts_value = Some es\<rparr>]"
    using False by (simp add: saveNewEvents_def)
  then show ?thesis
    using h ord save_cursor[OF ok carry, of es] False by (simp add: healthy_def cursorRecord_def)
qed

lemma save_all_ok: "ok s \<Longrightarrow> ok (save_all port saves s)"
  by (induction saves arbitrary: s) (auto simp: save_all_def save_ok)

text \<open>After any saves: the segments are the accepted ones, the cursor is the last accepted one.\<close>

lemma save_all_healthy:
  assumes "ok s" and "healthy port s ess"
  shows "healthy port (save_all port saves s)
      (ess @ filter (\<lambda>es. es \<noteq> []) (map snd (accepted (readCursor port s) saves)))"
  using assms
proof (induction saves arbitrary: s ess)
  case Nil
  then show ?case by (simp add: save_all_def)
next
  case (Cons sv saves)
  obtain ls es where sv: "sv = (ls, es)" by (cases sv)
  let ?s = "fst (saveNewEvents port ls es s)"
  have step: "save_all port (sv # saves) s = save_all port saves ?s"
    by (simp add: save_all_def sv)
  note step' = step[unfolded sv]
  show ?case
  proof (cases "carryForward (readCursor port s) ls")
    case None
    then have "?s = s" using save_declined[OF Cons.prems(1)] by (simp add: saveNewEvents_def declines_def)
    with Cons.IH[OF Cons.prems] None show ?thesis by (simp add: step' sv)
  next
    case (Some so)
    obtain start ordinal where so: "so = (start, ordinal)" by (cases so)
    from Cons.IH[OF save_ok[OF Cons.prems(1)] save_healthy[OF Cons.prems Some[unfolded so], of es]]
    show ?thesis using Some so save_cursor[OF Cons.prems(1) Some[unfolded so], of es]
      by (simp add: step' sv split: if_splits)
  qed
qed

lemma save_all_cursor:
  assumes "ok s"
  shows "readCursor port (save_all port saves s) = cursor_after (readCursor port s) saves"
  using assms
proof (induction saves arbitrary: s)
  case Nil
  then show ?case by (simp add: save_all_def)
next
  case (Cons sv saves)
  obtain ls es where sv: "sv = (ls, es)" by (cases sv)
  let ?s = "fst (saveNewEvents port ls es s)"
  have step: "save_all port ((ls, es) # saves) s = save_all port saves ?s"
    by (simp add: save_all_def)
  show ?case
  proof (cases "carryForward (readCursor port s) ls")
    case None
    then have "?s = s" using save_declined[OF Cons.prems(1)] by (simp add: saveNewEvents_def declines_def)
    with Cons.IH[OF Cons.prems] None show ?thesis by (simp add: step sv)
  next
    case (Some so)
    obtain start ordinal where so: "so = (start, ordinal)" by (cases so)
    from Cons.IH[OF save_ok[OF Cons.prems], of ls es] save_cursor[OF Cons.prems Some[unfolded so], of es]
    show ?thesis using Some so by (simp add: step sv)
  qed
qed

lemma clear_healthy: "ok s \<Longrightarrow> healthy port (clearStream port s) []"
  by (simp add: healthy_def clearStream_def clear_cursor clear_segments)

lemma scan_healthy:
  "scan_segments (int m) (map (\<lambda>(i, es). \<lparr>sts_ordinal = i, sts_value = Some es\<rparr>)
      (zip (map int [m..<m + length ess]) ess)) = Inr (concat ess)"
proof (induction ess arbitrary: m)
  case Nil
  then show ?case by simp
next
  case (Cons es ess)
  have "[m..<m + length (es # ess)] = m # [Suc m..<Suc m + length ess]"
    by (simp add: upt_conv_Cons del: upt_Suc)
  with Cons[of "Suc m"] show ?case by (simp add: add.commute)
qed

lemma fetch_healthy:
  assumes "healthy port s ess" and "readCursor port s = Some c"
  shows "fetchFrom port s from =
    (if scr_startBlock c > from then DoesNotReachBack (scr_startBlock c)
     else StreamFound
       \<lparr>context_id = scr_context c, latestBlock = scr_latestBlock c, lastFromBlock = scr_lastFromBlock c,
        lastToBlock = scr_lastToBlock c, unconfirmedBlocks = []\<rparr>
       (filter (\<lambda>e. blockNumber e \<ge> from) (concat ess)))"
proof -
  have "length (readSegments port s) = length ess" "scr_nextOrdinal c = int (length ess)"
    "scan_segments 0 (readSegments port s) = Inr (concat ess)"
    using assms scan_healthy[of 0 ess] by (simp_all add: healthy_def)
  then show ?thesis by (simp add: fetchFrom_def assms(2))
qed

text \<open>What a reader gets back after the subtree was cleared and any saves were offered.\<close>

lemma stored_round_trip:
  assumes "ok s" and "saves \<noteq> []"
  shows "no_hole (accepted None saves) \<and> hd (accepted None saves) = hd saves \<and>
    fetchFrom port (save_all port saves (clearStream port s)) from =
      (let kept = accepted None saves in
       if lastFromBlock (fst (hd saves)) > from
       then DoesNotReachBack (lastFromBlock (fst (hd saves)))
       else StreamFound
         (fst (last kept)\<lparr>unconfirmedBlocks := []\<rparr>)
         (filter (\<lambda>e. blockNumber e \<ge> from) (concat (map snd kept))))"
proof -
  let ?s = "clearStream port s"
  have ok: "ok ?s" by (simp add: clearStream_def clear_ok assms(1))
  have none: "readCursor port ?s = None" by (simp add: clearStream_def clear_cursor assms(1))
  from save_all_healthy[OF ok clear_healthy[OF assms(1)], of saves]
  have h: "healthy port (save_all port saves ?s) (filter (\<lambda>es. es \<noteq> []) (map snd (accepted None saves)))"
    by (simp add: none)
  obtain n where c: "readCursor port (save_all port saves ?s) =
      Some (cursorRecord (fst (last (accepted None saves))) (lastFromBlock (fst (hd saves)), n))"
    using cursor_after_None[OF assms(2)] by (auto simp: save_all_cursor[OF ok] none)
  have "concat (filter (\<lambda>es. es \<noteq> []) ess) = concat ess" for ess :: "'a log_event list list"
    by (induction ess) auto
  then show ?thesis
    using accepted_no_hole[of None saves] cursor_after_None[OF assms(2)] fetch_healthy[OF h c]
    by (simp add: cursorRecord_def Let_def)
qed

end

end
