(* ===== verification/Stream_IndexedDB.thy ===== *)
theory Stream_IndexedDB
  imports Stream_Segments "HOL-Library.Char_ord" "HOL-Library.List_Lexorder" "HOL-Library.Product_Lexorder"
begin

section \<open>The stream keeper over IndexedDB\<close>

text \<open>
  \<open>packages/browser/src/storage/stream/OnIndexedDB.ts\<close>: the port of the segmented keeper over one
  IndexedDB object store that holds every stream (and more). An object store is modelled as the
  web platform specifies it: records in ascending key order, array keys compared
  lexicographically, numbers below strings below arrays. A transaction is one function on the
  store. The digest of a source (\<open>streamDigestOf\<close>) is an argument.
\<close>

subsection \<open>Keys in their IndexedDB order\<close>

datatype key_part = NumPart int | StrPart string | EmptyArray

fun part_rank :: "key_part \<Rightarrow> nat \<times> int \<times> string" where
  "part_rank (NumPart n) = (0, n, [])"
| "part_rank (StrPart s) = (1, 0, s)"
| "part_rank EmptyArray = (2, 0, [])"

lemma part_rank_inj: "part_rank a = part_rank b \<longleftrightarrow> a = b"
  by (cases a; cases b) auto

instantiation key_part :: linorder
begin

definition less_eq_key_part :: "key_part \<Rightarrow> key_part \<Rightarrow> bool" where
  "less_eq_key_part a b \<longleftrightarrow> part_rank a \<le> part_rank b"

definition less_key_part :: "key_part \<Rightarrow> key_part \<Rightarrow> bool" where
  "less_key_part a b \<longleftrightarrow> part_rank a < part_rank b"

instance
  by standard
    (auto simp: less_eq_key_part_def less_key_part_def part_rank_inj[symmetric] simp del: less_eq_prod_simp
      less_prod_simp)

end

type_synonym idb_key = "key_part list"

record key_range =
  range_lower :: idb_key
  range_upper :: idb_key
  lower_open :: bool
  upper_open :: bool

definition in_key_range :: "key_range \<Rightarrow> idb_key \<Rightarrow> bool" where
  "in_key_range r k \<longleftrightarrow>
     (if lower_open r then range_lower r < k else range_lower r \<le> k) \<and>
     (if upper_open r then k < range_upper r else k \<le> range_upper r)"

subsection \<open>An object store\<close>

datatype 'a stored_value =
    CursorValue stream_cursor_record
  | SegmentValue "'a log_event list"
  | OtherValue string

type_synonym 'a object_store = "(idb_key \<times> 'a stored_value) list"

fun idb_put :: "idb_key \<Rightarrow> 'v \<Rightarrow> (idb_key \<times> 'v) list \<Rightarrow> (idb_key \<times> 'v) list" where
  "idb_put k v [] = [(k, v)]"
| "idb_put k v ((k', v') # db) =
     (if k < k' then (k, v) # (k', v') # db
      else if k = k' then (k, v) # db
      else (k', v') # idb_put k v db)"

definition idb_delete :: "idb_key \<Rightarrow> (idb_key \<times> 'v) list \<Rightarrow> (idb_key \<times> 'v) list" where
  "idb_delete k db = filter (\<lambda>r. fst r \<noteq> k) db"

definition idb_getAll :: "key_range \<Rightarrow> (idb_key \<times> 'v) list \<Rightarrow> (idb_key \<times> 'v) list" where
  "idb_getAll r db = filter (\<lambda>x. in_key_range r (fst x)) db"

definition idb_sorted :: "(idb_key \<times> 'v) list \<Rightarrow> bool" where
  "idb_sorted db \<longleftrightarrow> sorted_wrt (<) (map fst db)"

subsection \<open>The address of a stream, and the port over it\<close>

definition CURSOR :: string where "CURSOR = ''cursor''"

definition stream_prefix :: "string \<Rightarrow> string \<Rightarrow> idb_key" where
  "stream_prefix name digest = [StrPart ''stream'', StrPart name, StrPart digest]"

record stream_subtree =
  sub_cursor :: idb_key
  sub_segment :: "int \<Rightarrow> idb_key"
  sub_segments :: key_range
  sub_subtree :: key_range

definition streamSubtree :: "string \<Rightarrow> string \<Rightarrow> stream_subtree" where
  "streamSubtree name digest =
     (let p = stream_prefix name digest in
      \<lparr>sub_cursor = p @ [StrPart CURSOR],
       sub_segment = (\<lambda>ordinal. p @ [NumPart ordinal]),
       sub_segments =
         \<lparr>range_lower = p @ [NumPart 0], range_upper = p @ [StrPart CURSOR],
          lower_open = False, upper_open = True\<rparr>,
       sub_subtree =
         \<lparr>range_lower = p, range_upper = p @ [EmptyArray], lower_open = True, upper_open = False\<rparr>\<rparr>)"

text \<open>
  The cursor record is read without validation in the source; any other shape under its key is
  excluded by the invariant \<open>idb_ok\<close> below. \<open>key[3] as number\<close> of a key whose fourth part is
  no number never equals an ordinal, which \<open>-1\<close> stands for.
\<close>

fun as_cursor :: "'a stored_value option \<Rightarrow> stream_cursor_record option" where
  "as_cursor (Some (CursorValue c)) = Some c"
| "as_cursor _ = None"

fun as_segment :: "'a stored_value \<Rightarrow> 'a log_event list option" where
  "as_segment (SegmentValue es) = Some es"
| "as_segment _ = None"

definition ordinal_of :: "idb_key \<Rightarrow> int" where
  "ordinal_of k = (case drop 3 k of NumPart n # _ \<Rightarrow> n | _ \<Rightarrow> -1)"

definition port_readCursor :: "stream_subtree \<Rightarrow> 'a object_store \<Rightarrow> stream_cursor_record option" where
  "port_readCursor addr db = as_cursor (map_of db (sub_cursor addr))"

definition port_readSegments :: "stream_subtree \<Rightarrow> 'a object_store \<Rightarrow> 'a stored_segment list" where
  "port_readSegments addr db =
     map (\<lambda>(k, v). \<lparr>sts_ordinal = ordinal_of k, sts_value = as_segment v\<rparr>)
       (idb_getAll (sub_segments addr) db)"

definition port_commit :: "stream_subtree \<Rightarrow> (stream_cursor_record option \<Rightarrow> 'a segment_commit option)
    \<Rightarrow> 'a object_store \<Rightarrow> 'a object_store" where
  "port_commit addr allocate db =
     (case allocate (port_readCursor addr db) of
        None \<Rightarrow> db
      | Some c \<Rightarrow>
          idb_put (sub_cursor addr) (CursorValue (sgc_cursor c))
            (idb_put (sub_segment addr (sgc_ordinal c)) (SegmentValue (sgc_segment c)) db))"

definition port_writeCursorOnly :: "stream_subtree \<Rightarrow> (stream_cursor_record option \<Rightarrow> stream_cursor_record option)
    \<Rightarrow> 'a object_store \<Rightarrow> 'a object_store" where
  "port_writeCursorOnly addr next_cursor db =
     (case next_cursor (port_readCursor addr db) of
        None \<Rightarrow> db
      | Some c \<Rightarrow> idb_put (sub_cursor addr) (CursorValue c) db)"

definition port_clearSubtree :: "stream_subtree \<Rightarrow> 'a object_store \<Rightarrow> 'a object_store" where
  "port_clearSubtree addr db = fold idb_delete (map fst (idb_getAll (sub_subtree addr) db)) db"

definition portOver :: "string \<Rightarrow> string \<Rightarrow> ('a object_store, 'a) stream_segment_port" where
  "portOver name digest =
     (let addr = streamSubtree name digest in
      \<lparr>readCursor = port_readCursor addr,
       commitSegmentWithCursor = port_commit addr,
       writeCursorOnly = port_writeCursorOnly addr,
       readSegments = port_readSegments addr,
       clearSubtree = port_clearSubtree addr\<rparr>)"

subsection \<open>Object store lemmas\<close>

lemma map_of_put: "idb_sorted db \<Longrightarrow> map_of (idb_put k v db) = (map_of db)(k \<mapsto> v)"
  by (induction k v db rule: idb_put.induct) (auto simp: idb_sorted_def fun_eq_iff)

lemma keys_put: "fst ` set (idb_put k v db) = insert k (fst ` set db)"
  by (induction k v db rule: idb_put.induct) auto

lemma set_put: "set (idb_put k v db) \<subseteq> insert (k, v) (set db)"
  by (induction k v db rule: idb_put.induct) auto

lemma sorted_put: "idb_sorted db \<Longrightarrow> idb_sorted (idb_put k v db)"
proof (induction k v db rule: idb_put.induct)
  case (1 k v)
  then show ?case by (simp add: idb_sorted_def)
next
  case (2 k v k' v' db)
  have "\<forall>x \<in> fst ` set (idb_put k v db). k' < x" if "\<not> k < k'" "k \<noteq> k'"
    using 2(2) that by (auto simp: idb_sorted_def keys_put)
  with 2 show ?case by (auto simp: idb_sorted_def)
qed

lemma filter_put_out: "\<not> P k \<Longrightarrow> filter (\<lambda>x. P (fst x)) (idb_put k v db) = filter (\<lambda>x. P (fst x)) db"
  by (induction k v db rule: idb_put.induct) auto

lemma filter_put_last:
  assumes "idb_sorted db" and "P k" and "\<forall>x \<in> set db. P (fst x) \<longrightarrow> fst x < k"
  shows "filter (\<lambda>x. P (fst x)) (idb_put k v db) = filter (\<lambda>x. P (fst x)) db @ [(k, v)]"
  using assms
proof (induction k v db rule: idb_put.induct)
  case (1 k v)
  then show ?case by simp
next
  case (2 k v k' v' db)
  have "filter (\<lambda>x. P (fst x)) ((k', v') # db) = []" if "k < k'"
    using 2(2,4) that by (force simp: idb_sorted_def filter_empty_conv)
  with 2 show ?case by (auto simp: idb_sorted_def)
qed

lemma fold_delete: "fold idb_delete ks db = filter (\<lambda>r. fst r \<notin> set ks) db"
  by (induction ks arbitrary: db) (auto simp: idb_delete_def intro: filter_cong)

text \<open>Keys between two keys of one prefix carry that prefix.\<close>

lemma same_prefix:
  fixes u v :: "'b::linorder list"
  assumes "length u = length v" and "u @ a \<le> v @ b" and "v @ b \<le> u @ c"
  shows "u = v"
  using assms
proof (induction u v rule: list_induct2)
  case Nil
  then show ?case by simp
next
  case (Cons x u y v)
  then show ?case by (auto simp: Cons_le_Cons)
qed

lemma append_le_append: "u @ a \<le> u @ (b :: 'b::linorder list) \<longleftrightarrow> a \<le> b"
  by (induction u) (auto simp: Cons_le_Cons)

lemma append_less_append: "u @ a < u @ (b :: 'b::linorder list) \<longleftrightarrow> a < b"
  by (induction u) auto

lemma part_order [simp]:
  "NumPart m \<le> NumPart n \<longleftrightarrow> m \<le> n" "NumPart m < NumPart n \<longleftrightarrow> m < n"
  "NumPart m \<le> StrPart s" "NumPart m < StrPart s" "\<not> StrPart s \<le> NumPart m" "\<not> StrPart s < NumPart m"
  "StrPart s \<le> EmptyArray" "StrPart s < EmptyArray" "NumPart m \<le> EmptyArray" "NumPart m < EmptyArray"
  by (auto simp: less_eq_key_part_def less_key_part_def)

lemmas address_defs = streamSubtree_def stream_prefix_def Let_def

lemma segments_range:
  "in_key_range (sub_segments (streamSubtree name digest)) (stream_prefix name digest @ [NumPart n]) \<longleftrightarrow> 0 \<le> n"
  by (auto simp: address_defs in_key_range_def Cons_le_Cons)

lemma segments_range_cursor:
  "\<not> in_key_range (sub_segments (streamSubtree name digest)) (stream_prefix name digest @ [StrPart CURSOR])"
  by (simp add: address_defs in_key_range_def)

lemma range_prefix:
  assumes "in_key_range (sub_segments (streamSubtree name digest)) k \<or>
      in_key_range (sub_subtree (streamSubtree name digest)) k"
    and "length (take 3 k) = 3"
  shows "take 3 k = stream_prefix name digest"
proof -
  let ?p = "stream_prefix name digest"
  have k: "k = take 3 k @ drop 3 k" by simp
  from assms(1) obtain a c where "?p @ a \<le> k" "k \<le> ?p @ c"
  proof
    assume "in_key_range (sub_segments (streamSubtree name digest)) k"
    then have "?p @ [NumPart 0] \<le> k" "k \<le> ?p @ [StrPart CURSOR]"
      by (auto simp: in_key_range_def streamSubtree_def Let_def)
    then show ?thesis by (rule that)
  next
    assume "in_key_range (sub_subtree (streamSubtree name digest)) k"
    then have "?p @ [] \<le> k" "k \<le> ?p @ [EmptyArray]"
      by (auto simp: in_key_range_def streamSubtree_def Let_def)
    then show ?thesis by (rule that)
  qed
  then have "?p @ a \<le> take 3 k @ drop 3 k" "take 3 k @ drop 3 k \<le> ?p @ c" by simp_all
  from same_prefix[OF _ this] assms(2) show ?thesis by (simp add: stream_prefix_def)
qed

subsection \<open>The invariant of a subtree\<close>

text \<open>
  The store is in key order, and under the stream's prefix there is nothing but the cursor
  record and segments under ordinals. Other streams, and every other record of the store, are
  unconstrained but for being addressed by at least three parts.
\<close>

definition own_record :: "string \<Rightarrow> string \<Rightarrow> idb_key \<times> 'a stored_value \<Rightarrow> bool" where
  "own_record name digest r \<longleftrightarrow>
     (\<exists>n. fst r = stream_prefix name digest @ [NumPart n]) \<or>
     (fst r = stream_prefix name digest @ [StrPart CURSOR] \<and> (\<exists>c. snd r = CursorValue c))"

definition idb_ok :: "string \<Rightarrow> string \<Rightarrow> 'a object_store \<Rightarrow> bool" where
  "idb_ok name digest db \<longleftrightarrow> idb_sorted db \<and>
     (\<forall>r \<in> set db. 3 \<le> length (fst r) \<and>
        (take 3 (fst r) = stream_prefix name digest \<and> fst r \<noteq> stream_prefix name digest
           \<longrightarrow> own_record name digest r))"

lemma prefix_facts [simp]:
  "length (stream_prefix name digest) = 3"
  "take 3 (stream_prefix name digest @ xs) = stream_prefix name digest"
  "drop 3 (stream_prefix name digest @ xs) = xs"
  "stream_prefix name digest @ [x] \<noteq> stream_prefix name digest"
  by (simp_all add: stream_prefix_def)

lemma in_range_own:
  assumes "idb_ok name digest db" and "r \<in> set db"
    and "in_key_range (sub_segments (streamSubtree name digest)) (fst r)"
  shows "\<exists>n. 0 \<le> n \<and> fst r = stream_prefix name digest @ [NumPart n]"
proof -
  have len: "length (take 3 (fst r)) = 3" using assms(1,2) by (auto simp: idb_ok_def)
  from range_prefix[OF _ this] assms(3) have "take 3 (fst r) = stream_prefix name digest" by blast
  moreover have "fst r \<noteq> stream_prefix name digest"
    using assms(3) by (auto simp: in_key_range_def address_defs)
  ultimately have "own_record name digest r" using assms(1,2) by (auto simp: idb_ok_def)
  then show ?thesis
    using assms(3) segments_range_cursor[of name digest] segments_range[of name digest]
    by (auto simp: own_record_def)
qed

lemma idb_ok_put:
  assumes "idb_ok name digest db" and "own_record name digest (k, v)"
  shows "idb_ok name digest (idb_put k v db)"
  unfolding idb_ok_def
proof (intro conjI ballI)
  show "idb_sorted (idb_put k v db)" using assms(1) by (simp add: idb_ok_def sorted_put)
  fix r assume "r \<in> set (idb_put k v db)"
  then have "r = (k, v) \<or> r \<in> set db" using set_put[of k v db] by auto
  then show "3 \<le> length (fst r)" and
    "take 3 (fst r) = stream_prefix name digest \<and> fst r \<noteq> stream_prefix name digest
       \<longrightarrow> own_record name digest r"
    using assms by (auto simp: idb_ok_def own_record_def)
qed

lemma own_cursor: "own_record name digest (sub_cursor (streamSubtree name digest), CursorValue c)"
  by (simp add: own_record_def streamSubtree_def Let_def)

lemma own_segment: "own_record name digest (sub_segment (streamSubtree name digest) n, v)"
  by (simp add: own_record_def streamSubtree_def Let_def)

lemma port_fields [simp]:
  "readCursor (portOver name digest) = port_readCursor (streamSubtree name digest)"
  "readSegments (portOver name digest) = port_readSegments (streamSubtree name digest)"
  "commitSegmentWithCursor (portOver name digest) = port_commit (streamSubtree name digest)"
  "writeCursorOnly (portOver name digest) = port_writeCursorOnly (streamSubtree name digest)"
  "clearSubtree (portOver name digest) = port_clearSubtree (streamSubtree name digest)"
  by (simp_all add: portOver_def Let_def)

lemma readSegments_put_cursor:
  "port_readSegments (streamSubtree name digest)
     (idb_put (sub_cursor (streamSubtree name digest)) v db) =
   port_readSegments (streamSubtree name digest) db"
proof -
  have "sub_cursor (streamSubtree name digest) = stream_prefix name digest @ [StrPart CURSOR]"
    by (simp add: streamSubtree_def Let_def)
  then show ?thesis
    using filter_put_out[where P = "in_key_range (sub_segments (streamSubtree name digest))",
        OF segments_range_cursor, of v db]
    by (simp add: port_readSegments_def idb_getAll_def)
qed

lemma readSegments_put_segment:
  assumes ok: "idb_ok name digest db" and n: "0 \<le> n"
    and last: "\<forall>x \<in> set (port_readSegments (streamSubtree name digest) db). sts_ordinal x < n"
  shows "port_readSegments (streamSubtree name digest)
      (idb_put (sub_segment (streamSubtree name digest) n) (SegmentValue es) db) =
    port_readSegments (streamSubtree name digest) db @ [\<lparr>sts_ordinal = n, sts_value = Some es\<rparr>]"
proof -
  let ?P = "in_key_range (sub_segments (streamSubtree name digest))"
  let ?k = "stream_prefix name digest @ [NumPart n]"
  have key: "sub_segment (streamSubtree name digest) n = ?k"
    by (simp add: streamSubtree_def Let_def)
  have below: "\<forall>r \<in> set db. ?P (fst r) \<longrightarrow> fst r < ?k"
  proof (intro ballI impI)
    fix r assume r: "r \<in> set db" "?P (fst r)"
    from in_range_own[OF ok r] obtain m where m: "0 \<le> m" "fst r = stream_prefix name digest @ [NumPart m]"
      by blast
    have "\<lparr>sts_ordinal = ordinal_of (fst r), sts_value = as_segment (snd r)\<rparr>
        \<in> set (port_readSegments (streamSubtree name digest) db)"
      using r by (force simp: port_readSegments_def idb_getAll_def split_beta)
    with last m have "m < n" by (auto simp: ordinal_of_def)
    with m show "fst r < ?k" by (simp add: append_less_append)
  qed
  have sorted: "idb_sorted db" using ok by (simp add: idb_ok_def)
  from filter_put_last[OF sorted _ below, of "SegmentValue es"] segments_range[of name digest n] n
  show ?thesis by (simp add: key port_readSegments_def idb_getAll_def ordinal_of_def)
qed

lemma readCursor_put:
  "idb_ok name digest db \<Longrightarrow>
    port_readCursor (streamSubtree name digest) (idb_put (sub_cursor (streamSubtree name digest)) (CursorValue c) db)
      = Some c"
  by (simp add: port_readCursor_def map_of_put idb_ok_def)

lemma clear_own:
  assumes "idb_ok name digest db" and "r \<in> set (port_clearSubtree (streamSubtree name digest) db)"
  shows "r \<in> set db \<and> \<not> own_record name digest r"
proof -
  have "in_key_range (sub_subtree (streamSubtree name digest)) (fst r)" if "own_record name digest r"
    using that by (auto simp: own_record_def in_key_range_def address_defs Cons_le_Cons)
  with assms show ?thesis
    by (force simp: port_clearSubtree_def fold_delete idb_getAll_def)
qed

lemma idb_ok_filter: "idb_ok name digest db \<Longrightarrow> idb_ok name digest (filter P db)"
  by (auto simp: idb_ok_def idb_sorted_def sorted_wrt_map sorted_wrt_filter)

lemma idb_ok_clear: "idb_ok name digest db \<Longrightarrow> idb_ok name digest (port_clearSubtree (streamSubtree name digest) db)"
  by (simp add: port_clearSubtree_def fold_delete idb_ok_filter)

lemma clear_reads:
  assumes ok: "idb_ok name digest db"
  shows "port_readCursor (streamSubtree name digest) (port_clearSubtree (streamSubtree name digest) db) = None"
    and "port_readSegments (streamSubtree name digest) (port_clearSubtree (streamSubtree name digest) db) = []"
proof -
  let ?db = "port_clearSubtree (streamSubtree name digest) db"
  have cleared: "\<not> own_record name digest r" if "r \<in> set ?db" for r
    using clear_own[OF ok that] by simp
  note ok' = idb_ok_clear[OF ok]
  have "\<not> in_key_range (sub_segments (streamSubtree name digest)) (fst r)" if r: "r \<in> set ?db" for r
  proof
    assume i: "in_key_range (sub_segments (streamSubtree name digest)) (fst r)"
    from in_range_own[OF ok' r i] have own: "own_record name digest r" by (auto simp: own_record_def)
    from cleared[OF r] have "\<not> own_record name digest r" .
    then show False using own by (rule notE)
  qed
  then show "port_readSegments (streamSubtree name digest) ?db = []"
    by (simp add: port_readSegments_def idb_getAll_def filter_empty_conv)
  have "as_cursor (Some v) = None" if "map_of ?db (sub_cursor (streamSubtree name digest)) = Some v" for v
  proof -
    from map_of_SomeD[OF that] ok' have "own_record name digest (sub_cursor (streamSubtree name digest), v)"
      by (auto simp: idb_ok_def streamSubtree_def Let_def)
    with cleared[OF map_of_SomeD[OF that]] show ?thesis by simp
  qed
  then show "port_readCursor (streamSubtree name digest) ?db = None"
    by (cases "map_of ?db (sub_cursor (streamSubtree name digest))") (auto simp: port_readCursor_def)
qed

interpretation idb: segment_port "portOver name digest" "idb_ok name digest" for name digest
proof
  fix s :: "'b object_store" and f and m :: "'b segment_commit"
  assume ok: "idb_ok name digest s"
    and f: "f (readCursor (portOver name digest) s) = Some m" and m: "0 \<le> sgc_ordinal m"
    and last: "\<forall>x \<in> set (readSegments (portOver name digest) s). sts_ordinal x < sgc_ordinal m"
  from readSegments_put_segment[OF ok m, of "sgc_segment m"] last f
  show "readSegments (portOver name digest) (commitSegmentWithCursor (portOver name digest) f s) =
      readSegments (portOver name digest) s @
        [\<lparr>sts_ordinal = sgc_ordinal m, sts_value = Some (sgc_segment m)\<rparr>]"
    by (simp add: port_commit_def readSegments_put_cursor)
qed (auto simp: port_commit_def port_writeCursorOnly_def readSegments_put_cursor readCursor_put own_cursor own_segment
    clear_reads idb_ok_clear idb_ok_put split: option.splits)

subsection \<open>What the keeper stores and gives back\<close>

definition sample_save :: "int \<Rightarrow> int \<Rightarrow> unit log_event list \<Rightarrow> unit last_sync \<times> unit log_event list" where
  "sample_save b0 to es =
     (\<lparr>context_id = \<lparr>ctx_source = [], ctx_config = ''c'', ctx_processor = ''''\<rparr>, latestBlock = to,
       lastFromBlock = b0, lastToBlock = to, unconfirmedBlocks = []\<rparr>, es)"

text \<open>
  C29. What a browser keeps is what was saved: after the stream's subtree was cleared and any
  batches were offered, the batches that were accepted leave no hole between their ranges, a
  declined batch changed nothing, and reading back from a block the stream reaches returns
  exactly the accepted events from that block on, in order, under the last accepted cursor.
\<close>

theorem idb_stream_round_trip:
  assumes "idb_ok name digest db" and "saves \<noteq> []" and "lastFromBlock (fst (hd saves)) \<le> b0"
  shows "no_hole (accepted None saves) \<and>
    fetchFrom (portOver name digest)
        (save_all (portOver name digest) saves (clearStream (portOver name digest) db)) b0 =
      StreamFound (fst (last (accepted None saves))\<lparr>unconfirmedBlocks := []\<rparr>)
        (filter (\<lambda>e. b0 \<le> blockNumber e) (concat (map snd (accepted None saves))))"
  using idb.stored_round_trip[OF assms(1,2), of b0] assms(3) by (simp add: Let_def)

theorem idb_stream_round_trip_witness:
  "\<exists>ls. fetchFrom (portOver ''n'' ''d'')
      (save_all (portOver ''n'' ''d'')
        [sample_save 1 5 [sample_log 2 ''a'' 0], sample_save 9 12 [sample_log 9 ''x'' 0],
         sample_save 6 7 [sample_log 6 ''b'' 0]]
        (clearStream (portOver ''n'' ''d'') [])) 1
    = StreamFound ls [sample_log 2 ''a'' 0, sample_log 6 ''b'' 0]"
  using idb_stream_round_trip[of "''n''" "''d''" "[] :: unit object_store"
      "[sample_save 1 5 [sample_log 2 ''a'' 0], sample_save 9 12 [sample_log 9 ''x'' 0],
         sample_save 6 7 [sample_log 6 ''b'' 0]]" 1]
  by (simp add: idb_ok_def idb_sorted_def sample_save_def carryForward_def cursorRecord_def)

text \<open>Another stream of the same store.\<close>

lemma prefix_eq:
  "stream_prefix n d @ xs = stream_prefix n' d' @ ys \<longleftrightarrow> (n, d) = (n', d') \<and> xs = ys"
  by (auto simp: stream_prefix_def)

lemma other_range:
  assumes "(n, d) \<noteq> (n', d')"
  shows "\<not> in_key_range (sub_segments (streamSubtree n' d')) (stream_prefix n d @ xs)"
    and "\<not> in_key_range (sub_subtree (streamSubtree n' d')) (stream_prefix n d @ xs)"
proof -
  have "stream_prefix n d \<noteq> stream_prefix n' d'" using assms by (simp add: stream_prefix_def)
  then show "\<not> in_key_range (sub_segments (streamSubtree n' d')) (stream_prefix n d @ xs)"
    and "\<not> in_key_range (sub_subtree (streamSubtree n' d')) (stream_prefix n d @ xs)"
    using range_prefix[of n' d' "stream_prefix n d @ xs"] by auto
qed

lemma fetch_cong:
  assumes "readCursor port s = readCursor port s'" and "readSegments port s = readSegments port s'"
  shows "fetchFrom port s b0 = fetchFrom port s' b0"
  by (simp only: fetchFrom_def assms)

definition own_key :: "string \<Rightarrow> string \<Rightarrow> idb_key \<Rightarrow> bool" where
  "own_key n d k \<longleftrightarrow> (\<exists>xs. k = stream_prefix n d @ xs)"

lemma other_put:
  assumes ne: "(n, d) \<noteq> (n', d')" and sorted: "idb_sorted db" and own: "own_key n d k"
  shows "port_readCursor (streamSubtree n' d') (idb_put k v db) = port_readCursor (streamSubtree n' d') db"
    and "port_readSegments (streamSubtree n' d') (idb_put k v db) = port_readSegments (streamSubtree n' d') db"
proof -
  obtain xs where k: "k = stream_prefix n d @ xs" using own by (auto simp: own_key_def)
  have "k \<noteq> sub_cursor (streamSubtree n' d')" using ne by (simp only: k streamSubtree_def Let_def prefix_eq stream_subtree.simps) simp
  then show "port_readCursor (streamSubtree n' d') (idb_put k v db) = port_readCursor (streamSubtree n' d') db"
    by (simp add: port_readCursor_def map_of_put[OF sorted])
  have "\<not> in_key_range (sub_segments (streamSubtree n' d')) k" using other_range(1)[OF ne] by (simp add: k)
  from filter_put_out[where P = "in_key_range (sub_segments (streamSubtree n' d'))", OF this, of v db]
  show "port_readSegments (streamSubtree n' d') (idb_put k v db) = port_readSegments (streamSubtree n' d') db"
    by (simp add: port_readSegments_def idb_getAll_def)
qed

lemma own_keys [simp]:
  "own_key n d (sub_cursor (streamSubtree n d))" "own_key n d (sub_segment (streamSubtree n d) i)"
  by (auto simp: own_key_def streamSubtree_def Let_def)

lemma other_save:
  assumes ne: "(n, d) \<noteq> (n', d')" and sorted: "idb_sorted db"
  shows "port_readCursor (streamSubtree n' d') (fst (saveNewEvents (portOver n d) ls es db)) =
      port_readCursor (streamSubtree n' d') db"
    and "port_readSegments (streamSubtree n' d') (fst (saveNewEvents (portOver n d) ls es db)) =
      port_readSegments (streamSubtree n' d') db"
    and "idb_sorted (fst (saveNewEvents (portOver n d) ls es db))"
  using sorted
  by (auto simp: other_put[OF ne] saveNewEvents_def port_commit_def port_writeCursorOnly_def sorted_put
      split: option.splits)

lemma other_clear:
  assumes ne: "(n, d) \<noteq> (n', d')"
  shows "port_readCursor (streamSubtree n' d') (port_clearSubtree (streamSubtree n d) db) =
      port_readCursor (streamSubtree n' d') db"
    and "port_readSegments (streamSubtree n' d') (port_clearSubtree (streamSubtree n d) db) =
      port_readSegments (streamSubtree n' d') db"
proof -
  let ?S = "in_key_range (sub_subtree (streamSubtree n d))"
  have clear: "port_clearSubtree (streamSubtree n d) db = filter (\<lambda>r. \<not> ?S (fst r)) db"
    by (auto simp: port_clearSubtree_def fold_delete idb_getAll_def intro!: filter_cong)
  have ne': "(n', d') \<noteq> (n, d)" using ne by auto
  have cur: "\<not> ?S (sub_cursor (streamSubtree n' d'))"
    using other_range(2)[OF ne'] by (simp add: streamSubtree_def Let_def)
  have "map_of (filter (\<lambda>r. \<not> ?S (fst r)) xs) (sub_cursor (streamSubtree n' d')) =
      map_of xs (sub_cursor (streamSubtree n' d'))" for xs :: "'a object_store"
    using cur by (induction xs) auto
  then show "port_readCursor (streamSubtree n' d') (port_clearSubtree (streamSubtree n d) db) =
      port_readCursor (streamSubtree n' d') db"
    by (simp add: port_readCursor_def clear)
  have "\<not> ?S k" if "in_key_range (sub_segments (streamSubtree n' d')) k" for k
  proof
    assume S: "?S k"
    have "stream_prefix n' d' @ [NumPart 0] \<le> k" "k \<le> stream_prefix n' d' @ [StrPart CURSOR]"
      using that by (auto simp: in_key_range_def streamSubtree_def Let_def)
    moreover have "stream_prefix n d @ [] \<le> k" "k \<le> stream_prefix n d @ [EmptyArray]"
      using S by (auto simp: in_key_range_def streamSubtree_def Let_def)
    ultimately have "stream_prefix n d @ [] \<le> stream_prefix n' d' @ [StrPart CURSOR]"
      "stream_prefix n' d' @ [NumPart 0] \<le> stream_prefix n d @ [EmptyArray]"
      by (meson order_trans)+
    then have "stream_prefix n d = stream_prefix n' d'"
      by (auto simp: stream_prefix_def Cons_le_Cons)
    with ne show False by (simp add: stream_prefix_def)
  qed
  then have "filter (\<lambda>x. in_key_range (sub_segments (streamSubtree n' d')) (fst x)) (filter (\<lambda>r. \<not> ?S (fst r)) db) =
      filter (\<lambda>x. in_key_range (sub_segments (streamSubtree n' d')) (fst x)) db"
    by (auto intro!: filter_cong)
  then show "port_readSegments (streamSubtree n' d') (port_clearSubtree (streamSubtree n d) db) =
      port_readSegments (streamSubtree n' d') db"
    by (simp add: port_readSegments_def idb_getAll_def clear)
qed

text \<open>
  Streams do not touch each other: in one object store, clearing a stream and saving any
  batches to it never changes what another stream (another name, or another digest of source
  and filter under the same name) reads back.
\<close>

theorem idb_streams_isolated:
  assumes ne: "(name, digest) \<noteq> (other, digest')" and ok: "idb_ok name digest db"
  shows "fetchFrom (portOver other digest')
      (save_all (portOver name digest) saves (clearStream (portOver name digest) db)) b0 =
    fetchFrom (portOver other digest') db b0"
proof -
  have saves: "fetchFrom (portOver other digest') (save_all (portOver name digest) saves s) b0 =
      fetchFrom (portOver other digest') s b0" if "idb_sorted s" for s
    using that
  proof (induction saves arbitrary: s)
    case Nil
    then show ?case by (simp add: save_all_def)
  next
    case (Cons sv saves)
    obtain ls es where sv: "sv = (ls, es)" by (cases sv)
    from Cons.IH[OF other_save(3)[OF ne Cons.prems, of ls es]] show ?case
      using fetch_cong[of "portOver other digest'" "fst (saveNewEvents (portOver name digest) ls es s)" s b0]
        other_save(1,2)[OF ne Cons.prems, of ls es]
      by (simp add: save_all_def sv)
  qed
  have "idb_sorted (clearStream (portOver name digest) db)"
    using idb_ok_clear[OF ok] by (simp add: clearStream_def idb_ok_def)
  from saves[OF this] show ?thesis
    using fetch_cong[of "portOver other digest'" "clearStream (portOver name digest) db" db b0]
      other_clear[OF ne, of db] by (simp add: clearStream_def)
qed

theorem idb_streams_isolated_witness:
  "fetchFrom (portOver ''n'' ''d2'')
      (save_all (portOver ''n'' ''d1'') [sample_save 1 5 [sample_log 2 ''a'' 0]]
        (clearStream (portOver ''n'' ''d1'') [])) 0
    = (StreamAbsent :: unit stream_read)"
  using idb_streams_isolated[of "''n''" "''d1''" "''n''" "''d2''" "[] :: unit object_store"
      "[sample_save 1 5 [sample_log 2 ''a'' 0]]" 0]
  by (simp add: idb_ok_def idb_sorted_def fetchFrom_def port_readCursor_def port_readSegments_def idb_getAll_def)

end
