(* ===== verification/State_Entities.thy ===== *)
theory State_Entities
  imports Prelude "HOL-Library.Word" "HOL-Library.Char_ord" "HOL-Library.List_Lexorder"
begin

section \<open>Entity declarations, ids and stored values\<close>

text \<open>
  \<open>packages/state-store/src/types.ts\<close>, \<open>entities.ts\<close> and \<open>semantic-types.ts\<close>: what an indexer
  declares, how a declaration is normalised and refused, how an id becomes the key of a row, and
  how values are encoded for storage. Identifiers are ASCII by their own check and are \<open>string\<close>;
  id values and texts are JavaScript strings, lists of 16-bit code units (\<open>utf16\<close>).
\<close>

subsection \<open>Values\<close>

type_synonym utf16 = "16 word list"

definition units :: "string \<Rightarrow> utf16" where
  "units s = map (\<lambda>c. of_nat (of_char c)) s"

text \<open>A value a handler writes or a store returns: null, text, a number, a bigint or bytes.\<close>

datatype field_value =
    VNull
  | VText utf16
  | VNumber int
  | VBigint int
  | VBytes "8 word list"

type_synonym field_values = "string \<Rightarrow> field_value option"

text \<open>A column of an id: text, a number (an integer here), or null.\<close>

datatype id_value = IdText utf16 | IdNumber int | IdNull

type_synonym entity_id = "string \<Rightarrow> id_value option"

datatype storage_class = TextStorage | IntegerStorage | RealStorage | BlobStorage

datatype field_declaration =
    Plain storage_class
  | EnumField "string list"
  | SemanticU256 storage_class

record entity_relation =
  rel_entity :: string
  rel_as :: string

record normalized_entity =
  ent_name :: string
  ent_id :: "string list"
  ent_fields :: "(string \<times> field_declaration) list"
  ent_parent :: "entity_relation option"

record block_pointer =
  bp_number :: int
  bp_hash :: string
  bp_timestamp :: int

datatype mutation =
    Upsert string entity_id field_values
  | Delete string entity_id

fun mutation_entity :: "mutation \<Rightarrow> string" where
  "mutation_entity (Upsert e _ _) = e"
| "mutation_entity (Delete e _) = e"

fun mutation_id :: "mutation \<Rightarrow> entity_id" where
  "mutation_id (Upsert _ i _) = i"
| "mutation_id (Delete _ i) = i"

datatype entity_error =
    ReservedIdentifier string
  | InvalidIdentifier string
  | NoIdColumn string
  | IdColumnAsField string
  | UnknownFieldType string
  | EnumNotText string
  | EmptyEnum string
  | IllegalEnumValue string
  | DuplicateEnumValue string
  | SemanticStorage string
  | DuplicateIdColumn string
  | DifferOnlyInCase string string
  | ReservedCollection string
  | UnknownParent string
  | ParentIdMismatch string
  | NoOwnIdColumn string
  | CollectionClash string
  | DuplicateCollection string
  | DuplicateEntity string
  | UnknownEntity string
  | MissingIdColumn string
  | NulInId string
  | NotAnEnumValue string
  | NotAdmitted string

subsection \<open>The u256 semantic type\<close>

fun u256_fill :: "nat \<Rightarrow> nat \<Rightarrow> 8 word list \<Rightarrow> 8 word list" where
  "u256_fill 0 rest bytes = bytes"
| "u256_fill (Suc i) rest bytes =
     (if rest > 0 then u256_fill i (rest div 256) (bytes[i := of_nat (rest mod 256)]) else bytes)"

definition u256_encode :: "field_value \<Rightarrow> (unit, field_value) result" where
  "u256_encode v =
     (case v of
        VBigint n \<Rightarrow>
          if n < 0 \<or> n > 2 ^ 256 - 1 then Inl ()
          else Inr (VBytes (u256_fill 32 (nat n) (replicate 32 0)))
      | _ \<Rightarrow> Inl ())"

definition u256_decode :: "field_value \<Rightarrow> (unit, field_value) result" where
  "u256_decode v =
     (case v of
        VBytes bs \<Rightarrow>
          if length bs \<noteq> 32 then Inl ()
          else Inr (VBigint (foldl (\<lambda>acc b. acc * 256 + uint b) 0 bs))
      | _ \<Rightarrow> Inl ())"

subsection \<open>Declarations as they are written\<close>

text \<open>
  The declared type of a field, before it is believed: a storage class by name, an object with
  \<open>storage\<close> and \<open>enum\<close> members (\<open>None\<close>: not a list), one with \<open>storage\<close> and \<open>type\<close>, anything else.
\<close>

datatype raw_field =
    RawStorage string
  | RawEnum string "string list option"
  | RawSemantic string string
  | RawOther

record entity_declaration =
  dec_name :: string
  dec_id :: "string list"
  dec_fields :: "(string \<times> raw_field) list"
  dec_parent :: "entity_relation option"

definition is_letter :: "char \<Rightarrow> bool" where
  "is_letter c \<longleftrightarrow> (CHR ''A'' \<le> c \<and> c \<le> CHR ''Z'') \<or> (CHR ''a'' \<le> c \<and> c \<le> CHR ''z'')"

definition is_word_char :: "char \<Rightarrow> bool" where
  "is_word_char c \<longleftrightarrow> is_letter c \<or> (CHR ''0'' \<le> c \<and> c \<le> CHR ''9'') \<or> c = CHR ''_''"

definition isReserved :: "string \<Rightarrow> bool" where
  "isReserved name \<longleftrightarrow> name \<noteq> [] \<and> hd name = CHR ''_''"

definition is_identifier :: "string \<Rightarrow> bool" where
  "is_identifier name \<longleftrightarrow> name \<noteq> [] \<and> is_letter (hd name) \<and> list_all is_word_char name"

definition lower :: "char \<Rightarrow> char" where
  "lower c = (if CHR ''A'' \<le> c \<and> c \<le> CHR ''Z'' then char_of (of_char c + 32 :: nat) else c)"

definition fold_case :: "string \<Rightarrow> string" where
  "fold_case name = map lower name"

definition assertIdentifier :: "string \<Rightarrow> (entity_error, unit) result" where
  "assertIdentifier name =
     (if isReserved name then Inl (ReservedIdentifier name)
      else guard (is_identifier name) (InvalidIdentifier name))"

fun storage_of :: "string \<Rightarrow> storage_class option" where
  "storage_of s =
     (if s = ''text'' then Some TextStorage else if s = ''integer'' then Some IntegerStorage
      else if s = ''real'' then Some RealStorage else if s = ''blob'' then Some BlobStorage else None)"

definition is_graphql_enum_value :: "string \<Rightarrow> bool" where
  "is_graphql_enum_value v \<longleftrightarrow>
     v \<noteq> [] \<and> (is_letter (hd v) \<or> hd v = CHR ''_'') \<and> list_all is_word_char v \<and>
     v \<notin> {''true'', ''false'', ''null''} \<and> take 2 v \<noteq> ''__''"

fun enum_values :: "string list \<Rightarrow> string list \<Rightarrow> (entity_error, unit) result" where
  "enum_values seen [] = Inr ()"
| "enum_values seen (v # vs) =
     (if \<not> is_graphql_enum_value v then Inl (IllegalEnumValue v)
      else if v \<in> set seen then Inl (DuplicateEnumValue v)
      else enum_values (v # seen) vs)"

fun fieldOf :: "string \<Rightarrow> raw_field \<Rightarrow> (entity_error, field_declaration) result" where
  "fieldOf field (RawStorage s) =
     (case storage_of s of None \<Rightarrow> Inl (UnknownFieldType field) | Some c \<Rightarrow> Inr (Plain c))"
| "fieldOf field RawOther = Inl (UnknownFieldType field)"
| "fieldOf field (RawSemantic s t) =
     (if t \<noteq> ''u256'' then Inl (UnknownFieldType field)
      else if storage_of s \<noteq> Some BlobStorage then Inl (SemanticStorage field)
      else Inr (SemanticU256 BlobStorage))"
| "fieldOf field (RawEnum s values) =
     (if s \<noteq> ''text'' then Inl (EnumNotText field)
      else (case values of
              None \<Rightarrow> Inl (EmptyEnum field)
            | Some [] \<Rightarrow> Inl (EmptyEnum field)
            | Some vs \<Rightarrow> and_then (enum_values [] vs) (\<lambda>_. Inr (EnumField vs))))"

text \<open>No column twice, and no two that differ only in case.\<close>

fun distinct_columns :: "(string \<times> string) list \<Rightarrow> string list \<Rightarrow> (entity_error, unit) result" where
  "distinct_columns seen [] = Inr ()"
| "distinct_columns seen (c # cs) =
     (case map_of seen (fold_case c) of
        None \<Rightarrow> distinct_columns ((fold_case c, c) # seen) cs
      | Some d \<Rightarrow> if d = c then Inl (DuplicateIdColumn c) else Inl (DifferOnlyInCase d c))"

definition read_surface_names :: "string list" where
  "read_surface_names =
     [''getCurrent'', ''getAsOf'', ''listCurrent'', ''listAsOf'', ''queryCurrent'', ''queryAsOf'']"

definition relationOf :: "entity_relation option \<Rightarrow> (entity_error, entity_relation option) result" where
  "relationOf parent =
     (case parent of
        None \<Rightarrow> Inr None
      | Some p \<Rightarrow>
          and_then (assertIdentifier (rel_entity p)) (\<lambda>_.
          and_then (assertIdentifier (rel_as p)) (\<lambda>_.
          and_then (guard (fold_case (rel_as p) \<notin> set (map fold_case read_surface_names))
            (ReservedCollection (rel_as p))) (\<lambda>_. Inr (Some p)))))"

definition normalizeEntity :: "entity_declaration \<Rightarrow> (entity_error, normalized_entity) result" where
  "normalizeEntity d =
     and_then (assertIdentifier (dec_name d)) (\<lambda>_.
     and_then (guard (dec_id d \<noteq> []) (NoIdColumn (dec_name d))) (\<lambda>_.
     and_then (traverse assertIdentifier (dec_id d)) (\<lambda>_.
     and_then (traverse
        (\<lambda>(f, t). and_then (assertIdentifier f) (\<lambda>_.
                   and_then (guard (f \<notin> set (dec_id d)) (IdColumnAsField f)) (\<lambda>_.
                   and_then (fieldOf f t) (\<lambda>c. Inr (f, c))))) (dec_fields d)) (\<lambda>fields.
     and_then (distinct_columns [] (dec_id d @ map fst fields)) (\<lambda>_.
     and_then (relationOf (dec_parent d)) (\<lambda>parent.
     Inr \<lparr>ent_name = dec_name d, ent_id = dec_id d, ent_fields = fields, ent_parent = parent\<rparr>))))))"

subsection \<open>The declared set\<close>

type_synonym entities = "(string \<times> normalized_entity) list"

text \<open>
  The relations of a set: the parent is declared, the child's id extends the parent's, and one
  parent's columns and collections keep distinct names. \<open>named\<close> holds the collections seen.
\<close>

fun assertRelations :: "entities \<Rightarrow> (string \<times> string) list \<Rightarrow> normalized_entity list
    \<Rightarrow> (entity_error, unit) result" where
  "assertRelations entities named [] = Inr ()"
| "assertRelations entities named (child # rest) =
     (case ent_parent child of
        None \<Rightarrow> assertRelations entities named rest
      | Some r \<Rightarrow>
          (case map_of entities (rel_entity r) of
             None \<Rightarrow> Inl (UnknownParent (rel_entity r))
           | Some p \<Rightarrow>
               if take (length (ent_id p)) (ent_id child) \<noteq> ent_id p
               then Inl (ParentIdMismatch (ent_name child))
               else if length (ent_id child) = length (ent_id p) then Inl (NoOwnIdColumn (ent_name child))
               else if fold_case (rel_as r) \<in> set (map fold_case (ent_id p @ map fst (ent_fields p)))
               then Inl (CollectionClash (rel_as r))
               else if (ent_name p, fold_case (rel_as r)) \<in> set named
               then Inl (DuplicateCollection (rel_as r))
               else assertRelations entities ((ent_name p, fold_case (rel_as r)) # named) rest))"

fun collect_entities :: "entities \<Rightarrow> (string \<times> string) list \<Rightarrow> entity_declaration list
    \<Rightarrow> (entity_error, entities) result" where
  "collect_entities entities folded [] = Inr entities"
| "collect_entities entities folded (d # ds) =
     and_then (normalizeEntity d) (\<lambda>e.
       if ent_name e \<in> fst ` set entities then Inl (DuplicateEntity (ent_name e))
       else (case map_of folded (fold_case (ent_name e)) of
               Some other \<Rightarrow> Inl (DifferOnlyInCase other (ent_name e))
             | None \<Rightarrow>
                 collect_entities (entities @ [(ent_name e, e)])
                   ((fold_case (ent_name e), ent_name e) # folded) ds))"

definition normalizeEntities :: "entity_declaration list \<Rightarrow> (entity_error, entities) result" where
  "normalizeEntities declarations =
     and_then (collect_entities [] [] declarations) (\<lambda>entities.
     and_then (assertRelations entities [] (map snd entities)) (\<lambda>_. Inr entities))"

definition mustGet :: "entities \<Rightarrow> string \<Rightarrow> (entity_error, normalized_entity) result" where
  "mustGet entities name =
     (case map_of entities name of None \<Rightarrow> Inl (UnknownEntity name) | Some e \<Rightarrow> Inr e)"

subsection \<open>Ids and keys\<close>

function decimal_digits :: "nat \<Rightarrow> utf16" where
  "decimal_digits n = (if n < 10 then [of_nat (48 + n)] else decimal_digits (n div 10) @ [of_nat (48 + n mod 10)])"
  by pat_completeness auto
termination by (relation "measure id") auto

declare decimal_digits.simps [simp del]

definition decimal :: "int \<Rightarrow> utf16" where
  "decimal n = (if n < 0 then 45 # decimal_digits (nat (- n)) else decimal_digits (nat n))"

fun text_of :: "id_value \<Rightarrow> utf16" where
  "text_of (IdText t) = t"
| "text_of (IdNumber n) = decimal n"
| "text_of IdNull = []"

definition SEPARATOR :: "16 word" where "SEPARATOR = 0"

definition id_column :: "entity_id \<Rightarrow> string \<Rightarrow> (entity_error, utf16) result" where
  "id_column eid column =
     (case eid column of
        None \<Rightarrow> Inl (MissingIdColumn column)
      | Some IdNull \<Rightarrow> Inl (MissingIdColumn column)
      | Some v \<Rightarrow> and_then (guard (SEPARATOR \<notin> set (text_of v)) (NulInId column)) (\<lambda>_. Inr (text_of v)))"

definition idValues :: "normalized_entity \<Rightarrow> entity_id \<Rightarrow> (entity_error, utf16 list) result" where
  "idValues entity eid = traverse (id_column eid) (ent_id entity)"

fun join :: "utf16 list \<Rightarrow> utf16" where
  "join [] = []"
| "join [x] = x"
| "join (x # y # ys) = x @ SEPARATOR # join (y # ys)"

definition entityKey :: "normalized_entity \<Rightarrow> entity_id \<Rightarrow> (entity_error, utf16) result" where
  "entityKey entity eid = and_then (idValues entity eid) (\<lambda>ids. Inr (join (units (ent_name entity) # ids)))"

subsection \<open>Encoding and decoding a row's values\<close>

text \<open>Every enum field is checked first, then every semantic field is encoded.\<close>

fun check_enums :: "(string \<times> field_declaration) list \<Rightarrow> field_values \<Rightarrow> (entity_error, unit) result" where
  "check_enums [] values = Inr ()"
| "check_enums ((f, d) # fs) values =
     (case d of
        EnumField allowed \<Rightarrow>
          (case values f of
             None \<Rightarrow> check_enums fs values
           | Some VNull \<Rightarrow> check_enums fs values
           | Some (VText t) \<Rightarrow>
               if t \<in> units ` set allowed then check_enums fs values else Inl (NotAnEnumValue f)
           | Some _ \<Rightarrow> Inl (NotAnEnumValue f))
      | _ \<Rightarrow> check_enums fs values)"

text \<open>
  What the loop does with one field: \<open>Inr None\<close> leaves it alone (not a semantic field, or a null
  or absent value), \<open>Inr (Some e)\<close> stores \<open>e\<close>.
\<close>

definition convert_field :: "(field_value \<Rightarrow> (unit, field_value) result) \<Rightarrow> field_declaration
    \<Rightarrow> field_value option \<Rightarrow> (unit, field_value option) result" where
  "convert_field conv d v =
     (case d of
        SemanticU256 _ \<Rightarrow>
          if v = None \<or> v = Some VNull then Inr None
          else and_then (conv (the v)) (\<lambda>e. Inr (Some e))
      | _ \<Rightarrow> Inr None)"

fun convert_fields :: "(field_value \<Rightarrow> (unit, field_value) result) \<Rightarrow> (string \<times> field_declaration) list
    \<Rightarrow> field_values \<Rightarrow> field_values \<Rightarrow> (entity_error, field_values) result" where
  "convert_fields conv [] row out = Inr out"
| "convert_fields conv ((f, d) # fs) row out =
     (case convert_field conv d (row f) of
        Inl _ \<Rightarrow> Inl (NotAdmitted f)
      | Inr None \<Rightarrow> convert_fields conv fs row out
      | Inr (Some e) \<Rightarrow> convert_fields conv fs row (out(f \<mapsto> e)))"

definition encodeFieldValues :: "normalized_entity \<Rightarrow> field_values \<Rightarrow> (entity_error, field_values) result" where
  "encodeFieldValues entity values =
     and_then (check_enums (ent_fields entity) values) (\<lambda>_.
       convert_fields u256_encode (ent_fields entity) values values)"

text \<open>Decoding never fails on what encoding stored; a value it refuses is a thrown error.\<close>

definition decodeFieldValues :: "normalized_entity \<Rightarrow> field_values \<Rightarrow> (entity_error, field_values) result" where
  "decodeFieldValues entity row = convert_fields u256_decode (ent_fields entity) row row"

text \<open>The row a store keeps: the id columns as text, every declared field, null where unset.\<close>

definition completeRow :: "normalized_entity \<Rightarrow> utf16 list \<Rightarrow> field_values \<Rightarrow> field_values" where
  "completeRow entity ids values =
     (\<lambda>column.
        if column \<in> fst ` set (ent_fields entity)
        then Some (case values column of None \<Rightarrow> VNull | Some v \<Rightarrow> v)
        else map_option VText (map_of (zip (ent_id entity) ids) column))"

subsection \<open>u256: facts\<close>

definition u256_value :: "8 word list \<Rightarrow> nat" where
  "u256_value bs = foldl (\<lambda>acc b. acc * 256 + unat b) 0 bs"

lemma foldl_value: "foldl (\<lambda>acc b. acc * 256 + unat b) a bs = a * 256 ^ length bs + u256_value bs"
proof (induction bs arbitrary: a)
  case Nil
  then show ?case by (simp add: u256_value_def)
next
  case (Cons b bs)
  from Cons[of "a * 256 + unat b"] Cons[of "unat b"] show ?case
    by (simp add: u256_value_def algebra_simps)
qed

lemma u256_value_append: "u256_value (xs @ ys) = u256_value xs * 256 ^ length ys + u256_value ys"
  unfolding u256_value_def[of "xs @ ys"] foldl_append foldl_value[of _ ys] by (simp only: u256_value_def)

lemma u256_value_Cons: "u256_value (b # bs) = unat b * 256 ^ length bs + u256_value bs"
  using foldl_value[of "unat b" bs] by (simp add: u256_value_def)

lemma u256_value_zeros: "u256_value (replicate n 0) = 0"
  by (induction n) (simp_all add: u256_value_Cons u256_value_def[of "[]"])

lemma unat_byte: "unat (b :: 8 word) < 256"
  using unsigned_less[of b] by (simp add: unsigned_less)

lemma u256_value_bound: "u256_value bs < 256 ^ length bs"
proof (induction bs)
  case Nil
  then show ?case by (simp add: u256_value_def)
next
  case (Cons b bs)
  have "unat b * 256 ^ length bs \<le> 255 * 256 ^ length bs"
    using unat_byte[of b] by (intro mult_le_mono1) simp
  moreover have "255 * P + P = 256 * P" for P :: nat by simp
  ultimately have "unat b * 256 ^ length bs + u256_value bs < 256 * 256 ^ length bs"
    using Cons by (metis add_le_less_mono)
  then show ?case by (simp only: u256_value_Cons length_Cons power_Suc)
qed

lemma u256_fill_value:
  assumes "n \<le> length bs" and "take n bs = replicate n 0" and "v < 256 ^ n"
  shows "length (u256_fill n v bs) = length bs \<and>
    u256_value (u256_fill n v bs) = v * 256 ^ (length bs - n) + u256_value (drop n bs)"
  using assms
proof (induction n v bs rule: u256_fill.induct)
  case (1 rest bs)
  then show ?case by simp
next
  case (2 i rest bs)
  have zero: "bs ! i = 0"
    using arg_cong[OF 2(3), of "\<lambda>l. l ! i"] nth_replicate[of i "Suc i" "0 :: 8 word"] by simp
  have drop: "u256_value (drop i bs) = u256_value (drop (Suc i) bs)"
    using 2(2) zero by (simp add: Cons_nth_drop_Suc[symmetric] u256_value_Cons)
  have taken: "take i bs = replicate i 0"
    using arg_cong[OF 2(3), of "take i"] by (simp add: min_def del: replicate_Suc)
  show ?case
  proof (cases "rest > 0")
    case False
    have "u256_value bs = u256_value (take i bs @ drop i bs)" by simp
    also have "\<dots> = u256_value (drop (Suc i) bs)"
      by (simp only: u256_value_append taken u256_value_zeros drop mult_zero_left add_0)
    finally show ?thesis using False by simp
  next
    case True
    let ?bs = "bs[i := of_nat (rest mod 256)]"
    have "rest div 256 < 256 ^ i" using 2(4) by (simp add: less_mult_imp_div_less mult.commute)
    then have IH: "length (u256_fill i (rest div 256) ?bs) = length bs \<and>
        u256_value (u256_fill i (rest div 256) ?bs) =
          rest div 256 * 256 ^ (length bs - i) + u256_value (drop i ?bs)"
      using 2(1)[OF True] 2(2) taken by simp
    have "drop i ?bs = of_nat (rest mod 256) # drop (Suc i) bs"
      using 2(2) by (simp add: drop_update_swap Cons_nth_drop_Suc[symmetric])
    moreover have "unat (of_nat (rest mod 256) :: 8 word) = rest mod 256"
      by (simp add: unat_of_nat)
    ultimately have v: "u256_value (drop i ?bs) =
        rest mod 256 * 256 ^ (length bs - Suc i) + u256_value (drop (Suc i) bs)"
      by (simp add: u256_value_Cons)
    have "256 ^ (length bs - i) = 256 * (256 :: nat) ^ (length bs - Suc i)"
      using 2(2) by (metis Suc_diff_le diff_Suc_Suc power_Suc)
    then have "rest div 256 * 256 ^ (length bs - i) + rest mod 256 * 256 ^ (length bs - Suc i) =
        rest * 256 ^ (length bs - Suc i)"
      by (simp only: mult.assoc[symmetric] add_mult_distrib[symmetric] div_mult_mod_eq)
    then show ?thesis using True IH v by (simp del: mult_div_mod_eq div_mult_mod_eq)
  qed
qed

lemma u256_decode_value: "length bs = 32 \<Longrightarrow> u256_decode (VBytes bs) = Inr (VBigint (int (u256_value bs)))"
proof -
  have "foldl (\<lambda>acc b. acc * 256 + uint b) (int a) bs = int (foldl (\<lambda>acc b. acc * 256 + unat b) a bs)" for a
  proof (induction bs arbitrary: a)
    case Nil
    then show ?case by simp
  next
    case (Cons b bs)
    from Cons[of "a * 256 + unat b"] show ?case by simp
  qed
  from this[of 0] show "length bs = 32 \<Longrightarrow> ?thesis"
    by (simp add: u256_decode_def u256_value_def)
qed

lemma u256_encode_value:
  assumes "u256_encode v = Inr e"
  obtains n bs where "v = VBigint (int n)" "e = VBytes bs" "length bs = 32" "u256_value bs = n"
proof -
  obtain k where k: "v = VBigint k" "0 \<le> k" "k \<le> 2 ^ 256 - 1"
    "e = VBytes (u256_fill 32 (nat k) (replicate 32 0))"
    using assms by (auto simp: u256_encode_def split: field_value.splits if_splits)
  have "nat k < 256 ^ 32" using k by (simp add: nat_less_iff)
  from u256_fill_value[OF _ _ this, of "replicate 32 0"]
  have "length (u256_fill 32 (nat k) (replicate 32 0)) = 32"
    "u256_value (u256_fill 32 (nat k) (replicate 32 0)) = nat k"
    by (simp_all add: u256_value_def[of "[]"])
  with k that[of "nat k"] show ?thesis by simp
qed

lemma lex_by_value:
  "length xs = length ys \<Longrightarrow> (xs < ys) = (u256_value xs < u256_value ys)"
proof (induction xs ys rule: list_induct2)
  case Nil
  then show ?case by simp
next
  case (Cons x xs y ys)
  have step: "unat a * 256 ^ length as + u256_value as < unat b * 256 ^ length bs + u256_value bs"
    if "length as = length bs" "a < b" for a b :: "8 word" and as bs
  proof -
    have "unat a + 1 \<le> unat b" using that(2) by (simp add: word_less_nat_alt Suc_le_eq)
    then have "unat a * 256 ^ length as + 256 ^ length as \<le> unat b * 256 ^ length bs"
      using mult_le_mono1[of "unat a + 1" "unat b" "256 ^ length as"] that(1)
      by (simp add: add_mult_distrib)
    with u256_value_bound[of as] show ?thesis by linarith
  qed
  consider "x < y" | "x = y" | "y < x" by (metis linorder_cases)
  then show ?case
  proof cases
    case 1
    then show ?thesis using step[OF Cons.hyps, of x y] by (simp add: u256_value_Cons)
  next
    case 2
    then show ?thesis using Cons by (simp add: u256_value_Cons)
  next
    case 3
    then have "\<not> x < y" "x \<noteq> y" by auto
    then show ?thesis using step[OF Cons.hyps(1)[symmetric] 3] by (simp add: u256_value_Cons)
  qed
qed

text \<open>
  C37. A u256 survives storage, and its stored bytes order as the numbers do: encoding admits
  exactly 0 to 2^256 - 1, decoding what was encoded gives the number back, and comparing two
  encodings byte by byte compares the numbers, which is what lets an index over the blob sort.
\<close>

theorem u256_round_trip_ordered:
  assumes "0 \<le> m" "m < 2 ^ 256" "0 \<le> n" "n < 2 ^ 256"
  shows "\<exists>bm bn. u256_encode (VBigint m) = Inr (VBytes bm) \<and> u256_encode (VBigint n) = Inr (VBytes bn) \<and>
    u256_decode (VBytes bm) = Inr (VBigint m) \<and> u256_decode (VBytes bn) = Inr (VBigint n) \<and>
    (bm < bn) = (m < n)"
proof -
  have enc: "\<exists>bs. u256_encode (VBigint k) = Inr (VBytes bs) \<and> length bs = 32 \<and> u256_value bs = nat k"
    if "0 \<le> k" "k < 2 ^ 256" for k
  proof -
    have "nat k < 256 ^ 32" using that by (simp add: nat_less_iff)
    from u256_fill_value[OF _ _ this, of "replicate 32 0"]
    have "length (u256_fill 32 (nat k) (replicate 32 0)) = 32"
      "u256_value (u256_fill 32 (nat k) (replicate 32 0)) = nat k"
      by (simp_all add: u256_value_def[of "[]"])
    then show ?thesis using that by (simp add: u256_encode_def)
  qed
  from enc[OF assms(1,2)] enc[OF assms(3,4)] obtain bm bn where
    "u256_encode (VBigint m) = Inr (VBytes bm)" "length bm = 32" "u256_value bm = nat m"
    "u256_encode (VBigint n) = Inr (VBytes bn)" "length bn = 32" "u256_value bn = nat n" by blast
  then show ?thesis using assms by (auto simp: u256_decode_value lex_by_value)
qed

theorem u256_round_trip_ordered_witness:
  "\<exists>bm bn. u256_encode (VBigint 255) = Inr (VBytes bm) \<and> u256_encode (VBigint 256) = Inr (VBytes bn) \<and>
    u256_decode (VBytes bm) = Inr (VBigint 255) \<and> u256_decode (VBytes bn) = Inr (VBigint 256) \<and> bm < bn"
  using u256_round_trip_ordered[of 255 256] by auto

subsection \<open>Keys: facts\<close>

lemma split_at_separator:
  "\<lbrakk>x @ s # r = y @ s # t; s \<notin> set x; s \<notin> set y\<rbrakk> \<Longrightarrow> x = y \<and> r = t"
proof (induction x arbitrary: y)
  case Nil
  then show ?case by (cases y) auto
next
  case (Cons a x)
  then show ?case by (cases y) auto
qed

lemma join_inj:
  assumes "\<forall>x \<in> set xs. SEPARATOR \<notin> set x" "\<forall>y \<in> set ys. SEPARATOR \<notin> set y"
    and "xs \<noteq> []" "ys \<noteq> []" and "join xs = join ys"
  shows "xs = ys"
  using assms
proof (induction xs arbitrary: ys rule: join.induct)
  case 1
  then show ?case by simp
next
  case (2 x)
  then show ?case by (cases ys rule: join.cases) auto
next
  case (3 x x' xs)
  show ?case
  proof (cases ys rule: join.cases)
    case 1
    then show ?thesis using 3 by simp
  next
    case (2 y)
    then show ?thesis using 3 by auto
  next
    case (3 y y' ys')
    then have "x @ SEPARATOR # join (x' # xs) = y @ SEPARATOR # join (y' # ys')"
      using "3.prems"(5) by simp
    from split_at_separator[OF this] "3.prems" 3 have "x = y" "join (x' # xs) = join (y' # ys')" by auto
    with "3.IH"[of "y' # ys'"] "3.prems" 3 show ?thesis by auto
  qed
qed

lemma idValues_no_separator:
  assumes "idValues entity eid = Inr ids"
  shows "\<forall>x \<in> set ids. SEPARATOR \<notin> set x"
proof
  fix x assume "x \<in> set ids"
  then obtain i where i: "i < length ids" "ids ! i = x" by (auto simp: in_set_conv_nth)
  have "list_all2 (\<lambda>c y. id_column eid c = Inr y) (ent_id entity) ids"
    using assms by (simp add: idValues_def traverse_Inr_iff)
  from list_all2_nthD2[OF this i(1)] i(2) have "id_column eid (ent_id entity ! i) = Inr x" by simp
  then show "SEPARATOR \<notin> set x"
    by (auto simp: id_column_def split: option.splits id_value.splits)
qed

lemma idValues_length: "idValues entity eid = Inr ids \<Longrightarrow> length ids = length (ent_id entity)"
  by (simp add: idValues_def traverse_length)

lemma of_char_inj16: "(of_nat (of_char c) :: 16 word) = of_nat (of_char d) \<Longrightarrow> c = d"
proof -
  assume "(of_nat (of_char c) :: 16 word) = of_nat (of_char d)"
  then have "unat (of_nat (of_char c) :: 16 word) = unat (of_nat (of_char d) :: 16 word)" by simp
  then have "(of_char c :: nat) mod 65536 = of_char d mod 65536" by (simp only: unat_of_nat) simp
  moreover have "(of_char c :: nat) < 256" "(of_char d :: nat) < 256"
    using nat_of_char_less_256[of c] nat_of_char_less_256[of d] by simp_all
  ultimately show "c = d" by simp
qed

lemma units_inj: "units s = units t \<longleftrightarrow> s = t"
proof -
  have "inj (\<lambda>c. of_nat (of_char c) :: 16 word)" by (rule injI) (rule of_char_inj16)
  then show ?thesis by (simp add: units_def inj_map_eq_map)
qed

lemma letters_not_nul: "is_word_char c \<Longrightarrow> c \<noteq> CHR 0x00"
  by (auto simp: is_word_char_def is_letter_def)

lemma units_identifier:
  assumes "is_identifier name"
  shows "SEPARATOR \<notin> set (units name)"
proof
  assume "SEPARATOR \<in> set (units name)"
  then obtain c where c: "c \<in> set name" "(of_nat (of_char c) :: 16 word) = 0"
    by (auto simp: units_def SEPARATOR_def)
  then have "(of_nat (of_char c) :: 16 word) = of_nat (of_char (CHR 0x00))" by simp
  then have "c = CHR 0x00" by (rule of_char_inj16)
  with c(1) assms letters_not_nul show False by (auto simp: is_identifier_def list_all_iff)
qed

text \<open>
  Rows never collide: the key of an entity and id determines the entity and every id value.
  Two declared entities, or two ids of one, share a key only when they are the same, because
  the separator is refused inside an id and cannot occur in an identifier.
\<close>

theorem entityKey_injective:
  assumes "entityKey e i = Inr k" "entityKey e' i' = Inr k"
    and "is_identifier (ent_name e)" "is_identifier (ent_name e')"
  shows "ent_name e = ent_name e' \<and> idValues e i = idValues e' i'"
proof -
  obtain ids ids' where ids: "idValues e i = Inr ids" "idValues e' i' = Inr ids'"
    and k: "join (units (ent_name e) # ids) = join (units (ent_name e') # ids')"
    using assms(1,2) by (auto simp: entityKey_def)
  have "units (ent_name e) # ids = units (ent_name e') # ids'"
    by (rule join_inj[OF _ _ _ _ k])
      (use ids assms(3,4) idValues_no_separator units_identifier in auto)
  with ids show ?thesis by (simp add: units_inj)
qed

definition sample_entity :: normalized_entity where
  "sample_entity =
     \<lparr>ent_name = ''Token'', ent_id = [''owner'', ''id''],
      ent_fields = [(''amount'', SemanticU256 BlobStorage), (''state'', EnumField [''Open'', ''Closed''])],
      ent_parent = None\<rparr>"

definition sample_id :: "utf16 \<Rightarrow> int \<Rightarrow> entity_id" where
  "sample_id u n = [''owner'' \<mapsto> IdText u, ''id'' \<mapsto> IdNumber n]"

lemma decimal_small: "0 \<le> n \<Longrightarrow> n < 10 \<Longrightarrow> decimal n = [of_nat (48 + nat n)]"
  by (simp add: decimal_def decimal_digits.simps[of "nat n"] nat_less_iff)

lemma sample_idValues:
  assumes "0 \<le> n" "n < 10" "SEPARATOR \<notin> set u"
  shows "idValues sample_entity (sample_id u n) = Inr [u, [of_nat (48 + nat n)]]"
proof -
  have "nat n < 10" using assms by simp
  then have "unat (of_nat (48 + nat n) :: 16 word) = 48 + nat n" by (simp only: unat_of_nat) simp
  then have "(of_nat (48 + nat n) :: 16 word) \<noteq> 0" by (metis add_is_0 unat_0 zero_neq_numeral)
  then show ?thesis using assms
    by (simp add: idValues_def sample_entity_def sample_id_def id_column_def decimal_small SEPARATOR_def)
qed

theorem entityKey_injective_witness:
  "\<exists>k. entityKey sample_entity (sample_id [97] 7) = Inr k \<and>
     (\<forall>u n. entityKey sample_entity (sample_id u n) = Inr k \<longrightarrow>
        idValues sample_entity (sample_id u n) = Inr [[97], [55]])"
proof -
  have ids: "idValues sample_entity (sample_id [97] 7) = Inr [[97], [55]]"
    using sample_idValues[of 7 "[97]"] by (simp add: SEPARATOR_def)
  then obtain k where k: "entityKey sample_entity (sample_id [97] 7) = Inr k"
    by (simp add: entityKey_def)
  have "is_identifier (ent_name sample_entity)"
    by (simp add: sample_entity_def is_identifier_def is_letter_def is_word_char_def)
  then show ?thesis
    using entityKey_injective[OF k, of sample_entity] k ids by metis
qed

subsection \<open>Encoding: facts\<close>

lemma convert_fields_other:
  "convert_fields conv fs row out = Inr res \<Longrightarrow> f \<notin> fst ` set fs \<Longrightarrow> res f = out f"
  by (induction conv fs row out rule: convert_fields.induct) (auto split: sum.splits option.splits)

text \<open>The result of a conversion, field by field.\<close>

lemma convert_fields_at:
  assumes "convert_fields conv fs row out = Inr res" and "distinct (map fst fs)" and "(f, d) \<in> set fs"
  shows "\<exists>c. convert_field conv d (row f) = Inr c \<and> res f = (case c of None \<Rightarrow> out f | Some e \<Rightarrow> Some e)"
  using assms
proof (induction conv fs row out rule: convert_fields.induct)
  case (1 conv row out)
  then show ?case by simp
next
  case (2 conv g c fs row out)
  from 2(3) obtain r where r: "convert_field conv c (row g) = Inr r"
    by (auto split: sum.splits)
  define next_out where "next_out = (case r of None \<Rightarrow> out | Some e \<Rightarrow> out(g \<mapsto> e))"
  have rest: "convert_fields conv fs row next_out = Inr res"
    using 2(3) r by (simp add: next_out_def split: option.splits)
  show ?case
  proof (cases "f = g")
    case True
    then have "d = c" and g: "f \<notin> fst ` set fs" using 2(4,5) by (force, simp)
    then show ?thesis using r True convert_fields_other[OF rest g]
      by (cases r) (simp_all add: next_out_def)
  next
    case False
    then have mem: "(f, d) \<in> set fs" and dist: "distinct (map fst fs)" using 2(4,5) by auto
    have "\<exists>c. convert_field conv d (row f) = Inr c \<and> res f = (case c of None \<Rightarrow> next_out f | Some e \<Rightarrow> Some e)"
    proof (cases r)
      case None
      then have eq: "next_out = out" by (simp add: next_out_def)
      show ?thesis unfolding eq by (rule 2(1)[OF r None rest[unfolded eq] dist mem])
    next
      case (Some a)
      then have eq: "next_out = out(g \<mapsto> a)" by (simp add: next_out_def)
      show ?thesis unfolding eq by (rule 2(2)[OF r Some rest[unfolded eq] dist mem])
    qed
    moreover have "next_out f = out f" using False by (cases r) (simp_all add: next_out_def)
    ultimately show ?thesis by (simp cong: option.case_cong)
  qed
qed

lemma convert_fields_total:
  assumes "\<forall>(f, d) \<in> set fs. \<exists>c. convert_field conv d (row f) = Inr c"
  shows "\<exists>res. convert_fields conv fs row out = Inr res"
  using assms
proof (induction fs arbitrary: out)
  case Nil
  then show ?case by simp
next
  case (Cons g fs)
  then show ?case by (cases g) (auto split: option.splits)
qed

lemma u256_restores:
  assumes "u256_encode v = Inr e"
  shows "e \<noteq> VNull \<and> v \<noteq> VNull \<and> u256_decode e = Inr v"
  using assms by (rule u256_encode_value) (simp add: u256_decode_value)

text \<open>One field through storage and back.\<close>

lemma restore_field:
  assumes "convert_field u256_encode d w = Inr c"
    and "stored = (case c of None \<Rightarrow> w | Some e \<Rightarrow> Some e)"
    and "v = (case stored of None \<Rightarrow> Some VNull | Some x \<Rightarrow> Some x)"
  shows "\<exists>c'. convert_field u256_decode d v = Inr c' \<and>
    (case c' of None \<Rightarrow> v | Some x \<Rightarrow> Some x) = Some (case w of None \<Rightarrow> VNull | Some x \<Rightarrow> x)"
proof (cases d)
  case (SemanticU256 s)
  show ?thesis
  proof (cases "w = None \<or> w = Some VNull")
    case True
    then show ?thesis using assms SemanticU256 by (auto simp: convert_field_def)
  next
    case False
    then obtain x where x: "w = Some x" "x \<noteq> VNull" by auto
    then obtain e where "u256_encode x = Inr e" "c = Some e"
      using assms(1) SemanticU256 by (auto simp: convert_field_def)
    with x(1) assms(2,3) u256_restores[of x e] SemanticU256 show ?thesis by (simp add: convert_field_def)
  qed
qed (use assms in \<open>auto simp: convert_field_def split: option.splits\<close>)

lemma stored_row_restored:
  assumes enc: "encodeFieldValues e written = Inr stored"
    and dist: "distinct (map fst (ent_fields e))"
  shows "decodeFieldValues e (completeRow e ids stored) = Inr (completeRow e ids written)"
proof -
  let ?row = "completeRow e ids stored"
  have conv: "convert_fields u256_encode (ent_fields e) written written = Inr stored"
    using enc by (simp add: encodeFieldValues_def)
  have field: "\<exists>c'. convert_field u256_decode d (?row f) = Inr c' \<and>
      (case c' of None \<Rightarrow> ?row f | Some x \<Rightarrow> Some x) = completeRow e ids written f"
    if fd: "(f, d) \<in> set (ent_fields e)" for f d
  proof -
    from convert_fields_at[OF conv dist fd] obtain c where c: "convert_field u256_encode d (written f) = Inr c"
      "stored f = (case c of None \<Rightarrow> written f | Some x \<Rightarrow> Some x)" by blast
    have col: "f \<in> fst ` set (ent_fields e)" using fd by force
    have "?row f = (case stored f of None \<Rightarrow> Some VNull | Some x \<Rightarrow> Some x)"
      using col by (simp add: completeRow_def split: option.splits)
    from restore_field[OF c this] col show ?thesis by (simp add: completeRow_def)
  qed
  obtain res where res: "convert_fields u256_decode (ent_fields e) ?row ?row = Inr res"
    using convert_fields_total[of "ent_fields e" u256_decode ?row ?row] field by blast
  have "res = completeRow e ids written"
  proof
    fix f
    show "res f = completeRow e ids written f"
    proof (cases "f \<in> fst ` set (ent_fields e)")
      case True
      then obtain d where fd: "(f, d) \<in> set (ent_fields e)" by force
      from convert_fields_at[OF res dist fd] field[OF fd] show ?thesis by auto
    next
      case False
      then show ?thesis using convert_fields_other[OF res False] by (simp add: completeRow_def)
    qed
  qed
  with res show ?thesis by (simp add: decodeFieldValues_def)
qed

text \<open>
  What a handler wrote is what a reader gets back: for an entity whose columns are
  distinct, if the values are admitted then decoding the stored row succeeds and gives every
  declared field as written (null where it was left out) and every id column as text.
\<close>

theorem stored_row_round_trip:
  assumes "encodeFieldValues e written = Inr stored" and "distinct (map fst (ent_fields e))"
  shows "decodeFieldValues e (completeRow e ids stored) = Inr (completeRow e ids written)"
  by (rule stored_row_restored[OF assms])

theorem stored_row_round_trip_witness:
  "\<exists>stored. encodeFieldValues sample_entity [''amount'' \<mapsto> VBigint 5, ''state'' \<mapsto> VText (units ''Open'')] = Inr stored \<and>
     decodeFieldValues sample_entity (completeRow sample_entity [[97], [55]] stored) =
       Inr (completeRow sample_entity [[97], [55]] [''amount'' \<mapsto> VBigint 5, ''state'' \<mapsto> VText (units ''Open'')])"
proof -
  let ?w = "[''amount'' \<mapsto> VBigint 5, ''state'' \<mapsto> VText (units ''Open'')] :: field_values"
  obtain stored where s: "encodeFieldValues sample_entity ?w = Inr stored"
    by (simp add: encodeFieldValues_def sample_entity_def convert_field_def u256_encode_def)
  from stored_row_round_trip[OF s] s show ?thesis by (simp add: sample_entity_def)
qed

end
