(* ===== verification/State_Listing.thy ===== *)
theory State_Listing
  imports State_Entities
begin

section \<open>Listings: prefixes, order and bounds\<close>

text \<open>
  \<open>packages/state-store/src/listing.ts\<close>. Ids list in the order of their code points, whatever a
  backend stores them as; \<open>compareUtf8\<close> gets that order from UTF-16 code units by ranking the
  surrogates above the rest of the basic plane. JavaScript's stable sort with \<open>compareIds\<close> is a
  stable sort by the rank that \<open>compareIds\<close> compares (\<open>compareIds_rank\<close>).
\<close>

datatype listing_error =
    ListingEntity entity_error
  | InvalidListingPrefix "string list"
  | InvalidListingLimit

record 'r listing =
  lst_rows :: "'r list"
  lst_truncated :: bool

type_synonym id_prefix = "(string \<times> id_value) list"

definition in_entity :: "(entity_error, 'x) result \<Rightarrow> (listing_error, 'x) result" where
  "in_entity r = (case r of Inl e \<Rightarrow> Inl (ListingEntity e) | Inr x \<Rightarrow> Inr x)"

definition prefixValues :: "normalized_entity \<Rightarrow> id_prefix \<Rightarrow> (listing_error, utf16 list) result" where
  "prefixValues entity prefix =
     (let named = map fst prefix; leading = take (length named) (ent_id entity) in
      if named = [] \<or> length named > length (ent_id entity) \<or> \<not> set named \<subseteq> set leading
      then Inl (InvalidListingPrefix named)
      else in_entity (idValues (entity\<lparr>ent_id := leading\<rparr>) (map_of prefix)))"

fun hasIdPrefix :: "utf16 list \<Rightarrow> utf16 list \<Rightarrow> bool" where
  "hasIdPrefix ids [] = True"
| "hasIdPrefix [] (v # vs) = False"
| "hasIdPrefix (x # xs) (v # vs) = (x = v \<and> hasIdPrefix xs vs)"

definition codePointRank :: "16 word \<Rightarrow> int" where
  "codePointRank u = (if 0xd800 \<le> u \<and> u \<le> 0xdfff then uint u + 0x10000 else uint u)"

fun compareUtf8 :: "utf16 \<Rightarrow> utf16 \<Rightarrow> int" where
  "compareUtf8 (x # a) (y # b) = (if x \<noteq> y then codePointRank x - codePointRank y else compareUtf8 a b)"
| "compareUtf8 a b = int (length a) - int (length b)"

fun compareIds :: "utf16 list \<Rightarrow> utf16 list \<Rightarrow> int" where
  "compareIds (x # a) (y # b) = (if compareUtf8 x y \<noteq> 0 then compareUtf8 x y else compareIds a b)"
| "compareIds a b = int (length a) - int (length b)"

definition assertListingLimit :: "jsnum \<Rightarrow> (listing_error, nat) result" where
  "assertListingLimit limit =
     (case limit of
        Whole n \<Rightarrow> if n < 1 then Inl InvalidListingLimit else Inr (nat n)
      | NotWhole \<Rightarrow> Inl InvalidListingLimit)"

definition boundedListing :: "'r list \<Rightarrow> nat \<Rightarrow> 'r listing" where
  "boundedListing fetched limit =
     \<lparr>lst_rows = take limit fetched, lst_truncated = (length fetched > limit)\<rparr>"

definition id_rank :: "utf16 list \<Rightarrow> int list list" where
  "id_rank ids = map (map codePointRank) ids"

definition sort_by_ids :: "('r \<Rightarrow> utf16 list) \<Rightarrow> 'r list \<Rightarrow> 'r list" where
  "sort_by_ids id_of rows = sort_key (\<lambda>r. id_rank (id_of r)) rows"

subsection \<open>The comparison is the order of ranks\<close>

lemma codePointRank_inj: "codePointRank x = codePointRank y \<longleftrightarrow> x = y"
proof -
  have bound: "uint u < 65536" for u :: "16 word" using uint_lt2p[of u] by simp
  show ?thesis
    using bound[of x] bound[of y]
    by (auto simp: codePointRank_def word_le_def word_uint_eq_iff split: if_splits)
qed

lemma compareUtf8_rank:
  "(compareUtf8 a b < 0) = (map codePointRank a < map codePointRank b) \<and>
   (compareUtf8 a b = 0) = (a = b)"
proof (induction a b rule: compareUtf8.induct, goal_cases)
  case (1 x a y b)
  then show ?case
    by (cases "x = y") (auto simp: codePointRank_inj)
next
  case (2 b)
  show ?case by (cases b) simp_all
qed auto

lemma map_rank_inj: "map codePointRank a = map codePointRank b \<longleftrightarrow> a = b"
  using inj_map_eq_map[of codePointRank] codePointRank_inj by (auto simp: inj_def)

lemma compareIds_rank:
  "(compareIds a b < 0) = (id_rank a < id_rank b) \<and> (compareIds a b = 0) = (a = b)"
proof (induction a b rule: compareIds.induct, goal_cases)
  case (1 x a y b)
  then show ?case
    using compareUtf8_rank[of x y]
    by (cases "x = y") (auto simp: id_rank_def map_rank_inj)
next
  case (2 b)
  show ?case by (cases b) (simp_all add: id_rank_def)
qed (auto simp: id_rank_def)

lemma hasIdPrefix_iff: "hasIdPrefix ids vs \<longleftrightarrow> take (length vs) ids = vs"
  by (induction ids vs rule: hasIdPrefix.induct) auto

subsection \<open>Code points\<close>

definition high_surrogate :: "16 word \<Rightarrow> bool" where
  "high_surrogate u \<longleftrightarrow> 0xd800 \<le> u \<and> u \<le> 0xdbff"

definition low_surrogate :: "16 word \<Rightarrow> bool" where
  "low_surrogate u \<longleftrightarrow> 0xdc00 \<le> u \<and> u \<le> 0xdfff"

text \<open>The code points of a well-formed string; \<open>None\<close> when a surrogate stands alone.\<close>

fun code_points :: "utf16 \<Rightarrow> int list option" where
  "code_points [] = Some []"
| "code_points (u # us) =
     (if high_surrogate u
      then (case us of
              [] \<Rightarrow> None
            | v # vs \<Rightarrow>
                if low_surrogate v
                then map_option (\<lambda>cs. (0x10000 + (uint u - 0xd800) * 0x400 + (uint v - 0xdc00)) # cs) (code_points vs)
                else None)
      else if low_surrogate u then None
      else map_option (\<lambda>cs. uint u # cs) (code_points us))"

text \<open>One code point of a string: the units it takes, and how their ranks compare.\<close>

lemma code_points_cases:
  assumes "code_points a = Some cs"
  obtains "a = []" "cs = []"
  | u r ds where "a = u # r" "cs = uint u # ds" "code_points r = Some ds"
      "codePointRank u = uint u" "uint u < 0x10000" "0 \<le> uint u"
  | u v r ds where "a = u # v # r" "cs = (0x10000 + (uint u - 0xd800) * 0x400 + (uint v - 0xdc00)) # ds"
      "code_points r = Some ds" "codePointRank u = uint u + 0x10000" "codePointRank v = uint v + 0x10000"
      "0xd800 \<le> uint u" "0xdc00 \<le> uint v" "uint v < 0xe000"
proof (cases a)
  case Nil
  then show thesis using assms that(1) by simp
next
  case (Cons u us)
  show thesis
  proof (cases "high_surrogate u")
    case True
    then obtain v r ds where us: "us = v # r" "low_surrogate v" "code_points r = Some ds"
      "cs = (0x10000 + (uint u - 0xd800) * 0x400 + (uint v - 0xdc00)) # ds"
      using assms Cons by (auto split: list.splits if_splits)
    from True have "0xd800 \<le> uint u" "uint u \<le> 0xdbff"
      by (simp_all add: high_surrogate_def word_le_def)
    moreover from us(2) have "0xdc00 \<le> uint v" "uint v \<le> 0xdfff"
      by (simp_all add: low_surrogate_def word_le_def)
    ultimately show thesis
      by (intro that(3)[OF _ us(4,3)]) (use Cons us in \<open>simp_all add: codePointRank_def word_le_def\<close>)
  next
    case False
    then have low: "\<not> low_surrogate u" using assms Cons by (auto split: if_splits)
    then obtain ds where ds: "code_points us = Some ds" "cs = uint u # ds"
      using assms Cons False by auto
    have "codePointRank u = uint u"
      using False low by (auto simp: codePointRank_def high_surrogate_def low_surrogate_def word_le_def)
    moreover have "uint u < 0x10000" using uint_lt2p[of u] by simp
    ultimately show thesis by (intro that(2)[OF Cons ds(2,1)]) simp_all
  qed
qed

lemma code_points_order:
  "\<lbrakk>code_points a = Some cs; code_points b = Some ds\<rbrakk>
    \<Longrightarrow> (map codePointRank a < map codePointRank b) = (cs < ds)"
proof (induction "length a" arbitrary: a b cs ds rule: less_induct)
  case less
  from less.prems(1) show ?case
  proof (cases rule: code_points_cases)
    case 1
    from less.prems(2) show ?thesis by (cases rule: code_points_cases) (simp_all add: 1)
  next
    case a: (2 u r es)
    from less.prems(2) show ?thesis
    proof (cases rule: code_points_cases)
      case 1
      then show ?thesis by (simp add: a)
    next
      case (2 u' r' es')
      with less.hyps[of r es r' es'] a show ?thesis by auto
    next
      case (3 u' v' r' es')
      then show ?thesis using a by auto
    qed
  next
    case a: (3 u v r es)
    from less.prems(2) show ?thesis
    proof (cases rule: code_points_cases)
      case 1
      then show ?thesis by (simp add: a)
    next
      case (2 u' r' es')
      then show ?thesis using a by auto
    next
      case (3 u' v' r' es')
      with less.hyps[of r es r' es'] a show ?thesis
        by (cases "uint u = uint u'"; cases "uint v = uint v'") auto
    qed
  qed
qed

text \<open>
  Every backend lists ids in one order: comparing two well-formed texts unit by unit with
  surrogates ranked above the rest of the plane is comparing their code points, which is the
  byte order of their UTF-8 that an SQL backend sorts by; and only equal texts compare equal.
\<close>

theorem compareUtf8_is_code_point_order:
  assumes "code_points a = Some cs" and "code_points b = Some ds"
  shows "(compareUtf8 a b < 0) = (cs < ds) \<and> (compareUtf8 a b = 0) = (a = b)"
  using compareUtf8_rank[of a b] code_points_order[OF assms] by simp

theorem compareUtf8_is_code_point_order_witness:
  "compareUtf8 [0xffe5] [0xd83d, 0xde00] < 0 \<and> (0xffe5 :: 16 word) > 0xd83d"
  using compareUtf8_is_code_point_order[of "[0xffe5]" "[0xffe5]" "[0xd83d, 0xde00]" "[0x1f600]"]
  by (simp add: high_surrogate_def low_surrogate_def)

end
