(* ===== verification/State_Retention.thy ===== *)
theory State_Retention
  imports Prelude
begin

section \<open>Retention: what a store promises to answer, and what it may prune\<close>

text \<open>
  \<open>packages/state-store/src/retention.ts\<close>, \<open>capabilities.ts\<close>, \<open>enforcement.ts\<close> and
  \<open>blocks.ts\<close>. Settings arrive unchecked (\<open>jsnum\<close>, \<open>SetOther\<close>); a prune record is a JSON
  document of one format, represented by what \<open>JSON.parse\<close> makes of it.
\<close>

datatype retention = RevertOnly | Window int | Unbounded

datatype retention_setting = SetRevertOnly | SetUnbounded | SetBlocks jsnum | SetOther

datatype retention_error =
    InvalidFinalityDepth
  | InvalidRetention
  | InvalidRetentionWindow
  | NoFinalityDepth int
  | WindowBelowFinality int int
  | InvalidPruneBudget
  | InvalidBlockNumber
  | NoHistoricalReads int
  | OutsideWindow int int int

record capabilities =
  cap_retention :: retention
  cap_asOf :: bool

record prune_report =
  pr_tip :: "int option"
  pr_floor :: "int option"
  pr_versionsDeleted :: nat
  pr_complete :: bool

definition assertFinalityDepth :: "jsnum option \<Rightarrow> (retention_error, int option) result" where
  "assertFinalityDepth depth =
     (case depth of
        None \<Rightarrow> Inr None
      | Some d \<Rightarrow> if is_block_number d then Inr (Some (whole d)) else Inl InvalidFinalityDepth)"

definition resolveRetention :: "retention_setting option \<Rightarrow> jsnum option \<Rightarrow> (retention_error, retention) result" where
  "resolveRetention setting depth =
     and_then (assertFinalityDepth depth) (\<lambda>finality.
       case setting of
         None \<Rightarrow> Inr Unbounded
       | Some SetRevertOnly \<Rightarrow> Inr RevertOnly
       | Some SetUnbounded \<Rightarrow> Inr Unbounded
       | Some SetOther \<Rightarrow> Inl InvalidRetention
       | Some (SetBlocks b) \<Rightarrow>
           if \<not> is_block_number b then Inl InvalidRetentionWindow
           else (case finality of
                   None \<Rightarrow> Inl (NoFinalityDepth (whole b))
                 | Some f \<Rightarrow> if whole b < f then Inl (WindowBelowFinality (whole b) f)
                             else Inr (Window (whole b))))"

fun retentionFloor :: "retention \<Rightarrow> int \<Rightarrow> int option \<Rightarrow> int option" where
  "retentionFloor Unbounded tip depth = None"
| "retentionFloor (Window blocks) tip depth = Some (max 0 (tip - blocks))"
| "retentionFloor RevertOnly tip depth =
     (case depth of None \<Rightarrow> None | Some d \<Rightarrow> Some (max 0 (tip - d)))"

text \<open>\<open>None\<close> is no budget, the source's positive infinity.\<close>

definition pruneBudget :: "jsnum option \<Rightarrow> (retention_error, nat option) result" where
  "pruneBudget maxVersions =
     (case maxVersions of
        None \<Rightarrow> Inr None
      | Some (Whole n) \<Rightarrow> if n < 1 then Inl InvalidPruneBudget else Inr (Some (nat n))
      | Some NotWhole \<Rightarrow> Inl InvalidPruneBudget)"

fun retainedRange :: "retention \<Rightarrow> int \<Rightarrow> (int \<times> int) option" where
  "retainedRange RevertOnly tip = None"
| "retainedRange (Window blocks) tip = Some (max 0 (tip - blocks), tip)"
| "retainedRange Unbounded tip = Some (0, tip)"

definition assertRetained :: "capabilities \<Rightarrow> jsnum \<Rightarrow> int option \<Rightarrow> (retention_error, int) result" where
  "assertRetained caps requested tip =
     (if \<not> is_block_number requested then Inl InvalidBlockNumber
      else
        (let at = whole requested in
         if \<not> cap_asOf caps \<or> cap_retention caps = RevertOnly then Inl (NoHistoricalReads at)
         else (case (cap_retention caps, tip) of
                 (Window blocks, Some t) \<Rightarrow>
                   (case retainedRange (Window blocks) t of
                      Some (lo, hi) \<Rightarrow> if at < lo then Inl (OutsideWindow at lo hi) else Inr at
                    | None \<Rightarrow> Inr at)
               | _ \<Rightarrow> Inr at)))"

subsection \<open>The prune record\<close>

datatype record_text = PruneRecordText int jsnum | CountText nat | OtherText string

definition RECORD_FORMAT :: int where "RECORD_FORMAT = 1"

definition pruneRecord :: "int option \<Rightarrow> record_text option" where
  "pruneRecord bound = map_option (\<lambda>f. PruneRecordText RECORD_FORMAT (Whole f)) bound"

text \<open>A floor of another JSON type is refused; a number that is not whole would be returned as it is.\<close>

fun recordedPruneFloor :: "record_text option \<Rightarrow> int option" where
  "recordedPruneFloor (Some (PruneRecordText format (Whole f))) = (if format \<noteq> RECORD_FORMAT then None else Some f)"
| "recordedPruneFloor _ = None"

datatype enforcement = NoFloor | NeverPruned "int option" | Pruned "int option" int

definition retentionEnforcementOf :: "retention \<Rightarrow> int option \<Rightarrow> int option \<Rightarrow> record_text option \<Rightarrow> enforcement" where
  "retentionEnforcementOf retention depth tip recorded =
     (if retentionFloor retention 0 depth = None then NoFloor
      else
        (let bound = (case tip of None \<Rightarrow> None | Some t \<Rightarrow> retentionFloor retention t depth) in
         case recordedPruneFloor recorded of
           None \<Rightarrow> NeverPruned bound
         | Some p \<Rightarrow> Pruned bound p))"

subsection \<open>Facts\<close>

lemma pruneRecord_recorded: "recordedPruneFloor (pruneRecord bound) = bound"
  by (cases bound) (simp_all add: pruneRecord_def)

text \<open>
  C34. A retention that was accepted is safe: the prune floor never rises above the deepest
  block a reorg may revert to, and every height a historical read is allowed to ask for is at
  or above the floor, so pruning never deletes what a revert or an allowed read needs.
\<close>

theorem accepted_retention_is_safe:
  assumes "resolveRetention setting (Some (Whole depth)) = Inr r"
    and "retentionFloor r tip (Some depth) = Some bound" and "0 \<le> tip"
  shows "bound \<le> max 0 (tip - depth) \<and>
    (\<forall>historical n at. assertRetained \<lparr>cap_retention = r, cap_asOf = historical\<rparr> n (Some tip) = Inr at
       \<longrightarrow> bound \<le> at)"
proof -
  have d: "0 \<le> depth"
    using assms(1) by (auto simp: resolveRetention_def assertFinalityDepth_def split: if_splits)
  show ?thesis
    using assms d
    by (cases r)
      (auto simp: resolveRetention_def assertFinalityDepth_def assertRetained_def Let_def
        split: option.splits retention_setting.splits if_splits)
qed

theorem accepted_retention_is_safe_witness:
  "retentionFloor (Window 64) 100 (Some 17) = Some 36 \<and> (36 :: int) \<le> max 0 (100 - 17) \<and>
     assertRetained \<lparr>cap_retention = Window 64, cap_asOf = True\<rparr> (Whole 40) (Some 100) = Inr 40"
  using accepted_retention_is_safe[of "Some (SetBlocks (Whole 64))" 17 "Window 64" 100 36]
  by (simp add: resolveRetention_def assertFinalityDepth_def assertRetained_def Let_def)

end
