(* ===== verification/State_Store.thy ===== *)
theory State_Store
  imports State_Listing State_Retention
begin

section \<open>The state-store seam: what every backend promises\<close>

text \<open>
  \<open>packages/state-store/src/store.ts\<close> as its backends implement it. The first part is the code
  the backends share (\<open>blocks.ts\<close>: the refusals of a block; the planning of mutations that both
  in-memory backends carry out before they touch anything). The second part is the contract: a
  backend stands for a history of snapshots, one per applied block; applying a block adds one,
  reverting drops those above a height, pruning forgets how to answer below a floor. The locale
  \<open>state_store\<close> states that contract and derives what a fold relies on.
\<close>

datatype block_axis = HashAxis | TimestampAxis

datatype store_error =
    StoreEntity entity_error
  | StoreListing listing_error
  | StoreRetention retention_error
  | InvalidBlockHash
  | BlockAlreadyRecorded int
  | BlockHashAlreadyRecorded string int
  | BlockNotAboveTip int int
  | RevertBeyondPatchHistory int "int list" "int option"
  | InvalidPatchRetention
  | ConstraintFailed string
  | StoreWriterChanged string
  | BlocksMustAscend int int
  | InvalidBlockTimestamp
  | NoSuchBlock block_axis
  | InvalidRevertSequence

definition of_entity :: "(entity_error, 'x) result \<Rightarrow> (store_error, 'x) result" where
  "of_entity r = (case r of Inl e \<Rightarrow> Inl (StoreEntity e) | Inr x \<Rightarrow> Inr x)"

definition of_listing :: "(listing_error, 'x) result \<Rightarrow> (store_error, 'x) result" where
  "of_listing r = (case r of Inl e \<Rightarrow> Inl (StoreListing e) | Inr x \<Rightarrow> Inr x)"

definition of_retention :: "(retention_error, 'x) result \<Rightarrow> (store_error, 'x) result" where
  "of_retention r = (case r of Inl e \<Rightarrow> Inl (StoreRetention e) | Inr x \<Rightarrow> Inr x)"

lemma of_result_simps [simp, result_simps]:
  "(of_entity r = Inr x) = (r = Inr x)" "(of_listing q = Inr x) = (q = Inr x)"
  "(of_retention p = Inr x) = (p = Inr x)"
  by (auto simp: of_entity_def of_listing_def of_retention_def split: sum.splits)

record cursor_write =
  cw_key :: string
  cw_value :: string

subsection \<open>Blocks and planned mutations\<close>

definition normalizeBlockHash :: "string \<Rightarrow> (store_error, string) result" where
  "normalizeBlockHash h = (if h = [] then Inl InvalidBlockHash else Inr (fold_case h))"

text \<open>The three refusals, in order: a known height, a known hash, a height the tip has passed.\<close>

definition check_block :: "(int \<times> block_pointer) list \<Rightarrow> (string \<rightharpoonup> int) \<Rightarrow> int option \<Rightarrow> block_pointer
    \<Rightarrow> (store_error, string) result" where
  "check_block blocks hashes tip block =
     and_then (normalizeBlockHash (bp_hash block)) (\<lambda>h.
       if map_of blocks (bp_number block) \<noteq> None then Inl (BlockAlreadyRecorded (bp_number block))
       else (case hashes h of
               Some n \<Rightarrow> Inl (BlockHashAlreadyRecorded h n)
             | None \<Rightarrow>
                 (case tip of
                    Some t \<Rightarrow>
                      if bp_number block \<le> t then Inl (BlockNotAboveTip (bp_number block) t) else Inr h
                  | None \<Rightarrow> Inr h)))"

record planned =
  pm_entity :: normalized_entity
  pm_ids :: "utf16 list"
  pm_stored :: "field_values option"

fun mutation_values :: "mutation \<Rightarrow> field_values option" where
  "mutation_values (Upsert _ _ v) = Some v"
| "mutation_values (Delete _ _) = None"

definition plan_mutation :: "entities \<Rightarrow> mutation \<Rightarrow> (store_error, planned) result" where
  "plan_mutation entities m =
     and_then (of_entity (mustGet entities (mutation_entity m))) (\<lambda>entity.
     and_then (of_entity (idValues entity (mutation_id m))) (\<lambda>ids.
     case mutation_values m of
       None \<Rightarrow> Inr \<lparr>pm_entity = entity, pm_ids = ids, pm_stored = None\<rparr>
     | Some v \<Rightarrow>
         and_then (of_entity (encodeFieldValues entity v)) (\<lambda>stored.
           Inr \<lparr>pm_entity = entity, pm_ids = ids, pm_stored = Some stored\<rparr>)))"

definition highest :: "int list \<Rightarrow> int option" where
  "highest ns = (if ns = [] then None else Some (Max (set ns)))"

subsection \<open>Histories of snapshots\<close>

text \<open>A row is named by its entity and its id values; a snapshot holds the current rows.\<close>

type_synonym row_name = "string \<times> utf16 list"
type_synonym snapshot = "row_name \<rightharpoonup> field_values"
type_synonym history = "(int \<times> snapshot) list"

definition row_of :: "planned \<Rightarrow> field_values option" where
  "row_of p = map_option (completeRow (pm_entity p) (pm_ids p)) (pm_stored p)"

definition name_of :: "planned \<Rightarrow> row_name" where
  "name_of p = (ent_name (pm_entity p), pm_ids p)"

definition apply_planned :: "planned list \<Rightarrow> snapshot \<Rightarrow> snapshot" where
  "apply_planned ps s = fold (\<lambda>p s. s(name_of p := row_of p)) ps s"

lemma apply_planned_Cons: "apply_planned (p # ps) s = apply_planned ps (s(name_of p := row_of p))"
  by (simp add: apply_planned_def)

lemma apply_planned_cong: "f k = g k \<Longrightarrow> apply_planned ps f k = apply_planned ps g k"
proof (induction ps arbitrary: f g)
  case Nil
  then show ?case by (simp add: apply_planned_def)
next
  case (Cons p ps)
  show ?case unfolding apply_planned_Cons by (rule Cons.IH) (use Cons.prems in simp)
qed

text \<open>The snapshot a history gives at a height: that of the last block at or below it.\<close>

fun at_height :: "history \<Rightarrow> int \<Rightarrow> snapshot" where
  "at_height [] n = Map.empty"
| "at_height ((m, s) # h) n = (if m \<le> n then s else at_height h n)"

definition latest :: "history \<Rightarrow> snapshot" where
  "latest h = (case h of [] \<Rightarrow> Map.empty | (m, s) # _ \<Rightarrow> s)"

definition cut_above :: "int \<Rightarrow> history \<Rightarrow> history" where
  "cut_above n h = dropWhile (\<lambda>x. n < fst x) h"

definition descending :: "history \<Rightarrow> bool" where
  "descending h \<longleftrightarrow> sorted_wrt (\<lambda>a b. fst b < fst a) h"

definition history_tip :: "history \<Rightarrow> int option" where
  "history_tip h = (case h of [] \<Rightarrow> None | (m, s) # _ \<Rightarrow> Some m)"

lemma history_simps [simp]:
  "latest ((m, s) # h) = s" "latest [] = Map.empty" "history_tip ((m, s) # h) = Some m" "history_tip [] = None"
  by (simp_all add: latest_def history_tip_def)

lemma descending_Cons:
  "descending ((m, s) # h) \<longleftrightarrow> (\<forall>x \<in> set h. fst x < m) \<and> descending h"
  by (simp add: descending_def)

lemma dropWhile_descending:
  fixes f :: "'x \<Rightarrow> int"
  assumes "sorted_wrt (\<lambda>a b. f b < f a) xs"
  shows "set (dropWhile (\<lambda>x. n < f x) xs) = {x \<in> set xs. f x \<le> n}"
    and "sorted_wrt (\<lambda>a b. f b < f a) (dropWhile (\<lambda>x. n < f x) xs)"
  using assms by (induction xs) force+

lemma cut_above_set: "descending h \<Longrightarrow> set (cut_above n h) = {x \<in> set h. fst x \<le> n}"
  by (simp only: cut_above_def descending_def dropWhile_descending(1))

lemma descending_cut_above: "descending h \<Longrightarrow> descending (cut_above n h)"
  by (simp only: cut_above_def descending_def dropWhile_descending(2))

lemma at_height_cut_above: "at_height (cut_above n h) m = at_height h (min m n)" if "descending h"
  using that
proof (induction h)
  case Nil
  then show ?case by (simp add: cut_above_def)
next
  case (Cons x h)
  obtain k s where x: "x = (k, s)" by (cases x)
  show ?case
  proof (cases "n < k")
    case True
    then show ?thesis using Cons by (simp add: cut_above_def x descending_Cons)
  next
    case False
    then have "at_height ((k, s) # h) m = at_height ((k, s) # h) (min m n)" by simp
    with False show ?thesis by (simp add: cut_above_def x)
  qed
qed

lemma latest_cut_above: "descending h \<Longrightarrow> latest (cut_above n h) = at_height h n"
proof (induction h)
  case Nil
  then show ?case by (simp add: cut_above_def)
next
  case (Cons x h)
  then show ?case by (cases x) (simp add: cut_above_def descending_Cons)
qed

lemma latest_at: "\<forall>t. history_tip h = Some t \<longrightarrow> t \<le> n \<Longrightarrow> at_height h n = latest h"
  by (cases h) auto

lemma cut_above_top: "cut_above n ((m, s) # h) = (if n < m then cut_above n h else (m, s) # h)"
  by (simp add: cut_above_def)

lemma cut_above_id: "descending h \<Longrightarrow> \<forall>t. history_tip h = Some t \<longrightarrow> t \<le> n \<Longrightarrow> cut_above n h = h"
  by (cases h) (auto simp: cut_above_def)

text \<open>Names that a store can hold: a declared identifier, id values without the separator.\<close>

definition proper_name :: "row_name \<Rightarrow> bool" where
  "proper_name k \<longleftrightarrow>
     is_identifier (fst k) \<and> snd k \<noteq> [] \<and> (\<forall>x \<in> set (snd k). SEPARATOR \<notin> set x)"

definition row_key :: "row_name \<Rightarrow> utf16" where
  "row_key k = join (units (fst k) # snd k)"

lemma row_key_inj: "\<lbrakk>proper_name k; proper_name k'; row_key k = row_key k'\<rbrakk> \<Longrightarrow> k = k'"
proof -
  assume k: "proper_name k" "proper_name k'" "row_key k = row_key k'"
  have "units (fst k) # snd k = units (fst k') # snd k'"
    by (rule join_inj)
      (use k in \<open>auto simp: proper_name_def row_key_def dest: units_identifier\<close>)
  then show "k = k'" by (simp add: units_inj prod_eq_iff)
qed

text \<open>The declared set of a store: every entity under its own identifier.\<close>

definition declared_ok :: "entities \<Rightarrow> bool" where
  "declared_ok es \<longleftrightarrow> (\<forall>(n, e) \<in> set es. ent_name e = n \<and> is_identifier n \<and> ent_id e \<noteq> [])"

lemma normalizeEntity_ok:
  "normalizeEntity d = Inr e \<Longrightarrow> is_identifier (ent_name e) \<and> ent_id e \<noteq> []"
  by (auto simp: normalizeEntity_def assertIdentifier_def split: if_splits)

lemma collect_entities_ok:
  "\<lbrakk>collect_entities es folded ds = Inr es'; declared_ok es\<rbrakk> \<Longrightarrow> declared_ok es'"
proof (induction ds arbitrary: es folded)
  case (Cons d ds)
  then obtain e folded' where e: "normalizeEntity d = Inr e"
    and rest: "collect_entities (es @ [(ent_name e, e)]) folded' ds = Inr es'"
    by (auto split: if_splits option.splits)
  have "declared_ok (es @ [(ent_name e, e)])"
    using Cons.prems(2) normalizeEntity_ok[OF e] by (auto simp: declared_ok_def)
  with Cons.IH[OF rest] show ?case .
qed simp

lemma normalizeEntities_ok: "normalizeEntities ds = Inr es \<Longrightarrow> declared_ok es"
  using collect_entities_ok[of "[]" "[]" ds] by (auto simp: normalizeEntities_def declared_ok_def)

lemma plan_proper:
  assumes "declared_ok es" and "plan_mutation es m = Inr p"
  shows "proper_name (name_of p)"
proof -
  have "map_of es (mutation_entity m) = Some (pm_entity p)"
    and ids: "idValues (pm_entity p) (mutation_id m) = Inr (pm_ids p)"
    using assms(2) by (auto simp: plan_mutation_def mustGet_def split: option.splits)
  then have "(mutation_entity m, pm_entity p) \<in> set es" by (simp add: map_of_SomeD)
  with ids assms(1) idValues_no_separator[OF ids] idValues_length[OF ids] show ?thesis
    by (auto simp: declared_ok_def proper_name_def name_of_def)
qed

lemma plans_proper:
  assumes "declared_ok es" and "traverse (plan_mutation es) ms = Inr ps"
  shows "\<forall>p \<in> set ps. proper_name (name_of p)"
proof
  fix p assume "p \<in> set ps"
  then obtain i where i: "i < length ps" "ps ! i = p" by (auto simp: in_set_conv_nth)
  have "list_all2 (\<lambda>m p. plan_mutation es m = Inr p) ms ps" using assms(2) by (simp add: traverse_Inr_iff)
  from list_all2_nthD2[OF this i(1)] i(2) show "proper_name (name_of p)"
    using plan_proper[OF assms(1)] by simp
qed

lemma highest_ge: "highest ns = Some t \<Longrightarrow> \<forall>x \<in> set ns. x \<le> t"
  by (auto simp: highest_def split: if_splits)

lemma highest_None: "highest ns = None \<longleftrightarrow> ns = []"
  by (simp add: highest_def)

lemma history_tip_highest:
  assumes "descending h" and "fst ` set h = set ns"
  shows "history_tip h = highest ns"
proof (cases h)
  case Nil
  then show ?thesis using assms(2) by (simp add: highest_def)
next
  case (Cons x h')
  obtain m s where x: "x = (m, s)" by (cases x)
  have "\<forall>y \<in> fst ` set h. y \<le> m" using assms(1) by (auto simp: Cons x descending_Cons less_imp_le)
  then have "Max (set ns) = m"
    using assms(2) by (intro Max_eqI) (auto simp: Cons x)
  moreover have "ns \<noteq> []" using assms(2) by (auto simp: Cons)
  ultimately show ?thesis by (simp add: Cons x highest_def)
qed

lemma check_block_fresh:
  assumes "check_block blocks hashes tip block = Inr hsh"
  shows "bp_number block \<notin> fst ` set blocks \<and> (\<forall>t. tip = Some t \<longrightarrow> t < bp_number block)"
  using assms by (auto simp: check_block_def map_of_eq_None_iff split: if_splits option.splits)

lemma highest_insert:
  assumes "set ns' = insert n (set ns)" and "\<forall>t. highest ns = Some t \<longrightarrow> t < n"
  shows "highest ns' = Some n"
proof -
  have ne: "ns' \<noteq> []" using assms(1) by auto
  have "\<forall>x \<in> set ns'. x \<le> n"
    using assms highest_ge[of ns] by (cases "highest ns") (fastforce simp: highest_None)+
  then have "Max (set ns') = n" using assms(1) by (intro Max_eqI) auto
  with ne show ?thesis by (simp add: highest_def)
qed

subsection \<open>The contract\<close>

locale state_store =
  fixes decls :: "'s \<Rightarrow> entities"
    and applyBlock :: "block_pointer \<Rightarrow> mutation list \<Rightarrow> cursor_write option \<Rightarrow> 's \<Rightarrow> (store_error, 's) result"
    and revertTo :: "int \<Rightarrow> 's \<Rightarrow> (store_error, 's) result"
    and prune :: "jsnum option \<Rightarrow> 's \<Rightarrow> (store_error, 's \<times> prune_report) result"
    and current :: "'s \<Rightarrow> row_name \<Rightarrow> field_values option"
    and cursor :: "'s \<Rightarrow> string \<Rightarrow> string option"
    and holds :: "int \<Rightarrow> history \<Rightarrow> 's \<Rightarrow> bool"
  assumes history_ok: "holds fl h s \<Longrightarrow> descending h \<and> (\<forall>x \<in> set h. 0 \<le> fst x)"
    and current_latest: "\<lbrakk>holds fl h s; proper_name k\<rbrakk> \<Longrightarrow> current s k = latest h k"
    and apply_holds: "\<lbrakk>holds fl h s; applyBlock b ms c s = Inr s'; 0 \<le> bp_number b\<rbrakk>
      \<Longrightarrow> \<exists>ps. traverse (plan_mutation (decls s)) ms = Inr ps \<and>
            holds fl ((bp_number b, apply_planned ps (latest h)) # h) s'"
    and apply_cursor: "\<lbrakk>holds fl h s; applyBlock b ms c s = Inr s'\<rbrakk>
      \<Longrightarrow> cursor s' = (case c of None \<Rightarrow> cursor s | Some w \<Rightarrow> (cursor s)(cw_key w \<mapsto> cw_value w))"
    and revert_holds: "\<lbrakk>holds fl h s; fl \<le> n \<or> n < 0\<rbrakk>
      \<Longrightarrow> \<exists>s'. revertTo n s = Inr s' \<and> holds fl (cut_above n h) s'"
    and revert_cursor: "\<lbrakk>holds fl h s; revertTo n s = Inr s'\<rbrakk> \<Longrightarrow> cursor s' = cursor s"
    and prune_holds: "\<lbrakk>holds fl h s; prune budget s = Inr (s', report)\<rbrakk>
      \<Longrightarrow> holds (case pr_floor report of None \<Rightarrow> fl | Some f \<Rightarrow> max fl f) h s' \<and> cursor s' = cursor s"
    and decls_kept: "holds fl h s \<Longrightarrow> applyBlock b ms c s = Inr s' \<Longrightarrow> decls s' = decls s"
      "holds fl h s \<Longrightarrow> revertTo n s = Inr s' \<Longrightarrow> decls s' = decls s"
      "holds fl h s \<Longrightarrow> prune budget s = Inr (s', report) \<Longrightarrow> decls s' = decls s"
begin

text \<open>Undoing: a block reverted after it was applied is as if it never was.\<close>

lemma revert_undoes_apply:
  assumes h: "holds fl h s" and app: "applyBlock b ms c s = Inr s'" and "0 \<le> bp_number b"
    and n: "fl \<le> n" "n < bp_number b" "\<forall>t. history_tip h = Some t \<longrightarrow> t \<le> n"
  shows "\<exists>s''. revertTo n s' = Inr s'' \<and> holds fl h s''"
proof -
  from apply_holds[OF h app assms(3)] obtain ps where
    h': "holds fl ((bp_number b, apply_planned ps (latest h)) # h) s'" by blast
  have "cut_above n ((bp_number b, apply_planned ps (latest h)) # h) = h"
    using n history_ok[OF h] by (simp add: cut_above_top cut_above_id)
  with revert_holds[OF h', of n] n(1) show ?thesis by simp
qed

lemma reverted_current:
  assumes "holds fl h s" and "fl \<le> n" and "revertTo n s = Inr s'" and "proper_name k"
  shows "current s' k = at_height h n k"
proof -
  from revert_holds[OF assms(1), of n] assms(2,3) have "holds fl (cut_above n h) s'" by auto
  with current_latest[OF _ assms(4)] history_ok[OF assms(1)] show ?thesis by (simp add: latest_cut_above)
qed

end

end
