(* ===== verification/State_Memory.thy ===== *)
theory State_Memory
  imports State_Store
begin

section \<open>The in-memory store with version history\<close>

text \<open>
  \<open>packages/state-store/src/memory.ts\<close> (\<open>MemoryStateStore\<close>): every row keeps its versions as
  half-open intervals of block numbers. The insertion-ordered \<open>Map\<close>s the store iterates over are
  association lists. The bounds a read returns beside the values are separate components here.
\<close>

subsection \<open>The store\<close>

record version =
  v_values :: field_values
  v_lower :: int
  v_upper :: "int option"

record memory_row =
  mr_entity :: string
  mr_id :: "utf16 list"
  mr_versions :: "version list"

record memory_store =
  ms_entities :: entities
  ms_rows :: "(utf16 \<times> memory_row) list"
  ms_blocks :: "(int \<times> block_pointer) list"
  ms_hashes :: "string \<rightharpoonup> int"
  ms_cursors :: "string \<rightharpoonup> string"
  ms_records :: "string \<rightharpoonup> record_text"
  ms_retention :: retention
  ms_finality :: "int option"
  ms_tip :: "int option"

definition memory_open :: "entity_declaration list \<Rightarrow> retention_setting option \<Rightarrow> jsnum option
    \<Rightarrow> (store_error, memory_store) result" where
  "memory_open declarations setting finality =
     and_then (of_entity (normalizeEntities declarations)) (\<lambda>es.
     and_then (of_retention (resolveRetention setting finality)) (\<lambda>r.
       Inr \<lparr>ms_entities = es, ms_rows = [], ms_blocks = [], ms_hashes = Map.empty,
            ms_cursors = Map.empty, ms_records = Map.empty, ms_retention = r,
            ms_finality = map_option whole finality, ms_tip = None\<rparr>))"

definition memory_capabilities :: "memory_store \<Rightarrow> capabilities" where
  "memory_capabilities s =
     \<lparr>cap_retention = ms_retention s, cap_asOf = (ms_retention s \<noteq> RevertOnly)\<rparr>"

fun close_live :: "int \<Rightarrow> version list \<Rightarrow> version list" where
  "close_live n [] = []"
| "close_live n (v # vs) =
     (if v_upper v = None then v\<lparr>v_upper := Some n\<rparr> # vs else v # close_live n vs)"

definition add_version :: "int \<Rightarrow> planned \<Rightarrow> version list \<Rightarrow> version list" where
  "add_version n p vs =
     (case pm_stored p of
        None \<Rightarrow> close_live n vs
      | Some stored \<Rightarrow>
          close_live n vs @
            [\<lparr>v_values = completeRow (pm_entity p) (pm_ids p) stored, v_lower = n, v_upper = None\<rparr>])"

definition planned_key :: "planned \<Rightarrow> utf16" where
  "planned_key p = join (units (ent_name (pm_entity p)) # pm_ids p)"

definition apply_to_rows :: "int \<Rightarrow> planned \<Rightarrow> (utf16 \<times> memory_row) list \<Rightarrow> (utf16 \<times> memory_row) list" where
  "apply_to_rows n p rows =
     (let row = (case map_of rows (planned_key p) of
                   None \<Rightarrow> \<lparr>mr_entity = ent_name (pm_entity p), mr_id = pm_ids p, mr_versions = []\<rparr>
                 | Some r \<Rightarrow> r)
      in AList.update (planned_key p) (row\<lparr>mr_versions := add_version n p (mr_versions row)\<rparr>) rows)"

definition write_cursor :: "cursor_write option \<Rightarrow> (string \<rightharpoonup> string) \<Rightarrow> (string \<rightharpoonup> string)" where
  "write_cursor c cs = (case c of None \<Rightarrow> cs | Some w \<Rightarrow> cs(cw_key w \<mapsto> cw_value w))"

definition memory_applyBlock :: "block_pointer \<Rightarrow> mutation list \<Rightarrow> cursor_write option \<Rightarrow> memory_store
    \<Rightarrow> (store_error, memory_store) result" where
  "memory_applyBlock block mutations c s =
     and_then (check_block (ms_blocks s) (ms_hashes s) (ms_tip s) block) (\<lambda>h.
     and_then (traverse (plan_mutation (ms_entities s)) mutations) (\<lambda>ps.
       Inr (s\<lparr>ms_blocks := AList.update (bp_number block) (block\<lparr>bp_hash := h\<rparr>) (ms_blocks s),
              ms_hashes := (ms_hashes s)(h \<mapsto> bp_number block),
              ms_tip := (case ms_tip s of
                           None \<Rightarrow> Some (bp_number block)
                         | Some t \<Rightarrow> if bp_number block > t then Some (bp_number block) else Some t),
              ms_rows := fold (apply_to_rows (bp_number block)) ps (ms_rows s),
              ms_cursors := write_cursor c (ms_cursors s)\<rparr>)))"

definition memory_readCursor :: "memory_store \<Rightarrow> string \<Rightarrow> string option" where
  "memory_readCursor s key = ms_cursors s key"

definition memory_writeCursor :: "string \<Rightarrow> string \<Rightarrow> memory_store \<Rightarrow> memory_store" where
  "memory_writeCursor key v s = s\<lparr>ms_cursors := (ms_cursors s)(key \<mapsto> v)\<rparr>"

definition memory_clearCursor :: "string \<Rightarrow> memory_store \<Rightarrow> memory_store" where
  "memory_clearCursor key s = s\<lparr>ms_cursors := (ms_cursors s)(key := None)\<rparr>"

definition memory_readSeamRecord :: "memory_store \<Rightarrow> string \<Rightarrow> record_text option" where
  "memory_readSeamRecord s key = ms_records s key"

definition memory_writeSeamRecord :: "string \<Rightarrow> record_text \<Rightarrow> memory_store \<Rightarrow> memory_store" where
  "memory_writeSeamRecord key v s = s\<lparr>ms_records := (ms_records s)(key \<mapsto> v)\<rparr>"

definition memory_clearSeamRecord :: "string \<Rightarrow> memory_store \<Rightarrow> memory_store" where
  "memory_clearSeamRecord key s = s\<lparr>ms_records := (ms_records s)(key := None)\<rparr>"

subsection \<open>Reads\<close>

definition is_live :: "version \<Rightarrow> bool" where
  "is_live v \<longleftrightarrow> v_upper v = None"

definition covers :: "int \<Rightarrow> version \<Rightarrow> bool" where
  "covers n v \<longleftrightarrow> v_lower v \<le> n \<and> (case v_upper v of None \<Rightarrow> True | Some u \<Rightarrow> n < u)"

definition memory_read :: "(version \<Rightarrow> bool) \<Rightarrow> memory_store \<Rightarrow> string \<Rightarrow> entity_id
    \<Rightarrow> (store_error, (field_values \<times> int \<times> int option) option) result" where
  "memory_read matches s entity eid =
     and_then (of_entity (mustGet (ms_entities s) entity)) (\<lambda>e.
     and_then (of_entity (entityKey e eid)) (\<lambda>key.
       case map_of (ms_rows s) key of
         None \<Rightarrow> Inr None
       | Some row \<Rightarrow>
           (case find matches (mr_versions row) of
              None \<Rightarrow> Inr None
            | Some v \<Rightarrow>
                and_then (of_entity (decodeFieldValues e (v_values v))) (\<lambda>values.
                  Inr (Some (values, v_lower v, v_upper v))))))"

definition memory_getCurrent :: "memory_store \<Rightarrow> string \<Rightarrow> entity_id
    \<Rightarrow> (store_error, (field_values \<times> int \<times> int option) option) result" where
  "memory_getCurrent s entity eid = memory_read is_live s entity eid"

definition memory_getAsOf :: "memory_store \<Rightarrow> string \<Rightarrow> entity_id \<Rightarrow> jsnum
    \<Rightarrow> (store_error, (field_values \<times> int \<times> int option) option) result" where
  "memory_getAsOf s entity eid at =
     and_then (of_retention (assertRetained (memory_capabilities s) at (ms_tip s))) (\<lambda>n.
       memory_read (covers n) s entity eid)"

definition memory_scan :: "(version \<Rightarrow> bool) \<Rightarrow> memory_store \<Rightarrow> string \<Rightarrow> id_prefix \<Rightarrow> jsnum
    \<Rightarrow> (store_error, (field_values \<times> int \<times> int option) listing) result" where
  "memory_scan matches s entity prefix limit =
     and_then (of_entity (mustGet (ms_entities s) entity)) (\<lambda>e.
     and_then (of_listing (prefixValues e prefix)) (\<lambda>vs.
     and_then (of_listing (assertListingLimit limit)) (\<lambda>n.
       (let found = List.map_filter
              (\<lambda>(k, row).
                 if mr_entity row \<noteq> ent_name e \<or> \<not> hasIdPrefix (mr_id row) vs then None
                 else map_option (\<lambda>v. (mr_id row, v)) (find matches (mr_versions row)))
              (ms_rows s);
            sorted = sort_by_ids fst found
        in and_then
             (traverse (\<lambda>(i, v). and_then (of_entity (decodeFieldValues e (v_values v)))
                                   (\<lambda>values. Inr (values, v_lower v, v_upper v)))
               (take (n + 1) sorted))
             (\<lambda>rows. Inr (boundedListing rows n))))))"

definition memory_listCurrent :: "memory_store \<Rightarrow> string \<Rightarrow> id_prefix \<Rightarrow> jsnum
    \<Rightarrow> (store_error, (field_values \<times> int \<times> int option) listing) result" where
  "memory_listCurrent s entity prefix limit = memory_scan is_live s entity prefix limit"

definition memory_listAsOf :: "memory_store \<Rightarrow> string \<Rightarrow> id_prefix \<Rightarrow> jsnum \<Rightarrow> jsnum
    \<Rightarrow> (store_error, (field_values \<times> int \<times> int option) listing) result" where
  "memory_listAsOf s entity prefix at limit =
     and_then (of_retention (assertRetained (memory_capabilities s) at (ms_tip s))) (\<lambda>n.
       memory_scan (covers n) s entity prefix limit)"

definition memory_getBlock :: "memory_store \<Rightarrow> int \<Rightarrow> block_pointer option" where
  "memory_getBlock s n = map_of (ms_blocks s) n"

definition memory_storedCurrent :: "memory_store \<Rightarrow> string \<Rightarrow> entity_id \<Rightarrow> (store_error, field_values option) result" where
  "memory_storedCurrent s entity eid =
     and_then (of_entity (mustGet (ms_entities s) entity)) (\<lambda>e.
     and_then (of_entity (entityKey e eid)) (\<lambda>key.
       Inr (case map_of (ms_rows s) key of
              None \<Rightarrow> None
            | Some row \<Rightarrow> map_option v_values (find is_live (mr_versions row)))))"

subsection \<open>Reverting and pruning\<close>

definition reopen :: "int \<Rightarrow> version \<Rightarrow> version" where
  "reopen keepUpTo v =
     (case v_upper v of
        None \<Rightarrow> v
      | Some u \<Rightarrow> if u > keepUpTo then v\<lparr>v_upper := None\<rparr> else v)"

definition revert_versions :: "int \<Rightarrow> version list \<Rightarrow> version list" where
  "revert_versions keepUpTo vs = map (reopen keepUpTo) (filter (\<lambda>v. v_lower v \<le> keepUpTo) vs)"

definition revert_rows :: "int \<Rightarrow> (utf16 \<times> memory_row) list \<Rightarrow> (utf16 \<times> memory_row) list" where
  "revert_rows keepUpTo rows =
     filter (\<lambda>(k, r). mr_versions r \<noteq> [])
       (map (\<lambda>(k, r). (k, r\<lparr>mr_versions := revert_versions keepUpTo (mr_versions r)\<rparr>)) rows)"

definition memory_revertTo :: "int \<Rightarrow> memory_store \<Rightarrow> memory_store" where
  "memory_revertTo keepUpTo s =
     (let kept = filter (\<lambda>(n, b). n \<le> keepUpTo) (ms_blocks s);
          dropped = filter (\<lambda>(n, b). n > keepUpTo) (ms_blocks s)
      in s\<lparr>ms_rows := revert_rows keepUpTo (ms_rows s),
           ms_blocks := kept,
           ms_hashes := fold (\<lambda>(n, b) hs. hs(bp_hash b := None)) dropped (ms_hashes s),
           ms_tip := highest (map fst kept)\<rparr>)"

text \<open>
  The source collects version objects in a set; here a version is named by the key of its row
  and its position there.
\<close>

definition unreachable :: "int \<Rightarrow> (utf16 \<times> memory_row) list \<Rightarrow> ((utf16 \<times> nat) \<times> int) list" where
  "unreachable bound rows =
     concat (map (\<lambda>(k, r). List.map_filter
         (\<lambda>(i, v). case v_upper v of
                     None \<Rightarrow> None
                   | Some u \<Rightarrow> if u \<le> bound then Some ((k, i), u) else None)
         (zip [0..<length (mr_versions r)] (mr_versions r))) rows)"

definition drop_versions :: "(utf16 \<times> nat) set \<Rightarrow> (utf16 \<times> memory_row) list \<Rightarrow> (utf16 \<times> memory_row) list" where
  "drop_versions doomed rows =
     filter (\<lambda>(k, r). mr_versions r \<noteq> [] \<or> (\<forall>i. (k, i) \<notin> doomed))
       (map (\<lambda>(k, r). (k, r\<lparr>mr_versions := nths (mr_versions r) {i. (k, i) \<notin> doomed}\<rparr>)) rows)"

definition memory_prune :: "jsnum option \<Rightarrow> memory_store \<Rightarrow> (store_error, memory_store \<times> prune_report) result" where
  "memory_prune maxVersions s =
     (let bound = (case ms_tip s of None \<Rightarrow> None | Some t \<Rightarrow> retentionFloor (ms_retention s) t (ms_finality s)) in
      and_then (of_retention (pruneBudget maxVersions)) (\<lambda>budget.
        case bound of
          None \<Rightarrow> Inr (s, \<lparr>pr_tip = ms_tip s, pr_floor = None, pr_versionsDeleted = 0, pr_complete = True\<rparr>)
        | Some f \<Rightarrow>
            (let stale = sort_key snd (unreachable f (ms_rows s));
                 doomed = (case budget of None \<Rightarrow> stale | Some n \<Rightarrow> take n stale)
             in Inr
               (s\<lparr>ms_rows := drop_versions (set (map fst doomed)) (ms_rows s),
                  ms_records := (ms_records s)(''retentionEnforcement'' := pruneRecord (Some f))\<rparr>,
                \<lparr>pr_tip = ms_tip s, pr_floor = Some f, pr_versionsDeleted = length doomed,
                 pr_complete = (length doomed = length stale)\<rparr>))))"

definition memory_readRetentionEnforcement :: "memory_store \<Rightarrow> enforcement" where
  "memory_readRetentionEnforcement s =
     retentionEnforcementOf (ms_retention s) (ms_finality s) (ms_tip s)
       (ms_records s ''retentionEnforcement'')"

subsection \<open>Version lists\<close>

text \<open>
  The versions of a row follow one another: each but the last is closed at or below where the
  next begins, and none ends before it begins. \<open>until t\<close> bounds every end by a height.
\<close>

definition chain :: "version list \<Rightarrow> bool" where
  "chain vs \<longleftrightarrow>
     sorted_wrt (\<lambda>v w. \<exists>u. v_upper v = Some u \<and> u \<le> v_lower w) vs \<and>
     (\<forall>v \<in> set vs. \<forall>u. v_upper v = Some u \<longrightarrow> v_lower v \<le> u)"

definition until :: "int \<Rightarrow> version list \<Rightarrow> bool" where
  "until t vs \<longleftrightarrow> (\<forall>v \<in> set vs. v_lower v \<le> t \<and> (\<forall>u. v_upper v = Some u \<longrightarrow> u \<le> t))"

definition value_at :: "int \<Rightarrow> version list \<Rightarrow> field_values option" where
  "value_at n vs = map_option v_values (find (covers n) vs)"

lemma sorted_wrt_distinct_cases:
  assumes "sorted_wrt P xs" and "x \<in> set xs" "y \<in> set xs"
  shows "x = y \<or> P x y \<or> P y x"
  using assms by (induction xs) auto

lemma find_unique:
  assumes "v \<in> set vs" "P v" and "\<And>w. w \<in> set vs \<Longrightarrow> P w \<Longrightarrow> w = v"
  shows "find P vs = Some v"
proof (cases "find P vs")
  case None
  then show ?thesis using assms(1,2) by (auto simp: find_None_iff)
next
  case (Some w)
  then have "w \<in> set vs" "P w" by (auto simp: find_Some_iff)
  then show ?thesis using Some assms(3) by simp
qed

lemma covers_unique:
  assumes "chain vs" "v \<in> set vs" "w \<in> set vs" "covers n v" "covers n w"
  shows "v = w"
proof -
  have order: "\<not> (\<exists>u. v_upper a = Some u \<and> u \<le> v_lower b)" if "covers n a" "covers n b" for a b
    using that by (auto simp: covers_def)
  from sorted_wrt_distinct_cases[of "\<lambda>v w. \<exists>u. v_upper v = Some u \<and> u \<le> v_lower w" vs v w] assms(1-3)
  show ?thesis using order[OF assms(4,5)] order[OF assms(5,4)] by (auto simp: chain_def)
qed

lemma value_at_iff:
  assumes "chain vs"
  shows "value_at n vs = Some x \<longleftrightarrow> (\<exists>v \<in> set vs. covers n v \<and> v_values v = x)"
proof
  assume "value_at n vs = Some x"
  then obtain v where "find (covers n) vs = Some v" "v_values v = x" by (auto simp: value_at_def)
  then show "\<exists>v \<in> set vs. covers n v \<and> v_values v = x"
    by (metis find_Some_iff nth_mem)
next
  assume "\<exists>v \<in> set vs. covers n v \<and> v_values v = x"
  then obtain v where v: "v \<in> set vs" "covers n v" "v_values v = x" by blast
  have "find (covers n) vs = Some v"
    by (rule find_unique[where P = "covers n", OF v(1,2)]) (rule covers_unique[OF assms _ v(1) _ v(2)])
  with v(3) show "value_at n vs = Some x" by (simp add: value_at_def)
qed

lemma value_at_None:
  assumes "chain vs"
  shows "value_at n vs = None \<longleftrightarrow> (\<forall>v \<in> set vs. \<not> covers n v)"
  using find_None_iff[of "covers n" vs] by (auto simp: value_at_def)

text \<open>Two lists whose covering versions at a height carry the same values agree there.\<close>

lemma value_at_eqI:
  assumes "chain vs" "chain ws"
    and "\<And>x. (\<exists>v \<in> set vs. covers n v \<and> v_values v = x) \<longleftrightarrow> (\<exists>w \<in> set ws. covers m w \<and> v_values w = x)"
  shows "value_at n vs = value_at m ws"
  using value_at_iff[OF assms(1), of n] value_at_iff[OF assms(2), of m] assms(3)
  by (cases "value_at n vs"; cases "value_at m ws") (metis option.distinct(1) option.inject)+

lemma live_covers:
  assumes "until t vs" "v \<in> set vs" "t \<le> n"
  shows "covers n v \<longleftrightarrow> v_upper v = None"
  using assms by (force simp: until_def covers_def split: option.splits)

lemma find_live:
  assumes "until t vs" "t \<le> n"
  shows "map_option v_values (find is_live vs) = value_at n vs"
proof -
  have "find is_live vs = find (covers n) vs"
    by (rule find_cong[OF refl]) (use live_covers[OF assms(1) _ assms(2)] in \<open>simp add: is_live_def\<close>)
  then show ?thesis by (simp add: value_at_def)
qed

lemma chain_last:
  assumes "chain (v # vs)" and "v_upper v = None"
  shows "vs = []"
  using assms by (cases vs) (auto simp: chain_def)

lemma close_live_eq:
  assumes "chain vs"
  shows "close_live n vs = map (\<lambda>v. if v_upper v = None then v\<lparr>v_upper := Some n\<rparr> else v) vs"
  using assms
proof (induction vs)
  case Nil
  then show ?case by simp
next
  case (Cons v vs)
  have "chain vs" using Cons.prems by (simp add: chain_def)
  with Cons chain_last[OF Cons.prems] show ?case by auto
qed

lemma close_live_chain:
  assumes "chain vs" "until t vs" "t \<le> n"
  shows "chain (close_live n vs)" "until n (close_live n vs)"
    "\<forall>v \<in> set (close_live n vs). v_upper v \<noteq> None"
proof -
  have low: "v_lower v \<le> n" if "v \<in> set vs" for v using assms(2,3) that by (force simp: until_def)
  show "chain (close_live n vs)"
    unfolding close_live_eq[OF assms(1)] chain_def
  proof (intro conjI ballI)
    have "sorted_wrt (\<lambda>v w. \<exists>u. v_upper v = Some u \<and> u \<le> v_lower w) vs"
      using assms(1) by (simp add: chain_def)
    then show "sorted_wrt (\<lambda>v w. \<exists>u. v_upper v = Some u \<and> u \<le> v_lower w)
        (map (\<lambda>v. if v_upper v = None then v\<lparr>v_upper := Some n\<rparr> else v) vs)"
      unfolding sorted_wrt_map by (rule sorted_wrt_mono_rel[rotated]) auto
    fix w assume "w \<in> set (map (\<lambda>v. if v_upper v = None then v\<lparr>v_upper := Some n\<rparr> else v) vs)"
    then show "\<forall>u. v_upper w = Some u \<longrightarrow> v_lower w \<le> u"
      using assms(1) low by (auto simp: chain_def)
  qed
  show "until n (close_live n vs)"
    unfolding close_live_eq[OF assms(1)] using assms(2,3) by (force simp: until_def)
  show "\<forall>v \<in> set (close_live n vs). v_upper v \<noteq> None"
    unfolding close_live_eq[OF assms(1)] by auto
qed

lemma add_version_chain:
  assumes "chain vs" "until t vs" "t \<le> n"
  shows "chain (add_version n p vs)" "until n (add_version n p vs)"
proof -
  note cl = close_live_chain[OF assms]
  show "chain (add_version n p vs)"
  proof (cases "pm_stored p")
    case None
    then show ?thesis using cl by (simp add: add_version_def)
  next
    case (Some stored)
    have "\<exists>u. v_upper v = Some u \<and> u \<le> n" if "v \<in> set (close_live n vs)" for v
      using cl(2,3) that by (auto simp: until_def)
    then show ?thesis using cl(1) Some by (auto simp: add_version_def chain_def sorted_wrt_append)
  qed
  show "until n (add_version n p vs)"
    using cl(2) by (auto simp: add_version_def until_def split: option.splits)
qed

lemma covers_closed:
  assumes "v_lower v \<le> t" "t \<le> n" "\<forall>u. v_upper v = Some u \<longrightarrow> u \<le> t"
  shows "covers m (if v_upper v = None then v\<lparr>v_upper := Some n\<rparr> else v) \<longleftrightarrow> covers m v \<and> m < n"
  using assms by (auto simp: covers_def split: option.splits)

text \<open>After a block at \<open>n\<close>: the row's new value from \<open>n\<close> on, the old values below.\<close>

lemma add_version_value:
  assumes "chain vs" "until t vs" "t \<le> n"
  shows "value_at m (add_version n p vs) = (if n \<le> m then row_of p else value_at m vs)"
proof -
  let ?cl = "close_live n vs"
  have bounds: "v_lower v \<le> t" "\<forall>u. v_upper v = Some u \<longrightarrow> u \<le> t" if "v \<in> set vs" for v
    using assms(2) that by (auto simp: until_def)
  have closed: "(\<exists>v \<in> set ?cl. covers m v \<and> v_values v = x) \<longleftrightarrow>
      m < n \<and> (\<exists>v \<in> set vs. covers m v \<and> v_values v = x)" for x
  proof -
    let ?f = "\<lambda>v. if v_upper v = None then v\<lparr>v_upper := Some n\<rparr> else v"
    have same: "v_values (?f v) = v_values v" for v by simp
    have "(\<exists>v \<in> set ?cl. covers m v \<and> v_values v = x) \<longleftrightarrow>
        (\<exists>v \<in> set vs. covers m (?f v) \<and> v_values (?f v) = x)"
      unfolding close_live_eq[OF assms(1)] set_map by blast
    then have "(\<exists>v \<in> set ?cl. covers m v \<and> v_values v = x) \<longleftrightarrow>
        (\<exists>v \<in> set vs. covers m (?f v) \<and> v_values v = x)"
      by (simp only: same)
    also have "\<dots> \<longleftrightarrow> (\<exists>v \<in> set vs. (covers m v \<and> m < n) \<and> v_values v = x)"
      by (rule bex_cong[OF refl]) (simp only: covers_closed[OF bounds(1) assms(3) bounds(2)])
    finally show ?thesis by blast
  qed
  have new: "(\<exists>v \<in> set (add_version n p vs). covers m v \<and> v_values v = x) \<longleftrightarrow>
      (if n \<le> m then row_of p = Some x else \<exists>v \<in> set vs. covers m v \<and> v_values v = x)" for x
  proof (cases "pm_stored p")
    case None
    then show ?thesis using closed[of x] by (simp add: add_version_def row_of_def not_le)
  next
    case (Some stored)
    then show ?thesis using closed[of x]
      by (auto simp: add_version_def row_of_def not_le covers_def)
  qed
  show ?thesis
    using value_at_iff[OF add_version_chain(1)[OF assms], of m p] new value_at_iff[OF assms(1), of m]
    by (cases "value_at m (add_version n p vs)"; cases "row_of p"; cases "value_at m vs")
      (metis option.distinct(1) option.inject)+
qed

lemma reopen_simps [simp]: "v_lower (reopen k v) = v_lower v" "v_values (reopen k v) = v_values v"
  by (auto simp: reopen_def split: option.splits)

lemma reopen_upper: "v_upper (reopen k v) = Some u \<longleftrightarrow> v_upper v = Some u \<and> u \<le> k"
  by (auto simp: reopen_def split: option.splits)

lemma revert_versions_chain:
  assumes "chain vs"
  shows "chain (revert_versions k vs)" "until k (revert_versions k vs)"
proof -
  have "sorted_wrt (\<lambda>v w. \<exists>u. v_upper v = Some u \<and> u \<le> v_lower w) (filter (\<lambda>v. v_lower v \<le> k) vs)"
    using assms by (simp add: chain_def sorted_wrt_filter)
  then have "sorted_wrt (\<lambda>v w. \<exists>u. v_upper (reopen k v) = Some u \<and> u \<le> v_lower w) (filter (\<lambda>v. v_lower v \<le> k) vs)"
    by (rule sorted_wrt_mono_rel[rotated]) (auto simp: reopen_upper)
  then show "chain (revert_versions k vs)"
    using assms by (auto simp: revert_versions_def chain_def sorted_wrt_map reopen_upper)
  show "until k (revert_versions k vs)"
    by (auto simp: revert_versions_def until_def reopen_upper)
qed

lemma revert_versions_value:
  assumes "chain vs"
  shows "value_at m (revert_versions k vs) = value_at (min m k) vs"
proof (rule value_at_eqI[OF revert_versions_chain(1)[OF assms] assms])
  fix x
  have "v_lower v \<le> k \<and> covers m (reopen k v) \<longleftrightarrow> covers (min m k) v" if "v \<in> set vs" for v
  proof (cases "v_upper v")
    case None
    then show ?thesis by (auto simp: covers_def reopen_def)
  next
    case (Some u)
    then show ?thesis by (auto simp: covers_def reopen_def)
  qed
  then show "(\<exists>v \<in> set (revert_versions k vs). covers m v \<and> v_values v = x) \<longleftrightarrow>
      (\<exists>w \<in> set vs. covers (min m k) w \<and> v_values w = x)"
    by (auto simp: revert_versions_def)
qed

lemma dropped_value:
  assumes "chain vs" "set ws \<subseteq> set vs" "chain ws" "\<forall>v \<in> set vs - set ws. \<exists>u. v_upper v = Some u \<and> u \<le> f"
    and "f \<le> n"
  shows "value_at n ws = value_at n vs"
proof (rule value_at_eqI[OF assms(3,1)])
  fix x
  have "\<not> covers n v" if "v \<in> set vs - set ws" for v
    using assms(4,5) that by (force simp: covers_def)
  then show "(\<exists>v \<in> set ws. covers n v \<and> v_values v = x) \<longleftrightarrow> (\<exists>w \<in> set vs. covers n w \<and> v_values w = x)"
    using assms(2) by blast
qed

subsection \<open>Rows\<close>

definition row_value :: "(utf16 \<times> memory_row) list \<Rightarrow> row_name \<Rightarrow> int \<Rightarrow> field_values option" where
  "row_value rows k n =
     (case map_of rows (row_key k) of None \<Rightarrow> None | Some r \<Rightarrow> value_at n (mr_versions r))"

text \<open>Every version begins and ends at a recorded height.\<close>

definition ends_in :: "int set \<Rightarrow> version list \<Rightarrow> bool" where
  "ends_in H vs \<longleftrightarrow> (\<forall>v \<in> set vs. v_lower v \<in> H \<and> (\<forall>u. v_upper v = Some u \<longrightarrow> u \<in> H))"

definition rows_ok :: "int set \<Rightarrow> (utf16 \<times> memory_row) list \<Rightarrow> bool" where
  "rows_ok H rows \<longleftrightarrow> distinct (map fst rows) \<and>
     (\<forall>r \<in> snd ` set rows. chain (mr_versions r) \<and> ends_in H (mr_versions r))"

lemma ends_until: "ends_in H vs \<Longrightarrow> \<forall>x \<in> H. x \<le> n \<Longrightarrow> until n vs"
  by (auto simp: ends_in_def until_def)

lemma ends_mono: "ends_in H vs \<Longrightarrow> H \<subseteq> H' \<Longrightarrow> ends_in H' vs"
  by (auto simp: ends_in_def)

lemma rows_mono: "rows_ok H rows \<Longrightarrow> H \<subseteq> H' \<Longrightarrow> rows_ok H' rows"
  using ends_mono by (auto simp: rows_ok_def)

lemma rows_at:
  assumes "rows_ok H rows" and "map_of rows key = Some r"
  shows "chain (mr_versions r)" "ends_in H (mr_versions r)"
  using assms map_of_SomeD[OF assms(2)] by (force simp: rows_ok_def)+

lemma close_live_set:
  "chain vs \<Longrightarrow> set (close_live n vs) = (\<lambda>v. if v_upper v = None then v\<lparr>v_upper := Some n\<rparr> else v) ` set vs"
  by (simp add: close_live_eq)

lemma add_version_ends:
  assumes "chain vs" "ends_in H vs" "n \<in> H"
  shows "ends_in H (add_version n p vs)"
proof -
  have "ends_in H (close_live n vs)"
    using assms by (auto simp: ends_in_def close_live_set)
  with assms(3) show ?thesis by (auto simp: add_version_def ends_in_def split: option.splits)
qed

lemma planned_key_row: "planned_key p = row_key (name_of p)"
  by (simp add: planned_key_def row_key_def name_of_def)

lemma rows_ok_update:
  assumes ok: "rows_ok H rows" and new: "chain (mr_versions r)" "ends_in H (mr_versions r)"
  shows "rows_ok H (AList.update key r rows)"
proof -
  have "snd ` set (AList.update key r rows) \<subseteq> insert r (snd ` set rows)"
    by (induction rows) auto
  then have "\<forall>x \<in> snd ` set (AList.update key r rows). x = r \<or> x \<in> snd ` set rows" by blast
  with ok new show ?thesis by (metis distinct_update rows_ok_def)
qed

lemma apply_to_rows_ok:
  assumes ok: "rows_ok H rows" and n: "n \<in> H" and top: "\<forall>x \<in> H. x \<le> n"
  shows "rows_ok H (apply_to_rows n p rows)"
proof -
  have empty: "chain []" "ends_in H []" by (simp_all add: chain_def ends_in_def)
  let ?row = "case map_of rows (planned_key p) of
      None \<Rightarrow> \<lparr>mr_entity = ent_name (pm_entity p), mr_id = pm_ids p, mr_versions = []\<rparr> | Some r \<Rightarrow> r"
  have vs: "chain (mr_versions ?row)" "ends_in H (mr_versions ?row)"
    using rows_at[OF ok] empty by (auto split: option.splits)
  have new: "chain (add_version n p (mr_versions ?row))" "ends_in H (add_version n p (mr_versions ?row))"
    by (rule add_version_chain(1)[OF vs(1) ends_until[OF vs(2) top] order_refl],
        rule add_version_ends[OF vs n])
  show ?thesis unfolding apply_to_rows_def Let_def
    by (rule rows_ok_update[OF ok]) (use new in simp_all)
qed

lemma apply_to_rows_value:
  assumes ok: "rows_ok H rows" and top: "\<forall>x \<in> H. x \<le> n" and k: "proper_name k" "proper_name (name_of p)"
  shows "row_value (apply_to_rows n p rows) k m =
    (if n \<le> m \<and> k = name_of p then row_of p else row_value rows k m)"
proof (cases "k = name_of p")
  case False
  then have "row_key k \<noteq> planned_key p"
    using row_key_inj[OF k] by (auto simp: planned_key_row)
  with False show ?thesis by (simp add: row_value_def apply_to_rows_def Let_def update_conv')
next
  case True
  have new: "value_at m (add_version n p vs) = (if n \<le> m then row_of p else value_at m vs)"
    if "chain vs" "ends_in H vs" for vs
    by (rule add_version_value[OF that(1) ends_until[OF that(2) top] order_refl])
  have "chain []" "ends_in H []" by (simp_all add: chain_def ends_in_def)
  note nil = new[OF this]
  show ?thesis
  proof (cases "map_of rows (planned_key p)")
    case None
    then show ?thesis using nil True
      by (simp add: row_value_def apply_to_rows_def Let_def update_conv' planned_key_row value_at_def)
  next
    case (Some r)
    then show ?thesis using new[OF rows_at[OF ok Some]] True
      by (simp add: row_value_def apply_to_rows_def Let_def update_conv' planned_key_row)
  qed
qed

lemma fold_rows:
  assumes "rows_ok H rows" and n: "n \<in> H" and top: "\<forall>x \<in> H. x \<le> n"
    and ps: "\<forall>p \<in> set ps. proper_name (name_of p)"
  shows "rows_ok H (fold (apply_to_rows n) ps rows)"
    and "proper_name k \<Longrightarrow> row_value (fold (apply_to_rows n) ps rows) k m =
      (if n \<le> m then apply_planned ps (\<lambda>k. row_value rows k m) k else row_value rows k m)"
proof -
  have "rows_ok H (fold (apply_to_rows n) ps rows) \<and>
     (\<forall>snap. (\<forall>k. proper_name k \<longrightarrow> row_value rows k m = snap k) \<longrightarrow>
       (\<forall>k. proper_name k \<longrightarrow> row_value (fold (apply_to_rows n) ps rows) k m =
         (if n \<le> m then apply_planned ps snap k else snap k)))"
    using assms(1) ps
  proof (induction ps arbitrary: rows)
    case Nil
    then show ?case by (simp add: apply_planned_def)
  next
    case (Cons p ps)
    have ok: "rows_ok H (apply_to_rows n p rows)" by (rule apply_to_rows_ok[OF Cons.prems(1) n top])
    have p: "proper_name (name_of p)" and rest: "\<forall>p \<in> set ps. proper_name (name_of p)"
      using Cons.prems(2) by simp_all
    note IH = Cons.IH[OF ok rest]
    show ?case
    proof (intro conjI allI impI)
      show "rows_ok H (fold (apply_to_rows n) (p # ps) rows)" using IH by simp
      fix snap k assume snap: "\<forall>k. proper_name k \<longrightarrow> row_value rows k m = snap k" and k: "proper_name k"
      let ?snap = "if n \<le> m then snap(name_of p := row_of p) else snap"
      have "\<forall>k. proper_name k \<longrightarrow> row_value (apply_to_rows n p rows) k m = ?snap k"
        using apply_to_rows_value[OF Cons.prems(1) top _ p] snap by simp
      with IH k have "row_value (fold (apply_to_rows n) ps (apply_to_rows n p rows)) k m =
          (if n \<le> m then apply_planned ps ?snap k else ?snap k)" by blast
      then show "row_value (fold (apply_to_rows n) (p # ps) rows) k m =
          (if n \<le> m then apply_planned (p # ps) snap k else snap k)"
        by (simp add: apply_planned_def)
    qed
  qed
  then have all: "\<forall>snap. (\<forall>k. proper_name k \<longrightarrow> row_value rows k m = snap k) \<longrightarrow>
       (\<forall>k. proper_name k \<longrightarrow> row_value (fold (apply_to_rows n) ps rows) k m =
         (if n \<le> m then apply_planned ps snap k else snap k))"
    and ok: "rows_ok H (fold (apply_to_rows n) ps rows)" by simp_all
  show "rows_ok H (fold (apply_to_rows n) ps rows)" by (rule ok)
  show "proper_name k \<Longrightarrow> row_value (fold (apply_to_rows n) ps rows) k m =
      (if n \<le> m then apply_planned ps (\<lambda>k. row_value rows k m) k else row_value rows k m)"
    using all[rule_format, of "\<lambda>k. row_value rows k m" k] by blast
qed

text \<open>A row-wise rewrite of the table, dropping rows that end up empty.\<close>

lemma map_of_rewrite:
  assumes "distinct (map fst rows)"
    and "\<And>k r. (k, r) \<in> set rows \<Longrightarrow> \<not> P (k, f k r) \<Longrightarrow> mr_versions (f k r) = []"
  shows "row_value (filter P (map (\<lambda>(k, r). (k, f k r)) rows)) key n =
    (case map_of rows (row_key key) of None \<Rightarrow> None | Some r \<Rightarrow> value_at n (mr_versions (f (row_key key) r)))"
  using assms
proof (induction rows)
  case Nil
  then show ?case by (simp add: row_value_def)
next
  case (Cons x rows)
  obtain k r where x: "x = (k, r)" by (cases x)
  have rest: "distinct (map fst rows)" "\<And>k r. (k, r) \<in> set rows \<Longrightarrow> \<not> P (k, f k r) \<Longrightarrow> mr_versions (f k r) = []"
    using Cons.prems by auto
  note IH = Cons.IH[OF rest]
  show ?case
  proof (cases "row_key key = k")
    case False
    then show ?thesis using IH by (simp add: x row_value_def)
  next
    case True
    have none: "map_of rows k = None" using Cons.prems(1) by (auto simp: x map_of_eq_None_iff)
    have "map_of (filter P (map (\<lambda>(k, r). (k, f k r)) rows)) k = None"
      using Cons.prems(1) by (force simp: x map_of_eq_None_iff)
    moreover have "mr_versions (f k r) = []" if "\<not> P (k, f k r)" using Cons.prems(2)[of k r] that x by simp
    ultimately show ?thesis using True none by (simp add: x row_value_def value_at_def)
  qed
qed

lemma distinct_rewrite:
  "distinct (map fst rows) \<Longrightarrow> distinct (map fst (filter P (map (\<lambda>(k, r). (k, f k r)) rows)))"
  by (induction rows) force+

lemma revert_rows_value:
  assumes "rows_ok H rows"
  shows "row_value (revert_rows keep rows) k n = row_value rows k (min n keep)"
proof -
  have "row_value (revert_rows keep rows) k n =
      (case map_of rows (row_key k) of None \<Rightarrow> None | Some r \<Rightarrow> value_at n (revert_versions keep (mr_versions r)))"
    unfolding revert_rows_def
    by (subst map_of_rewrite) (use assms in \<open>auto simp: rows_ok_def split: option.splits\<close>)
  then show ?thesis
    using revert_versions_value rows_at(1)[OF assms] by (simp add: row_value_def split: option.splits)
qed

lemma revert_rows_ok:
  assumes "rows_ok H rows"
  shows "rows_ok {x \<in> H. x \<le> keep} (revert_rows keep rows)"
proof -
  have "chain (revert_versions keep vs) \<and> ends_in {x \<in> H. x \<le> keep} (revert_versions keep vs)"
    if "chain vs" "ends_in H vs" for vs
    using that revert_versions_chain(1)[OF that(1)] by (auto simp: ends_in_def revert_versions_def reopen_upper)
  then show ?thesis
    using assms distinct_rewrite[of rows]
    unfolding rows_ok_def revert_rows_def by fastforce
qed

lemma sorted_wrt_nths: "sorted_wrt P xs \<Longrightarrow> sorted_wrt P (nths xs A)"
proof (induction xs arbitrary: A)
  case Nil
  then show ?case by simp
next
  case (Cons x xs)
  then show ?case using set_nths_subset[of xs] by (auto simp: nths_Cons)
qed

lemma chain_nths: "chain vs \<Longrightarrow> chain (nths vs A)"
  using set_nths_subset[of vs A] by (auto simp: chain_def sorted_wrt_nths)

lemma unreachable_mem:
  assumes "((k, i), u) \<in> set (unreachable f rows)"
  shows "\<exists>r. (k, r) \<in> set rows \<and> i < length (mr_versions r) \<and> v_upper (mr_versions r ! i) = Some u \<and> u \<le> f"
  using assms
  by (fastforce simp: unreachable_def List.map_filter_def set_zip split: option.splits if_splits)

lemma drop_versions_value:
  assumes ok: "rows_ok H rows" and doomed: "D \<subseteq> fst ` set (unreachable f rows)" and "f \<le> n"
  shows "row_value (drop_versions D rows) k n = row_value rows k n"
proof -
  have drop: "row_value (drop_versions D rows) k n =
      (case map_of rows (row_key k) of None \<Rightarrow> None
       | Some r \<Rightarrow> value_at n (nths (mr_versions r) {i. (row_key k, i) \<notin> D}))"
    unfolding drop_versions_def
    by (subst map_of_rewrite) (use ok in \<open>auto simp: rows_ok_def split: option.splits\<close>)
  have "value_at n (nths (mr_versions r) {i. (row_key k, i) \<notin> D}) = value_at n (mr_versions r)"
    if r: "map_of rows (row_key k) = Some r" for r
  proof (rule dropped_value)
    show "chain (mr_versions r)" by (rule rows_at(1)[OF ok r])
    then show "chain (nths (mr_versions r) {i. (row_key k, i) \<notin> D})" by (rule chain_nths)
    show "set (nths (mr_versions r) {i. (row_key k, i) \<notin> D}) \<subseteq> set (mr_versions r)"
      by (rule set_nths_subset)
    show "\<forall>v \<in> set (mr_versions r) - set (nths (mr_versions r) {i. (row_key k, i) \<notin> D}).
        \<exists>u. v_upper v = Some u \<and> u \<le> f"
    proof
      fix v assume v: "v \<in> set (mr_versions r) - set (nths (mr_versions r) {i. (row_key k, i) \<notin> D})"
      then obtain i where i: "i < length (mr_versions r)" "mr_versions r ! i = v"
        by (auto simp: in_set_conv_nth)
      with v have "(row_key k, i) \<in> D" by (auto simp: set_nths)
      then obtain u where "((row_key k, i), u) \<in> set (unreachable f rows)" using doomed by force
      from unreachable_mem[OF this] obtain r' where r': "(row_key k, r') \<in> set rows"
        "v_upper (mr_versions r' ! i) = Some u" "u \<le> f" by blast
      have "r' = r" using r r'(1) ok by (simp add: rows_ok_def)
      with r' i show "\<exists>u. v_upper v = Some u \<and> u \<le> f" by auto
    qed
  qed (rule assms(3))
  then show ?thesis
    unfolding drop unfolding row_value_def by (cases "map_of rows (row_key k)") simp_all
qed

lemma drop_versions_ok:
  assumes "rows_ok H rows"
  shows "rows_ok H (drop_versions D rows)"
proof -
  have "ends_in H (nths vs A)" if "ends_in H vs" for vs A
    using that set_nths_subset[of vs A] by (auto simp: ends_in_def)
  then show ?thesis
    using assms distinct_rewrite[of rows] chain_nths
    unfolding rows_ok_def drop_versions_def by fastforce
qed

subsection \<open>The contract, discharged\<close>

text \<open>Every row is kept under the key of its entity and id.\<close>

definition named_rows :: "(utf16 \<times> memory_row) list \<Rightarrow> bool" where
  "named_rows rows \<longleftrightarrow>
     (\<forall>x \<in> set rows. fst x = row_key (mr_entity (snd x), mr_id (snd x)) \<and>
        proper_name (mr_entity (snd x), mr_id (snd x)))"

lemma named_rowsD:
  "named_rows rows \<Longrightarrow> (k, r) \<in> set rows \<Longrightarrow>
     k = row_key (mr_entity r, mr_id r) \<and> proper_name (mr_entity r, mr_id r)"
  by (auto simp: named_rows_def)

lemma set_update_subset: "set (AList.update k v xs) \<subseteq> insert (k, v) (set xs)"
  by (induction xs) auto

lemma named_apply:
  assumes "named_rows rows" and p: "proper_name (name_of p)"
  shows "named_rows (apply_to_rows n p rows)"
proof -
  let ?row = "case map_of rows (planned_key p) of
      None \<Rightarrow> \<lparr>mr_entity = ent_name (pm_entity p), mr_id = pm_ids p, mr_versions = []\<rparr> | Some r \<Rightarrow> r"
  have key: "planned_key p = row_key (mr_entity ?row, mr_id ?row) \<and> proper_name (mr_entity ?row, mr_id ?row)"
  proof (cases "map_of rows (planned_key p)")
    case None
    then show ?thesis using p by (simp add: planned_key_def row_key_def name_of_def)
  next
    case (Some r)
    then show ?thesis using named_rowsD[OF assms(1) map_of_SomeD[OF Some]] by simp
  qed
  let ?new = "?row\<lparr>mr_versions := add_version n p (mr_versions ?row)\<rparr>"
  have sub: "set (apply_to_rows n p rows) \<subseteq> insert (planned_key p, ?new) (set rows)"
    unfolding apply_to_rows_def Let_def by (rule set_update_subset)
  have new: "fst (planned_key p, ?new) = row_key (mr_entity (snd (planned_key p, ?new)), mr_id (snd (planned_key p, ?new)))
      \<and> proper_name (mr_entity (snd (planned_key p, ?new)), mr_id (snd (planned_key p, ?new)))"
    using key by simp
  show ?thesis unfolding named_rows_def
  proof
    fix x assume "x \<in> set (apply_to_rows n p rows)"
    with sub consider "x = (planned_key p, ?new)" | "x \<in> set rows" by blast
    then show "fst x = row_key (mr_entity (snd x), mr_id (snd x)) \<and> proper_name (mr_entity (snd x), mr_id (snd x))"
    proof cases
      case 1
      show ?thesis unfolding 1 by (rule new)
    next
      case 2
      then show ?thesis using assms(1) unfolding named_rows_def by blast
    qed
  qed
qed

lemma named_fold:
  "named_rows rows \<Longrightarrow> \<forall>p \<in> set ps. proper_name (name_of p) \<Longrightarrow> named_rows (fold (apply_to_rows n) ps rows)"
proof (induction ps arbitrary: rows)
  case (Cons p ps)
  then show ?case using named_apply[OF Cons.prems(1), of p n] by simp
qed simp

lemma named_revert: "named_rows rows \<Longrightarrow> named_rows (revert_rows n rows)"
  by (auto simp: named_rows_def revert_rows_def)

lemma named_drop: "named_rows rows \<Longrightarrow> named_rows (drop_versions D rows)"
  by (auto simp: named_rows_def drop_versions_def)

definition memory_ok :: "memory_store \<Rightarrow> bool" where
  "memory_ok s \<longleftrightarrow> declared_ok (ms_entities s) \<and> named_rows (ms_rows s) \<and>
     rows_ok (fst ` set (ms_blocks s)) (ms_rows s) \<and> ms_tip s = highest (map fst (ms_blocks s))"

definition agrees :: "int \<Rightarrow> history \<Rightarrow> (utf16 \<times> memory_row) list \<Rightarrow> bool" where
  "agrees fl h rows \<longleftrightarrow> (\<forall>k n. proper_name k \<and> fl \<le> n \<longrightarrow> row_value rows k n = at_height h n k)"

lemma agreesD: "agrees fl h rows \<Longrightarrow> proper_name k \<Longrightarrow> fl \<le> n \<Longrightarrow> row_value rows k n = at_height h n k"
  by (simp only: agrees_def)

definition memory_holds :: "int \<Rightarrow> history \<Rightarrow> memory_store \<Rightarrow> bool" where
  "memory_holds fl h s \<longleftrightarrow> memory_ok s \<and> descending h \<and> (\<forall>x \<in> set h. 0 \<le> fst x) \<and>
     fst ` set h = fst ` set (ms_blocks s) \<and> agrees fl h (ms_rows s)"

text \<open>The current row under a name, as \<open>storedCurrent\<close> returns it.\<close>

definition memory_current :: "memory_store \<Rightarrow> row_name \<Rightarrow> field_values option" where
  "memory_current s k =
     (case map_of (ms_rows s) (row_key k) of
        None \<Rightarrow> None | Some r \<Rightarrow> map_option v_values (find is_live (mr_versions r)))"

lemma current_row_value:
  assumes "rows_ok H rows" and "\<forall>x \<in> H. x \<le> n"
  shows "(case map_of rows (row_key k) of None \<Rightarrow> None | Some r \<Rightarrow> map_option v_values (find is_live (mr_versions r)))
    = row_value rows k n"
  using find_live[OF ends_until[OF rows_at(2)[OF assms(1)] assms(2)] order_refl]
  by (simp add: row_value_def split: option.splits)

lemma memory_tip: "memory_holds fl h s \<Longrightarrow> ms_tip s = history_tip h"
  using history_tip_highest[of h "map fst (ms_blocks s)"] by (simp add: memory_holds_def memory_ok_def)

lemma memory_holdsD:
  assumes "memory_holds fl h s"
  shows "declared_ok (ms_entities s)" "rows_ok (fst ` set (ms_blocks s)) (ms_rows s)"
    "ms_tip s = highest (map fst (ms_blocks s))" "descending h" "\<forall>x \<in> set h. 0 \<le> fst x"
    "fst ` set h = fst ` set (ms_blocks s)" "agrees fl h (ms_rows s)" "named_rows (ms_rows s)"
  using assms unfolding memory_holds_def memory_ok_def by blast+

lemma tip_bound:
  assumes "memory_holds fl h s" and "\<forall>t. history_tip h = Some t \<longrightarrow> t \<le> n"
  shows "\<forall>x \<in> fst ` set (ms_blocks s). x \<le> n"
proof (cases "ms_blocks s = []")
  case False
  then obtain t where t: "ms_tip s = Some t"
    using memory_holdsD(3)[OF assms(1)] by (simp add: highest_def)
  then have "\<forall>x \<in> set (map fst (ms_blocks s)). x \<le> t"
    using memory_holdsD(3)[OF assms(1)] by (intro highest_ge) simp
  moreover have "t \<le> n" using assms(2) t memory_tip[OF assms(1)] by simp
  ultimately show ?thesis by force
qed simp

lemma memory_current_latest:
  assumes "memory_holds fl h s" and "proper_name k"
  shows "memory_current s k = latest h k"
proof -
  obtain n where n: "fl \<le> n" "\<forall>t. history_tip h = Some t \<longrightarrow> t \<le> n"
    by (cases "history_tip h") (auto intro: that[of fl] that[of "max fl (the (history_tip h))"])
  have ok: "rows_ok (fst ` set (ms_blocks s)) (ms_rows s)"
    using assms(1) by (simp add: memory_holds_def memory_ok_def)
  have "memory_current s k = row_value (ms_rows s) k n"
    unfolding memory_current_def by (rule current_row_value[OF ok tip_bound[OF assms(1) n(2)]])
  also have "\<dots> = at_height h n k" 
    by (rule agreesD[OF memory_holdsD(7)[OF assms(1)] assms(2) n(1)])
  also have "\<dots> = latest h k" using latest_at[OF n(2)] by simp
  finally show ?thesis .
qed

lemma memory_apply_holds:
  assumes h: "memory_holds fl h s" and app: "memory_applyBlock b ms c s = Inr s'" and pos: "0 \<le> bp_number b"
  shows "\<exists>ps. traverse (plan_mutation (ms_entities s)) ms = Inr ps \<and>
    memory_holds fl ((bp_number b, apply_planned ps (latest h)) # h) s'"
proof -
  let ?n = "bp_number b" and ?H = "fst ` set (ms_blocks s)"
  from app obtain hsh ps where chk: "check_block (ms_blocks s) (ms_hashes s) (ms_tip s) b = Inr hsh"
    and ps: "traverse (plan_mutation (ms_entities s)) ms = Inr ps"
    and rows': "ms_rows s' = fold (apply_to_rows ?n) ps (ms_rows s)"
    and blocks': "ms_blocks s' = AList.update ?n (b\<lparr>bp_hash := hsh\<rparr>) (ms_blocks s)"
    and ents': "ms_entities s' = ms_entities s"
    and tip': "ms_tip s' = (case ms_tip s of None \<Rightarrow> Some ?n | Some t \<Rightarrow> if ?n > t then Some ?n else Some t)"
    by (auto simp: memory_applyBlock_def)
  note fresh = check_block_fresh[OF chk]
  note ok = memory_holdsD[OF h]
  have H': "fst ` set (ms_blocks s') = insert ?n ?H"
    by (simp add: blocks' dom_update)
  have below: "\<forall>x \<in> ?H. x < ?n"

  proof -
    have "\<forall>t. history_tip h = Some t \<longrightarrow> t \<le> ?n - 1"
      using fresh by (simp add: memory_tip[OF h, symmetric] zless_imp_add1_zle algebra_simps)
    from tip_bound[OF h this] show ?thesis by (meson le_less_trans less_add_one zle_diff1_eq)
  qed
  have rows_ok': "rows_ok (insert ?n ?H) (ms_rows s)" by (rule rows_mono[OF ok(2)]) blast
  have top: "\<forall>x \<in> insert ?n ?H. x \<le> ?n" using below by auto
  note plans = plans_proper[OF ok(1) ps]
  note folded = fold_rows[OF rows_ok' insertI1 top plans]
  have "ms_tip s' = Some ?n" using fresh tip' by (auto split: option.splits)
  moreover have "highest (map fst (ms_blocks s')) = Some ?n"
    by (rule highest_insert[of _ _ "map fst (ms_blocks s)"]) (use H' fresh ok(3) in auto)
  ultimately have "memory_ok s'" using ok(1) folded(1) named_fold[OF ok(8) plans]
    by (simp add: memory_ok_def ents' rows' H')
  moreover have "descending ((?n, apply_planned ps (latest h)) # h)"
  proof -
    have "\<forall>x \<in> fst ` set h. x < ?n" unfolding ok(6) by (rule below)
    with ok(4) show ?thesis by (simp add: descending_Cons)
  qed
  moreover have "row_value (ms_rows s') k m = at_height ((?n, apply_planned ps (latest h)) # h) m k"
    if k: "proper_name k" and m: "fl \<le> m" for k m
  proof (cases "?n \<le> m")
    case False
    then show ?thesis using folded(2)[OF k, of m] agreesD[OF ok(7) k m] by (simp add: rows')
  next
    case True
    have old: "row_value (ms_rows s) k' m = latest h k'" if "proper_name k'" for k'
    proof -
      have "\<forall>t. history_tip h = Some t \<longrightarrow> t \<le> m" using fresh True memory_tip[OF h] by auto
      from latest_at[OF this] show ?thesis using agreesD[OF ok(7) that m] by simp
    qed
    have "apply_planned ps (\<lambda>k. row_value (ms_rows s) k m) k = apply_planned ps (latest h) k"
      by (rule apply_planned_cong) (rule old[OF k])
    then show ?thesis using folded(2)[OF k, of m] True by (simp add: rows')
  qed
  then have "agrees fl ((?n, apply_planned ps (latest h)) # h) (ms_rows s')"
    unfolding agrees_def by blast
  ultimately have "memory_holds fl ((?n, apply_planned ps (latest h)) # h) s'"
    using pos H' ok(5,6) by (simp add: memory_holds_def)
  with ps show ?thesis by blast
qed

lemma memory_revert_holds:
  assumes h: "memory_holds fl h s" and n: "fl \<le> n \<or> n < 0"
  shows "memory_holds fl (cut_above n h) (memory_revertTo n s)"
proof -
  note ok = memory_holdsD[OF h]
  let ?H = "fst ` set (ms_blocks s)" and ?s = "memory_revertTo n s"
  have blocks: "fst ` set (ms_blocks ?s) = {x \<in> ?H. x \<le> n}"
    by (force simp: memory_revertTo_def Let_def)
  have rows: "ms_rows ?s = revert_rows n (ms_rows s)" by (simp add: memory_revertTo_def Let_def)
  have heights: "fst ` set (cut_above n h) = {x \<in> ?H. x \<le> n}"
    unfolding cut_above_set[OF ok(4), of n] ok(6)[symmetric] by force
  have "memory_ok ?s"
    using revert_rows_ok[OF ok(2), of n] ok(1) named_revert[OF ok(8), of n]
    by (simp add: memory_ok_def blocks rows) (simp add: memory_revertTo_def Let_def)
  moreover have "row_value (ms_rows ?s) k m = at_height (cut_above n h) m k"
    if k: "proper_name k" and m: "fl \<le> m" for k m
  proof (cases "fl \<le> n")
    case True
    have "row_value (ms_rows ?s) k m = row_value (ms_rows s) k (min m n)"
      unfolding rows by (rule revert_rows_value[OF ok(2)])
    also have "\<dots> = at_height h (min m n) k"
      using True m by (intro agreesD[OF ok(7) k]) simp
    finally show ?thesis by (simp add: at_height_cut_above[OF ok(4)])
  next
    case False
    with n have neg: "n < 0" by simp
    have "cut_above n h = []"

    proof -
      have "{x \<in> set h. fst x \<le> n} = {}" using ok(5) neg by fastforce
      with cut_above_set[OF ok(4), of n] show ?thesis by simp
    qed
    moreover have "row_value (revert_rows n (ms_rows s)) k m = None"
    proof -
      have none: "\<not> (\<exists>x \<in> ?H. x \<le> n)" using ok(5) neg unfolding ok(6)[symmetric] by fastforce
      have "rows_ok {x \<in> ?H. x \<le> n} (revert_rows n (ms_rows s))" by (rule revert_rows_ok[OF ok(2)])
      moreover have "{x \<in> ?H. x \<le> n} = {}" using none by blast
      ultimately have "rows_ok {} (revert_rows n (ms_rows s))" by simp
      from rows_at(2)[OF this] show ?thesis
        by (auto simp: row_value_def ends_in_def value_at_def find_None_iff split: option.splits)
    qed
    ultimately show ?thesis by (simp add: rows)
  qed
  then have "agrees fl (cut_above n h) (ms_rows ?s)" unfolding agrees_def by blast
  ultimately show ?thesis
    using descending_cut_above[OF ok(4)] cut_above_set[OF ok(4)] ok(5) heights blocks
    by (simp add: memory_holds_def)
qed

lemma memory_prune_cases:
  assumes "memory_prune budget s = Inr (s', report)"
  obtains "pr_floor report = None" "s' = s"
  | f b where "pr_floor report = Some f"
      "s' = s\<lparr>ms_rows := drop_versions (set (map fst
          (let stale = sort_key snd (unreachable f (ms_rows s)) in
           case b of None \<Rightarrow> stale | Some n \<Rightarrow> take n stale))) (ms_rows s),
        ms_records := (ms_records s)(''retentionEnforcement'' := pruneRecord (Some f))\<rparr>"
proof (cases "case ms_tip s of None \<Rightarrow> None | Some t \<Rightarrow> retentionFloor (ms_retention s) t (ms_finality s)")
  case None
  then show thesis using assms that(1) by (auto simp: memory_prune_def)
next
  case (Some f)
  then show thesis using assms that(2)[of f] by (auto simp: memory_prune_def Let_def)
qed

lemma memory_prune_holds:
  assumes h: "memory_holds fl h s" and p: "memory_prune budget s = Inr (s', report)"
  shows "memory_holds (case pr_floor report of None \<Rightarrow> fl | Some f \<Rightarrow> max fl f) h s' \<and> ms_cursors s' = ms_cursors s
    \<and> ms_entities s' = ms_entities s"
  using p
proof (cases rule: memory_prune_cases)
  case 1
  with h show ?thesis by simp
next
  case (2 f b)
  note ok = memory_holdsD[OF h]
  let ?stale = "sort_key snd (unreachable f (ms_rows s))"
  define D where "D = set (map fst (let stale = ?stale in case b of None \<Rightarrow> stale | Some n \<Rightarrow> take n stale))"
  have D: "D \<subseteq> fst ` set (unreachable f (ms_rows s))"
  proof (cases b)
    case (Some m)
    then have "D = fst ` set (take m ?stale)" by (simp add: D_def)
    also have "\<dots> \<subseteq> fst ` set ?stale" by (intro image_mono set_take_subset)
    finally show ?thesis by simp
  qed (simp add: D_def)
  have rows: "ms_rows s' = drop_versions D (ms_rows s)"
    and rest: "ms_blocks s' = ms_blocks s" "ms_entities s' = ms_entities s" "ms_tip s' = ms_tip s"
      "ms_cursors s' = ms_cursors s"
    using 2(2) by (simp_all add: D_def)
  have "memory_ok s'"
    using ok drop_versions_ok named_drop[OF ok(8)] by (simp add: memory_ok_def rows rest)
  moreover have "agrees (max fl f) h (ms_rows s')"
    unfolding agrees_def
  proof (intro allI impI)
    fix k n assume k: "proper_name k \<and> max fl f \<le> n"
    then show "row_value (ms_rows s') k n = at_height h n k"
      using drop_versions_value[OF ok(2) D, of n k] agreesD[OF ok(7), of k n] by (simp add: rows)
  qed
  ultimately show ?thesis using ok 2(1) by (simp add: memory_holds_def rest)
qed

interpretation memory: state_store ms_entities memory_applyBlock "\<lambda>n s. Inr (memory_revertTo n s)" memory_prune
  memory_current ms_cursors memory_holds
proof (unfold_locales, goal_cases)
  case (1 fl h s) then show ?case using memory_holdsD by blast
next
  case (2 fl h s k) then show ?case by (rule memory_current_latest)
next
  case (3 fl h s b ms c s') then show ?case by (rule memory_apply_holds)
next
  case (4 fl h s b ms c s')
  then show ?case by (auto simp: memory_applyBlock_def write_cursor_def)
next
  case (5 fl h s n) then show ?case using memory_revert_holds by blast
next
  case (6 fl h s n s') then show ?case by (auto simp: memory_revertTo_def Let_def)
next
  case (7 fl h s budget s' report) then show ?case using memory_prune_holds by blast
next
  case (8 fl h s b ms c s') then show ?case by (auto simp: memory_applyBlock_def)
next
  case (9 fl h s n s') then show ?case by (auto simp: memory_revertTo_def Let_def)
next
  case (10 fl h s budget s' report) then show ?case using memory_prune_holds by blast
qed

lemma memory_open_holds:
  assumes "memory_open ds setting finality = Inr s"
  shows "memory_holds fl [] s"
  using assms
  by (auto simp: memory_open_def memory_holds_def memory_ok_def rows_ok_def named_rows_def highest_def descending_def agrees_def
      row_value_def dest: normalizeEntities_ok)

end
