(* ===== verification/State_Patch.thy ===== *)
theory State_Patch
  imports State_Store "HOL-Library.Mapping"
begin

section \<open>The patch store: one current state and reverse patches\<close>

text \<open>
  \<open>packages/state-store-patch/src/store.ts\<close> (\<open>PatchStateStore\<close>): the current rows only, and per
  block the reverse patch that undoes it. The patches come from the immer package: \<open>reversal\<close>
  (the third component of \<open>produceWithPatches\<close>) and \<open>applyPatches\<close> are arguments, and the locale
  \<open>patching\<close> states immer's documented law, that applying a reversal to the state it was taken
  from gives the state before. Objects keyed by a row's id are finite maps; the order of their
  keys is not observable, since every listing sorts.
\<close>

type_synonym entity_rows = "(utf16, field_values) mapping"
type_synonym light_state = "string \<Rightarrow> entity_rows"

record 'p patch_store =
  ps_entities :: entities
  ps_finality :: "int option"
  ps_blocks :: "(int \<times> block_pointer) list"
  ps_hashes :: "string \<rightharpoonup> int"
  ps_reversals :: "(int \<times> 'p) list"
  ps_cursors :: "string \<rightharpoonup> string"
  ps_records :: "string \<rightharpoonup> record_text"
  ps_state :: light_state
  ps_tip :: "int option"

definition emptyState :: light_state where
  "emptyState = (\<lambda>_. Mapping.empty)"

definition patch_open :: "entity_declaration list \<Rightarrow> retention_setting option \<Rightarrow> jsnum option
    \<Rightarrow> (store_error, 'p patch_store) result" where
  "patch_open declarations setting finality =
     and_then (of_entity (normalizeEntities declarations)) (\<lambda>es.
     and_then (guard (setting = None \<or> setting = Some SetRevertOnly) InvalidPatchRetention) (\<lambda>_.
     and_then (of_retention (assertFinalityDepth finality)) (\<lambda>f.
       Inr \<lparr>ps_entities = es, ps_finality = f, ps_blocks = [], ps_hashes = Map.empty,
            ps_reversals = [], ps_cursors = Map.empty, ps_records = Map.empty,
            ps_state = emptyState, ps_tip = None\<rparr>)))"

definition apply_draft :: "planned \<Rightarrow> light_state \<Rightarrow> light_state" where
  "apply_draft p draft =
     (let e = ent_name (pm_entity p); key = join (pm_ids p) in
      case pm_stored p of
        Some stored \<Rightarrow> draft(e := Mapping.update key (completeRow (pm_entity p) (pm_ids p) stored) (draft e))
      | None \<Rightarrow> draft(e := Mapping.delete key (draft e)))"

definition patch_applyBlock :: "(light_state \<Rightarrow> light_state \<Rightarrow> 'p) \<Rightarrow> block_pointer \<Rightarrow> mutation list
    \<Rightarrow> cursor_write option \<Rightarrow> 'p patch_store \<Rightarrow> (store_error, 'p patch_store) result" where
  "patch_applyBlock reversal block mutations c s =
     and_then (check_block (ps_blocks s) (ps_hashes s) (ps_tip s) block) (\<lambda>h.
     and_then (traverse (plan_mutation (ps_entities s)) mutations) (\<lambda>ps.
       let next_state = fold apply_draft ps (ps_state s) in
       Inr (s\<lparr>ps_state := next_state,
              ps_reversals := AList.update (bp_number block) (reversal (ps_state s) next_state) (ps_reversals s),
              ps_blocks := AList.update (bp_number block) (block\<lparr>bp_hash := h\<rparr>) (ps_blocks s),
              ps_hashes := (ps_hashes s)(h \<mapsto> bp_number block),
              ps_tip := (case ps_tip s of
                           None \<Rightarrow> Some (bp_number block)
                         | Some t \<Rightarrow> if bp_number block > t then Some (bp_number block) else Some t),
              ps_cursors := (case c of None \<Rightarrow> ps_cursors s
                             | Some w \<Rightarrow> (ps_cursors s)(cw_key w \<mapsto> cw_value w))\<rparr>)))"

definition patch_readCursor :: "'p patch_store \<Rightarrow> string \<Rightarrow> string option" where
  "patch_readCursor s key = ps_cursors s key"

definition patch_writeCursor :: "string \<Rightarrow> string \<Rightarrow> 'p patch_store \<Rightarrow> 'p patch_store" where
  "patch_writeCursor key v s = s\<lparr>ps_cursors := (ps_cursors s)(key \<mapsto> v)\<rparr>"

definition patch_clearCursor :: "string \<Rightarrow> 'p patch_store \<Rightarrow> 'p patch_store" where
  "patch_clearCursor key s = s\<lparr>ps_cursors := (ps_cursors s)(key := None)\<rparr>"

definition patch_readSeamRecord :: "'p patch_store \<Rightarrow> string \<Rightarrow> record_text option" where
  "patch_readSeamRecord s key = ps_records s key"

definition patch_writeSeamRecord :: "string \<Rightarrow> record_text \<Rightarrow> 'p patch_store \<Rightarrow> 'p patch_store" where
  "patch_writeSeamRecord key v s = s\<lparr>ps_records := (ps_records s)(key \<mapsto> v)\<rparr>"

definition patch_clearSeamRecord :: "string \<Rightarrow> 'p patch_store \<Rightarrow> 'p patch_store" where
  "patch_clearSeamRecord key s = s\<lparr>ps_records := (ps_records s)(key := None)\<rparr>"

subsection \<open>Reads\<close>

definition entityValuesKey :: "normalized_entity \<Rightarrow> entity_id \<Rightarrow> (entity_error, utf16) result" where
  "entityValuesKey entity eid = and_then (idValues entity eid) (\<lambda>ids. Inr (join ids))"

text \<open>
  Rows are the properties of a plain object, read by name: a key with no own property answers with
  what \<open>Object.prototype\<close> holds, and spreading that gives an object without fields. Assigning to
  \<open>__proto__\<close> replaces the prototype instead of adding a property; a row of that id is outside the
  model.
\<close>

definition inherited_names :: "string list" where
  "inherited_names =
     [''constructor'', ''hasOwnProperty'', ''isPrototypeOf'', ''propertyIsEnumerable'', ''toLocaleString'',
      ''toString'', ''valueOf'', ''__defineGetter__'', ''__defineSetter__'', ''__lookupGetter__'',
      ''__lookupSetter__'', ''__proto__'']"

definition property :: "entity_rows \<Rightarrow> utf16 \<Rightarrow> field_values option" where
  "property rows key =
     (case Mapping.lookup rows key of
        Some row \<Rightarrow> Some row
      | None \<Rightarrow> if key \<in> units ` set inherited_names then Some Map.empty else None)"

definition patch_getCurrent :: "'p patch_store \<Rightarrow> string \<Rightarrow> entity_id
    \<Rightarrow> (store_error, field_values option) result" where
  "patch_getCurrent s entity eid =
     and_then (of_entity (mustGet (ps_entities s) entity)) (\<lambda>e.
     and_then (of_entity (entityValuesKey e eid)) (\<lambda>key.
       case property (ps_state s (ent_name e)) key of
         None \<Rightarrow> Inr None
       | Some row \<Rightarrow> and_then (of_entity (decodeFieldValues e row)) (\<lambda>values. Inr (Some values))))"

definition patch_capabilities :: capabilities where
  "patch_capabilities = \<lparr>cap_retention = RevertOnly, cap_asOf = False\<rparr>"

text \<open>A historical read is always refused: the check refuses first, and a throw follows it.\<close>

definition patch_getAsOf :: "'p patch_store \<Rightarrow> string \<Rightarrow> entity_id \<Rightarrow> jsnum
    \<Rightarrow> (store_error, field_values option) result" where
  "patch_getAsOf s entity eid at =
     and_then (of_retention (assertRetained patch_capabilities at (ps_tip s))) (\<lambda>n.
       Inl (StoreRetention (NoHistoricalReads n)))"

definition patch_listAsOf :: "'p patch_store \<Rightarrow> string \<Rightarrow> id_prefix \<Rightarrow> jsnum \<Rightarrow> jsnum
    \<Rightarrow> (store_error, field_values listing) result" where
  "patch_listAsOf s entity prefix at limit =
     and_then (of_retention (assertRetained patch_capabilities at (ps_tip s))) (\<lambda>n.
       Inl (StoreRetention (NoHistoricalReads n)))"

fun split_key :: "utf16 \<Rightarrow> utf16 list" where
  "split_key [] = [[]]"
| "split_key (u # us) =
     (if u = SEPARATOR then [] # split_key us
      else (case split_key us of [] \<Rightarrow> [[u]] | p # ps \<Rightarrow> (u # p) # ps))"

definition patch_listCurrent :: "'p patch_store \<Rightarrow> string \<Rightarrow> id_prefix \<Rightarrow> jsnum
    \<Rightarrow> (store_error, field_values listing) result" where
  "patch_listCurrent s entity prefix limit =
     and_then (of_entity (mustGet (ps_entities s) entity)) (\<lambda>e.
     and_then (of_listing (prefixValues e prefix)) (\<lambda>vs.
     and_then (of_listing (assertListingLimit limit)) (\<lambda>n.
       (let rows = ps_state s (ent_name e);
            found = List.map_filter
              (\<lambda>key. if hasIdPrefix (split_key key) vs
                     then map_option (\<lambda>row. (split_key key, row)) (Mapping.lookup rows key) else None)
              (Mapping.ordered_keys rows);
            sorted = sort_by_ids fst found
        in and_then (traverse (\<lambda>(i, row). of_entity (decodeFieldValues e row)) (take (n + 1) sorted))
             (\<lambda>rows. Inr (boundedListing rows n))))))"

definition patch_getBlock :: "'p patch_store \<Rightarrow> int \<Rightarrow> block_pointer option" where
  "patch_getBlock s n = map_of (ps_blocks s) n"

definition patch_storedCurrent :: "'p patch_store \<Rightarrow> string \<Rightarrow> entity_id
    \<Rightarrow> (store_error, field_values option) result" where
  "patch_storedCurrent s entity eid =
     and_then (of_entity (mustGet (ps_entities s) entity)) (\<lambda>e.
     and_then (of_entity (entityValuesKey e eid)) (\<lambda>key.
       Inr (property (ps_state s (ent_name e)) key)))"

subsection \<open>Reverting and pruning\<close>

definition deepestRevert :: "'p patch_store \<Rightarrow> int option" where
  "deepestRevert s = highest (filter (\<lambda>n. n \<notin> fst ` set (ps_reversals s)) (map fst (ps_blocks s)))"

definition patch_revertTo :: "(light_state \<Rightarrow> 'p \<Rightarrow> light_state) \<Rightarrow> int \<Rightarrow> 'p patch_store
    \<Rightarrow> (store_error, 'p patch_store) result" where
  "patch_revertTo applyPatches keepUpTo s =
     (if keepUpTo < 0
      then Inr (s\<lparr>ps_state := emptyState, ps_reversals := [], ps_blocks := [],
                  ps_hashes := Map.empty, ps_tip := None\<rparr>)
      else
        (let above = rev (sort (filter (\<lambda>n. n > keepUpTo) (map fst (ps_blocks s))));
             missing = sort (filter (\<lambda>n. n \<notin> fst ` set (ps_reversals s)) above)
         in if above = [] then Inr s
            else if missing \<noteq> [] then Inl (RevertBeyondPatchHistory keepUpTo missing (deepestRevert s))
            else Inr (s\<lparr>ps_state := fold (\<lambda>n st. applyPatches st (the (map_of (ps_reversals s) n))) above (ps_state s),
                        ps_reversals := filter (\<lambda>(n, p). n \<notin> set above) (ps_reversals s),
                        ps_hashes := fold (\<lambda>n hs. hs(bp_hash (the (map_of (ps_blocks s) n)) := None)) above (ps_hashes s),
                        ps_blocks := filter (\<lambda>(n, b). n \<notin> set above) (ps_blocks s),
                        ps_tip := highest (filter (\<lambda>n. n \<notin> set above) (map fst (ps_blocks s)))\<rparr>)))"

definition patch_prune :: "jsnum option \<Rightarrow> 'p patch_store \<Rightarrow> (store_error, 'p patch_store \<times> prune_report) result" where
  "patch_prune maxVersions s =
     (let bound = (case ps_tip s of None \<Rightarrow> None | Some t \<Rightarrow> retentionFloor RevertOnly t (ps_finality s)) in
      and_then (of_retention (pruneBudget maxVersions)) (\<lambda>budget.
        case bound of
          None \<Rightarrow> Inr (s, \<lparr>pr_tip = ps_tip s, pr_floor = None, pr_versionsDeleted = 0, pr_complete = True\<rparr>)
        | Some f \<Rightarrow>
            (let stale = sort (filter (\<lambda>n. n \<le> f) (map fst (ps_reversals s)));
                 doomed = (case budget of None \<Rightarrow> stale | Some n \<Rightarrow> take n stale)
             in Inr
               (s\<lparr>ps_reversals := filter (\<lambda>(n, p). n \<notin> set doomed) (ps_reversals s),
                  ps_records := (ps_records s)(''retentionEnforcement'' := pruneRecord (Some f))\<rparr>,
                \<lparr>pr_tip = ps_tip s, pr_floor = Some f, pr_versionsDeleted = length doomed,
                 pr_complete = (length doomed = length stale)\<rparr>))))"

definition patch_readRetentionEnforcement :: "'p patch_store \<Rightarrow> enforcement" where
  "patch_readRetentionEnforcement s =
     retentionEnforcementOf RevertOnly (ps_finality s) (ps_tip s) (ps_records s ''retentionEnforcement'')"

definition retainedReversals :: "'p patch_store \<Rightarrow> int list" where
  "retainedReversals s = sort (map fst (ps_reversals s))"

subsection \<open>Patches that undo\<close>

text \<open>
  The library's promise: a reversal, applied to the state it leads away from, gives the state
  before. It is the only thing the store relies on.
\<close>

locale patching =
  fixes reversal :: "light_state \<Rightarrow> light_state \<Rightarrow> 'p"
    and applyPatches :: "light_state \<Rightarrow> 'p \<Rightarrow> light_state"
  assumes undo: "applyPatches after (reversal before after) = before"

text \<open>Snapshots and states: the row under a name is the value under its joined id.\<close>

definition state_row :: "light_state \<Rightarrow> row_name \<Rightarrow> field_values option" where
  "state_row st k = Mapping.lookup (st (fst k)) (join (snd k))"

definition patch_current :: "'p patch_store \<Rightarrow> row_name \<Rightarrow> field_values option" where
  "patch_current s k = state_row (ps_state s) k"

definition tidy :: "light_state \<Rightarrow> bool" where
  "tidy st \<longleftrightarrow> (\<forall>e. finite (Mapping.keys (st e)) \<and>
     (\<forall>key \<in> Mapping.keys (st e). \<exists>ids. proper_name (e, ids) \<and> key = join ids))"

definition represents :: "light_state \<Rightarrow> snapshot \<Rightarrow> bool" where
  "represents st snap \<longleftrightarrow> tidy st \<and> (\<forall>k. proper_name k \<longrightarrow> state_row st k = snap k)"

lemma representsD: "represents st snap \<Longrightarrow> proper_name k \<Longrightarrow> state_row st k = snap k"
  by (simp only: represents_def)

lemma represents_tidy: "represents st snap \<Longrightarrow> tidy st"
  by (simp only: represents_def)

lemma represents_empty: "represents emptyState Map.empty"
  by (simp add: represents_def tidy_def state_row_def emptyState_def lookup_empty)

lemma tidy_draft:
  assumes "tidy st" and p: "proper_name (name_of p)"
  shows "tidy (apply_draft p st)"
proof -
  let ?e = "ent_name (pm_entity p)" and ?key = "join (pm_ids p)"
  have keys: "Mapping.keys (apply_draft p st e) \<subseteq> (if e = ?e then insert ?key (Mapping.keys (st e)) else Mapping.keys (st e))" for e
    by (auto simp: apply_draft_def Let_def split: option.splits)
  have new: "proper_name (?e, pm_ids p)" using p by (simp add: name_of_def)
  show ?thesis unfolding tidy_def
  proof (intro allI conjI ballI)
    fix e
    show "finite (Mapping.keys (apply_draft p st e))"
      using keys[of e] assms(1) by (auto simp: tidy_def split: if_splits intro: finite_subset)
    fix key assume "key \<in> Mapping.keys (apply_draft p st e)"
    then have "key \<in> Mapping.keys (st e) \<or> e = ?e \<and> key = ?key" using keys[of e] by (auto split: if_splits)
    then show "\<exists>ids. proper_name (e, ids) \<and> key = join ids" using assms(1) new by (auto simp: tidy_def)
  qed
qed

lemma state_row_draft:
  assumes "proper_name k" "proper_name (name_of p)"
  shows "state_row (apply_draft p st) k = (if k = name_of p then row_of p else state_row st k)"
proof -
  have "join (snd k) \<noteq> join (snd (name_of p))" if "fst k = fst (name_of p)" "k \<noteq> name_of p"
  proof
    assume "join (snd k) = join (snd (name_of p))"
    then have "snd k = snd (name_of p)"
      using assms by (intro join_inj) (auto simp: proper_name_def)
    with that show False by (simp add: prod_eq_iff)
  qed
  then show ?thesis
    by (cases k)
      (auto simp: state_row_def apply_draft_def name_of_def row_of_def Let_def lookup_delete
        lookup_update' split: option.splits)
qed

lemma represents_draft:
  assumes "represents st snap" and p: "proper_name (name_of p)"
  shows "represents (apply_draft p st) (snap(name_of p := row_of p))"
  unfolding represents_def
proof (intro conjI allI impI)
  show "tidy (apply_draft p st)" by (rule tidy_draft[OF represents_tidy[OF assms(1)] p])
next
  fix k assume k: "proper_name k"
  show "state_row (apply_draft p st) k = (snap(name_of p := row_of p)) k"
    using state_row_draft[OF k p, of st] representsD[OF assms(1) k] by simp
qed

lemma represents_drafts:
  assumes "represents st snap" and "\<forall>p \<in> set ps. proper_name (name_of p)"
  shows "represents (fold apply_draft ps st) (apply_planned ps snap)"
  using assms
proof (induction ps arbitrary: st snap)
  case Nil
  then show ?case by (simp add: apply_planned_def)
next
  case (Cons p ps)
  have "represents (apply_draft p st) (snap(name_of p := row_of p))"
    using Cons.prems by (intro represents_draft) simp_all
  then show ?case using Cons.IH Cons.prems(2) by (simp add: apply_planned_Cons)
qed

text \<open>
  A state from which the reversals lead back through the history: every block above the floor
  has one, and applying it gives the state that stands for the snapshot before.
\<close>

fun undoable :: "(light_state \<Rightarrow> 'p \<Rightarrow> light_state) \<Rightarrow> int \<Rightarrow> history \<Rightarrow> light_state \<Rightarrow> (int \<times> 'p) list \<Rightarrow> bool" where
  "undoable ap fl [] st revs = represents st Map.empty"
| "undoable ap fl ((m, snap) # h) st revs =
     (represents st snap \<and>
      (fl < m \<longrightarrow> (\<exists>p. map_of revs m = Some p \<and> undoable ap fl h (ap st p) revs)))"

lemma undoable_represents: "undoable ap fl h st revs \<Longrightarrow> represents st (latest h)"
  by (cases h) auto

lemma undoable_mono:
  assumes "undoable ap fl h st revs" and "fl \<le> fl'"
    and "\<forall>m \<in> fst ` set h. fl' < m \<longrightarrow> map_of revs m = map_of revs' m"
  shows "undoable ap fl' h st revs'"
  using assms
proof (induction ap fl h st revs rule: undoable.induct)
  case (2 ap fl m snap h st revs)
  show ?case
  proof (cases "fl' < m")
    case True
    then obtain p where p: "map_of revs m = Some p" "undoable ap fl h (ap st p) revs"
      using 2(2,3) by auto
    moreover have "map_of revs' m = Some p" using 2(4) True p(1) by simp
    ultimately show ?thesis using 2 True by simp
  qed (use 2 in simp)
qed simp

lemma undoable_back:
  assumes "undoable ap fl h st revs" and "descending h" and "fl \<le> n"
  shows "\<forall>m \<in> set (map fst (takeWhile (\<lambda>x. n < fst x) h)). m \<in> fst ` set revs"
    and "undoable ap fl (cut_above n h)
      (fold (\<lambda>n st. ap st (the (map_of revs n))) (map fst (takeWhile (\<lambda>x. n < fst x) h)) st) revs"
proof -
  have "(\<forall>m \<in> set (map fst (takeWhile (\<lambda>x. n < fst x) h)). map_of revs m \<noteq> None) \<and>
    undoable ap fl (cut_above n h)
      (fold (\<lambda>n st. ap st (the (map_of revs n))) (map fst (takeWhile (\<lambda>x. n < fst x) h)) st) revs"
    using assms
  proof (induction ap fl h st revs rule: undoable.induct)
    case (2 ap fl m snap h st revs)
    show ?case
    proof (cases "n < m")
      case True
      then obtain p where p: "map_of revs m = Some p" "undoable ap fl h (ap st p) revs"
        using 2(2,4) by auto
      with 2(1)[of p] 2(3,4) True show ?thesis by (simp add: cut_above_def descending_Cons)
    qed (use 2 in \<open>simp add: cut_above_def\<close>)
  qed (simp add: cut_above_def)
  then show "\<forall>m \<in> set (map fst (takeWhile (\<lambda>x. n < fst x) h)). m \<in> fst ` set revs"
    "undoable ap fl (cut_above n h)
      (fold (\<lambda>n st. ap st (the (map_of revs n))) (map fst (takeWhile (\<lambda>x. n < fst x) h)) st) revs"
    by (auto simp: map_of_eq_None_iff)
qed

definition patch_holds :: "(light_state \<Rightarrow> 'p \<Rightarrow> light_state) \<Rightarrow> int \<Rightarrow> history \<Rightarrow> 'p patch_store \<Rightarrow> bool" where
  "patch_holds ap fl h s \<longleftrightarrow> declared_ok (ps_entities s) \<and> descending h \<and> (\<forall>x \<in> set h. 0 \<le> fst x) \<and>
     distinct (map fst (ps_blocks s)) \<and> fst ` set h = fst ` set (ps_blocks s) \<and>
     ps_tip s = highest (map fst (ps_blocks s)) \<and> undoable ap fl h (ps_state s) (ps_reversals s)"

lemma patch_holdsD:
  assumes "patch_holds ap fl h s"
  shows "declared_ok (ps_entities s)" "descending h" "\<forall>x \<in> set h. 0 \<le> fst x"
    "distinct (map fst (ps_blocks s))" "fst ` set h = fst ` set (ps_blocks s)"
    "ps_tip s = highest (map fst (ps_blocks s))" "undoable ap fl h (ps_state s) (ps_reversals s)"
  using assms unfolding patch_holds_def by blast+

lemma sorted_above:
  assumes "distinct ns" and "descending h" and "fst ` set h = set ns"
  shows "rev (sort (filter (\<lambda>x. n < x) ns)) = map fst (takeWhile (\<lambda>x. n < fst x) h)"
proof -
  let ?top = "map fst (takeWhile (\<lambda>x. n < fst x) h)"
  have desc: "sorted_wrt (\<lambda>a b. b < a) (map fst h)"
    using assms(2) by (simp add: descending_def sorted_wrt_map)
  have top: "?top = takeWhile (\<lambda>x. n < x) (map fst h)" by (simp add: takeWhile_map comp_def)
  have "sorted_wrt (\<lambda>a b. b < a) (take k xs)" if "sorted_wrt (\<lambda>a b. b < a) xs" for k and xs :: "int list"
    using that sorted_wrt_take by blast
  then have "sorted_wrt (\<lambda>a b. b < a) ?top" using desc top by (metis takeWhile_eq_take)
  then have inc: "sorted_wrt (<) (rev ?top)" by (simp add: sorted_wrt_rev)
  have "set (takeWhile (\<lambda>x. n < x) xs) = {x \<in> set xs. n < x}" if "sorted_wrt (\<lambda>a b. b < a) xs" for xs
    using that by (induction xs) auto
  from this[OF desc] have "set ?top = {x \<in> set (map fst h). n < x}" unfolding top .
  then have "set (rev ?top) = set (filter (\<lambda>x. n < x) ns)" using assms(3) by auto
  then have "sort (filter (\<lambda>x. n < x) ns) = rev ?top"
    using assms(1) inc by (intro sorted_distinct_set_unique) (auto simp: strict_sorted_iff)
  then show ?thesis by simp
qed

lemma map_of_kept: "m \<notin> A \<Longrightarrow> map_of (filter (\<lambda>(n, p). n \<notin> A) xs) m = map_of xs m"
  by (induction xs) auto

lemma highest_below_tip: "check_block blocks hashes tip block = Inr hsh \<Longrightarrow> tip = highest (map fst blocks)
    \<Longrightarrow> \<forall>x \<in> fst ` set blocks. x < bp_number block"
  using check_block_fresh[of blocks hashes tip block hsh] highest_ge[of "map fst blocks"]
  by (cases "highest (map fst blocks)") (force simp: highest_None)+

context patching
begin

lemma patched_apply:
  assumes h: "patch_holds applyPatches fl h s" and app: "patch_applyBlock reversal b ms c s = Inr s'"
    and pos: "0 \<le> bp_number b"
  shows "\<exists>ps. traverse (plan_mutation (ps_entities s)) ms = Inr ps \<and>
    patch_holds applyPatches fl ((bp_number b, apply_planned ps (latest h)) # h) s'"
proof -
  let ?n = "bp_number b"
  note ok = patch_holdsD[OF h]
  from app obtain hsh ps where chk: "check_block (ps_blocks s) (ps_hashes s) (ps_tip s) b = Inr hsh"
    and ps: "traverse (plan_mutation (ps_entities s)) ms = Inr ps"
    and s': "s' = s\<lparr>ps_state := fold apply_draft ps (ps_state s),
      ps_reversals := AList.update ?n (reversal (ps_state s) (fold apply_draft ps (ps_state s))) (ps_reversals s),
      ps_blocks := AList.update ?n (b\<lparr>bp_hash := hsh\<rparr>) (ps_blocks s),
      ps_hashes := (ps_hashes s)(hsh \<mapsto> ?n),
      ps_tip := (case ps_tip s of None \<Rightarrow> Some ?n | Some t \<Rightarrow> if ?n > t then Some ?n else Some t),
      ps_cursors := (case c of None \<Rightarrow> ps_cursors s | Some w \<Rightarrow> (ps_cursors s)(cw_key w \<mapsto> cw_value w))\<rparr>"
    by (auto simp: patch_applyBlock_def Let_def)
  note fresh = check_block_fresh[OF chk] highest_below_tip[OF chk ok(6)]
  let ?st = "fold apply_draft ps (ps_state s)" and ?revs = "ps_reversals s'"
  have below: "\<forall>x \<in> fst ` set h. x < ?n" unfolding ok(5) by (rule fresh(2))
  have trail: "undoable applyPatches fl h (ps_state s) ?revs"
    by (rule undoable_mono[OF ok(7)]) (use below in \<open>auto simp: s' update_conv\<close>)
  have "represents ?st (apply_planned ps (latest h))"
    by (rule represents_drafts[OF undoable_represents[OF ok(7)] plans_proper[OF ok(1) ps]])
  moreover have "map_of ?revs ?n = Some (reversal (ps_state s) ?st)" by (simp add: s' update_conv)
  ultimately have "undoable applyPatches fl ((?n, apply_planned ps (latest h)) # h) ?st ?revs"
    using trail by (simp add: undo)
  moreover have "ps_tip s' = highest (map fst (ps_blocks s'))"
  proof -
    have "highest (map fst (ps_blocks s')) = Some ?n"
      by (rule highest_insert[of _ _ "map fst (ps_blocks s)"])
        (use fresh(1) ok(6) in \<open>auto simp: s' dom_update\<close>)
    then show ?thesis using fresh(1) by (auto simp: s' split: option.splits)
  qed
  moreover have "descending ((?n, apply_planned ps (latest h)) # h)"
    using below ok(2) by (simp add: descending_Cons)
  ultimately have "patch_holds applyPatches fl ((?n, apply_planned ps (latest h)) # h) s'"
    using ok pos by (simp add: patch_holds_def s' dom_update distinct_update)
  with ps show ?thesis by blast
qed

lemma patched_revert:
  assumes h: "patch_holds applyPatches fl h s" and n: "fl \<le> n \<or> n < 0"
  shows "\<exists>s'. patch_revertTo applyPatches n s = Inr s' \<and> patch_holds applyPatches fl (cut_above n h) s'"
proof (cases "n < 0")
  case True
  note ok = patch_holdsD[OF h]
  have "{x \<in> set h. fst x \<le> n} = {}" using ok(3) True by fastforce
  then have "set (cut_above n h) = {}" by (simp only: cut_above_set[OF ok(2), of n])
  then have "cut_above n h = []" by simp
  then show ?thesis using True ok(1) represents_empty
    by (simp add: patch_revertTo_def patch_holds_def descending_def highest_def)
next
  case False
  note ok = patch_holdsD[OF h]
  let ?above = "map fst (takeWhile (\<lambda>x. n < fst x) h)"
  have above: "rev (sort (filter (\<lambda>x. n < x) (map fst (ps_blocks s)))) = ?above"
    by (rule sorted_above) (use ok in simp_all)
  have above_set: "set ?above = {x \<in> fst ` set (ps_blocks s). n < x}"
    unfolding above[symmetric] by auto
  from False n have fl: "fl \<le> n" by simp
  note trail = undoable_back[OF ok(7) ok(2) fl]
  have none: "sort (filter (\<lambda>n. n \<notin> fst ` set (ps_reversals s)) ?above) = []"
    using trail(1) by (simp add: filter_empty_conv)
  show ?thesis
  proof (cases "?above = []")
    case True
    have "dropWhile (\<lambda>x. n < fst x) h = h" using True by (metis map_is_Nil_conv self_append_conv2 takeWhile_dropWhile_id)
    then have "cut_above n h = h" by (simp add: cut_above_def)
    with True h False show ?thesis unfolding patch_revertTo_def Let_def above by simp
  next
    case ne: False
    let ?s = "s\<lparr>ps_state := fold (\<lambda>n st. applyPatches st (the (map_of (ps_reversals s) n))) ?above (ps_state s),
      ps_reversals := filter (\<lambda>(n, p). n \<notin> set ?above) (ps_reversals s),
      ps_hashes := fold (\<lambda>n hs. hs(bp_hash (the (map_of (ps_blocks s) n)) := None)) ?above (ps_hashes s),
      ps_blocks := filter (\<lambda>(n, b). n \<notin> set ?above) (ps_blocks s),
      ps_tip := highest (filter (\<lambda>n. n \<notin> set ?above) (map fst (ps_blocks s)))\<rparr>"
    have res: "patch_revertTo applyPatches n s = Inr ?s"
      using False ne unfolding patch_revertTo_def Let_def above none by simp
    have keep: "fst ` set (cut_above n h) = {x \<in> fst ` set (ps_blocks s). x \<le> n}"
      unfolding cut_above_set[OF ok(2)] ok(5)[symmetric] by force
    have names: "map fst (filter (\<lambda>(n, b). n \<notin> set ?above) (ps_blocks s))
        = filter (\<lambda>n. n \<notin> set ?above) (map fst (ps_blocks s))"
      by (simp add: filter_map comp_def case_prod_unfold)
    have "undoable applyPatches fl (cut_above n h)
        (fold (\<lambda>n st. applyPatches st (the (map_of (ps_reversals s) n))) ?above (ps_state s))
        (filter (\<lambda>(n, p). n \<notin> set ?above) (ps_reversals s))"
    proof (rule undoable_mono[OF trail(2) order_refl], intro ballI impI)
      fix m assume "m \<in> fst ` set (cut_above n h)"
      then have "m \<notin> set ?above" unfolding keep above_set by simp
      then show "map_of (ps_reversals s) m = map_of (filter (\<lambda>(n, p). n \<notin> set ?above) (ps_reversals s)) m"
        by (rule map_of_kept[symmetric])
    qed
    then have 1: "undoable applyPatches fl (cut_above n h) (ps_state ?s) (ps_reversals ?s)" by simp
    have blocks: "map fst (ps_blocks ?s) = filter (\<lambda>n. n \<notin> set ?above) (map fst (ps_blocks s))"
      using names by simp
    have "set (map fst (ps_blocks ?s)) = {x \<in> fst ` set (ps_blocks s). x \<notin> set ?above}"
      unfolding blocks by (simp only: set_filter set_map)
    also have "\<dots> = fst ` set (cut_above n h)" unfolding keep above_set by auto
    finally have 2: "fst ` set (cut_above n h) = fst ` set (ps_blocks ?s)" by simp
    have 3: "distinct (map fst (ps_blocks ?s))" unfolding blocks using ok(4) by simp
    have 4: "ps_tip ?s = highest (map fst (ps_blocks ?s))" unfolding blocks by simp
    have 5: "ps_entities ?s = ps_entities s" by simp
    have 6: "\<forall>x \<in> set (cut_above n h). 0 \<le> fst x" using ok(3) cut_above_set[OF ok(2), of n] by blast
    have "patch_holds applyPatches fl (cut_above n h) ?s"
      unfolding patch_holds_def 5 using 1 2 3 4 6 ok(1) descending_cut_above[OF ok(2)] by blast
    with res show ?thesis by blast
  qed
qed

end

lemma patch_prune_cases:
  assumes "patch_prune budget s = Inr (s', report)"
  obtains "pr_floor report = None" "s' = s"
  | f doomed where "pr_floor report = Some f" "\<forall>m \<in> doomed. m \<le> f"
      "s' = s\<lparr>ps_reversals := filter (\<lambda>(n, p). n \<notin> doomed) (ps_reversals s),
        ps_records := (ps_records s)(''retentionEnforcement'' := pruneRecord (Some f))\<rparr>"
proof (cases "case ps_tip s of None \<Rightarrow> None | Some t \<Rightarrow> retentionFloor RevertOnly t (ps_finality s)")
  case None
  then show thesis using assms that(1) by (auto simp: patch_prune_def)
next
  case (Some f)
  let ?stale = "sort (filter (\<lambda>n. n \<le> f) (map fst (ps_reversals s)))"
  from assms Some obtain b where b: "pr_floor report = Some f"
    "s' = s\<lparr>ps_reversals := filter (\<lambda>(n, p). n \<notin> set (case b of None \<Rightarrow> ?stale | Some n \<Rightarrow> take n ?stale)) (ps_reversals s),
        ps_records := (ps_records s)(''retentionEnforcement'' := pruneRecord (Some f))\<rparr>"
    by (auto simp: patch_prune_def Let_def)
  have "\<forall>m \<in> set (case b of None \<Rightarrow> ?stale | Some n \<Rightarrow> take n ?stale). m \<le> f"
    by (auto split: option.splits dest: in_set_takeD)
  with b show thesis by (intro that(2))
qed

lemma patch_prune_holds:
  assumes h: "patch_holds ap fl h s" and p: "patch_prune budget s = Inr (s', report)"
  shows "patch_holds ap (case pr_floor report of None \<Rightarrow> fl | Some f \<Rightarrow> max fl f) h s' \<and>
    ps_cursors s' = ps_cursors s \<and> ps_entities s' = ps_entities s"
  using p
proof (cases rule: patch_prune_cases)
  case 1
  with h show ?thesis by simp
next
  case (2 f doomed)
  note ok = patch_holdsD[OF h]
  have "undoable ap (max fl f) h (ps_state s) (filter (\<lambda>(n, p). n \<notin> doomed) (ps_reversals s))"
  proof (rule undoable_mono[OF ok(7)], simp, intro ballI impI)
    fix m assume "max fl f < m"
    then have "m \<notin> doomed" using 2(2) by force
    then show "map_of (ps_reversals s) m = map_of (filter (\<lambda>(n, p). n \<notin> doomed) (ps_reversals s)) m"
      by (rule map_of_kept[symmetric])
  qed
  then show ?thesis using ok 2(1) by (simp add: 2(3) patch_holds_def)
qed

lemma patch_current_latest:
  assumes "patch_holds ap fl h s" and "proper_name k"
  shows "patch_current s k = latest h k"
  using representsD[OF undoable_represents[OF patch_holdsD(7)[OF assms(1)]] assms(2)]
  by (simp add: patch_current_def)

lemma patch_revert_keeps:
  "patch_revertTo ap n s = Inr s' \<Longrightarrow> ps_cursors s' = ps_cursors s \<and> ps_entities s' = ps_entities s"
  by (auto simp: patch_revertTo_def Let_def split: if_splits)

sublocale patching \<subseteq> state_store ps_entities "patch_applyBlock reversal" "patch_revertTo applyPatches" patch_prune
  patch_current ps_cursors "patch_holds applyPatches"
proof (unfold_locales, goal_cases)
  case (1 fl h s) then show ?case using patch_holdsD by blast
next
  case (2 fl h s k) then show ?case by (rule patch_current_latest)
next
  case (3 fl h s b ms c s') then show ?case by (rule patched_apply)
next
  case (4 fl h s b ms c s')
  then show ?case by (auto simp: patch_applyBlock_def Let_def)
next
  case (5 fl h s n) then show ?case by (rule patched_revert)
next
  case (6 fl h s n s') then show ?case by (blast dest: patch_revert_keeps)
next
  case (7 fl h s budget s' report) then show ?case by (blast dest: patch_prune_holds)
next
  case (8 fl h s b ms c s') then show ?case by (auto simp: patch_applyBlock_def Let_def)
next
  case (9 fl h s n s') then show ?case by (blast dest: patch_revert_keeps)
next
  case (10 fl h s budget s' report) then show ?case by (blast dest: patch_prune_holds)
qed

text \<open>A diff of states that keeps the law: what was there, for every row that changed.\<close>

type_synonym row_patch = "string \<Rightarrow> utf16 \<Rightarrow> field_values option option"

definition row_reversal :: "light_state \<Rightarrow> light_state \<Rightarrow> row_patch" where
  "row_reversal before after =
     (\<lambda>e k. if Mapping.lookup (before e) k = Mapping.lookup (after e) k then None
            else Some (Mapping.lookup (before e) k))"

definition apply_row_reversal :: "light_state \<Rightarrow> row_patch \<Rightarrow> light_state" where
  "apply_row_reversal st p =
     (\<lambda>e. Mapping.Mapping (\<lambda>k. case p e k of None \<Rightarrow> Mapping.lookup (st e) k | Some old \<Rightarrow> old))"

interpretation diff: patching row_reversal apply_row_reversal
proof
  show "apply_row_reversal after (row_reversal before after) = before" for before after
  proof
    fix e
    have "(\<lambda>k. case row_reversal before after e k of None \<Rightarrow> Mapping.lookup (after e) k | Some old \<Rightarrow> old)
        = Mapping.lookup (before e)"
      by (auto simp: row_reversal_def split: option.splits)
    then show "apply_row_reversal after (row_reversal before after) e = before e"
      by (simp add: apply_row_reversal_def rep_inverse lookup.rep_eq Mapping.rep_inverse)
  qed
qed

lemma patch_open_holds:
  assumes "patch_open ds setting finality = Inr s"
  shows "patch_holds ap fl [] s"
  using assms represents_empty
  by (auto simp: patch_open_def patch_holds_def highest_def descending_def dest: normalizeEntities_ok)

end
