(* ===== verification/State_Runs.thy ===== *)
theory State_Runs
  imports State_Memory State_Patch
begin

section \<open>Whole runs of a state store\<close>

text \<open>
  A run is any sequence of applied blocks, reverts and prunes that a store accepts. What a store
  holds after one is what the surviving blocks alone, applied in order to an empty store, leave;
  the two backends therefore agree with each other. \<open>pruned\<close> is the highest floor a prune has
  reported so far: the code reverts no deeper than that, or to before the first block.
\<close>

datatype store_op =
    OpApply block_pointer "mutation list" "cursor_write option"
  | OpRevert int
  | OpPrune "jsnum option"

definition raised :: "int \<Rightarrow> prune_report \<Rightarrow> int" where
  "raised pruned report = (case pr_floor report of None \<Rightarrow> pruned | Some f \<Rightarrow> max pruned f)"

inductive store_runs ::
  "(block_pointer \<Rightarrow> mutation list \<Rightarrow> cursor_write option \<Rightarrow> 's \<Rightarrow> (store_error, 's) result) \<Rightarrow>
   (int \<Rightarrow> 's \<Rightarrow> (store_error, 's) result) \<Rightarrow>
   (jsnum option \<Rightarrow> 's \<Rightarrow> (store_error, 's \<times> prune_report) result) \<Rightarrow>
   's \<Rightarrow> int \<Rightarrow> store_op list \<Rightarrow> 's \<Rightarrow> int \<Rightarrow> bool"
  for ap rv pr where
  run_nil: "store_runs ap rv pr s pruned [] s pruned"
| run_apply: "\<lbrakk>ap b ms c s = Inr s'; 0 \<le> bp_number b; store_runs ap rv pr s' pruned ops t pruned'\<rbrakk>
    \<Longrightarrow> store_runs ap rv pr s pruned (OpApply b ms c # ops) t pruned'"
| run_revert: "\<lbrakk>rv n s = Inr s'; pruned \<le> n \<or> n < 0; store_runs ap rv pr s' pruned ops t pruned'\<rbrakk>
    \<Longrightarrow> store_runs ap rv pr s pruned (OpRevert n # ops) t pruned'"
| run_prune: "\<lbrakk>pr budget s = Inr (s', report); store_runs ap rv pr s' (raised pruned report) ops t pruned'\<rbrakk>
    \<Longrightarrow> store_runs ap rv pr s pruned (OpPrune budget # ops) t pruned'"

inductive_simps store_runs_simps [simp]:
  "store_runs ap rv pr s pruned [] t pruned'"
  "store_runs ap rv pr s pruned (OpApply b ms c # ops) t pruned'"
  "store_runs ap rv pr s pruned (OpRevert n # ops) t pruned'"
  "store_runs ap rv pr s pruned (OpPrune budget # ops) t pruned'"

text \<open>The blocks a run leaves standing, newest first, and the snapshots they lead through.\<close>

type_synonym block_batch = "block_pointer \<times> mutation list"

fun survivors :: "block_batch list \<Rightarrow> store_op list \<Rightarrow> block_batch list" where
  "survivors kept [] = kept"
| "survivors kept (OpApply b ms c # ops) = survivors ((b, ms) # kept) ops"
| "survivors kept (OpRevert n # ops) = survivors (filter (\<lambda>(b, ms). bp_number b \<le> n) kept) ops"
| "survivors kept (OpPrune budget # ops) = survivors kept ops"

definition planned_of :: "entities \<Rightarrow> mutation list \<Rightarrow> planned list" where
  "planned_of es ms = (case traverse (plan_mutation es) ms of Inl e \<Rightarrow> [] | Inr ps \<Rightarrow> ps)"

fun snapshots :: "entities \<Rightarrow> block_batch list \<Rightarrow> history" where
  "snapshots es [] = []"
| "snapshots es ((b, ms) # kept) =
     (bp_number b, apply_planned (planned_of es ms) (latest (snapshots es kept))) # snapshots es kept"

definition replayed :: "entities \<Rightarrow> block_batch list \<Rightarrow> snapshot" where
  "replayed es kept = latest (snapshots es kept)"

text \<open>The cursors after a run: every cursor written with a block, whether or not it survives.\<close>

fun cursors_after :: "(string \<rightharpoonup> string) \<Rightarrow> store_op list \<Rightarrow> (string \<rightharpoonup> string)" where
  "cursors_after cs [] = cs"
| "cursors_after cs (OpApply b ms c # ops) = cursors_after (write_cursor c cs) ops"
| "cursors_after cs (OpRevert n # ops) = cursors_after cs ops"
| "cursors_after cs (OpPrune budget # ops) = cursors_after cs ops"

lemma snapshots_heights: "fst ` set (snapshots es kept) = (\<lambda>(b, ms). bp_number b) ` set kept"
proof -
  have "map fst (snapshots es kept) = map (\<lambda>(b, ms). bp_number b) kept" by (induction kept) auto
  then show ?thesis by (metis (no_types) list.set_map)
qed

lemma filter_all_below: "descending ((m, s) # h) \<Longrightarrow> m \<le> n \<Longrightarrow> \<forall>x \<in> fst ` set h. x \<le> n"
  by (fastforce simp: descending_Cons)

lemma cut_snapshots:
  "descending (snapshots es kept) \<Longrightarrow>
     cut_above n (snapshots es kept) = snapshots es (filter (\<lambda>(b, ms). bp_number b \<le> n) kept)"
proof (induction kept)
  case Nil
  then show ?case by (simp add: cut_above_def)
next
  case (Cons x kept)
  obtain b ms where x: "x = (b, ms)" by (cases x)
  show ?case
  proof (cases "bp_number b \<le> n")
    case True
    have "\<forall>x \<in> (\<lambda>(b, ms). bp_number b) ` set kept. x \<le> n"
      using filter_all_below[OF Cons.prems[unfolded x snapshots.simps] True] by (simp only: snapshots_heights)
    then have "filter (\<lambda>(b, ms). bp_number b \<le> n) kept = kept" by (auto intro!: filter_True)
    with True show ?thesis by (simp add: x cut_above_top)
  next
    case False
    then show ?thesis using Cons by (simp add: x cut_above_top descending_Cons)
  qed
qed

context state_store
begin

text \<open>Every run keeps the store on the history of its surviving blocks.\<close>

lemma run_holds:
  assumes "store_runs applyBlock revertTo prune s pruned ops t pruned'"
    and "holds pruned (snapshots (decls s) kept) s"
  shows "holds pruned' (snapshots (decls s) (survivors kept ops)) t \<and> decls t = decls s \<and>
    cursor t = cursors_after (cursor s) ops"
  using assms
proof (induction arbitrary: kept rule: store_runs.induct)
  case (run_nil s pruned)
  then show ?case by simp
next
  case (run_apply b ms c s s' pruned ops t pruned')
  obtain ps where "traverse (plan_mutation (decls s)) ms = Inr ps"
    and new: "holds pruned ((bp_number b, apply_planned ps (latest (snapshots (decls s) kept)))
        # snapshots (decls s) kept) s'"
    using apply_holds[OF run_apply.prems run_apply.hyps(1,2)] by blast
  then have "holds pruned (snapshots (decls s) ((b, ms) # kept)) s'" by (simp add: planned_of_def)
  with run_apply.IH[of "(b, ms) # kept"] apply_cursor[OF run_apply.prems run_apply.hyps(1)]
    decls_kept(1)[OF run_apply.prems run_apply.hyps(1)]
  show ?case by (simp add: write_cursor_def)
next
  case (run_revert n s s' pruned ops t pruned')
  have "holds pruned (cut_above n (snapshots (decls s) kept)) s'"
    using revert_holds[OF run_revert.prems run_revert.hyps(2)] run_revert.hyps(1) by auto
  then have "holds pruned (snapshots (decls s) (filter (\<lambda>(b, ms). bp_number b \<le> n) kept)) s'"
    using cut_snapshots history_ok[OF run_revert.prems] by simp
  with run_revert.IH revert_cursor[OF run_revert.prems run_revert.hyps(1)]
    decls_kept(2)[OF run_revert.prems run_revert.hyps(1)]
  show ?case by simp
next
  case (run_prune budget s s' report pruned ops t pruned')
  have "holds (raised pruned report) (snapshots (decls s) kept) s'" and "cursor s' = cursor s"
    using prune_holds[OF run_prune.prems run_prune.hyps(1)] by (simp_all add: raised_def)
  with run_prune.IH decls_kept(3)[OF run_prune.prems run_prune.hyps(1)]
  show ?case by simp
qed

end

subsection \<open>Both backends\<close>

text \<open>What a snapshot answers under an entity's name and an id, errors included.\<close>

definition snapshot_row :: "entities \<Rightarrow> snapshot \<Rightarrow> string \<Rightarrow> entity_id
    \<Rightarrow> (store_error, field_values option) result" where
  "snapshot_row es snap entity eid =
     and_then (of_entity (mustGet es entity)) (\<lambda>e.
     and_then (of_entity (idValues e eid)) (\<lambda>ids. Inr (snap (ent_name e, ids))))"

definition decode_row :: "normalized_entity \<Rightarrow> field_values option \<Rightarrow> (store_error, field_values option) result" where
  "decode_row e row =
     (case row of None \<Rightarrow> Inr None
      | Some v \<Rightarrow> and_then (of_entity (decodeFieldValues e v)) (\<lambda>values. Inr (Some values)))"

definition snapshot_read :: "entities \<Rightarrow> snapshot \<Rightarrow> string \<Rightarrow> entity_id
    \<Rightarrow> (store_error, field_values option) result" where
  "snapshot_read es snap entity eid =
     and_then (of_entity (mustGet es entity)) (\<lambda>e.
     and_then (of_entity (idValues e eid)) (\<lambda>ids. decode_row e (snap (ent_name e, ids))))"

text \<open>A read of the versioned store, without the bounds it returns beside the values.\<close>

definition read_values :: "(store_error, (field_values \<times> int \<times> int option) option) result
    \<Rightarrow> (store_error, field_values option) result" where
  "read_values r = and_then r (\<lambda>x. Inr (map_option fst x))"

lemma declared_name:
  assumes "declared_ok es" "mustGet es entity = Inr e" "idValues e eid = Inr ids"
  shows "proper_name (ent_name e, ids)"
proof -
  have "(entity, e) \<in> set es" using assms(2) by (auto simp: mustGet_def map_of_SomeD split: option.splits)
  then show ?thesis
    using assms(1) idValues_no_separator[OF assms(3)] idValues_length[OF assms(3)]
    by (auto simp: declared_ok_def proper_name_def)
qed

lemma snapshot_row_cong:
  assumes "declared_ok es" and "\<And>k. proper_name k \<Longrightarrow> snap k = snap' k"
  shows "snapshot_row es snap entity eid = snapshot_row es snap' entity eid"
    and "snapshot_read es snap entity eid = snapshot_read es snap' entity eid"
proof -
  have same: "snap (ent_name e, ids) = snap' (ent_name e, ids)"
    if "mustGet es entity = Inr e" "idValues e eid = Inr ids" for e ids
    using declared_name[OF assms(1) that] assms(2) by simp
  show "snapshot_row es snap entity eid = snapshot_row es snap' entity eid"
    using same by (cases "mustGet es entity"; cases "idValues (projr (mustGet es entity)) eid")
      (auto simp: snapshot_row_def of_entity_def)
  show "snapshot_read es snap entity eid = snapshot_read es snap' entity eid"
    using same by (cases "mustGet es entity"; cases "idValues (projr (mustGet es entity)) eid")
      (auto simp: snapshot_read_def of_entity_def)
qed

lemma memory_stored_row:
  "memory_storedCurrent s entity eid = snapshot_row (ms_entities s) (memory_current s) entity eid"
  by (cases "mustGet (ms_entities s) entity"; cases "idValues (projr (mustGet (ms_entities s) entity)) eid")
    (auto simp: memory_storedCurrent_def snapshot_row_def of_entity_def entityKey_def memory_current_def
      row_key_def)

text \<open>The ids whose key is not the name of an inherited property.\<close>

definition plain_id :: "entities \<Rightarrow> string \<Rightarrow> entity_id \<Rightarrow> bool" where
  "plain_id es entity eid \<longleftrightarrow>
     (case and_then (mustGet es entity) (\<lambda>e. entityValuesKey e eid) of
        Inl _ \<Rightarrow> True | Inr key \<Rightarrow> key \<notin> units ` set inherited_names)"

lemma property_plain: "key \<notin> units ` set inherited_names \<Longrightarrow> property rows key = Mapping.lookup rows key"
  by (simp add: property_def split: option.splits)

lemma patch_read_row:
  assumes "plain_id (ps_entities s) entity eid"
  shows "patch_getCurrent s entity eid = snapshot_read (ps_entities s) (patch_current s) entity eid"
proof (cases "mustGet (ps_entities s) entity")
  case (Inr e)
  then show ?thesis
    using assms property_plain[of "join (projr (idValues e eid))" "ps_state s (ent_name e)"]
    by (cases "idValues e eid")
      (auto simp: patch_getCurrent_def snapshot_read_def of_entity_def entityValuesKey_def patch_current_def
        state_row_def decode_row_def plain_id_def split: option.splits)
qed (simp add: patch_getCurrent_def snapshot_read_def of_entity_def)

lemma memory_read_row:
  "read_values (memory_read matches s entity eid) =
     snapshot_read (ms_entities s)
       (\<lambda>k. case map_of (ms_rows s) (row_key k) of None \<Rightarrow> None
             | Some r \<Rightarrow> map_option v_values (find matches (mr_versions r))) entity eid"
proof (cases "mustGet (ms_entities s) entity")
  case (Inr e)
  show ?thesis
  proof (cases "idValues e eid")
    case (Inr ids)
    show ?thesis
    proof (cases "map_of (ms_rows s) (join (units (ent_name e) # ids))")
      case (Some row)
      show ?thesis
        by (cases "find matches (mr_versions row)")
          (use \<open>mustGet (ms_entities s) entity = Inr e\<close> Inr Some in
            \<open>auto simp: memory_read_def snapshot_read_def of_entity_def entityKey_def row_key_def decode_row_def
              read_values_def and_then_def split: sum.splits\<close>)
    qed (use \<open>mustGet (ms_entities s) entity = Inr e\<close> Inr in
      \<open>simp add: memory_read_def snapshot_read_def of_entity_def entityKey_def row_key_def decode_row_def
        read_values_def\<close>)
  qed (use \<open>mustGet (ms_entities s) entity = Inr e\<close> in
      \<open>simp add: memory_read_def snapshot_read_def of_entity_def entityKey_def read_values_def\<close>)
qed (simp add: memory_read_def snapshot_read_def of_entity_def read_values_def)

lemma memory_run_holds:
  assumes "memory_open ds setting finality = Inr s0"
    and "store_runs memory_applyBlock (\<lambda>n s. Inr (memory_revertTo n s)) memory_prune s0 0 ops s pruned"
  shows "memory_holds pruned (snapshots (ms_entities s0) (survivors [] ops)) s"
    and "ms_entities s = ms_entities s0" and "ms_cursors s = cursors_after Map.empty ops"
proof -
  have "memory_holds 0 (snapshots (ms_entities s0) []) s0" using memory_open_holds[OF assms(1)] by simp
  note run = memory.run_holds[OF assms(2) this]
  have "ms_cursors s0 = Map.empty" using assms(1) by (auto simp: memory_open_def)
  with run show "memory_holds pruned (snapshots (ms_entities s0) (survivors [] ops)) s"
    "ms_entities s = ms_entities s0" "ms_cursors s = cursors_after Map.empty ops" by simp_all
qed

context patching
begin

lemma patched_run:
  assumes "patch_open ds setting finality = Inr s0"
    and "store_runs (patch_applyBlock reversal) (patch_revertTo applyPatches) patch_prune s0 0 ops s pruned"
  shows "patch_holds applyPatches pruned (snapshots (ps_entities s0) (survivors [] ops)) s"
    and "ps_entities s = ps_entities s0" and "ps_cursors s = cursors_after Map.empty ops"
proof -
  have "patch_holds applyPatches 0 (snapshots (ps_entities s0) []) s0" using patch_open_holds[OF assms(1)] by simp
  note run = run_holds[OF assms(2) this]
  have "ps_cursors s0 = Map.empty" using assms(1) by (auto simp: patch_open_def)
  with run show "patch_holds applyPatches pruned (snapshots (ps_entities s0) (survivors [] ops)) s"
    "ps_entities s = ps_entities s0" "ps_cursors s = cursors_after Map.empty ops" by simp_all
qed

end

lemma patch_run_holds:
  assumes law: "\<forall>before after. applyPatches after (reversal before after) = before"
    and "patch_open ds setting finality = Inr s0"
    and "store_runs (patch_applyBlock reversal) (patch_revertTo applyPatches) patch_prune s0 0 ops s pruned"
  shows "patch_holds applyPatches pruned (snapshots (ps_entities s0) (survivors [] ops)) s"
    and "ps_entities s = ps_entities s0" and "ps_cursors s = cursors_after Map.empty ops"
proof -
  have law': "patching reversal applyPatches" using law by (simp add: patching_def)
  show "patch_holds applyPatches pruned (snapshots (ps_entities s0) (survivors [] ops)) s"
    "ps_entities s = ps_entities s0" "ps_cursors s = cursors_after Map.empty ops"
    using patching.patched_run[OF law' assms(2,3)] by blast+
qed

text \<open>
  C5. However blocks, reverts and prunes interleave, the in-memory store answers every read of a
  current row, refusals included, from the blocks that survived, replayed in order from nothing:
  a reverted block leaves no trace, a prune changes no answer. The stored cursors are those the
  run wrote; a revert does not take one back.
\<close>

theorem memory_run_replays_survivors:
  assumes "memory_open ds setting finality = Inr s0"
    and "store_runs memory_applyBlock (\<lambda>n s. Inr (memory_revertTo n s)) memory_prune s0 0 ops s pruned"
  shows "memory_storedCurrent s entity eid =
      snapshot_row (ms_entities s0) (replayed (ms_entities s0) (survivors [] ops)) entity eid \<and>
    memory_readCursor s = cursors_after Map.empty ops"
proof -
  note run = memory_run_holds[OF assms]
  have "memory_current s k = replayed (ms_entities s0) (survivors [] ops) k" if "proper_name k" for k
    using memory_current_latest[OF run(1) that] by (simp add: replayed_def)
  then have "memory_storedCurrent s entity eid =
      snapshot_row (ms_entities s0) (replayed (ms_entities s0) (survivors [] ops)) entity eid"
    unfolding memory_stored_row run(2)
    by (intro snapshot_row_cong) (use memory_holdsD(1)[OF run(1)] run(2) in auto)
  then show ?thesis using run(3) by (simp add: memory_readCursor_def fun_eq_iff)
qed

definition sample_declaration :: entity_declaration where
  "sample_declaration =
     \<lparr>dec_name = ''Token'', dec_id = [''id''], dec_fields = [(''amount'', RawStorage ''integer'')],
      dec_parent = None\<rparr>"

definition sample_token :: normalized_entity where
  "sample_token =
     \<lparr>ent_name = ''Token'', ent_id = [''id''], ent_fields = [(''amount'', Plain IntegerStorage)],
      ent_parent = None\<rparr>"

definition token_id :: entity_id where "token_id = [''id'' \<mapsto> IdText [97]]"

definition amount :: "int \<Rightarrow> field_values" where "amount n = [''amount'' \<mapsto> VNumber n]"

definition sample_block :: "int \<Rightarrow> string \<Rightarrow> block_pointer" where
  "sample_block n h = \<lparr>bp_number = n, bp_hash = h, bp_timestamp = 10 * n\<rparr>"

definition sample_ops :: "store_op list" where
  "sample_ops =
     [OpApply (sample_block 1 ''0x1'') [Upsert ''Token'' token_id (amount 5)] None,
      OpApply (sample_block 2 ''0x2'') [Upsert ''Token'' token_id (amount 9)] None,
      OpRevert 1,
      OpApply (sample_block 2 ''0x3'') [] (Some \<lparr>cw_key = ''c'', cw_value = ''2''\<rparr>),
      OpPrune None]"

lemma sample_entities: "normalizeEntities [sample_declaration] = Inr [(''Token'', sample_token)]"
  by (simp add: normalizeEntities_def normalizeEntity_def sample_declaration_def sample_token_def
      assertIdentifier_def isReserved_def is_identifier_def is_letter_def is_word_char_def relationOf_def
      guard_def fold_case_def)

lemma sample_plan:
  "plan_mutation [(''Token'', sample_token)] (Upsert ''Token'' token_id (amount n)) =
     Inr \<lparr>pm_entity = sample_token, pm_ids = [[97]], pm_stored = Some (amount n)\<rparr>"
  by (simp add: plan_mutation_def mustGet_def sample_token_def idValues_def id_column_def token_id_def
      SEPARATOR_def guard_def of_entity_def encodeFieldValues_def convert_field_def)

lemma sample_plans:
  "traverse (plan_mutation [(''Token'', sample_token)]) [Upsert ''Token'' token_id (amount n)] =
     Inr [\<lparr>pm_entity = sample_token, pm_ids = [[97]], pm_stored = Some (amount n)\<rparr>]"
  by (simp add: sample_plan)

lemma sample_open:
  "memory_open [sample_declaration] (Some (SetBlocks (Whole 2))) (Some (Whole 1)) =
     Inr \<lparr>ms_entities = [(''Token'', sample_token)], ms_rows = [], ms_blocks = [], ms_hashes = Map.empty,
          ms_cursors = Map.empty, ms_records = Map.empty, ms_retention = Window 2, ms_finality = Some 1,
          ms_tip = None\<rparr>"
  by (simp add: memory_open_def sample_entities of_entity_def of_retention_def resolveRetention_def
      assertFinalityDepth_def)

lemma sample_memory_run:
  "\<exists>s. store_runs memory_applyBlock (\<lambda>n s. Inr (memory_revertTo n s)) memory_prune
      (projr (memory_open [sample_declaration] (Some (SetBlocks (Whole 2))) (Some (Whole 1)))) 0 sample_ops s 0"
  by (simp add: sample_open sample_ops_def memory_applyBlock_def check_block_def normalizeBlockHash_def
      sample_block_def fold_case_def lower_def sample_plan memory_revertTo_def highest_def Let_def
      memory_prune_def pruneBudget_def of_retention_def raised_def)

lemma run_retention:
  assumes "store_runs memory_applyBlock (\<lambda>n s. Inr (memory_revertTo n s)) memory_prune s pruned ops t pruned'"
  shows "ms_retention t = ms_retention s"
  using assms
proof (induction rule: store_runs.induct)
  case (run_prune budget s s' report pruned ops t pruned')
  from run_prune.hyps(1) have "ms_retention s' = ms_retention s" by (cases rule: memory_prune_cases) simp_all
  with run_prune.IH show ?case by simp
qed (auto simp: memory_applyBlock_def memory_revertTo_def Let_def)

lemma sample_replay:
  "snapshots [(''Token'', sample_token)] (survivors [] sample_ops) =
     [(2, [(''Token'', [[97]]) \<mapsto> completeRow sample_token [[97]] (amount 5)]),
      (1, [(''Token'', [[97]]) \<mapsto> completeRow sample_token [[97]] (amount 5)])]"
  by (simp add: sample_ops_def sample_block_def planned_of_def sample_plan apply_planned_def name_of_def row_of_def)
    (simp add: sample_token_def)

lemma sample_cursors: "cursors_after Map.empty sample_ops = [''c'' \<mapsto> ''2'']"
  by (simp add: sample_ops_def write_cursor_def)

lemma sample_ids: "idValues sample_token token_id = Inr [[97]]" "ent_name sample_token = ''Token''"
  by (simp_all add: sample_token_def idValues_def id_column_def token_id_def SEPARATOR_def guard_def)

theorem memory_run_replays_survivors_witness:
  "\<exists>s0 s. memory_open [sample_declaration] (Some (SetBlocks (Whole 2))) (Some (Whole 1)) = Inr s0 \<and>
     store_runs memory_applyBlock (\<lambda>n s. Inr (memory_revertTo n s)) memory_prune s0 0 sample_ops s 0 \<and>
     memory_storedCurrent s ''Token'' token_id = Inr (Some (completeRow sample_token [[97]] (amount 5))) \<and>
     memory_readCursor s ''c'' = Some ''2''"
proof -
  obtain s0 where s0: "memory_open [sample_declaration] (Some (SetBlocks (Whole 2))) (Some (Whole 1)) = Inr s0"
    "ms_entities s0 = [(''Token'', sample_token)]" by (simp add: sample_open)
  obtain s where s: "store_runs memory_applyBlock (\<lambda>n s. Inr (memory_revertTo n s)) memory_prune s0 0 sample_ops s 0"
    using sample_memory_run s0(1) by auto
  from memory_run_replays_survivors[OF s0(1) s, of "''Token''" token_id] s0 s show ?thesis
    by (auto simp: replayed_def sample_replay snapshot_row_def mustGet_def sample_ids of_entity_def
        sample_cursors)
qed

text \<open>
  C7. History is exact above the floor: a historical read that the store admits, at a height no
  prune has reached, answers with the row as the surviving blocks up to that height left it. That
  holds after any number of reorgs and prunes, so a block's past is the same for every reader.
\<close>

theorem memory_history_is_exact:
  assumes "memory_open ds setting finality = Inr s0"
    and "store_runs memory_applyBlock (\<lambda>n s. Inr (memory_revertTo n s)) memory_prune s0 0 ops s pruned"
    and "assertRetained (memory_capabilities s) at (ms_tip s) = Inr n" and "pruned \<le> n"
  shows "read_values (memory_getAsOf s entity eid at) =
    snapshot_read (ms_entities s0) (at_height (snapshots (ms_entities s0) (survivors [] ops)) n) entity eid"
proof -
  note run = memory_run_holds[OF assms(1,2)]
  have row: "(case map_of (ms_rows s) (row_key k) of None \<Rightarrow> None
      | Some r \<Rightarrow> map_option v_values (find (covers n) (mr_versions r)))
    = at_height (snapshots (ms_entities s0) (survivors [] ops)) n k" if "proper_name k" for k
    using agreesD[OF memory_holdsD(7)[OF run(1)] that assms(4)] by (simp add: row_value_def value_at_def cong: option.case_cong)
  have "read_values (memory_getAsOf s entity eid at) = read_values (memory_read (covers n) s entity eid)"
    using assms(3) by (simp add: memory_getAsOf_def of_retention_def)
  also have "\<dots> = snapshot_read (ms_entities s0) (at_height (snapshots (ms_entities s0) (survivors [] ops)) n) entity eid"
    unfolding memory_read_row run(2)
    by (rule snapshot_row_cong(2)) (use memory_holdsD(1)[OF run(1)] run(2) row in auto)
  finally show ?thesis .
qed

theorem memory_history_is_exact_witness:
  "\<exists>s0 s. memory_open [sample_declaration] (Some (SetBlocks (Whole 2))) (Some (Whole 1)) = Inr s0 \<and>
     store_runs memory_applyBlock (\<lambda>n s. Inr (memory_revertTo n s)) memory_prune s0 0 sample_ops s 0 \<and>
     read_values (memory_getAsOf s ''Token'' token_id (Whole 1)) =
       decode_row sample_token (Some (completeRow sample_token [[97]] (amount 5)))"
proof -
  obtain s0 where s0: "memory_open [sample_declaration] (Some (SetBlocks (Whole 2))) (Some (Whole 1)) = Inr s0"
    "ms_entities s0 = [(''Token'', sample_token)]" "ms_retention s0 = Window 2" by (simp add: sample_open)
  obtain s where s: "store_runs memory_applyBlock (\<lambda>n s. Inr (memory_revertTo n s)) memory_prune s0 0 sample_ops s 0"
    using sample_memory_run s0(1) by auto
  have tip: "ms_tip s = Some 2"
    using memory_tip[OF memory_run_holds(1)[OF s0(1) s]] by (simp add: s0(2) sample_replay)
  have "ms_retention s = Window 2"
    by (rule run_retention[OF s, THEN trans[OF _ s0(3)]])
  then have "assertRetained (memory_capabilities s) (Whole 1) (ms_tip s) = Inr 1"
    by (simp add: tip assertRetained_def memory_capabilities_def Let_def)
  from memory_history_is_exact[OF s0(1) s this, of "''Token''" token_id] s0 s show ?thesis
    by (auto simp: sample_replay snapshot_read_def mustGet_def sample_ids of_entity_def)
qed

text \<open>
  C12. The backends are interchangeable: opened on the same declarations and given the same run,
  the versioned store and the patch store answer every read of a current row alike, refusals
  included, and hold the same cursors. For the patch store this rests on the patch library's law,
  and on the id not being the name of a property every object inherits.
\<close>

theorem backends_agree:
  assumes "memory_open ds setting finality = Inr m0" and "patch_open ds setting' finality' = Inr p0"
    and "\<forall>before after. applyPatches after (reversal before after) = before"
    and "store_runs memory_applyBlock (\<lambda>n s. Inr (memory_revertTo n s)) memory_prune m0 0 ops m pruned"
    and "store_runs (patch_applyBlock reversal) (patch_revertTo applyPatches) patch_prune p0 0 ops p pruned'"
    and "plain_id (ms_entities m0) entity eid"
  shows "read_values (memory_getCurrent m entity eid) = patch_getCurrent p entity eid \<and>
    memory_readCursor m = patch_readCursor p"
proof -
  note m = memory_run_holds[OF assms(1,4)] and p = patch_run_holds[OF assms(3,2,5)]
  have es: "ps_entities p0 = ms_entities m0" using assms(1,2) by (auto simp: memory_open_def patch_open_def)
  have same: "memory_current m k = patch_current p k" if "proper_name k" for k
    using memory_current_latest[OF m(1) that] patch_current_latest[OF p(1) that] es by simp
  have "read_values (memory_getCurrent m entity eid) = snapshot_read (ms_entities m) (memory_current m) entity eid"
    unfolding memory_getCurrent_def memory_read_row memory_current_def ..
  also have "\<dots> = snapshot_read (ms_entities m) (patch_current p) entity eid"
    by (rule snapshot_row_cong(2)[OF memory_holdsD(1)[OF m(1)] same])
  also have "\<dots> = patch_getCurrent p entity eid" by (subst patch_read_row) (use assms(6) in \<open>simp_all add: es m(2) p(2)\<close>)
  finally show ?thesis using m(3) p(3) by (simp add: memory_readCursor_def patch_readCursor_def fun_eq_iff)
qed

lemma sample_patch_open:
  "patch_open [sample_declaration] None (Some (Whole 1)) =
     Inr \<lparr>ps_entities = [(''Token'', sample_token)], ps_finality = Some 1, ps_blocks = [],
          ps_hashes = Map.empty, ps_reversals = [], ps_cursors = Map.empty, ps_records = Map.empty,
          ps_state = emptyState, ps_tip = None\<rparr>"
  by (simp add: patch_open_def sample_entities of_entity_def of_retention_def assertFinalityDepth_def guard_def)

lemma sample_patch_run:
  "\<exists>s. store_runs (patch_applyBlock row_reversal) (patch_revertTo apply_row_reversal) patch_prune
      (projr (patch_open [sample_declaration] None (Some (Whole 1)))) 0 sample_ops s 1"
  by (simp add: sample_patch_open sample_ops_def patch_applyBlock_def check_block_def normalizeBlockHash_def
      sample_block_def fold_case_def lower_def sample_plan patch_revertTo_def highest_def Let_def
      patch_prune_def pruneBudget_def of_retention_def raised_def)

theorem backends_agree_witness:
  "\<exists>m0 m p0 p. memory_open [sample_declaration] (Some (SetBlocks (Whole 2))) (Some (Whole 1)) = Inr m0 \<and>
     patch_open [sample_declaration] None (Some (Whole 1)) = Inr p0 \<and>
     store_runs memory_applyBlock (\<lambda>n s. Inr (memory_revertTo n s)) memory_prune m0 0 sample_ops m 0 \<and>
     store_runs (patch_applyBlock row_reversal) (patch_revertTo apply_row_reversal) patch_prune p0 0 sample_ops p 1 \<and>
     read_values (memory_getCurrent m ''Token'' token_id) = patch_getCurrent p ''Token'' token_id \<and>
     patch_readCursor p ''c'' = Some ''2''"
proof -
  obtain m0 where m0: "memory_open [sample_declaration] (Some (SetBlocks (Whole 2))) (Some (Whole 1)) = Inr m0"
    by (simp add: sample_open)
  obtain m where m: "store_runs memory_applyBlock (\<lambda>n s. Inr (memory_revertTo n s)) memory_prune m0 0 sample_ops m 0"
    using sample_memory_run m0 by auto
  obtain p0 :: "row_patch patch_store" where p0: "patch_open [sample_declaration] None (Some (Whole 1)) = Inr p0" by (simp add: sample_patch_open)
  obtain p where p: "store_runs (patch_applyBlock row_reversal) (patch_revertTo apply_row_reversal) patch_prune
      p0 0 sample_ops p 1"
    using sample_patch_run p0 by auto
  have law: "\<forall>before after. apply_row_reversal after (row_reversal before after) = before"
    using diff.undo by blast
  have "patch_readCursor p ''c'' = Some ''2''"
    using patch_run_holds(3)[OF law p0 p] by (simp add: patch_readCursor_def sample_cursors)
  moreover have "plain_id (ms_entities m0) ''Token'' token_id"
    using m0 by (auto simp: sample_open plain_id_def mustGet_def entityValuesKey_def sample_ids
        inherited_names_def units_def)
  ultimately show ?thesis using backends_agree[OF m0 p0 law m p] m0 m p0 p by blast
qed




end
