(* ===== verification/State_Lists.thy ===== *)
theory State_Lists
  imports State_Runs
begin

section \<open>Listings answer from the snapshot\<close>

text \<open>
  What both backends list: the rows of the current snapshot whose ids carry the prefix, in the
  order of their ids, cut at the limit. \<open>enumerates\<close> is that list of ids (there is exactly one);
  \<open>listing_from\<close> is the page a listing returns of it, decoding errors included. The locale
  \<open>readable_store\<close> adds the two reads to the store's contract.
\<close>

definition enumerates :: "snapshot \<Rightarrow> normalized_entity \<Rightarrow> utf16 list \<Rightarrow> utf16 list list \<Rightarrow> bool" where
  "enumerates snap e vs ids \<longleftrightarrow> sorted_wrt (\<lambda>a b. id_rank a < id_rank b) ids \<and>
     (\<forall>i. i \<in> set ids \<longleftrightarrow> proper_name (ent_name e, i) \<and> snap (ent_name e, i) \<noteq> None \<and> hasIdPrefix i vs)"

definition listing_from :: "snapshot \<Rightarrow> normalized_entity \<Rightarrow> nat \<Rightarrow> utf16 list list
    \<Rightarrow> (store_error, field_values listing) result" where
  "listing_from snap e n ids =
     and_then (traverse (\<lambda>i. of_entity (decodeFieldValues e (the (snap (ent_name e, i))))) (take (n + 1) ids))
       (\<lambda>rows. Inr (boundedListing rows n))"

definition checked_list :: "entities \<Rightarrow> string \<Rightarrow> id_prefix \<Rightarrow> jsnum
    \<Rightarrow> (normalized_entity \<Rightarrow> utf16 list \<Rightarrow> nat \<Rightarrow> (store_error, 'r) result) \<Rightarrow> (store_error, 'r) result" where
  "checked_list es entity prefix limit f =
     and_then (of_entity (mustGet es entity)) (\<lambda>e.
     and_then (of_listing (prefixValues e prefix)) (\<lambda>vs.
     and_then (of_listing (assertListingLimit limit)) (\<lambda>n. f e vs n)))"

definition read_listing :: "(store_error, (field_values \<times> int \<times> int option) listing) result
    \<Rightarrow> (store_error, field_values listing) result" where
  "read_listing r =
     and_then r (\<lambda>l. Inr \<lparr>lst_rows = map fst (lst_rows l), lst_truncated = lst_truncated l\<rparr>)"

lemma id_rank_inj: "id_rank a = id_rank b \<longleftrightarrow> a = b"
proof -
  have "inj (map codePointRank)" by (rule injI) (simp add: map_rank_inj)
  then show ?thesis by (simp add: id_rank_def inj_map_eq_map)
qed

lemma strict_ids_unique:
  assumes "sorted_wrt (\<lambda>a b. id_rank a < id_rank b) xs" "sorted_wrt (\<lambda>a b. id_rank a < id_rank b) ys"
    and "set xs = set ys"
  shows "xs = ys"
proof -
  have "map id_rank xs = map id_rank ys"
    using assms sorted_wrt_less_sorted strict_sorted_map_distinct by (intro sorted_distinct_set_unique) auto
  moreover have "inj id_rank" by (rule injI) (simp add: id_rank_inj)
  ultimately show ?thesis by (simp add: inj_map_eq_map)
qed

lemma enumerates_unique: "enumerates snap e vs ids \<Longrightarrow> enumerates snap e vs ids' \<Longrightarrow> ids = ids'"
  by (rule strict_ids_unique) (auto simp: enumerates_def)

lemma sort_ids_strict:
  assumes "distinct (map f xs)"
  shows "sorted_wrt (\<lambda>a b. id_rank a < id_rank b) (map f (sort_by_ids f xs))"
proof -
  have "distinct (map (\<lambda>x. id_rank (f x)) xs)"
    using assms id_rank_inj by (simp add: distinct_map inj_on_def)
  then have "sorted_wrt (\<lambda>a b. id_rank (f a) < id_rank (f b)) (sort_by_ids f xs)"
    unfolding sort_by_ids_def by (intro sorted_distinct_strict) (simp_all add: distinct_map)
  then show ?thesis by (simp add: sorted_wrt_map)
qed

subsection \<open>Traversals\<close>

lemma traverse_cong: "(\<And>x. x \<in> set xs \<Longrightarrow> f x = g x) \<Longrightarrow> traverse f xs = traverse g xs"
  by (induction xs) simp_all

lemma traverse_map: "traverse f (map g xs) = traverse (\<lambda>x. f (g x)) xs"
  by (induction xs) simp_all

lemma traverse_after:
  "and_then (traverse f xs) (\<lambda>ys. Inr (map g ys)) = traverse (\<lambda>x. and_then (f x) (\<lambda>y. Inr (g y))) xs"
proof (induction xs)
  case (Cons x xs)
  then show ?case
    by (cases "f x"; cases "traverse f xs"; cases "traverse (\<lambda>x. and_then (f x) (\<lambda>y. Inr (g y))) xs") auto
qed simp

lemma bounded_map:
  "and_then (and_then r (\<lambda>rows. Inr (boundedListing rows n)))
      (\<lambda>l. Inr \<lparr>lst_rows = map g (lst_rows l), lst_truncated = lst_truncated l\<rparr>) =
   and_then (and_then r (\<lambda>rows. Inr (map g rows))) (\<lambda>rows. Inr (boundedListing rows n))"
  by (cases r) (simp_all add: boundedListing_def take_map)

subsection \<open>The versioned store\<close>

definition live_rows :: "memory_store \<Rightarrow> normalized_entity \<Rightarrow> utf16 list \<Rightarrow> (utf16 list \<times> version) list" where
  "live_rows s e vs = List.map_filter
     (\<lambda>(k, row). if mr_entity row \<noteq> ent_name e \<or> \<not> hasIdPrefix (mr_id row) vs then None
                  else map_option (\<lambda>v. (mr_id row, v)) (find is_live (mr_versions row)))
     (ms_rows s)"

lemma live_rows_mem:
  "(i, v) \<in> set (live_rows s e vs) \<longleftrightarrow>
     (\<exists>k r. (k, r) \<in> set (ms_rows s) \<and> mr_entity r = ent_name e \<and> mr_id r = i \<and> hasIdPrefix i vs \<and>
        find is_live (mr_versions r) = Some v)"
  by (force simp: live_rows_def List.map_filter_def split: if_splits option.splits)

lemma live_rows_distinct:
  assumes "named_rows rows" and "distinct (map fst rows)"
  shows "distinct (map fst (List.map_filter
     (\<lambda>(k, row). if mr_entity row \<noteq> entity \<or> \<not> hasIdPrefix (mr_id row) vs then None
                  else map_option (\<lambda>v. (mr_id row, v)) (find is_live (mr_versions row))) rows))"
  using assms
proof (induction rows)
  case Nil
  then show ?case by (simp add: List.map_filter_def)
next
  case (Cons x rows)
  obtain k r where x: "x = (k, r)" by (cases x)
  have rest: "named_rows rows" "distinct (map fst rows)" using Cons.prems by (auto simp: named_rows_def)
  have kr: "k = row_key (mr_entity r, mr_id r)" using named_rowsD[OF Cons.prems(1), of k r] x by simp
  have fresh: "k' \<noteq> k" if "(k', r') \<in> set rows" for k' r'
    using that Cons.prems(2) x by (auto simp: image_iff)
  have new: "\<not> (mr_entity r' = mr_entity r \<and> mr_id r' = mr_id r)" if "(k', r') \<in> set rows" for k' r'
    using named_rowsD[OF rest(1) that] kr fresh[OF that] by auto
  show ?case using Cons.IH[OF rest] new
    by (auto simp: x List.map_filter_def split: if_splits option.splits)
qed

lemma memory_ids:
  assumes h: "memory_holds fl h s"
  shows "enumerates (latest h) e vs (map fst (sort_by_ids fst (live_rows s e vs)))"
    and "(i, v) \<in> set (live_rows s e vs) \<Longrightarrow> latest h (ent_name e, i) = Some (v_values v)"
proof -
  note ok = memory_holdsD[OF h]
  have dist: "distinct (map fst (ms_rows s))" using ok(2) by (simp add: rows_ok_def)
  have current: "latest h (ent_name e, i) =
      (case map_of (ms_rows s) (row_key (ent_name e, i)) of None \<Rightarrow> None
       | Some r \<Rightarrow> map_option v_values (find is_live (mr_versions r)))"
    if "proper_name (ent_name e, i)" for i
    using memory_current_latest[OF h that] by (simp add: memory_current_def)
  have at: "proper_name (ent_name e, mr_id r) \<and> map_of (ms_rows s) (row_key (ent_name e, mr_id r)) = Some r"
    if "(k, r) \<in> set (ms_rows s)" "mr_entity r = ent_name e" for k r
    using named_rowsD[OF ok(8) that(1)] that dist by simp
  show val: "latest h (ent_name e, i) = Some (v_values v)" if "(i, v) \<in> set (live_rows s e vs)" for i v
    using that at current unfolding live_rows_mem by fastforce
  have mem: "i \<in> fst ` set (live_rows s e vs) \<longleftrightarrow>
      proper_name (ent_name e, i) \<and> latest h (ent_name e, i) \<noteq> None \<and> hasIdPrefix i vs" for i
  proof
    assume "i \<in> fst ` set (live_rows s e vs)"
    then obtain v where v: "(i, v) \<in> set (live_rows s e vs)" by auto
    then show "proper_name (ent_name e, i) \<and> latest h (ent_name e, i) \<noteq> None \<and> hasIdPrefix i vs"
      using val[OF v] at unfolding live_rows_mem by auto
  next
    assume r: "proper_name (ent_name e, i) \<and> latest h (ent_name e, i) \<noteq> None \<and> hasIdPrefix i vs"
    then obtain r v where rv: "map_of (ms_rows s) (row_key (ent_name e, i)) = Some r"
      "find is_live (mr_versions r) = Some v"
      using current[of i] by (auto split: option.splits)
    have "row_key (ent_name e, i) = row_key (mr_entity r, mr_id r) \<and> proper_name (mr_entity r, mr_id r)"
      by (rule named_rowsD[OF ok(8) map_of_SomeD[OF rv(1)]])
    then have "(ent_name e, i) = (mr_entity r, mr_id r)" using row_key_inj r by blast
    then have "(i, v) \<in> set (live_rows s e vs)"
      using map_of_SomeD[OF rv(1)] rv(2) r unfolding live_rows_mem by auto
    then show "i \<in> fst ` set (live_rows s e vs)" by force
  qed
  have "distinct (map fst (live_rows s e vs))"
    unfolding live_rows_def by (rule live_rows_distinct[OF ok(8) dist])
  from sort_ids_strict[OF this] show "enumerates (latest h) e vs (map fst (sort_by_ids fst (live_rows s e vs)))"
    using mem by (simp add: enumerates_def sort_by_ids_def)
qed

lemma memory_listing:
  assumes "memory_holds fl h s"
  shows "read_listing (memory_listCurrent s entity prefix limit) =
    checked_list (ms_entities s) entity prefix limit
      (\<lambda>e vs n. listing_from (latest h) e n (map fst (sort_by_ids fst (live_rows s e vs))))"
proof -
  have page: "traverse (\<lambda>x. and_then (case x of (i, v) \<Rightarrow> and_then (of_entity (decodeFieldValues e (v_values v)))
        (\<lambda>values. Inr (values, v_lower v, v_upper v))) (\<lambda>y. Inr (fst y))) (take (Suc n) (sort_by_ids fst (live_rows s e vs)))
    = traverse (\<lambda>i. of_entity (decodeFieldValues e (the (latest h (ent_name e, i)))))
        (take (Suc n) (map fst (sort_by_ids fst (live_rows s e vs))))" for e vs n
    unfolding take_map traverse_map
  proof (rule traverse_cong)
    fix x assume "x \<in> set (take (Suc n) (sort_by_ids fst (live_rows s e vs)))"
    then have "x \<in> set (live_rows s e vs)" by (auto dest: in_set_takeD simp: sort_by_ids_def)
    with memory_ids(2)[OF assms, of "fst x" "snd x" e vs]
    show "and_then (case x of (i, v) \<Rightarrow> and_then (of_entity (decodeFieldValues e (v_values v)))
        (\<lambda>values. Inr (values, v_lower v, v_upper v))) (\<lambda>y. Inr (fst y)) =
      of_entity (decodeFieldValues e (the (latest h (ent_name e, fst x))))"
      by (cases "decodeFieldValues e (v_values (snd x))") (auto simp: case_prod_unfold of_entity_def)
  qed
  show ?thesis
    unfolding memory_listCurrent_def memory_scan_def checked_list_def read_listing_def listing_from_def
      live_rows_def[symmetric] Let_def
    by (cases "mustGet (ms_entities s) entity"; cases "prefixValues (projr (mustGet (ms_entities s) entity)) prefix";
        cases "assertListingLimit limit")
      (simp_all add: of_entity_def of_listing_def bounded_map traverse_after page[unfolded of_entity_def])
qed

subsection \<open>The patch store\<close>

lemma split_plain: "SEPARATOR \<notin> set x \<Longrightarrow> split_key x = [x]"
  by (induction x) auto

lemma split_append: "SEPARATOR \<notin> set x \<Longrightarrow> split_key (x @ SEPARATOR # y) = x # split_key y"
  by (induction x) auto

lemma split_join: "ids \<noteq> [] \<Longrightarrow> \<forall>x \<in> set ids. SEPARATOR \<notin> set x \<Longrightarrow> split_key (join ids) = ids"
  by (induction ids rule: join.induct) (simp_all add: split_plain split_append)

definition patch_rows :: "'p patch_store \<Rightarrow> normalized_entity \<Rightarrow> utf16 list \<Rightarrow> (utf16 list \<times> field_values) list" where
  "patch_rows s e vs = List.map_filter
     (\<lambda>key. if hasIdPrefix (split_key key) vs
            then map_option (\<lambda>row. (split_key key, row)) (Mapping.lookup (ps_state s (ent_name e)) key) else None)
     (Mapping.ordered_keys (ps_state s (ent_name e)))"

lemma patch_ids:
  assumes h: "patch_holds ap fl h s"
  shows "enumerates (latest h) e vs (map fst (sort_by_ids fst (patch_rows s e vs)))"
    and "(i, row) \<in> set (patch_rows s e vs) \<Longrightarrow> latest h (ent_name e, i) = Some row"
proof -
  let ?rows = "ps_state s (ent_name e)"
  have rep: "represents (ps_state s) (latest h)" by (rule undoable_represents[OF patch_holdsD(7)[OF h]])
  note tidy = represents_tidy[OF rep, unfolded tidy_def, THEN spec, of "ent_name e"]
  have fin: "finite (Mapping.keys ?rows)" using tidy by (rule conjunct1)
  have key: "proper_name (ent_name e, split_key k) \<and> k = join (split_key k)" if kin: "k \<in> Mapping.keys ?rows" for k
  proof -
    obtain ids where ids: "proper_name (ent_name e, ids)" "k = join ids"
      using bspec[OF conjunct2[OF tidy] kin] by blast
    then have "split_key k = ids" using split_join[of ids] by (simp add: proper_name_def)
    with ids show ?thesis by simp
  qed
  have current: "Mapping.lookup ?rows (join i) = latest h (ent_name e, i)" if "proper_name (ent_name e, i)" for i
    using representsD[OF rep that] by (simp add: state_row_def)
  have mem: "(i, row) \<in> set (patch_rows s e vs) \<longleftrightarrow>
      (\<exists>k \<in> Mapping.keys ?rows. split_key k = i \<and> hasIdPrefix i vs \<and> Mapping.lookup ?rows k = Some row)" for i row
    using fin by (force simp: patch_rows_def List.map_filter_def ordered_keys_def split: if_splits option.splits)
  show val: "latest h (ent_name e, i) = Some row" if "(i, row) \<in> set (patch_rows s e vs)" for i row
    using that key current unfolding mem by metis
  have ids: "i \<in> fst ` set (patch_rows s e vs) \<longleftrightarrow>
      proper_name (ent_name e, i) \<and> latest h (ent_name e, i) \<noteq> None \<and> hasIdPrefix i vs" for i
  proof
    assume "i \<in> fst ` set (patch_rows s e vs)"
    then obtain row where row: "(i, row) \<in> set (patch_rows s e vs)" by auto
    then show "proper_name (ent_name e, i) \<and> latest h (ent_name e, i) \<noteq> None \<and> hasIdPrefix i vs"
      using val[OF row] key unfolding mem by auto
  next
    assume r: "proper_name (ent_name e, i) \<and> latest h (ent_name e, i) \<noteq> None \<and> hasIdPrefix i vs"
    then obtain row where row: "Mapping.lookup ?rows (join i) = Some row" using current[of i] by auto
    have "split_key (join i) = i" using r split_join[of i] by (simp add: proper_name_def)
    moreover have "join i \<in> Mapping.keys ?rows" using row by (simp add: keys_is_none_rep)
    ultimately have "(i, row) \<in> set (patch_rows s e vs)" using r row unfolding mem by auto
    then show "i \<in> fst ` set (patch_rows s e vs)" by force
  qed
  have "distinct (map fst (List.map_filter
      (\<lambda>k. if hasIdPrefix (split_key k) vs then map_option (\<lambda>row. (split_key k, row)) (Mapping.lookup ?rows k) else None) ks))"
    if "distinct ks" "set ks \<subseteq> Mapping.keys ?rows" for ks
    using that
  proof (induction ks)
    case (Cons k ks)
    have "split_key k' \<noteq> split_key k" if "k' \<in> set ks" for k'
      using that Cons.prems key by (metis distinct.simps(2) list.set_intros subset_iff)
    then have "split_key k \<notin> split_key ` set ks" by (metis imageE)
    then show ?case using Cons by (force simp: List.map_filter_def split: if_splits option.splits)
  qed (simp add: List.map_filter_def)
  from this[of "Mapping.ordered_keys ?rows"] have "distinct (map fst (patch_rows s e vs))"
    using fin by (simp add: patch_rows_def ordered_keys_def)
  from sort_ids_strict[OF this] show "enumerates (latest h) e vs (map fst (sort_by_ids fst (patch_rows s e vs)))"
    using ids by (simp add: enumerates_def sort_by_ids_def)
qed

lemma patch_listing:
  assumes "patch_holds ap fl h s"
  shows "patch_listCurrent s entity prefix limit =
    checked_list (ps_entities s) entity prefix limit
      (\<lambda>e vs n. listing_from (latest h) e n (map fst (sort_by_ids fst (patch_rows s e vs))))"
proof -
  have page: "traverse (\<lambda>(i, row). of_entity (decodeFieldValues e row)) (take (Suc n) (sort_by_ids fst (patch_rows s e vs)))
    = traverse (\<lambda>i. of_entity (decodeFieldValues e (the (latest h (ent_name e, i)))))
        (take (Suc n) (map fst (sort_by_ids fst (patch_rows s e vs))))" for e vs n
    unfolding take_map traverse_map
  proof (rule traverse_cong)
    fix x assume "x \<in> set (take (Suc n) (sort_by_ids fst (patch_rows s e vs)))"
    then have "x \<in> set (patch_rows s e vs)" by (auto dest: in_set_takeD simp: sort_by_ids_def)
    with patch_ids(2)[OF assms, of "fst x" "snd x" e vs]
    show "(case x of (i, row) \<Rightarrow> of_entity (decodeFieldValues e row)) =
      of_entity (decodeFieldValues e (the (latest h (ent_name e, fst x))))"
      by (simp add: case_prod_unfold)
  qed
  show ?thesis
    unfolding patch_listCurrent_def checked_list_def listing_from_def patch_rows_def[symmetric] Let_def
    by (cases "mustGet (ps_entities s) entity"; cases "prefixValues (projr (mustGet (ps_entities s) entity)) prefix";
        cases "assertListingLimit limit")
      (simp_all add: of_entity_def of_listing_def page[unfolded of_entity_def])
qed

text \<open>
  C16. Listings are interchangeable too: after the same run both backends return the same page,
  in the same order, with the same truncation or the same refusal.
\<close>

theorem listings_agree:
  assumes "memory_open ds setting finality = Inr m0" and "patch_open ds setting' finality' = Inr p0"
    and "\<forall>before after. applyPatches after (reversal before after) = before"
    and "store_runs memory_applyBlock (\<lambda>n s. Inr (memory_revertTo n s)) memory_prune m0 0 ops m pruned"
    and "store_runs (patch_applyBlock reversal) (patch_revertTo applyPatches) patch_prune p0 0 ops p pruned'"
  shows "read_listing (memory_listCurrent m entity prefix limit) = patch_listCurrent p entity prefix limit"
proof -
  note m = memory_run_holds[OF assms(1,4)] and p = patch_run_holds[OF assms(3,2,5)]
  have es: "ps_entities p0 = ms_entities m0" using assms(1,2) by (auto simp: memory_open_def patch_open_def)
  have same: "map fst (sort_by_ids fst (live_rows m e vs)) = map fst (sort_by_ids fst (patch_rows p e vs))" for e vs
    by (rule enumerates_unique[OF memory_ids(1)[OF m(1)]]) (use patch_ids(1)[OF p(1)] es in simp)
  show ?thesis
    unfolding memory_listing[OF m(1)] patch_listing[OF p(1)] same m(2) p(2) es ..
qed

theorem listings_agree_witness:
  "\<exists>m0 m p0 p. memory_open [sample_declaration] (Some (SetBlocks (Whole 2))) (Some (Whole 1)) = Inr m0 \<and>
     patch_open [sample_declaration] None (Some (Whole 1)) = Inr p0 \<and>
     store_runs memory_applyBlock (\<lambda>n s. Inr (memory_revertTo n s)) memory_prune m0 0 sample_ops m 0 \<and>
     store_runs (patch_applyBlock row_reversal) (patch_revertTo apply_row_reversal) patch_prune p0 0 sample_ops p 1 \<and>
     read_listing (memory_listCurrent m ''Token'' [(''id'', IdText [97])] (Whole 3)) =
       patch_listCurrent p ''Token'' [(''id'', IdText [97])] (Whole 3)"
proof -
  obtain m0 where m0: "memory_open [sample_declaration] (Some (SetBlocks (Whole 2))) (Some (Whole 1)) = Inr m0"
    by (simp add: sample_open)
  obtain m where m: "store_runs memory_applyBlock (\<lambda>n s. Inr (memory_revertTo n s)) memory_prune m0 0 sample_ops m 0"
    using sample_memory_run m0 by auto
  obtain p0 :: "row_patch patch_store" where p0: "patch_open [sample_declaration] None (Some (Whole 1)) = Inr p0"
    by (simp add: sample_patch_open)
  obtain p where p: "store_runs (patch_applyBlock row_reversal) (patch_revertTo apply_row_reversal) patch_prune
      p0 0 sample_ops p 1"
    using sample_patch_run p0 by auto
  have "\<forall>before after. apply_row_reversal after (row_reversal before after) = before" using diff.undo by blast
  from listings_agree[OF m0 p0 this m p] show ?thesis using m0 m p0 p by blast
qed

end
