(* ===== verification/Mutation_Context.thy ===== *)
theory Mutation_Context
  imports State_Lists
begin

section \<open>What a block's handlers read and write\<close>

text \<open>
  \<open>packages/state-store/src/mutation-context.ts\<close>. The handlers of one block share a staging map
  over the store: writes are kept by row key, in the order their keys were first written, and a
  read sees the staged write before the stored row. A store is what it answers: its declarations,
  its point read and its listing; the bounds of a versioned row are not part of what is read.
\<close>

record store_reads =
  rd_entities :: entities
  rd_getCurrent :: "string \<Rightarrow> entity_id \<Rightarrow> (store_error, field_values option) result"
  rd_listCurrent :: "string \<Rightarrow> id_prefix \<Rightarrow> jsnum \<Rightarrow> (store_error, field_values listing) result"

type_synonym pending = "(utf16 \<times> mutation) list"

definition ctx_key :: "entities \<Rightarrow> string \<Rightarrow> entity_id \<Rightarrow> (store_error, utf16) result" where
  "ctx_key es entity eid =
     and_then (of_entity (mustGet es entity)) (\<lambda>e. of_entity (entityKey e eid))"

definition stagedRow :: "normalized_entity \<Rightarrow> utf16 list \<Rightarrow> field_values \<Rightarrow> field_values" where
  "stagedRow entity ids row =
     (\<lambda>column.
        if column \<in> fst ` set (ent_fields entity)
        then Some (case row column of None \<Rightarrow> VNull | Some v \<Rightarrow> v)
        else map_option VText (map_of (zip (ent_id entity) ids) column))"

definition ctx_get :: "store_reads \<Rightarrow> pending \<Rightarrow> string \<Rightarrow> entity_id
    \<Rightarrow> (store_error, field_values option) result" where
  "ctx_get R pending entity eid =
     and_then (of_entity (mustGet (rd_entities R) entity)) (\<lambda>declaration.
     and_then (of_entity (entityKey declaration eid)) (\<lambda>key.
       case map_of pending key of
         Some (Delete _ _) \<Rightarrow> Inr None
       | Some (Upsert _ staged_id v) \<Rightarrow>
           and_then (of_entity (idValues declaration staged_id)) (\<lambda>ids. Inr (Some (stagedRow declaration ids v)))
       | None \<Rightarrow> rd_getCurrent R entity eid))"

definition ctx_set :: "store_reads \<Rightarrow> string \<Rightarrow> entity_id \<Rightarrow> field_values \<Rightarrow> pending \<Rightarrow> (store_error, pending) result" where
  "ctx_set R entity eid v pending =
     and_then (ctx_key (rd_entities R) entity eid) (\<lambda>key. Inr (AList.update key (Upsert entity eid v) pending))"

text \<open>The declared fields of the row as it reads now, overwritten by the given ones.\<close>

definition merged_fields :: "normalized_entity \<Rightarrow> field_values option \<Rightarrow> field_values" where
  "merged_fields declaration current =
     (\<lambda>field. if field \<in> fst ` set (ent_fields declaration)
              then (case current of None \<Rightarrow> None | Some row \<Rightarrow> row field) else None)"

definition ctx_update :: "store_reads \<Rightarrow> string \<Rightarrow> entity_id \<Rightarrow> field_values \<Rightarrow> pending \<Rightarrow> (store_error, pending) result" where
  "ctx_update R entity eid v pending =
     and_then (of_entity (mustGet (rd_entities R) entity)) (\<lambda>declaration.
     and_then (ctx_get R pending entity eid) (\<lambda>current.
       ctx_set R entity eid (merged_fields declaration current ++ v) pending))"

definition ctx_delete :: "store_reads \<Rightarrow> string \<Rightarrow> entity_id \<Rightarrow> pending \<Rightarrow> (store_error, pending) result" where
  "ctx_delete R entity eid pending =
     and_then (ctx_key (rd_entities R) entity eid) (\<lambda>key. Inr (AList.update key (Delete entity eid) pending))"

text \<open>
  A row read as an id: \<open>String(value)\<close> of its columns. The id columns of a stored row are text;
  bytes print as their decimals between commas.
\<close>

fun commas :: "8 word list \<Rightarrow> utf16" where
  "commas [] = []"
| "commas [b] = decimal (uint b)"
| "commas (b # c # bs) = decimal (uint b) @ 44 # commas (c # bs)"

fun as_id_value :: "field_value \<Rightarrow> id_value" where
  "as_id_value VNull = IdNull"
| "as_id_value (VText t) = IdText t"
| "as_id_value (VNumber n) = IdNumber n"
| "as_id_value (VBigint n) = IdNumber n"
| "as_id_value (VBytes bs) = IdText (commas bs)"

definition row_as_id :: "field_values \<Rightarrow> entity_id" where
  "row_as_id row = (\<lambda>column. map_option as_id_value (row column))"

text \<open>The staged rows of one entity under a prefix: \<open>None\<close> marks a staged delete.\<close>

fun staged_rows :: "normalized_entity \<Rightarrow> utf16 list \<Rightarrow> pending
    \<Rightarrow> (store_error, (utf16 \<times> utf16 list \<times> field_values option) list) result" where
  "staged_rows declaration vs [] = Inr []"
| "staged_rows declaration vs ((key, m) # pending) =
     (if mutation_entity m \<noteq> ent_name declaration then staged_rows declaration vs pending
      else and_then (of_entity (idValues declaration (mutation_id m))) (\<lambda>ids.
        if \<not> hasIdPrefix ids vs then staged_rows declaration vs pending
        else and_then (staged_rows declaration vs pending) (\<lambda>rest.
          Inr ((key, ids, map_option (stagedRow declaration ids) (mutation_values m)) # rest))))"

text \<open>The stored rows that no staged write replaces, with their ids.\<close>

fun unstaged_rows :: "normalized_entity \<Rightarrow> utf16 set \<Rightarrow> field_values list
    \<Rightarrow> (store_error, (utf16 list \<times> field_values) list) result" where
  "unstaged_rows declaration staged [] = Inr []"
| "unstaged_rows declaration staged (row # rows) =
     and_then (of_entity (entityKey declaration (row_as_id row))) (\<lambda>key.
       if key \<in> staged then unstaged_rows declaration staged rows
       else and_then (of_entity (idValues declaration (row_as_id row))) (\<lambda>ids.
         and_then (unstaged_rows declaration staged rows) (\<lambda>rest. Inr ((ids, row) # rest))))"

definition ctx_list :: "store_reads \<Rightarrow> pending \<Rightarrow> string \<Rightarrow> id_prefix \<Rightarrow> jsnum
    \<Rightarrow> (store_error, field_values listing) result" where
  "ctx_list R pending entity prefix limit =
     and_then (of_entity (mustGet (rd_entities R) entity)) (\<lambda>declaration.
     and_then (of_listing (prefixValues declaration prefix)) (\<lambda>vs.
     and_then (of_listing (assertListingLimit limit)) (\<lambda>n.
     and_then (staged_rows declaration vs pending) (\<lambda>staged.
     and_then (rd_listCurrent R entity prefix (Whole (int n + int (length staged)))) (\<lambda>stored.
     and_then (unstaged_rows declaration (fst ` set staged) (lst_rows stored)) (\<lambda>kept.
       (let merged = kept @ List.map_filter (\<lambda>(key, ids, row). map_option (\<lambda>r. (ids, r)) row) staged;
            sorted = sort_by_ids fst merged
        in Inr \<lparr>lst_rows = map snd (take n sorted),
                lst_truncated = (length merged > n \<or> lst_truncated stored)\<rparr>)))))))"

definition ctx_mutations :: "pending \<Rightarrow> mutation list" where
  "ctx_mutations pending = map snd pending"

subsection \<open>Handlers\<close>

text \<open>
  A handler is code of the deployment: any well-founded interaction with the context. Each call
  hands its answer, a refusal included, to what the handler does next; \<open>Raise\<close> is a throw that
  the handler does not catch.
\<close>

datatype handler =
    Return
  | Raise
  | Get string entity_id "(store_error, field_values option) result \<Rightarrow> handler"
  | ListRows string id_prefix jsnum "(store_error, field_values listing) result \<Rightarrow> handler"
  | SetRow string entity_id field_values "(store_error, unit) result \<Rightarrow> handler"
  | UpdateRow string entity_id field_values "(store_error, unit) result \<Rightarrow> handler"
  | DeleteRow string entity_id "(store_error, unit) result \<Rightarrow> handler"

definition staged_by :: "(store_error, pending) result \<Rightarrow> pending \<Rightarrow> (store_error, unit) result \<times> pending" where
  "staged_by r pending = (case r of Inl e \<Rightarrow> (Inl e, pending) | Inr p \<Rightarrow> (Inr (), p))"

primrec run_handler :: "store_reads \<Rightarrow> handler \<Rightarrow> pending \<Rightarrow> pending option" where
  "run_handler R Return = (\<lambda>p. Some p)"
| "run_handler R Raise = (\<lambda>p. None)"
| "run_handler R (Get entity eid k) = (\<lambda>p. run_handler R (k (ctx_get R p entity eid)) p)"
| "run_handler R (ListRows entity prefix limit k) = (\<lambda>p. run_handler R (k (ctx_list R p entity prefix limit)) p)"
| "run_handler R (SetRow entity eid v k) =
     (\<lambda>p. let (r, p') = staged_by (ctx_set R entity eid v p) p in run_handler R (k r) p')"
| "run_handler R (UpdateRow entity eid v k) =
     (\<lambda>p. let (r, p') = staged_by (ctx_update R entity eid v p) p in run_handler R (k r) p')"
| "run_handler R (DeleteRow entity eid k) =
     (\<lambda>p. let (r, p') = staged_by (ctx_delete R entity eid p) p in run_handler R (k r) p')"

subsection \<open>Rows of a run decode, and name themselves\<close>

definition columns_ok :: "entities \<Rightarrow> bool" where
  "columns_ok es \<longleftrightarrow> (\<forall>x \<in> set es. distinct (ent_id (snd x) @ map fst (ent_fields (snd x))))"

lemma distinct_columns_ok:
  "distinct_columns seen cs = Inr u \<Longrightarrow>
     distinct cs \<and> (\<forall>c \<in> set cs. fold_case c \<notin> fst ` set seen)"
proof (induction seen cs rule: distinct_columns.induct)
  case (2 seen c cs)
  then have "map_of seen (fold_case c) = None" "distinct_columns ((fold_case c, c) # seen) cs = Inr u"
    by (auto split: option.splits if_splits)
  with 2(1) show ?case by (auto simp: map_of_eq_None_iff)
qed simp

lemma normalizeEntity_columns: "normalizeEntity d = Inr e \<Longrightarrow> distinct (ent_id e @ map fst (ent_fields e))"
  unfolding normalizeEntity_def by (auto simp del: distinct_append dest: distinct_columns_ok)

lemma collect_columns: "\<lbrakk>collect_entities es folded ds = Inr es'; columns_ok es\<rbrakk> \<Longrightarrow> columns_ok es'"
proof (induction ds arbitrary: es folded)
  case (Cons d ds)
  then obtain e folded' where e: "normalizeEntity d = Inr e"
    and rest: "collect_entities (es @ [(ent_name e, e)]) folded' ds = Inr es'"
    by (auto split: if_splits option.splits)
  have "columns_ok (es @ [(ent_name e, e)])"
    using Cons.prems(2) normalizeEntity_columns[OF e] by (auto simp: columns_ok_def)
  with Cons.IH[OF rest] show ?case .
qed simp

lemma normalizeEntities_columns: "normalizeEntities ds = Inr es \<Longrightarrow> columns_ok es"
  using collect_columns[of "[]" "[]" ds] by (auto simp: normalizeEntities_def columns_ok_def)

text \<open>A snapshot whose rows were all written through the encoder.\<close>

definition encoded_row :: "entities \<Rightarrow> row_name \<Rightarrow> field_values \<Rightarrow> field_values \<Rightarrow> bool" where
  "encoded_row es k row written \<longleftrightarrow>
     (\<exists>e stored. map_of es (fst k) = Some e \<and> encodeFieldValues e written = Inr stored \<and>
        row = completeRow e (snd k) stored \<and> length (snd k) = length (ent_id e) \<and>
        (\<forall>x \<in> set (snd k). SEPARATOR \<notin> set x))"

definition encoded :: "entities \<Rightarrow> snapshot \<Rightarrow> bool" where
  "encoded es snap \<longleftrightarrow> (\<forall>k row. snap k = Some row \<longrightarrow> (\<exists>written. encoded_row es k row written))"

lemma plan_encoded:
  assumes "plan_mutation es m = Inr p" "declared_ok es" "row_of p = Some row" "mutation_values m = Some v"
  shows "encoded_row es (name_of p) row v"
proof -
  have e: "map_of es (mutation_entity m) = Some (pm_entity p)" and ids: "idValues (pm_entity p) (mutation_id m) = Inr (pm_ids p)"
    using assms(1) by (auto simp: plan_mutation_def mustGet_def split: option.splits)
  have "ent_name (pm_entity p) = mutation_entity m"
    using map_of_SomeD[OF e] assms(2) by (auto simp: declared_ok_def)
  moreover obtain stored where "encodeFieldValues (pm_entity p) v = Inr stored" "pm_stored p = Some stored"
    using assms(1,4) by (auto simp: plan_mutation_def mustGet_def split: option.splits)
  ultimately show ?thesis
    using assms(3) e idValues_length[OF ids] idValues_no_separator[OF ids]
    by (simp add: encoded_row_def name_of_def row_of_def)
qed

lemma plan_row: "plan_mutation es m = Inr p \<Longrightarrow> row_of p = None \<longleftrightarrow> mutation_values m = None"
  by (auto simp: plan_mutation_def row_of_def split: option.splits)

lemma planned_encoded:
  assumes "declared_ok es" and "list_all2 (\<lambda>m p. plan_mutation es m = Inr p) ms ps" and "encoded es snap"
  shows "encoded es (apply_planned ps snap)"
  using assms(2,3)
proof (induction ms ps arbitrary: snap rule: list_all2_induct)
  case Nil
  then show ?case by (simp add: apply_planned_def)
next
  case (Cons m ms p ps)
  have "encoded es (snap(name_of p := row_of p))"
    unfolding encoded_def
  proof (intro allI impI)
    fix k row assume r: "(snap(name_of p := row_of p)) k = Some row"
    show "\<exists>written. encoded_row es k row written"
    proof (cases "k = name_of p")
      case True
      with r have r: "row_of p = Some row" by simp
      then obtain v where "mutation_values m = Some v" using plan_row[OF Cons.hyps(1)] by (cases "mutation_values m") auto
      from plan_encoded[OF Cons.hyps(1) assms(1) r this] True show ?thesis by auto
    next
      case False
      with r have "snap k = Some row" by simp
      with Cons.prems show ?thesis unfolding encoded_def by blast
    qed
  qed
  then show ?case unfolding apply_planned_Cons by (rule Cons.IH)
qed

lemma snapshots_encoded: "declared_ok es \<Longrightarrow> encoded es (latest (snapshots es kept))"
proof (induction kept)
  case Nil
  then show ?case by (simp add: encoded_def)
next
  case (Cons x kept)
  obtain b ms where x: "x = (b, ms)" by (cases x)
  have "\<exists>ms'. list_all2 (\<lambda>m p. plan_mutation es m = Inr p) ms' (planned_of es ms)"
  proof (cases "traverse (plan_mutation es) ms")
    case (Inr ps)
    then have "list_all2 (\<lambda>m p. plan_mutation es m = Inr p) ms ps" by (simp add: traverse_Inr_iff)
    with Inr show ?thesis unfolding planned_of_def by auto
  qed (auto simp: planned_of_def intro: exI[of _ "[]"])
  with planned_encoded[OF Cons.prems] Cons show ?case by (auto simp: x)
qed

lemma encoded_decodes:
  assumes "encoded_row es k row written" and "columns_ok es" and "map_of es (fst k) = Some e"
  shows "decodeFieldValues e row = Inr (completeRow e (snd k) written)"
proof -
  have "distinct (map fst (ent_fields e))"
    using assms(2) map_of_SomeD[OF assms(3)] by (auto simp: columns_ok_def)
  with assms(1,3) stored_row_restored show ?thesis by (auto simp: encoded_row_def)
qed

lemma row_names_itself:
  assumes "distinct (ent_id e @ map fst (ent_fields e))" and "length ids = length (ent_id e)"
    and "\<forall>x \<in> set ids. SEPARATOR \<notin> set x"
  shows "idValues e (row_as_id (completeRow e ids written)) = Inr ids"
  unfolding idValues_def traverse_Inr_iff
proof (rule list_all2_all_nthI)
  fix i assume i: "i < length (ent_id e)"
  let ?c = "ent_id e ! i"
  have "?c \<notin> fst ` set (ent_fields e)" using assms(1) i by (auto dest!: nth_mem)
  moreover have "map_of (zip (ent_id e) ids) ?c = Some (ids ! i)"
    using assms(1,2) i by (intro map_of_zip_nth) simp_all
  ultimately show "id_column (row_as_id (completeRow e ids written)) ?c = Inr (ids ! i)"
    using assms(2,3) i by (auto simp: id_column_def row_as_id_def completeRow_def guard_def)
qed (use assms in simp)

subsection \<open>The staging map\<close>

definition pending_ok :: "entities \<Rightarrow> pending \<Rightarrow> bool" where
  "pending_ok es p \<longleftrightarrow> distinct (map fst p) \<and>
     (\<forall>x \<in> set p. ctx_key es (mutation_entity (snd x)) (mutation_id (snd x)) = Inr (fst x))"

lemma pending_ok_empty: "pending_ok es []"
  by (simp add: pending_ok_def)

lemma pending_ok_update:
  assumes "pending_ok es p" and "ctx_key es (mutation_entity m) (mutation_id m) = Inr key"
  shows "pending_ok es (AList.update key m p)"
  unfolding pending_ok_def
proof
  show "distinct (map fst (AList.update key m p))" using assms(1) by (simp add: pending_ok_def distinct_update)
  show "\<forall>x \<in> set (AList.update key m p). ctx_key es (mutation_entity (snd x)) (mutation_id (snd x)) = Inr (fst x)"
  proof
    fix x assume "x \<in> set (AList.update key m p)"
    from subsetD[OF set_update_subset this] consider "x = (key, m)" | "x \<in> set p" by (elim insertE)
    then show "ctx_key es (mutation_entity (snd x)) (mutation_id (snd x)) = Inr (fst x)"
    proof cases
      case 1
      then show ?thesis using assms(2) by simp
    next
      case 2
      then show ?thesis using assms(1) unfolding pending_ok_def by blast
    qed
  qed
qed

lemma ctx_steps_ok:
  assumes "pending_ok (rd_entities R) p"
  shows "ctx_set R entity eid v p = Inr p' \<Longrightarrow> pending_ok (rd_entities R) p'"
    and "ctx_update R entity eid v p = Inr p' \<Longrightarrow> pending_ok (rd_entities R) p'"
    and "ctx_delete R entity eid p = Inr p' \<Longrightarrow> pending_ok (rd_entities R) p'"
  using assms by (auto simp: ctx_set_def ctx_update_def ctx_delete_def intro!: pending_ok_update)

lemma staged_by_ok: "pending_ok es p \<Longrightarrow> (\<And>q. r = Inr q \<Longrightarrow> pending_ok es q) \<Longrightarrow> pending_ok es (snd (staged_by r p))"
  by (cases r) (simp_all add: staged_by_def)

lemma run_handler_ok:
  "\<lbrakk>run_handler R body p = Some p'; pending_ok (rd_entities R) p\<rbrakk> \<Longrightarrow> pending_ok (rd_entities R) p'"
proof (induction body arbitrary: p)
  case (SetRow entity eid v k)
  let ?s = "staged_by (ctx_set R entity eid v p) p"
  have "pending_ok (rd_entities R) (snd ?s)" by (rule staged_by_ok[OF SetRow.prems(2)]) (rule ctx_steps_ok(1)[OF SetRow.prems(2)])
  with SetRow.IH[OF rangeI[of k "fst ?s"], of "snd ?s"] SetRow.prems(1) show ?case by (simp add: case_prod_unfold Let_def)
next
  case (UpdateRow entity eid v k)
  let ?s = "staged_by (ctx_update R entity eid v p) p"
  have "pending_ok (rd_entities R) (snd ?s)" by (rule staged_by_ok[OF UpdateRow.prems(2)]) (rule ctx_steps_ok(2)[OF UpdateRow.prems(2)])
  with UpdateRow.IH[OF rangeI[of k "fst ?s"], of "snd ?s"] UpdateRow.prems(1) show ?case by (simp add: case_prod_unfold Let_def)
next
  case (DeleteRow entity eid k)
  let ?s = "staged_by (ctx_delete R entity eid p) p"
  have "pending_ok (rd_entities R) (snd ?s)" by (rule staged_by_ok[OF DeleteRow.prems(2)]) (rule ctx_steps_ok(3)[OF DeleteRow.prems(2)])
  with DeleteRow.IH[OF rangeI[of k "fst ?s"], of "snd ?s"] DeleteRow.prems(1) show ?case by (simp add: case_prod_unfold Let_def)
qed (auto simp: rangeI)

text \<open>The key of a staged mutation is the key of the row it plans.\<close>

lemma staged_key:
  assumes "ctx_key es (mutation_entity m) (mutation_id m) = Inr key" and "declared_ok es"
    and "plan_mutation es m = Inr q"
  shows "key = row_key (name_of q) \<and> proper_name (name_of q)"
proof -
  have e: "map_of es (mutation_entity m) = Some (pm_entity q)" "idValues (pm_entity q) (mutation_id m) = Inr (pm_ids q)"
    using assms(3) by (auto simp: plan_mutation_def mustGet_def split: option.splits)
  then have "key = row_key (name_of q)"
    using assms(1) by (simp add: ctx_key_def mustGet_def entityKey_def row_key_def name_of_def of_entity_def)
  with plan_proper[OF assms(2,3)] show ?thesis by simp
qed

lemma applied_at:
  assumes "list_all2 (\<lambda>m q. plan_mutation es m = Inr q) (map snd p) ps" and "pending_ok es p"
    and "declared_ok es" and "proper_name k"
  shows "case map_of p (row_key k) of
      None \<Rightarrow> apply_planned ps snap k = snap k
    | Some m \<Rightarrow> \<exists>q. plan_mutation es m = Inr q \<and> name_of q = k \<and> apply_planned ps snap k = row_of q"
  using assms(1,2)
proof (induction p arbitrary: ps snap)
  case Nil
  then show ?case by (simp add: apply_planned_def)
next
  case (Cons x p)
  obtain key m where x: "x = (key, m)" by (cases x)
  then obtain q qs where ps: "ps = q # qs" "plan_mutation es m = Inr q"
    "list_all2 (\<lambda>m q. plan_mutation es m = Inr q) (map snd p) qs"
    using Cons.prems(1) by (auto simp: list_all2_Cons1)
  have ok: "pending_ok es p" "key \<notin> fst ` set p" "ctx_key es (mutation_entity m) (mutation_id m) = Inr key"
    using Cons.prems(2) x by (auto simp: pending_ok_def)
  note key = staged_key[OF ok(3) assms(3) ps(2)]
  note IH = Cons.IH[OF ps(3) ok(1), of "snap(name_of q := row_of q)"]
  show ?case
  proof (cases "row_key k = key")
    case True
    then have k: "name_of q = k" using row_key_inj key assms(4) by metis
    have "map_of p (row_key k) = None" using ok(2) True by (simp add: map_of_eq_None_iff)
    then have "apply_planned qs (snap(name_of q := row_of q)) k = row_of q" using IH k by simp
    then show ?thesis using True k ps by (simp add: x apply_planned_Cons)
  next
    case False
    define snap' where "snap' = snap(name_of q := row_of q)"
    have same: "snap' k = snap k" using key False by (auto simp: snap'_def)
    show ?thesis using IH False ps(2)
      unfolding ps(1) apply_planned_Cons snap'_def[symmetric] same by (simp add: x)
  qed
qed

subsection \<open>Merging a page\<close>

text \<open>
  A page of the merged listing needs no more than its own length plus the number of staged rows
  from the store: whatever the store holds beyond that sorts after a full page.
\<close>

lemma take_insort:
  assumes "n \<le> length (filter (\<lambda>x. r x < r y) xs)" and "sorted (map r xs)"
  shows "take n (insort_key r y xs) = take n xs"
  using assms
proof (induction xs arbitrary: n)
  case (Cons x xs)
  show ?case
  proof (cases "r y \<le> r x")
    case True
    have "filter (\<lambda>z. r z < r y) (x # xs) = []"
      using True Cons.prems(2) by (auto simp: filter_empty_conv)
    then show ?thesis using Cons.prems(1) by simp
  next
    case False
    then show ?thesis using Cons by (cases n) (auto simp: not_le)
  qed
qed simp

lemma sort_key_distinct_cong:
  assumes "distinct (map r xs)" "distinct (map r ys)" "set xs = set ys"
  shows "sort_key r xs = sort_key r ys"
proof -
  have "map r (sort_key r xs) = map r (sort_key r ys)"
    by (rule sorted_distinct_set_unique) (use assms in \<open>simp_all add: distinct_map\<close>)
  moreover have "inj_on r (set (sort_key r xs) \<union> set (sort_key r ys))"
    using assms(1,3) by (simp add: distinct_map)
  ultimately show ?thesis by (rule map_inj_on)
qed

lemma take_sort:
  assumes "n \<le> length xs" and "\<forall>x \<in> set xs. \<forall>y \<in> set ys. r x < r y" and "distinct (map r (xs @ ys @ zs))"
  shows "take n (sort_key r (xs @ ys @ zs)) = take n (sort_key r (xs @ zs))"
  using assms(2,3)
proof (induction ys)
  case (Cons y ys)
  let ?w = "sort_key r (xs @ ys @ zs)"
  have "sort_key r (xs @ (y # ys) @ zs) = sort_key r (y # xs @ ys @ zs)"
    by (rule sort_key_distinct_cong) (use Cons.prems(2) in auto)
  also have "\<dots> = insort_key r y ?w" by simp
  finally have ins: "sort_key r (xs @ (y # ys) @ zs) = insort_key r y ?w" .
  have "filter (\<lambda>x. r x < r y) xs = xs" using Cons.prems(1) by (auto intro: filter_True)
  then have "n \<le> length (filter (\<lambda>x. r x < r y) (xs @ ys @ zs))" using assms(1) by simp
  also have "\<dots> = length (filter (\<lambda>x. r x < r y) ?w)"
    by (simp add: filter_sort)
  finally have "take n (insort_key r y ?w) = take n ?w" by (rule take_insort) simp
  moreover have "distinct (map r (xs @ ys @ zs))" using Cons.prems(2) by auto
  ultimately show ?case using Cons ins by simp
qed simp

lemma length_filter_not: "distinct xs \<Longrightarrow> length xs \<le> length (filter (\<lambda>x. x \<notin> set ss) xs) + length ss"
proof -
  assume d: "distinct xs"
  have "length (filter (\<lambda>x. x \<in> set ss) xs) = card (set xs \<inter> set ss)"
    using d distinct_card[of "filter (\<lambda>x. x \<in> set ss) xs"] by (simp add: Int_def)
  also have "\<dots> \<le> length ss" by (meson card_length card_mono finite_set inf_le2 le_trans)
  finally show ?thesis using sum_length_filter_compl[of "\<lambda>x. x \<in> set ss" xs] by simp
qed

lemma merged_page:
  fixes r :: "'a \<Rightarrow> 'b::linorder" and n :: nat
  assumes ids: "sorted_wrt (\<lambda>a b. r a < r b) ids" and inj: "inj r"
    and ss: "distinct ss" and up: "set up \<subseteq> set ss" "distinct up"
  defines "m \<equiv> n + length ss"
  defines "part \<equiv> filter (\<lambda>i. i \<notin> set ss) (take m ids) @ up"
    and "full \<equiv> filter (\<lambda>i. i \<notin> set ss) ids @ up"
  shows "take n (sort_key r part) = take n (sort_key r full)"
    and "(length part > n \<or> length ids > m) = (length full > n)"
proof -
  have d: "distinct ids" using strict_sorted_map_distinct[OF ids] by (simp add: distinct_map)
  have split: "filter (\<lambda>i. i \<notin> set ss) ids = filter (\<lambda>i. i \<notin> set ss) (take m ids) @ filter (\<lambda>i. i \<notin> set ss) (drop m ids)"
    by (simp flip: filter_append)
  have "take n (sort_key r part) = take n (sort_key r full) \<and> ((length part > n \<or> length ids > m) = (length full > n))"
  proof (cases "length ids \<le> m")
    case True
    then show ?thesis by (simp add: part_def full_def)
  next
    case False
    have "length (take m ids) \<le> length (filter (\<lambda>i. i \<notin> set ss) (take m ids)) + length ss"
      by (rule length_filter_not) (simp add: d)
    then have enough: "n \<le> length (filter (\<lambda>i. i \<notin> set ss) (take m ids))" using False by (simp add: m_def)
    have "sorted_wrt (\<lambda>a b. r a < r b) (take m ids @ drop m ids)" using ids by simp
    then have above: "\<forall>x \<in> set (filter (\<lambda>i. i \<notin> set ss) (take m ids)).
        \<forall>y \<in> set (filter (\<lambda>i. i \<notin> set ss) (drop m ids)). r x < r y"
      unfolding sorted_wrt_append by auto
    have "distinct (filter (\<lambda>i. i \<notin> set ss) ids @ up)" using d up by auto
    then have dist: "distinct (map r (filter (\<lambda>i. i \<notin> set ss) (take m ids) @ filter (\<lambda>i. i \<notin> set ss) (drop m ids) @ up))"
      unfolding split append_assoc by (intro distinct_map[THEN iffD2] conjI inj_on_subset[OF inj]) simp_all
    have "length ids \<le> length (filter (\<lambda>i. i \<notin> set ss) ids) + length ss" by (rule length_filter_not[OF d])
    then have "length full > n" using False by (simp add: full_def m_def)
    with take_sort[OF enough above dist] False show ?thesis by (simp add: part_def full_def split)
  qed
  then show "take n (sort_key r part) = take n (sort_key r full)"
    and "(length part > n \<or> length ids > m) = (length full > n)" by simp_all
qed

subsection \<open>Staged reads are the reads of the block once applied\<close>

definition decoded_row :: "snapshot \<Rightarrow> normalized_entity \<Rightarrow> utf16 list \<Rightarrow> field_values" where
  "decoded_row snap e i = projr (decodeFieldValues e (the (snap (ent_name e, i))))"

lemma traverse_Inr: "traverse (\<lambda>x. Inr (f x)) xs = Inr (map f xs)"
  by (induction xs) simp_all

text \<open>A store that answers from a snapshot.\<close>

definition reads_snapshot :: "store_reads \<Rightarrow> snapshot \<Rightarrow> bool" where
  "reads_snapshot R snap \<longleftrightarrow>
     (\<forall>entity eid. rd_getCurrent R entity eid = snapshot_read (rd_entities R) snap entity eid) \<and>
     (\<exists>ids_of. (\<forall>e vs. enumerates snap e vs (ids_of e vs)) \<and>
        (\<forall>entity prefix limit. rd_listCurrent R entity prefix limit =
           checked_list (rd_entities R) entity prefix limit (\<lambda>e vs n. listing_from snap e n (ids_of e vs))))"

lemma declared_entity: "declared_ok es \<Longrightarrow> mustGet es entity = Inr e \<Longrightarrow>
    ent_name e = entity \<and> map_of es entity = Some e \<and> is_identifier entity"
  by (auto simp: mustGet_def declared_ok_def split: option.splits dest!: map_of_SomeD)

lemma row_at:
  assumes "encoded es snap" "declared_ok es" "columns_ok es" "mustGet es entity = Inr e"
    and "snap (ent_name e, i) = Some row"
  shows "decodeFieldValues e row = Inr (decoded_row snap e i)"
    and "idValues e (row_as_id (decoded_row snap e i)) = Inr i"
proof -
  note e = declared_entity[OF assms(2,4)]
  obtain w where w: "encoded_row es (ent_name e, i) row w"
    using assms(1,5) unfolding encoded_def by blast
  have dec: "decodeFieldValues e row = Inr (completeRow e i w)"
    using encoded_decodes[OF w assms(3)] e by simp
  then show "decodeFieldValues e row = Inr (decoded_row snap e i)" using assms(5) by (simp add: decoded_row_def)
  have "decoded_row snap e i = completeRow e i w" using dec assms(5) by (simp add: decoded_row_def)
  moreover have "distinct (ent_id e @ map fst (ent_fields e))"
    using assms(3) map_of_SomeD[of es entity e] e unfolding columns_ok_def by fastforce
  ultimately show "idValues e (row_as_id (decoded_row snap e i)) = Inr i"
    using row_names_itself[of e i w] w e by (auto simp: encoded_row_def)
qed

lemma page_of_snapshot:
  assumes "encoded es snap" "declared_ok es" "columns_ok es" "mustGet es entity = Inr e"
    and "enumerates snap e vs ids"
  shows "listing_from snap e n ids =
    Inr \<lparr>lst_rows = map (decoded_row snap e) (take n ids), lst_truncated = (length ids > n)\<rparr>"
proof -
  have "traverse (\<lambda>i. of_entity (decodeFieldValues e (the (snap (ent_name e, i))))) (take (n + 1) ids)
      = traverse (\<lambda>i. Inr (decoded_row snap e i)) (take (n + 1) ids)"
  proof (rule traverse_cong)
    fix i assume "i \<in> set (take (n + 1) ids)"
    then have "snap (ent_name e, i) \<noteq> None" using assms(5) by (auto simp: enumerates_def dest: in_set_takeD)
    then obtain row where "snap (ent_name e, i) = Some row" by blast
    with row_at(1)[OF assms(1-4) this] show
      "of_entity (decodeFieldValues e (the (snap (ent_name e, i)))) = Inr (decoded_row snap e i)"
      by (simp add: of_entity_def)
  qed
  also have "\<dots> = Inr (map (decoded_row snap e) (take (n + 1) ids))" by (rule traverse_Inr)
  finally show ?thesis by (auto simp: listing_from_def boundedListing_def take_map min_def)
qed

text \<open>The setting of both theorems: a block's staged writes, planned and applied.\<close>

definition block_staged :: "entities \<Rightarrow> pending \<Rightarrow> planned list \<Rightarrow> bool" where
  "block_staged es p ps \<longleftrightarrow> declared_ok es \<and> columns_ok es \<and> pending_ok es p \<and>
     traverse (plan_mutation es) (map snd p) = Inr ps"

lemma block_stagedD:
  assumes "block_staged es p ps"
  shows "declared_ok es" "columns_ok es" "pending_ok es p"
    "list_all2 (\<lambda>m q. plan_mutation es m = Inr q) (map snd p) ps"
  using assms by (simp_all add: block_staged_def traverse_Inr_iff)

lemma block_staged_encoded:
  "block_staged es p ps \<Longrightarrow> encoded es snap \<Longrightarrow> encoded es (apply_planned ps snap)"
  by (rule planned_encoded[OF block_stagedD(1,4)])

lemma staged_at:
  assumes st: "block_staged es p ps" and e: "mustGet es entity = Inr e" and proper: "proper_name (ent_name e, ids)"
    and m: "map_of p (row_key (ent_name e, ids)) = Some m"
  shows "mutation_entity m = ent_name e" "idValues e (mutation_id m) = Inr ids"
    "apply_planned ps snap (ent_name e, ids) = None \<longleftrightarrow> mutation_values m = None"
    "mutation_values m = Some v \<Longrightarrow> encoded es snap \<Longrightarrow>
       decoded_row (apply_planned ps snap) e ids = stagedRow e ids v"
proof -
  note D = block_stagedD[OF st] and d = declared_entity[OF block_stagedD(1)[OF st] e]
  obtain q where q: "plan_mutation es m = Inr q" "name_of q = (ent_name e, ids)"
    "apply_planned ps snap (ent_name e, ids) = row_of q"
    using applied_at[OF D(4,3,1) proper, of snap] m by auto
  have pe: "map_of es (mutation_entity m) = Some (pm_entity q)" "idValues (pm_entity q) (mutation_id m) = Inr (pm_ids q)"
    using q(1) by (auto simp: plan_mutation_def mustGet_def split: option.splits)
  have "ent_name (pm_entity q) = mutation_entity m"
    using map_of_SomeD[OF pe(1)] D(1) by (auto simp: declared_ok_def)
  then show ent: "mutation_entity m = ent_name e" using q(2) by (simp add: name_of_def)
  then have same: "pm_entity q = e" using pe(1) d by simp
  then show "idValues e (mutation_id m) = Inr ids" using pe(2) q(2) by (simp add: name_of_def)
  show "apply_planned ps snap (ent_name e, ids) = None \<longleftrightarrow> mutation_values m = None"
    unfolding q(3) by (rule plan_row[OF q(1)])
  assume v: "mutation_values m = Some v" and enc: "encoded es snap"
  then obtain row where row: "row_of q = Some row" using plan_row[OF q(1)] by (cases "row_of q") auto
  have "decodeFieldValues e row = Inr (completeRow e ids v)"
    using encoded_decodes[OF plan_encoded[OF q(1) D(1) row v] D(2)] q(2) d by simp
  then show "decoded_row (apply_planned ps snap) e ids = stagedRow e ids v"
    using q(3) row by (simp add: decoded_row_def stagedRow_def completeRow_def)
qed

lemma unstaged_at:
  assumes st: "block_staged es p ps" and "proper_name k" and "map_of p (row_key k) = None"
  shows "apply_planned ps snap k = snap k"
  using applied_at[OF block_stagedD(4,3,1)[OF st] assms(2), of snap] assms(3) by simp

lemma staged_get:
  assumes R: "reads_snapshot R snap" and st: "block_staged (rd_entities R) p ps" and enc: "encoded (rd_entities R) snap"
  shows "ctx_get R p entity eid = snapshot_read (rd_entities R) (apply_planned ps snap) entity eid"
proof (cases "mustGet (rd_entities R) entity")
  case e: (Inr e)
  let ?es = "rd_entities R"
  show ?thesis
  proof (cases "idValues e eid")
    case ids: (Inr ids)
    have key: "entityKey e eid = Inr (row_key (ent_name e, ids))" by (simp add: entityKey_def ids row_key_def)
    have snap': "snapshot_read ?es s entity eid = decode_row e (s (ent_name e, ids))" for s
      by (simp add: snapshot_read_def e ids of_entity_def)
    show ?thesis
    proof (cases "map_of p (row_key (ent_name e, ids))")
      case None
      have "apply_planned ps snap (ent_name e, ids) = snap (ent_name e, ids)"
        by (rule unstaged_at[OF st declared_name[OF block_stagedD(1)[OF st] e ids] None])
      then have "rd_getCurrent R entity eid = snapshot_read ?es (apply_planned ps snap) entity eid"
        using R by (simp add: reads_snapshot_def snap')
      then show ?thesis by (simp add: ctx_get_def e key None of_entity_def)
    next
      case (Some m)
      note at = staged_at[OF st e declared_name[OF block_stagedD(1)[OF st] e ids] Some]
      show ?thesis
      proof (cases m)
        case (Delete a b)
        then have "apply_planned ps snap (ent_name e, ids) = None" using at(3) by simp
        then show ?thesis unfolding snap' by (simp add: ctx_get_def e key Some Delete of_entity_def decode_row_def)
      next
        case (Upsert a b v)
        then have v: "mutation_values m = Some v" and b: "idValues e b = Inr ids" using at(2) by simp_all
        obtain row where row: "apply_planned ps snap (ent_name e, ids) = Some row"
          using at(3)[of snap] v by (cases "apply_planned ps snap (ent_name e, ids)") auto
        have "decodeFieldValues e row = Inr (stagedRow e ids v)"
          using row_at(1)[OF block_staged_encoded[OF st enc] block_stagedD(1,2)[OF st] e row] at(4)[OF v enc] by simp
        then show ?thesis unfolding snap' row
          by (simp add: ctx_get_def e key Some Upsert of_entity_def decode_row_def b)
      qed
    qed
  qed (simp add: ctx_get_def snapshot_read_def e entityKey_def of_entity_def)
qed (simp add: ctx_get_def snapshot_read_def of_entity_def)

lemma sort_key_map: "sort_key f (map g xs) = map g (sort_key (\<lambda>x. f (g x)) xs)"
proof -
  have "insort_key f (g x) (map g ys) = map g (insort_key (\<lambda>x. f (g x)) x ys)" for x ys by (induction ys) simp_all
  then show ?thesis by (induction xs) simp_all
qed

definition staged_of :: "normalized_entity \<Rightarrow> utf16 list \<Rightarrow> pending \<Rightarrow> (utf16 \<times> utf16 list \<times> field_values option) list" where
  "staged_of e vs p = List.map_filter
     (\<lambda>(k, m). let i = projr (idValues e (mutation_id m)) in
        if mutation_entity m \<noteq> ent_name e \<or> \<not> hasIdPrefix i vs then None
        else Some (k, i, map_option (stagedRow e i) (mutation_values m))) p"

lemma staged_of_Nil: "staged_of e vs [] = []"
  by (simp add: staged_of_def List.map_filter_def)

lemma staged_of_Cons:
  "staged_of e vs ((k, m) # p) =
     (let i = projr (idValues e (mutation_id m)) in
      if mutation_entity m \<noteq> ent_name e \<or> \<not> hasIdPrefix i vs then staged_of e vs p
      else (k, i, map_option (stagedRow e i) (mutation_values m)) # staged_of e vs p)"
  by (simp add: staged_of_def List.map_filter_def Let_def)

definition staged_names :: "normalized_entity \<Rightarrow> pending \<Rightarrow> bool" where
  "staged_names e p \<longleftrightarrow> (\<forall>x \<in> set p. mutation_entity (snd x) = ent_name e \<longrightarrow>
     (\<exists>i. idValues e (mutation_id (snd x)) = Inr i \<and> fst x = row_key (ent_name e, i)))"

lemma staged_names_ok:
  assumes "pending_ok es p" "mustGet es (ent_name e) = Inr e"
  shows "staged_names e p"
  unfolding staged_names_def
proof (intro ballI impI)
  fix x assume "x \<in> set p" "mutation_entity (snd x) = ent_name e"
  then have "ctx_key es (ent_name e) (mutation_id (snd x)) = Inr (fst x)" using assms(1) by (auto simp: pending_ok_def)
  then show "\<exists>i. idValues e (mutation_id (snd x)) = Inr i \<and> fst x = row_key (ent_name e, i)"
    by (auto simp: ctx_key_def assms(2) entityKey_def row_key_def)
qed

lemma staged_rows_eq: "staged_names e p \<Longrightarrow> staged_rows e vs p = Inr (staged_of e vs p)"
proof (induction p)
  case Nil
  then show ?case by (simp add: staged_of_def List.map_filter_def)
next
  case (Cons x p)
  then have "staged_names e p" by (simp add: staged_names_def)
  with Cons show ?case
    by (cases x) (auto simp: staged_of_def List.map_filter_def Let_def of_entity_def staged_names_def)
qed

lemma staged_of_mem:
  assumes "staged_names e p"
  shows "(k, i, r) \<in> set (staged_of e vs p) \<longleftrightarrow>
    (\<exists>m. (k, m) \<in> set p \<and> mutation_entity m = ent_name e \<and> idValues e (mutation_id m) = Inr i \<and> hasIdPrefix i vs \<and>
       r = map_option (stagedRow e i) (mutation_values m))"
  using assms
proof (induction p)
  case Nil
  then show ?case by (simp add: staged_of_Nil)
next
  case (Cons x p)
  obtain k' m' where x: "x = (k', m')" by (cases x)
  have IH: "(k, i, r) \<in> set (staged_of e vs p) \<longleftrightarrow>
    (\<exists>m. (k, m) \<in> set p \<and> mutation_entity m = ent_name e \<and> idValues e (mutation_id m) = Inr i \<and> hasIdPrefix i vs \<and>
       r = map_option (stagedRow e i) (mutation_values m))"
    using Cons by (simp add: staged_names_def)
  show ?case
  proof (cases "mutation_entity m' = ent_name e")
    case True
    then obtain i' where "idValues e (mutation_id m') = Inr i'" using Cons.prems x by (auto simp: staged_names_def)
    then show ?thesis using IH True by (cases "hasIdPrefix i' vs") (auto simp: x staged_of_Cons)
  next
    case False
    then show ?thesis using IH by (auto simp: x staged_of_Cons)
  qed
qed

lemma staged_of_distinct:
  "\<lbrakk>staged_names e p; distinct (map fst p)\<rbrakk> \<Longrightarrow> distinct (map (\<lambda>x. fst (snd x)) (staged_of e vs p))"
proof (induction p)
  case Nil
  then show ?case by (simp add: staged_of_def List.map_filter_def)
next
  case (Cons x p)
  obtain k m where x: "x = (k, m)" by (cases x)
  have rest: "staged_names e p" "distinct (map fst p)" using Cons.prems by (auto simp: staged_names_def)
  let ?i = "projr (idValues e (mutation_id m))"
  have "?i \<notin> (\<lambda>x. fst (snd x)) ` set (staged_of e vs p)" if m: "mutation_entity m = ent_name e"
  proof
    assume "?i \<in> (\<lambda>x. fst (snd x)) ` set (staged_of e vs p)"
    then obtain k' r where "(k', ?i, r) \<in> set (staged_of e vs p)" by force
    then obtain m' where m': "(k', m') \<in> set p" "mutation_entity m' = ent_name e" "idValues e (mutation_id m') = Inr ?i"
      unfolding staged_of_mem[OF rest(1)] by blast
    have "k' = row_key (ent_name e, ?i)" using rest(1) m' unfolding staged_names_def by fastforce
    moreover have "k = row_key (ent_name e, ?i)" using Cons.prems(1) x m unfolding staged_names_def by fastforce
    ultimately show False using Cons.prems(2) m'(1) x by force
  qed
  then show ?case using Cons.IH[OF rest] by (simp add: x staged_of_Cons Let_def)
qed

lemma unstaged_rows_eq:
  assumes "\<And>i. i \<in> set xs \<Longrightarrow> idValues e (row_as_id (row i)) = Inr i \<and> (row_key (ent_name e, i) \<in> keys \<longleftrightarrow> i \<in> ss)"
  shows "unstaged_rows e keys (map row xs) = Inr (map (\<lambda>i. (i, row i)) (filter (\<lambda>i. i \<notin> ss) xs))"
  using assms
proof (induction xs)
  case (Cons i xs)
  have "entityKey e (row_as_id (row i)) = Inr (row_key (ent_name e, i))"
    using Cons.prems[of i] by (simp add: entityKey_def row_key_def)
  with Cons show ?case by (simp add: of_entity_def)
qed simp

lemma limit_grows:
  assumes "assertListingLimit limit = Inr n"
  shows "assertListingLimit (Whole (int n + int k)) = Inr (n + k)"
proof -
  have "1 \<le> n" using assms by (auto simp: assertListingLimit_def split: jsnum.splits if_splits)
  then show ?thesis by (simp add: assertListingLimit_def nat_int_add)
qed

text \<open>The merged rows of a listing, as the ids they carry over the block's snapshot.\<close>

lemma merged_rows:
  assumes "\<And>k i r. (k, i, Some r) \<in> set staged \<Longrightarrow> r = row i"
  shows "List.map_filter (\<lambda>(key, ids, r). map_option (\<lambda>r. (ids, r)) r) staged =
    map (\<lambda>i. (i, row i)) (map (\<lambda>x. fst (snd x)) (filter (\<lambda>x. snd (snd x) \<noteq> None) staged))"
  using assms
proof (induction staged)
  case Nil
  then show ?case by (simp add: List.map_filter_def)
next
  case (Cons x staged)
  obtain k i r where x: "x = (k, i, r)" by (cases x)
  have "List.map_filter (\<lambda>(key, ids, r). map_option (\<lambda>r. (ids, r)) r) staged =
    map (\<lambda>i. (i, row i)) (map (\<lambda>x. fst (snd x)) (filter (\<lambda>x. snd (snd x) \<noteq> None) staged))"
    by (rule Cons.IH) (metis Cons.prems list.set_intros(2))
  then show ?case using Cons.prems[of k i] by (cases r) (simp_all add: x List.map_filter_def)
qed

lemma staged_list:
  assumes R: "reads_snapshot R snap" and st: "block_staged (rd_entities R) p ps" and enc: "encoded (rd_entities R) snap"
    and e: "mustGet (rd_entities R) entity = Inr e" and vs: "prefixValues e prefix = Inr vs"
    and n: "assertListingLimit limit = Inr n" and ids': "enumerates (apply_planned ps snap) e vs ids'"
  shows "ctx_list R p entity prefix limit = listing_from (apply_planned ps snap) e n ids'"
proof -
  let ?es = "rd_entities R" and ?snap' = "apply_planned ps snap"
  let ?row = "decoded_row snap e" and ?row' = "decoded_row (apply_planned ps snap) e"
  note D = block_stagedD[OF st] and ent = declared_entity[OF block_stagedD(1)[OF st] e]
  note enc' = block_staged_encoded[OF st enc]
  have e': "mustGet ?es (ent_name e) = Inr e" using e ent by simp
  note names = staged_names_ok[OF D(3) e']
  have dist: "distinct (map fst p)" using D(3) by (simp add: pending_ok_def)
  define staged where "staged = staged_of e vs p"
  define ss where "ss = map (\<lambda>x. fst (snd x)) staged"
  define up where "up = map (\<lambda>x. fst (snd x)) (filter (\<lambda>x. snd (snd x) \<noteq> None) staged)"
  define m where "m = n + length ss"
  obtain ids where ids: "enumerates snap e vs ids"
    and list: "rd_listCurrent R entity prefix (Whole (int n + int (length staged))) = listing_from snap e m ids"
  proof -
    obtain ids_of where "\<forall>e vs. enumerates snap e vs (ids_of e vs)"
      "\<forall>entity prefix limit. rd_listCurrent R entity prefix limit =
         checked_list ?es entity prefix limit (\<lambda>e vs n. listing_from snap e n (ids_of e vs))"
      using R unfolding reads_snapshot_def by blast
    then show thesis
      using that[of "ids_of e vs"] limit_grows[OF n]
      by (simp add: checked_list_def e vs of_entity_def of_listing_def m_def ss_def)
  qed
  have mem: "(k, i, r) \<in> set staged \<longleftrightarrow> (\<exists>m. map_of p k = Some m \<and> mutation_entity m = ent_name e \<and>
      idValues e (mutation_id m) = Inr i \<and> hasIdPrefix i vs \<and> r = map_option (stagedRow e i) (mutation_values m))" for k i r
    unfolding staged_def staged_of_mem[OF names] using dist by simp
  have key: "k = row_key (ent_name e, i) \<and> proper_name (ent_name e, i)" if x: "(k, i, r) \<in> set staged" for k i r
  proof -
    obtain mu where mu: "map_of p k = Some mu" "mutation_entity mu = ent_name e" "idValues e (mutation_id mu) = Inr i"
      using iffD1[OF mem x] by blast
    have "k = row_key (ent_name e, i)"
      using bspec[OF names[unfolded staged_names_def] map_of_SomeD[OF mu(1)]] mu(2,3) by simp
    with declared_name[OF D(1) e mu(3)] show ?thesis by simp
  qed
  have ss_iff: "i \<in> set ss \<longleftrightarrow> (\<exists>r. (row_key (ent_name e, i), i, r) \<in> set staged)" for i
  proof
    assume "i \<in> set ss"
    then obtain k j r where x: "(k, j, r) \<in> set staged" "i = j" unfolding ss_def by auto
    then show "\<exists>r. (row_key (ent_name e, i), i, r) \<in> set staged" using key[OF x(1)] by blast
  next
    assume "\<exists>r. (row_key (ent_name e, i), i, r) \<in> set staged"
    then obtain r where "(row_key (ent_name e, i), i, r) \<in> set staged" by blast
    then have "fst (snd (row_key (ent_name e, i), i, r)) \<in> set ss" unfolding ss_def set_map by (rule imageI)
    then show "i \<in> set ss" by simp
  qed
  have keys_iff: "row_key (ent_name e, i) \<in> fst ` set staged \<longleftrightarrow> i \<in> set ss" if "proper_name (ent_name e, i)" for i
  proof
    assume "row_key (ent_name e, i) \<in> fst ` set staged"
    then obtain j r where j: "(row_key (ent_name e, i), j, r) \<in> set staged" by force
    with key[OF j] row_key_inj[OF that, of "(ent_name e, j)"] have "i = j" by simp
    with j show "i \<in> set ss" unfolding ss_iff by blast
  next
    assume "i \<in> set ss"
    then show "row_key (ent_name e, i) \<in> fst ` set staged" unfolding ss_iff by force
  qed
  have unstaged: "?snap' (ent_name e, i) = snap (ent_name e, i)" if "proper_name (ent_name e, i)" "i \<notin> set ss" "hasIdPrefix i vs" for i
  proof (rule unstaged_at[OF st that(1)], rule ccontr)
    assume "map_of p (row_key (ent_name e, i)) \<noteq> None"
    then obtain mu where mu: "map_of p (row_key (ent_name e, i)) = Some mu" by blast
    note at = staged_at[OF st e that(1) mu]
    have "(row_key (ent_name e, i), i, map_option (stagedRow e i) (mutation_values mu)) \<in> set staged"
      by (rule iffD2[OF mem]) (use mu at(1,2) that(3) in blast)
    then show False using that(2) unfolding ss_iff by blast
  qed
  have ids_proper: "proper_name (ent_name e, i) \<and> snap (ent_name e, i) \<noteq> None \<and> hasIdPrefix i vs" if "i \<in> set ids" for i
    using ids that by (simp add: enumerates_def)
  have kept: "unstaged_rows e (fst ` set staged) (map ?row (take m ids)) =
      Inr (map (\<lambda>i. (i, ?row i)) (filter (\<lambda>i. i \<notin> set ss) (take m ids)))"
  proof (rule unstaged_rows_eq)
    fix i assume "i \<in> set (take m ids)"
    then have "i \<in> set ids" by (rule in_set_takeD)
    note i = ids_proper[OF this]
    then obtain row where "snap (ent_name e, i) = Some row" by blast
    from row_at(2)[OF enc D(1,2) e this] keys_iff i
    show "idValues e (row_as_id (?row i)) = Inr i \<and> (row_key (ent_name e, i) \<in> fst ` set staged \<longleftrightarrow> i \<in> set ss)"
      by blast
  qed
  have same_row: "?row i = ?row' i" if "i \<in> set ids" "i \<notin> set ss" for i
    using unstaged[of i] ids_proper[OF that(1)] that(2) by (simp add: decoded_row_def)
  have staged_row: "r = ?row' i" if x: "(k, i, Some r) \<in> set staged" for k i r
  proof -
    obtain mu where mu: "map_of p k = Some mu" "Some r = map_option (stagedRow e i) (mutation_values mu)"
      using iffD1[OF mem x] by blast
    obtain v where v: "mutation_values mu = Some v" "r = stagedRow e i v"
      using mu(2) by (cases "mutation_values mu") simp_all
    have "map_of p (row_key (ent_name e, i)) = Some mu" using key[OF x] mu(1) by simp
    from staged_at(4)[OF st e _ this v(1) enc] key[OF x] v(2) show ?thesis by simp
  qed
  let ?part = "filter (\<lambda>i. i \<notin> set ss) (take m ids) @ up" and ?full = "filter (\<lambda>i. i \<notin> set ss) ids @ up"
  have merged: "map (\<lambda>i. (i, ?row i)) (filter (\<lambda>i. i \<notin> set ss) (take m ids)) @
      List.map_filter (\<lambda>(key, ids, row). map_option (\<lambda>r. (ids, r)) row) staged = map (\<lambda>i. (i, ?row' i)) ?part"
  proof -
    have "List.map_filter (\<lambda>(key, ids, row). map_option (\<lambda>r. (ids, r)) row) staged = map (\<lambda>i. (i, ?row' i)) up"
      unfolding up_def by (rule merged_rows) (rule staged_row)
    then show ?thesis by (auto dest: in_set_takeD simp: same_row)
  qed
  have names_of: "fst (snd x) \<in> set ss" if "x \<in> set staged" for x using that by (simp add: ss_def)
  have ss: "distinct ss" "set up \<subseteq> set ss" "distinct up"
  proof -
    show "distinct ss" unfolding ss_def staged_def by (rule staged_of_distinct[OF names dist])
    then show "distinct up" unfolding ss_def up_def distinct_map by (auto intro: inj_on_subset)
    show "set up \<subseteq> set ss" unfolding up_def using names_of by auto
  qed
  have up_iff: "i \<in> set up \<longleftrightarrow> i \<in> set ss \<and> ?snap' (ent_name e, i) \<noteq> None" for i
  proof -
    have present: "(r \<noteq> None) = (?snap' (ent_name e, i) \<noteq> None)" if x: "(k, i, r) \<in> set staged" for k r
    proof -
      obtain mu where mu: "map_of p k = Some mu" "r = map_option (stagedRow e i) (mutation_values mu)"
        using iffD1[OF mem x] by blast
      have "map_of p (row_key (ent_name e, i)) = Some mu" using key[OF x] mu(1) by simp
      from staged_at(3)[OF st e _ this, of snap] key[OF x] mu(2) show ?thesis by simp
    qed
    show ?thesis
    proof
      assume "i \<in> set up"
      then obtain x where "x \<in> set staged" "fst (snd x) = i" "snd (snd x) \<noteq> None" unfolding up_def by auto
      then obtain k r where x: "(k, i, r) \<in> set staged" "r \<noteq> None" by (metis prod.collapse)
      with present[OF x(1)] names_of[OF x(1)] show "i \<in> set ss \<and> ?snap' (ent_name e, i) \<noteq> None" by simp
    next
      assume i: "i \<in> set ss \<and> ?snap' (ent_name e, i) \<noteq> None"
      then obtain r where x: "(row_key (ent_name e, i), i, r) \<in> set staged" using ss_iff by blast
      then have "(row_key (ent_name e, i), i, r) \<in> set (filter (\<lambda>x. snd (snd x) \<noteq> None) staged)"
        using present[OF x] i by simp
      from imageI[OF this, of "\<lambda>x. fst (snd x)"] show "i \<in> set up" unfolding up_def set_map by simp
    qed
  qed
  have prefix_ss: "proper_name (ent_name e, i) \<and> hasIdPrefix i vs" if i: "i \<in> set ss" for i
  proof -
    obtain r where x: "(row_key (ent_name e, i), i, r) \<in> set staged" using iffD1[OF ss_iff i] by (elim exE)
    from iffD1[OF mem x] have "hasIdPrefix i vs" by (elim exE conjE)
    with key[OF x] show ?thesis by simp
  qed
  have full: "ids' = sort_key id_rank ?full"
  proof (rule strict_ids_unique)
    show "sorted_wrt (\<lambda>a b. id_rank a < id_rank b) ids'" using ids' by (simp add: enumerates_def)
    have "distinct ids" using ids strict_sorted_map_distinct[of id_rank ids] by (simp add: enumerates_def distinct_map)
    then have "distinct ?full" using ss by auto
    then have "distinct (map id_rank (sort_key id_rank ?full))"
      using id_rank_inj by (simp add: distinct_map inj_on_def)
    then show "sorted_wrt (\<lambda>a b. id_rank a < id_rank b) (sort_key id_rank ?full)"
      by (intro sorted_distinct_strict) simp_all
    show "set ids' = set (sort_key id_rank ?full)"
    proof (rule set_eqI)
      fix i
      have "i \<in> set ids' \<longleftrightarrow> proper_name (ent_name e, i) \<and> ?snap' (ent_name e, i) \<noteq> None \<and> hasIdPrefix i vs"
        using ids' by (simp add: enumerates_def)
      also have "\<dots> \<longleftrightarrow> (i \<in> set ids \<and> i \<notin> set ss) \<or> i \<in> set up"
        unfolding up_iff using ids prefix_ss[of i] unstaged[of i] by (auto simp: enumerates_def)
      finally show "i \<in> set ids' \<longleftrightarrow> i \<in> set (sort_key id_rank ?full)" by auto
    qed
  qed
  have "inj id_rank" by (rule injI) (simp add: id_rank_inj)
  then have page: "take n (sort_key id_rank ?part) = take n ids'" "(length ?part > n \<or> length ids > m) = (length ids' > n)"
    using merged_page[of id_rank ids ss up n] ids ss full unfolding m_def by (simp_all add: enumerates_def)
  have stored: "rd_listCurrent R entity prefix (Whole (int n + int (length staged))) =
      Inr \<lparr>lst_rows = map ?row (take m ids), lst_truncated = (length ids > m)\<rparr>"
    unfolding list by (rule page_of_snapshot[OF enc D(1,2) e ids])
  have "ctx_list R p entity prefix limit =
      Inr \<lparr>lst_rows = map snd (take n (sort_by_ids fst (map (\<lambda>i. (i, ?row' i)) ?part))),
          lst_truncated = (length (map (\<lambda>i. (i, ?row' i)) ?part) > n \<or> length ids > m)\<rparr>"
    unfolding merged[symmetric]
    by (simp add: ctx_list_def e vs n of_entity_def of_listing_def staged_rows_eq[OF names] staged_def[symmetric]
        stored kept Let_def)
  also have "\<dots> = Inr \<lparr>lst_rows = map ?row' (take n ids'), lst_truncated = (length ids' > n)\<rparr>"
  proof -
    have sorted: "sort_by_ids fst (map (\<lambda>i. (i, ?row' i)) xs) = map (\<lambda>i. (i, ?row' i)) (sort_key id_rank xs)" for xs
      by (simp add: sort_by_ids_def sort_key_map)
    show ?thesis unfolding sorted take_map map_map length_map page by (simp add: comp_def)
  qed
  also have "\<dots> = listing_from ?snap' e n ids'" by (rule page_of_snapshot[OF enc' D(1,2) e ids', symmetric])
  finally show ?thesis .
qed

fun run_handlers :: "store_reads \<Rightarrow> handler list \<Rightarrow> pending \<Rightarrow> pending option" where
  "run_handlers R [] p = Some p"
| "run_handlers R (body # rest) p =
     (case run_handler R body p of None \<Rightarrow> None | Some p' \<Rightarrow> run_handlers R rest p')"

lemma run_handlers_ok:
  "\<lbrakk>run_handlers R bodies p = Some p'; pending_ok (rd_entities R) p\<rbrakk> \<Longrightarrow> pending_ok (rd_entities R) p'"
  by (induction bodies arbitrary: p) (auto split: option.splits dest: run_handler_ok)

subsection \<open>Stores that can be read\<close>

locale readable_store = state_store +
  fixes reads :: "'a \<Rightarrow> store_reads"
  assumes reads_decls: "rd_entities (reads s) = decls s"
    and reads_latest: "holds fl h s \<Longrightarrow> reads_snapshot (reads s) (latest h)"
begin

text \<open>What a block's handlers read before it is applied is what the store answers after.\<close>

lemma staged_reads_applied:
  assumes h: "holds fl h s" and es: "declared_ok (decls s)" "columns_ok (decls s)" "encoded (decls s) (latest h)"
    and p: "pending_ok (decls s) p"
    and app: "applyBlock b (ctx_mutations p) c s = Inr s'" "0 \<le> bp_number b"
  shows "ctx_get (reads s) p entity eid = rd_getCurrent (reads s') entity eid \<and>
    ctx_list (reads s) p entity prefix limit = rd_listCurrent (reads s') entity prefix limit"
proof -
  from apply_holds[OF h app] obtain ps where ps: "traverse (plan_mutation (decls s)) (map snd p) = Inr ps"
    and h': "holds fl ((bp_number b, apply_planned ps (latest h)) # h) s'"
    unfolding ctx_mutations_def by blast
  let ?snap = "apply_planned ps (latest h)"
  note es' = decls_kept(1)[OF h app(1)]
  have st: "block_staged (rd_entities (reads s)) p ps" using es p ps by (simp add: block_staged_def reads_decls)
  have R: "reads_snapshot (reads s) (latest h)" and R': "reads_snapshot (reads s') ?snap"
    using reads_latest[OF h] reads_latest[OF h'] by simp_all
  have enc: "encoded (rd_entities (reads s)) (latest h)" using es by (simp add: reads_decls)
  have get: "ctx_get (reads s) p entity eid = rd_getCurrent (reads s') entity eid"
    unfolding staged_get[OF R st enc] using R' es' by (simp add: reads_snapshot_def reads_decls)
  from R' have "\<exists>ids_of. (\<forall>e vs. enumerates ?snap e vs (ids_of e vs)) \<and>
      (\<forall>entity prefix limit. rd_listCurrent (reads s') entity prefix limit =
         checked_list (decls s) entity prefix limit (\<lambda>e vs n. listing_from ?snap e n (ids_of e vs)))"
    unfolding reads_snapshot_def reads_decls es' by (rule conjunct2)
  then obtain ids_of where ids: "\<forall>e vs. enumerates ?snap e vs (ids_of e vs)"
    and all: "\<forall>entity prefix limit. rd_listCurrent (reads s') entity prefix limit =
         checked_list (decls s) entity prefix limit (\<lambda>e vs n. listing_from ?snap e n (ids_of e vs))"
    by (elim exE conjE)
  note list = all[THEN spec, THEN spec, THEN spec, of entity prefix limit]
  have "ctx_list (reads s) p entity prefix limit = rd_listCurrent (reads s') entity prefix limit"
  proof (cases "mustGet (decls s) entity")
    case e: (Inr e)
    show ?thesis
    proof (cases "prefixValues e prefix")
      case vs: (Inr vs)
      show ?thesis
      proof (cases "assertListingLimit limit")
        case n: (Inr n)
        have "enumerates ?snap e vs (ids_of e vs)" using ids by blast
        from staged_list[OF R st enc _ vs n this] e show ?thesis
          by (simp add: list checked_list_def e vs n of_entity_def of_listing_def reads_decls)
      qed (simp add: list checked_list_def ctx_list_def e vs of_entity_def of_listing_def reads_decls)
    qed (simp add: list checked_list_def ctx_list_def e of_entity_def of_listing_def reads_decls)
  qed (simp add: list checked_list_def ctx_list_def of_entity_def reads_decls)
  with get show ?thesis by blast
qed

end

definition memory_reads :: "memory_store \<Rightarrow> store_reads" where
  "memory_reads s =
     \<lparr>rd_entities = ms_entities s,
      rd_getCurrent = (\<lambda>entity eid. read_values (memory_getCurrent s entity eid)),
      rd_listCurrent = (\<lambda>entity prefix limit. read_listing (memory_listCurrent s entity prefix limit))\<rparr>"

lemma memory_reads_latest:
  assumes "memory_holds fl h s"
  shows "reads_snapshot (memory_reads s) (latest h)"
proof -
  have "read_values (memory_getCurrent s entity eid) = snapshot_read (ms_entities s) (latest h) entity eid" for entity eid
  proof -
    have "read_values (memory_getCurrent s entity eid) = snapshot_read (ms_entities s) (memory_current s) entity eid"
      unfolding memory_getCurrent_def memory_read_row memory_current_def ..
    also have "\<dots> = snapshot_read (ms_entities s) (latest h) entity eid"
      by (rule snapshot_row_cong(2)[OF memory_holdsD(1)[OF assms] memory_current_latest[OF assms]])
    finally show ?thesis .
  qed
  moreover have "\<exists>ids_of. (\<forall>e vs. enumerates (latest h) e vs (ids_of e vs)) \<and>
      (\<forall>entity prefix limit. read_listing (memory_listCurrent s entity prefix limit) =
         checked_list (ms_entities s) entity prefix limit (\<lambda>e vs n. listing_from (latest h) e n (ids_of e vs)))"
    by (rule exI[where x = "\<lambda>e vs. map fst (sort_by_ids fst (live_rows s e vs))"])
      (use memory_ids(1)[OF assms] memory_listing[OF assms] in blast)
  ultimately show ?thesis by (simp add: reads_snapshot_def memory_reads_def)
qed

lemma memory_reads_entities [simp]: "rd_entities (memory_reads s) = ms_entities s"
  by (simp add: memory_reads_def)

interpretation memory_readable: readable_store ms_entities memory_applyBlock "\<lambda>n s. Inr (memory_revertTo n s)" memory_prune
  memory_current ms_cursors memory_holds memory_reads
  by unfold_locales (simp_all add: memory_reads_latest)

text \<open>
  C10. A handler reads its own writes, and nothing else changes under it: whatever the handlers of
  a block have staged, every point read and every listing they make answers exactly as the store
  will once the block is applied, the same page, the same order, the same truncation, the same refusal.
\<close>

theorem handlers_read_the_applied_block:
  assumes "memory_open ds setting finality = Inr s0"
    and "store_runs memory_applyBlock (\<lambda>n s. Inr (memory_revertTo n s)) memory_prune s0 0 ops s pruned"
    and "run_handlers (memory_reads s) bodies [] = Some p"
    and "memory_applyBlock b (ctx_mutations p) c s = Inr s'" and "0 \<le> bp_number b"
  shows "ctx_get (memory_reads s) p entity eid = read_values (memory_getCurrent s' entity eid) \<and>
    ctx_list (memory_reads s) p entity prefix limit = read_listing (memory_listCurrent s' entity prefix limit)"
proof -
  note run = memory_run_holds[OF assms(1,2)]
  note D = memory_holdsD[OF run(1)]
  have cols: "columns_ok (ms_entities s)" using assms(1) run(2) by (auto simp: memory_open_def dest: normalizeEntities_columns)
  have "pending_ok (ms_entities s) p"
    using run_handlers_ok[OF assms(3)] pending_ok_empty by (simp add: memory_reads_def)
  from memory_readable.staged_reads_applied[OF run(1) D(1) cols _ this assms(4,5)]
  show ?thesis using snapshots_encoded[OF D(1)] run(2) by (simp add: memory_reads_def)
qed

definition sample_first :: "store_op list" where
  "sample_first = [OpApply (sample_block 1 ''0x1'') [Upsert ''Token'' token_id (amount 5)] None]"

definition sample_bodies :: "handler list" where
  "sample_bodies = [SetRow ''Token'' token_id (amount 9) (\<lambda>_. Get ''Token'' token_id (\<lambda>_. Return))]"

lemma sample_pending:
  assumes "rd_entities R = [(''Token'', sample_token)]"
  shows "run_handlers R sample_bodies [] =
    Some [(row_key (''Token'', [[97]]), Upsert ''Token'' token_id (amount 9))]"
  by (simp add: sample_bodies_def ctx_set_def ctx_key_def assms mustGet_def entityKey_def sample_ids
      staged_by_def row_key_def of_entity_def)

lemma sample_staged_run:
  "\<exists>s s'. store_runs memory_applyBlock (\<lambda>n s. Inr (memory_revertTo n s)) memory_prune
      (projr (memory_open [sample_declaration] (Some (SetBlocks (Whole 2))) (Some (Whole 1)))) 0 sample_first s 0 \<and>
    memory_applyBlock (sample_block 2 ''0x2'') [Upsert ''Token'' token_id (amount 9)] None s = Inr s'"
  by (simp add: sample_open sample_first_def memory_applyBlock_def check_block_def normalizeBlockHash_def
      sample_block_def fold_case_def lower_def sample_plan highest_def Let_def)

theorem handlers_read_the_applied_block_witness:
  "\<exists>s0 s p s'. memory_open [sample_declaration] (Some (SetBlocks (Whole 2))) (Some (Whole 1)) = Inr s0 \<and>
     store_runs memory_applyBlock (\<lambda>n s. Inr (memory_revertTo n s)) memory_prune s0 0 sample_first s 0 \<and>
     run_handlers (memory_reads s) sample_bodies [] = Some p \<and> length p = 1 \<and>
     memory_applyBlock (sample_block 2 ''0x2'') (ctx_mutations p) None s = Inr s' \<and>
     ctx_get (memory_reads s) p ''Token'' token_id = read_values (memory_getCurrent s' ''Token'' token_id) \<and>
     ctx_list (memory_reads s) p ''Token'' [(''id'', IdText [97])] (Whole 10) =
       read_listing (memory_listCurrent s' ''Token'' [(''id'', IdText [97])] (Whole 10))"
proof -
  obtain s0 where s0: "memory_open [sample_declaration] (Some (SetBlocks (Whole 2))) (Some (Whole 1)) = Inr s0"
    "ms_entities s0 = [(''Token'', sample_token)]" by (simp add: sample_open)
  obtain s s' where s: "store_runs memory_applyBlock (\<lambda>n s. Inr (memory_revertTo n s)) memory_prune s0 0 sample_first s 0"
    and s': "memory_applyBlock (sample_block 2 ''0x2'') [Upsert ''Token'' token_id (amount 9)] None s = Inr s'"
    using sample_staged_run s0(1) by auto
  let ?p = "[(row_key (''Token'', [[97]]), Upsert ''Token'' token_id (amount 9))]"
  have p: "run_handlers (memory_reads s) sample_bodies [] = Some ?p"
    by (rule sample_pending) (use memory_run_holds(2)[OF s0(1) s] s0(2) in simp)
  have app: "memory_applyBlock (sample_block 2 ''0x2'') (ctx_mutations ?p) None s = Inr s'"
    using s' by (simp add: ctx_mutations_def)
  have pos: "0 \<le> bp_number (sample_block 2 ''0x2'')" by (simp add: sample_block_def)
  from handlers_read_the_applied_block[OF s0(1) s p app pos, of "''Token''" token_id "[(''id'', IdText [97])]" "Whole 10"]
  show ?thesis using s0(1) s p app by (metis (no_types) length_Cons list.size(3) One_nat_def)
qed

end
