(* ===== verification/Entity_Processor.thy ===== *)
theory Entity_Processor
  imports Mutation_Context Resume
begin

section \<open>Folding an event stream into entity state\<close>

text \<open>
  \<open>packages/processor-entities/src/stream.ts\<close>, \<open>apply.ts\<close> and \<open>EntityEventProcessor.ts\<close>: a stream
  of events reverts the store to its fork point, then applies its blocks one by one, each with the
  mutations its handlers staged and the cursor that names what is applied. A failure leaves what
  was applied before it, so every step returns the store it leaves beside the error, if any.
\<close>

subsection \<open>Streams\<close>

fun lowest_removed :: "int option \<Rightarrow> 'a log_event list \<Rightarrow> int option" where
  "lowest_removed low [] = low"
| "lowest_removed low (e # es) =
     (if \<not> removed e then lowest_removed low es
      else lowest_removed (Some (case low of None \<Rightarrow> blockNumber e | Some l \<Rightarrow> min l (blockNumber e))) es)"

definition forkPoint :: "'a log_event list \<Rightarrow> int option" where
  "forkPoint eventStream = map_option (\<lambda>l. l - 1) (lowest_removed None eventStream)"

text \<open>The groups in the order of their first event; an event joins the group of its block hash.\<close>

fun add_event :: "'a log_event \<Rightarrow> 'a event_block list \<Rightarrow> 'a event_block list" where
  "add_event e [] = [\<lparr>number = blockNumber e, hash = blockHash e, events = [e]\<rparr>]"
| "add_event e (b # bs) =
     (if hash b = blockHash e then b\<lparr>events := events b @ [e]\<rparr> # bs else b # add_event e bs)"

definition groupByBlock :: "'a log_event list \<Rightarrow> 'a event_block list" where
  "groupByBlock eventStream = fold (\<lambda>e ordered. if removed e then ordered else add_event e ordered) eventStream []"

datatype fold_error =
    NoBlockTimestamp int string
  | InvalidTimestamp
  | HandlerRaised
  | StoreRefused store_error
  | FinalityNotSet
  | RetentionBelowFinality int int

text \<open>
  A timestamp as a node gives it. A bigint or a text beyond the safe integers is rounded by
  \<open>Number\<close>, never below them, and refused with them.
\<close>

datatype timestamp = TsNumber jsnum | TsBigint int | TsText utf16

definition max_safe :: int where "max_safe = 2 ^ 53 - 1"

definition is_js_space :: "16 word \<Rightarrow> bool" where
  "is_js_space u \<longleftrightarrow> u \<in> {9, 10, 11, 12, 13, 32, 160, 0x1680, 0x2028, 0x2029, 0x202f, 0x205f, 0x3000, 0xfeff} \<or>
     (0x2000 \<le> u \<and> u \<le> 0x200a)"

definition trim :: "utf16 \<Rightarrow> utf16" where
  "trim t = rev (dropWhile is_js_space (rev (dropWhile is_js_space t)))"

definition hex_digit :: "16 word \<Rightarrow> int option" where
  "hex_digit u =
     (if 48 \<le> u \<and> u \<le> 57 then Some (uint u - 48)
      else if 97 \<le> u \<and> u \<le> 102 then Some (uint u - 87)
      else if 65 \<le> u \<and> u \<le> 70 then Some (uint u - 55) else None)"

definition decimal_digit :: "16 word \<Rightarrow> int option" where
  "decimal_digit u = (if 48 \<le> u \<and> u \<le> 57 then Some (uint u - 48) else None)"

fun quantity :: "(16 word \<Rightarrow> int option) \<Rightarrow> int \<Rightarrow> int \<Rightarrow> utf16 \<Rightarrow> int option" where
  "quantity digit base acc [] = Some acc"
| "quantity digit base acc (u # us) =
     (case digit u of None \<Rightarrow> None | Some d \<Rightarrow> quantity digit base (acc * base + d) us)"

fun toSeconds :: "timestamp \<Rightarrow> int option" where
  "toSeconds (TsNumber (Whole n)) = Some n"
| "toSeconds (TsNumber NotWhole) = None"
| "toSeconds (TsBigint n) = Some n"
| "toSeconds (TsText t) =
     (let text = trim t in
      if take 2 text \<in> {[48, 120], [48, 88]} \<and> drop 2 text \<noteq> [] \<and> quantity hex_digit 16 0 (drop 2 text) \<noteq> None
      then quantity hex_digit 16 0 (drop 2 text)
      else if text \<noteq> [] then quantity decimal_digit 10 0 text
      else None)"

definition normalizeBlockTimestamp :: "timestamp \<Rightarrow> (fold_error, int) result" where
  "normalizeBlockTimestamp v =
     (case toSeconds v of
        None \<Rightarrow> Inl InvalidTimestamp
      | Some n \<Rightarrow> if n < 0 \<or> max_safe < n then Inl InvalidTimestamp else Inr n)"

definition blockPointer :: "'a event_block \<Rightarrow> (fold_error, block_pointer) result" where
  "blockPointer block =
     (case find (\<lambda>e. blockTimestamp e \<noteq> None) (events block) of
        None \<Rightarrow> Inl (NoBlockTimestamp (number block) (hash block))
      | Some e \<Rightarrow>
          and_then (normalizeBlockTimestamp (TsNumber (Whole (the (blockTimestamp e))))) (\<lambda>t.
            Inr \<lparr>bp_number = number block, bp_hash = hash block, bp_timestamp = t\<rparr>))"

subsection \<open>Handlers of a block\<close>

datatype 'x decoded_event = Decoded string 'x | DecodeError

record ('x, 'c) entity_processor =
  ep_on :: "string \<Rightarrow> ('x decoded_event log_event \<Rightarrow> 'c \<Rightarrow> handler) option"
  ep_unparsed :: "('x decoded_event log_event \<Rightarrow> handler) option"

definition handler_of :: "('x, 'c) entity_processor \<Rightarrow> 'c \<Rightarrow> 'x decoded_event log_event \<Rightarrow> handler option" where
  "handler_of processor config e =
     (case decoded e of
        DecodeError \<Rightarrow> (case ep_unparsed processor of None \<Rightarrow> None | Some f \<Rightarrow> Some (f e))
      | Decoded name args \<Rightarrow> (case ep_on processor name of None \<Rightarrow> None | Some f \<Rightarrow> Some (f e config)))"

definition runBlockHandlers :: "store_reads \<Rightarrow> ('x, 'c) entity_processor \<Rightarrow> 'x decoded_event log_event list
    \<Rightarrow> 'c \<Rightarrow> (fold_error, mutation list) result" where
  "runBlockHandlers R processor es config =
     (case run_handlers R (List.map_filter (handler_of processor config) es) [] of
        None \<Rightarrow> Inl HandlerRaised | Some p \<Rightarrow> Inr (ctx_mutations p))"

subsection \<open>Applying a stream\<close>

record 's writable_store =
  ws_reads :: "'s \<Rightarrow> store_reads"
  ws_applyBlock :: "block_pointer \<Rightarrow> mutation list \<Rightarrow> cursor_write option \<Rightarrow> 's \<Rightarrow> (store_error, 's) result"
  ws_revertTo :: "int \<Rightarrow> 's \<Rightarrow> (store_error, 's) result"
  ws_prune :: "jsnum option \<Rightarrow> 's \<Rightarrow> (store_error, 's \<times> prune_report) result"
  ws_readCursor :: "'s \<Rightarrow> string \<Rightarrow> string option"
  ws_writeCursor :: "string \<Rightarrow> string \<Rightarrow> 's \<Rightarrow> 's"
  ws_clearCursor :: "string \<Rightarrow> 's \<Rightarrow> 's"

datatype fold_report = Retracted int | Applied int string "string list"

definition entitiesTouchedBy :: "mutation list \<Rightarrow> string list" where
  "entitiesTouchedBy ms = sort (remdups (map mutation_entity ms))"

record 's fold_outcome =
  fo_store :: 's
  fo_reports :: "fold_report list"
  fo_error :: "fold_error option"

definition in_store :: "(store_error, 'x) result \<Rightarrow> (fold_error, 'x) result" where
  "in_store r = (case r of Inl e \<Rightarrow> Inl (StoreRefused e) | Inr x \<Rightarrow> Inr x)"

lemma in_store_Inr [simp, result_simps]: "in_store r = Inr x \<longleftrightarrow> r = Inr x"
  by (cases r) (simp_all add: in_store_def)

text \<open>
  The cursor written with a block: the caller's own with the last one, and before that one
  narrowed to the block. \<open>serialize\<close> is \<open>JSON.stringify\<close> with the tagging replacer.
\<close>

type_synonym 'e sync_cursor = "(string \<times> 'e last_sync) option"

definition block_write :: "('e last_sync \<Rightarrow> string) \<Rightarrow> 'e sync_cursor \<Rightarrow> bool \<Rightarrow> int \<Rightarrow> cursor_write option" where
  "block_write serialize cursor is_last n =
     map_option (\<lambda>(key, lastSync).
       \<lparr>cw_key = key,
        cw_value = serialize (if is_last then lastSync else cursorSyncedThrough lastSync n)\<rparr>) cursor"

definition apply_one :: "'s writable_store \<Rightarrow> ('e last_sync \<Rightarrow> string) \<Rightarrow> ('x, 'c) entity_processor \<Rightarrow> 'c
    \<Rightarrow> 'e sync_cursor \<Rightarrow> bool \<Rightarrow> 'x decoded_event event_block \<Rightarrow> 's \<Rightarrow> (fold_error, 's \<times> fold_report) result" where
  "apply_one W serialize processor config cursor is_last block s =
     and_then (runBlockHandlers (ws_reads W s) processor (events block) config) (\<lambda>mutations.
     and_then (blockPointer block) (\<lambda>pointer.
     and_then (in_store (ws_applyBlock W pointer mutations (block_write serialize cursor is_last (number block)) s)) (\<lambda>s'.
     and_then (in_store (normalizeBlockHash (bp_hash pointer))) (\<lambda>h.
       Inr (s', Applied (number block) h (entitiesTouchedBy mutations))))))"

fun apply_blocks :: "'s writable_store \<Rightarrow> ('e last_sync \<Rightarrow> string) \<Rightarrow> ('x, 'c) entity_processor \<Rightarrow> 'c
    \<Rightarrow> 'e sync_cursor \<Rightarrow> 'x decoded_event event_block list \<Rightarrow> 's \<Rightarrow> fold_report list \<Rightarrow> 's fold_outcome" where
  "apply_blocks W serialize processor config cursor [] s reports =
     \<lparr>fo_store = s, fo_reports = reports, fo_error = None\<rparr>"
| "apply_blocks W serialize processor config cursor (block # blocks) s reports =
     (case apply_one W serialize processor config cursor (blocks = []) block s of
        Inl e \<Rightarrow> \<lparr>fo_store = s, fo_reports = reports, fo_error = Some e\<rparr>
      | Inr (s', report) \<Rightarrow> apply_blocks W serialize processor config cursor blocks s' (reports @ [report]))"

definition applyEventStream :: "'s writable_store \<Rightarrow> ('e last_sync \<Rightarrow> string) \<Rightarrow> ('x, 'c) entity_processor \<Rightarrow> 'c
    \<Rightarrow> 'e sync_cursor \<Rightarrow> 'x decoded_event log_event list \<Rightarrow> 's \<Rightarrow> 's fold_outcome" where
  "applyEventStream W serialize processor config cursor eventStream s =
     (let reverted =
        (case forkPoint eventStream of
           None \<Rightarrow> Inr (s, [])
         | Some fork \<Rightarrow> and_then (in_store (ws_revertTo W fork s)) (\<lambda>s'. Inr (s', [Retracted fork])))
      in case reverted of
           Inl e \<Rightarrow> \<lparr>fo_store = s, fo_reports = [], fo_error = Some e\<rparr>
         | Inr (s', reports) \<Rightarrow>
             (let outcome = apply_blocks W serialize processor config cursor (groupByBlock eventStream) s' reports
              in case cursor of
                   Some (key, lastSync) \<Rightarrow>
                     if groupByBlock eventStream = []
                     then outcome\<lparr>fo_store := ws_writeCursor W key (serialize lastSync) (fo_store outcome)\<rparr>
                     else outcome
                 | None \<Rightarrow> outcome))"

subsection \<open>The processor\<close>

record ('s, 'x, 'c) event_processor =
  pr_store :: 's
  pr_processor :: "('x, 'c) entity_processor"
  pr_config :: 'c
  pr_declared :: "int option"
  pr_finality :: "int option"

definition SYNC_CURSOR_KEY :: string where "SYNC_CURSOR_KEY = ''lastSync''"

definition assertRetentionCoversReorgs :: "int option \<Rightarrow> int \<Rightarrow> (fold_error, unit) result" where
  "assertRetentionCoversReorgs declared streamFinality =
     (case declared of
        None \<Rightarrow> Inr ()
      | Some d \<Rightarrow> guard (d \<ge> streamFinality) (RetentionBelowFinality d streamFinality))"

text \<open>\<open>parse\<close> is \<open>JSON.parse\<close> with the reviver: \<open>None\<close> where it throws. The finality is set before the check.\<close>

definition parseStoredCursor :: "(string \<Rightarrow> 'e last_sync option) \<Rightarrow> string option \<Rightarrow> 'e last_sync option" where
  "parseStoredCursor parse stored = (case stored of None \<Rightarrow> None | Some text \<Rightarrow> parse text)"

definition proc_load :: "'s writable_store \<Rightarrow> (string \<Rightarrow> 'e last_sync option) \<Rightarrow> int \<Rightarrow> ('s, 'x, 'c) event_processor
    \<Rightarrow> (fold_error, 'e last_sync option) result \<times> ('s, 'x, 'c) event_processor" where
  "proc_load W parse finality p =
     (and_then (assertRetentionCoversReorgs (pr_declared p) finality) (\<lambda>_.
        Inr (parseStoredCursor parse (ws_readCursor W (pr_store p) SYNC_CURSOR_KEY))),
      p\<lparr>pr_finality := Some finality\<rparr>)"

definition proc_process :: "'s writable_store \<Rightarrow> ('e last_sync \<Rightarrow> string) \<Rightarrow> 'x decoded_event log_event list
    \<Rightarrow> 'e last_sync \<Rightarrow> ('s, 'x, 'c) event_processor \<Rightarrow> 's fold_outcome" where
  "proc_process W serialize eventStream lastSync p =
     (if pr_finality p = None then \<lparr>fo_store = pr_store p, fo_reports = [], fo_error = Some FinalityNotSet\<rparr>
      else applyEventStream W serialize (pr_processor p) (pr_config p) (Some (SYNC_CURSOR_KEY, lastSync))
             eventStream (pr_store p))"

definition proc_reset :: "'s writable_store \<Rightarrow> ('s, 'x, 'c) event_processor
    \<Rightarrow> (fold_error, ('s, 'x, 'c) event_processor) result" where
  "proc_reset W p =
     and_then (in_store (ws_revertTo W (- 1) (pr_store p))) (\<lambda>s.
       Inr (p\<lparr>pr_store := ws_clearCursor W SYNC_CURSOR_KEY s\<rparr>))"

definition proc_prune :: "'s writable_store \<Rightarrow> jsnum option \<Rightarrow> ('s, 'x, 'c) event_processor
    \<Rightarrow> (fold_error, ('s, 'x, 'c) event_processor \<times> prune_report) result" where
  "proc_prune W budget p =
     and_then (in_store (ws_prune W budget (pr_store p))) (\<lambda>(s, report). Inr (p\<lparr>pr_store := s\<rparr>, report))"

definition proc_configure :: "'c \<Rightarrow> ('s, 'x, 'c) event_processor \<Rightarrow> ('s, 'x, 'c) event_processor" where
  "proc_configure config p = p\<lparr>pr_config := config\<rparr>"

subsection \<open>What a run of streams leaves\<close>

text \<open>
  The blocks that stand after a list of streams, newest first: a stream first takes back what is
  above its fork point, then adds its own.
\<close>

definition survive :: "'e log_event list \<Rightarrow> 'e event_block list \<Rightarrow> 'e event_block list" where
  "survive es kept =
     rev (groupByBlock es) @
       (case forkPoint es of None \<Rightarrow> kept | Some f \<Rightarrow> filter (\<lambda>b. number b \<le> f) kept)"

text \<open>Folding one stream after another, as long as none fails; \<open>None\<close> when one does.\<close>

fun run_folds :: "'s writable_store \<Rightarrow> ('e last_sync \<Rightarrow> string) \<Rightarrow> ('x, 'c) entity_processor \<Rightarrow> 'c
    \<Rightarrow> ('x decoded_event log_event list \<times> 'e sync_cursor) list \<Rightarrow> 's \<Rightarrow> 's option" where
  "run_folds W serialize processor config [] s = Some s"
| "run_folds W serialize processor config ((es, cursor) # rest) s =
     (let outcome = applyEventStream W serialize processor config cursor es s
      in if fo_error outcome \<noteq> None then None
         else run_folds W serialize processor config rest (fo_store outcome))"

text \<open>
  The mutations of every block are those its handlers stage over the snapshot below it. A store
  that answers from a snapshot is determined by it, so the handlers are too.
\<close>

fun folded :: "entities \<Rightarrow> ('x, 'c) entity_processor \<Rightarrow> 'c \<Rightarrow> 'x decoded_event event_block list
    \<Rightarrow> block_batch list \<Rightarrow> bool" where
  "folded es processor config [] [] = True"
| "folded es processor config (b # bs) ((p, ms) # kept) =
     (folded es processor config bs kept \<and> bp_number p = number b \<and>
      (\<exists>R. rd_entities R = es \<and> reads_snapshot R (latest (snapshots es kept)) \<and>
           runBlockHandlers R processor (events b) config = Inr ms))"
| "folded es processor config _ _ = False"

lemma reads_unique:
  assumes "reads_snapshot R snap" "reads_snapshot R' snap" "rd_entities R = rd_entities R'"
  shows "R = R'"
proof -
  obtain ids where ids: "\<forall>e vs. enumerates snap e vs (ids e vs)"
    and list: "\<forall>entity prefix limit. rd_listCurrent R entity prefix limit =
      checked_list (rd_entities R) entity prefix limit (\<lambda>e vs n. listing_from snap e n (ids e vs))"
    using assms(1) unfolding reads_snapshot_def by (elim conjE exE)
  obtain ids' where ids': "\<forall>e vs. enumerates snap e vs (ids' e vs)"
    and list': "\<forall>entity prefix limit. rd_listCurrent R' entity prefix limit =
      checked_list (rd_entities R') entity prefix limit (\<lambda>e vs n. listing_from snap e n (ids' e vs))"
    using assms(2) unfolding reads_snapshot_def by (elim conjE exE)
  have "ids = ids'" using ids ids' enumerates_unique by (intro ext) blast
  then have "rd_listCurrent R = rd_listCurrent R'" using list list' assms(3) by (intro ext) simp
  moreover have "rd_getCurrent R = rd_getCurrent R'"
    using assms unfolding reads_snapshot_def by (intro ext) simp
  ultimately show ?thesis using assms(3) by (intro store_reads.equality) simp_all
qed

lemma folded_unique:
  "\<lbrakk>folded es processor config bs kept; folded es processor config bs kept'\<rbrakk>
    \<Longrightarrow> snapshots es kept = snapshots es kept'"
proof (induction es processor config bs kept arbitrary: kept' rule: folded.induct)
  case (2 es processor config b bs p ms kept)
  then obtain p' ms' rest where k': "kept' = (p', ms') # rest" by (cases kept') auto
  with 2 have same: "snapshots es kept = snapshots es rest" by simp
  obtain R where R: "rd_entities R = es" "reads_snapshot R (latest (snapshots es kept))"
    "runBlockHandlers R processor (events b) config = Inr ms" using 2(2) by auto
  obtain R' where R': "rd_entities R' = es" "reads_snapshot R' (latest (snapshots es rest))"
    "runBlockHandlers R' processor (events b) config = Inr ms'" using 2(3) k' by auto
  have "R = R'" using reads_unique[of R _ R'] R R' same by simp
  with R(3) R'(3) same 2(2,3) k' show ?case by simp
qed (auto elim: folded.elims)

lemma folded_heights: "folded es processor config bs kept \<Longrightarrow> map (\<lambda>(p, ms). bp_number p) kept = map number bs"
  by (induction es processor config bs kept rule: folded.induct) auto

lemma folded_filter:
  "\<lbrakk>folded es processor config bs kept; sorted_wrt (\<lambda>a b. b < a) (map number bs)\<rbrakk>
    \<Longrightarrow> folded es processor config (filter (\<lambda>b. number b \<le> f) bs) (filter (\<lambda>(p, ms). bp_number p \<le> f) kept)"
proof (induction es processor config bs kept rule: folded.induct)
  case (2 es processor config b bs p ms kept)
  show ?case
  proof (cases "number b \<le> f")
    case True
    have "\<forall>x \<in> set bs. number x \<le> f" using 2(3) True by auto
    moreover have "\<forall>x \<in> set kept. bp_number (fst x) \<le> f"
    proof -
      have "folded es processor config bs kept" using 2(2) by simp
      from folded_heights[OF this] have "set (map (\<lambda>(p, ms). bp_number p) kept) = set (map number bs)" by simp
      then show ?thesis using calculation by (force simp: case_prod_unfold)
    qed
    ultimately have "filter (\<lambda>b. number b \<le> f) bs = bs" "filter (\<lambda>(p, ms). bp_number p \<le> f) kept = kept"
      by (auto intro!: filter_True)
    then show ?thesis using 2 True by simp
  next
    case False
    then show ?thesis using 2 by simp
  qed
qed auto

lemma add_event_nonneg:
  "\<lbrakk>\<forall>b \<in> set bs. 0 \<le> number b; 0 \<le> blockNumber e\<rbrakk> \<Longrightarrow> \<forall>b \<in> set (add_event e bs). 0 \<le> number b"
  by (induction bs) auto

lemma groups_nonneg:
  assumes "\<forall>e \<in> set es. 0 \<le> blockNumber e"
  shows "\<forall>b \<in> set (groupByBlock es). 0 \<le> number b"
proof -
  have "\<forall>b \<in> set (fold (\<lambda>e ordered. if removed e then ordered else add_event e ordered) es bs). 0 \<le> number b"
    if "\<forall>b \<in> set bs. 0 \<le> number b" for bs
    using assms that
  proof (induction es arbitrary: bs)
    case (Cons e es)
    have "\<forall>b \<in> set (if removed e then bs else add_event e bs). 0 \<le> number b"
      using Cons.prems add_event_nonneg[of bs e] by simp
    with Cons show ?case by simp
  qed simp
  from this[of "[]"] show ?thesis by (simp add: groupByBlock_def)
qed

context readable_store
begin

text \<open>A store on the history of a folded ledger, and what applying a stream makes of both.\<close>

definition on_ledger :: "('x, 'c) entity_processor \<Rightarrow> 'c \<Rightarrow> int \<Rightarrow> 'x decoded_event event_block list
    \<Rightarrow> block_batch list \<Rightarrow> 'a \<Rightarrow> bool" where
  "on_ledger processor config fl bs kept s \<longleftrightarrow>
     holds fl (snapshots (decls s) kept) s \<and> folded (decls s) processor config bs kept"

lemma ledger_descending:
  assumes "on_ledger processor config fl bs kept s"
  shows "sorted_wrt (\<lambda>a b. b < a) (map number bs)" "map (\<lambda>(p, ms). bp_number p) kept = map number bs"
proof -
  have f: "folded (decls s) processor config bs kept" using assms by (simp add: on_ledger_def)
  show heights: "map (\<lambda>(p, ms). bp_number p) kept = map number bs" by (rule folded_heights[OF f])
  have "holds fl (snapshots (decls s) kept) s" using assms by (simp add: on_ledger_def)
  from history_ok[OF this] have "sorted_wrt (\<lambda>a b. b < a) (map fst (snapshots (decls s) kept))"
    by (simp add: descending_def sorted_wrt_map)
  moreover have "map fst (snapshots es kept) = map (\<lambda>(p, ms). bp_number p) kept" for es
    by (induction kept) auto
  ultimately show "sorted_wrt (\<lambda>a b. b < a) (map number bs)" by (simp only: heights)
qed

lemma apply_one_ledger:
  assumes W: "ws_reads W = reads" "ws_applyBlock W = applyBlock"
    and on: "on_ledger processor config fl bs kept s" and pos: "0 \<le> number b"
    and app: "apply_one W serialize processor config cur l b s = Inr (s', report)"
  shows "\<exists>kept'. on_ledger processor config fl (b # bs) kept' s' \<and> decls s' = decls s"
proof -
  from app obtain ms p where ms: "runBlockHandlers (reads s) processor (events b) config = Inr ms"
    and p: "blockPointer b = Inr p" and ap: "applyBlock p ms (block_write serialize cur l (number b)) s = Inr s'"
    by (auto simp: apply_one_def W)
  have num: "bp_number p = number b" using p by (auto simp: blockPointer_def split: option.splits)
  have h: "holds fl (snapshots (decls s) kept) s" and f: "folded (decls s) processor config bs kept"
    using on by (simp_all add: on_ledger_def)
  from apply_holds[OF h ap] pos num obtain ps where ps: "traverse (plan_mutation (decls s)) ms = Inr ps"
    and h': "holds fl ((bp_number p, apply_planned ps (latest (snapshots (decls s) kept))) # snapshots (decls s) kept) s'"
    by auto
  note es = decls_kept(1)[OF h ap]
  have "holds fl (snapshots (decls s) ((p, ms) # kept)) s'" using h' ps by (simp add: planned_of_def)
  moreover have "folded (decls s) processor config (b # bs) ((p, ms) # kept)"
    using f num ms reads_latest[OF h] reads_decls by auto
  ultimately show ?thesis using es unfolding on_ledger_def by metis
qed

lemma apply_blocks_ledger:
  assumes W: "ws_reads W = reads" "ws_applyBlock W = applyBlock"
    and "on_ledger processor config fl bs kept s" and "\<forall>b \<in> set blocks. 0 \<le> number b"
    and "fo_error (apply_blocks W serialize processor config cur blocks s reports) = None"
  shows "\<exists>kept'. on_ledger processor config fl (rev blocks @ bs) kept'
      (fo_store (apply_blocks W serialize processor config cur blocks s reports)) \<and>
    decls (fo_store (apply_blocks W serialize processor config cur blocks s reports)) = decls s"
  using assms(3-)
proof (induction blocks arbitrary: s bs kept reports)
  case Nil
  then show ?case by auto
next
  case (Cons b blocks)
  obtain s' report where one: "apply_one W serialize processor config cur (blocks = []) b s = Inr (s', report)"
    using Cons.prems(3) by (auto split: sum.splits)
  from apply_one_ledger[OF W Cons.prems(1) _ one] Cons.prems(2) obtain kept' where
    k: "on_ledger processor config fl (b # bs) kept' s'" "decls s' = decls s" by auto
  from Cons.IH[OF k(1), of "reports @ [report]"] Cons.prems(2,3) k(2) one show ?case by simp
qed

lemma stream_ledger:
  assumes W: "ws_reads W = reads" "ws_applyBlock W = applyBlock" "ws_revertTo W = revertTo"
      "\<And>k v s. decls (ws_writeCursor W k v s) = decls s"
      "\<And>k v fl h s. holds fl h s \<Longrightarrow> holds fl h (ws_writeCursor W k v s)"
    and on: "on_ledger processor config 0 bs kept s" and pos: "\<forall>e \<in> set es. 0 \<le> blockNumber e"
    and ok: "fo_error (applyEventStream W serialize processor config cur es s) = None"
  shows "\<exists>kept'. on_ledger processor config 0 (survive es bs) kept'
      (fo_store (applyEventStream W serialize processor config cur es s)) \<and>
    decls (fo_store (applyEventStream W serialize processor config cur es s)) = decls s"
proof -
  have "\<exists>s1 kept1 reports. (case forkPoint es of None \<Rightarrow> Inr (s, [])
      | Some fork \<Rightarrow> and_then (in_store (ws_revertTo W fork s)) (\<lambda>s'. Inr (s', [Retracted fork]))) = Inr (s1, reports) \<and>
    on_ledger processor config 0 (case forkPoint es of None \<Rightarrow> bs | Some f \<Rightarrow> filter (\<lambda>b. number b \<le> f) bs) kept1 s1 \<and>
    decls s1 = decls s"
  proof (cases "forkPoint es")
    case None
    then show ?thesis using on by auto
  next
    case (Some f)
    have h: "holds 0 (snapshots (decls s) kept) s" and fo: "folded (decls s) processor config bs kept"
      using on by (simp_all add: on_ledger_def)
    have "0 \<le> f \<or> f < 0" by linarith
    from revert_holds[OF h this] obtain s1 where
      s1: "revertTo f s = Inr s1" "holds 0 (cut_above f (snapshots (decls s) kept)) s1" by blast
    have "cut_above f (snapshots (decls s) kept) = snapshots (decls s) (filter (\<lambda>(p, ms). bp_number p \<le> f) kept)"
      by (rule cut_snapshots) (use history_ok[OF h] in blast)
    with s1 decls_kept(2)[OF h s1(1)] folded_filter[OF fo ledger_descending(1)[OF on], of f]
    have "on_ledger processor config 0 (filter (\<lambda>b. number b \<le> f) bs) (filter (\<lambda>(p, ms). bp_number p \<le> f) kept) s1"
      by (simp add: on_ledger_def)
    then show ?thesis using Some s1(1) decls_kept(2)[OF h s1(1)] by (auto simp: W in_store_def)
  qed
  then obtain s1 kept1 reports where s1: "(case forkPoint es of None \<Rightarrow> Inr (s, [])
      | Some fork \<Rightarrow> and_then (in_store (ws_revertTo W fork s)) (\<lambda>s'. Inr (s', [Retracted fork]))) = Inr (s1, reports)"
    and on1: "on_ledger processor config 0 (case forkPoint es of None \<Rightarrow> bs | Some f \<Rightarrow> filter (\<lambda>b. number b \<le> f) bs) kept1 s1"
    and es1: "decls s1 = decls s" by blast
  let ?o = "apply_blocks W serialize processor config cur (groupByBlock es) s1 reports"
  have store: "fo_store (applyEventStream W serialize processor config cur es s) =
      (case cur of Some (key, lastSync) \<Rightarrow>
          if groupByBlock es = [] then ws_writeCursor W key (serialize lastSync) (fo_store ?o) else fo_store ?o
        | None \<Rightarrow> fo_store ?o)"
    and err: "fo_error ?o = None"
    using ok unfolding applyEventStream_def Let_def s1 by (auto split: option.splits if_splits)
  have "\<forall>b \<in> set (groupByBlock es). 0 \<le> number b" by (rule groups_nonneg[OF pos])
  from apply_blocks_ledger[OF W(1,2) on1 this err] es1 obtain kept' where
    k: "on_ledger processor config 0 (survive es bs) kept' (fo_store ?o)" "decls (fo_store ?o) = decls s"
    by (auto simp: survive_def)
  show ?thesis
  proof (cases "\<exists>key ls. cur = Some (key, ls) \<and> groupByBlock es = []")
    case True
    then obtain key ls where c: "cur = Some (key, ls)" "groupByBlock es = []" by blast
    have "on_ledger processor config 0 (survive es bs) kept' (ws_writeCursor W key (serialize ls) (fo_store ?o))"
      using k W(4,5) unfolding on_ledger_def by metis
    then show ?thesis unfolding store using c k(2) W(4) by auto
  next
    case False
    then have "fo_store (applyEventStream W serialize processor config cur es s) = fo_store ?o"
      unfolding store by (auto split: option.splits)
    with k show ?thesis by auto
  qed
qed

lemma runs_ledger:
  assumes W: "ws_reads W = reads" "ws_applyBlock W = applyBlock" "ws_revertTo W = revertTo"
      "\<And>k v s. decls (ws_writeCursor W k v s) = decls s"
      "\<And>k v fl h s. holds fl h s \<Longrightarrow> holds fl h (ws_writeCursor W k v s)"
    and "on_ledger processor config 0 bs kept s" and "\<forall>d \<in> set ds. \<forall>e \<in> set (fst d). 0 \<le> blockNumber e"
    and "run_folds W serialize processor config ds s = Some t"
  shows "\<exists>kept'. on_ledger processor config 0 (foldl (\<lambda>kept d. survive (fst d) kept) bs ds) kept' t \<and> decls t = decls s"
  using assms(6-)
proof (induction ds arbitrary: s bs kept)
  case Nil
  then show ?case by auto
next
  case (Cons d ds)
  obtain es cur where d: "d = (es, cur)" by (cases d)
  have ok: "fo_error (applyEventStream W serialize processor config cur es s) = None"
    and rest: "run_folds W serialize processor config ds (fo_store (applyEventStream W serialize processor config cur es s)) = Some t"
    using Cons.prems(3) by (auto simp: d Let_def split: if_splits)
  from stream_ledger[OF W Cons.prems(1) _ ok] Cons.prems(2) d obtain kept' where
    k: "on_ledger processor config 0 (survive es bs) kept' (fo_store (applyEventStream W serialize processor config cur es s))"
    "decls (fo_store (applyEventStream W serialize processor config cur es s)) = decls s" by auto
  from Cons.IH[OF k(1) _ rest] Cons.prems(2) k(2) show ?case by (simp add: d)
qed

end

subsection \<open>Over the versioned store\<close>

definition memory_writable :: "memory_store writable_store" where
  "memory_writable =
     \<lparr>ws_reads = memory_reads, ws_applyBlock = memory_applyBlock,
      ws_revertTo = (\<lambda>n s. Inr (memory_revertTo n s)), ws_prune = memory_prune,
      ws_readCursor = memory_readCursor, ws_writeCursor = memory_writeCursor,
      ws_clearCursor = memory_clearCursor\<rparr>"

lemma memory_writable_simps [simp]:
  "ws_reads memory_writable = memory_reads" "ws_applyBlock memory_writable = memory_applyBlock"
  "ws_revertTo memory_writable = (\<lambda>n s. Inr (memory_revertTo n s))"
  "ws_prune memory_writable = memory_prune" "ws_readCursor memory_writable = memory_readCursor"
  "ws_writeCursor memory_writable = memory_writeCursor" "ws_clearCursor memory_writable = memory_clearCursor"
  by (simp_all add: memory_writable_def)

lemma memory_writeCursor_holds: "memory_holds fl h s \<Longrightarrow> memory_holds fl h (memory_writeCursor k v s)"
  by (simp add: memory_holds_def memory_ok_def memory_writeCursor_def)

lemma memory_folds_ledger:
  assumes "memory_open ds setting finality = Inr s0"
    and "run_folds memory_writable serialize processor config deliveries s0 = Some s"
    and "\<forall>d \<in> set deliveries. \<forall>e \<in> set (fst d). 0 \<le> blockNumber e"
  shows "\<exists>kept. memory_holds 0 (snapshots (ms_entities s0) kept) s \<and> ms_entities s = ms_entities s0 \<and>
    folded (ms_entities s0) processor config (foldl (\<lambda>kept d. survive (fst d) kept) [] deliveries) kept"
proof -
  have fresh: "memory_readable.on_ledger processor config 0 [] [] s0"
    using memory_open_holds[OF assms(1)] by (simp add: memory_readable.on_ledger_def)
  have "\<exists>kept. memory_readable.on_ledger processor config 0
      (foldl (\<lambda>kept d. survive (fst d) kept) [] deliveries) kept s \<and> ms_entities s = ms_entities s0"
    by (rule memory_readable.runs_ledger[OF _ _ _ _ _ fresh assms(3,2)])
      (simp_all add: memory_writeCursor_holds, simp add: memory_writeCursor_def)
  then obtain kept where k: "memory_readable.on_ledger processor config 0
      (foldl (\<lambda>kept d. survive (fst d) kept) [] deliveries) kept s" "ms_entities s = ms_entities s0" by blast
  then show ?thesis unfolding memory_readable.on_ledger_def by auto
qed

definition surviving :: "'e log_event list list \<Rightarrow> 'e event_block list" where
  "surviving streams = foldl (\<lambda>kept es. survive es kept) [] streams"

lemma surviving_deliveries: "foldl (\<lambda>kept d. survive (fst d) kept) [] ds = surviving (map fst ds)"
  unfolding surviving_def by (simp add: foldl_map)

text \<open>
  C8. A fold depends only on the blocks that survive. Two processors with the same handlers, each
  fed any streams with any reorgs in them, hold the same entity state as soon as the same blocks
  stand: the same current rows, the same listings and the same row at every height. Folding
  through a reorg is folding the canonical chain from the start.
\<close>

theorem fold_depends_on_surviving_blocks:
  assumes "memory_open ds setting finality = Inr s0" and "memory_open ds setting' finality' = Inr t0"
    and "run_folds memory_writable serialize processor config deliveries s0 = Some s"
    and "run_folds memory_writable serialize' processor config clean t0 = Some t"
    and "\<forall>d \<in> set deliveries. \<forall>e \<in> set (fst d). 0 \<le> blockNumber e"
    and "\<forall>d \<in> set clean. \<forall>e \<in> set (fst d). 0 \<le> blockNumber e"
    and "surviving (map fst deliveries) = surviving (map fst clean)" and "0 \<le> n"
  shows "memory_storedCurrent s entity eid = memory_storedCurrent t entity eid \<and>
    read_listing (memory_listCurrent s entity prefix limit) = read_listing (memory_listCurrent t entity prefix limit) \<and>
    read_values (memory_read (covers n) s entity eid) = read_values (memory_read (covers n) t entity eid)"
proof -
  have es: "ms_entities t0 = ms_entities s0" using assms(1,2) by (auto simp: memory_open_def)
  obtain k where k: "memory_holds 0 (snapshots (ms_entities s0) k) s" "ms_entities s = ms_entities s0"
    "folded (ms_entities s0) processor config (surviving (map fst deliveries)) k"
    using memory_folds_ledger[OF assms(1,3,5)] unfolding surviving_deliveries by blast
  obtain k' where k': "memory_holds 0 (snapshots (ms_entities s0) k') t" "ms_entities t = ms_entities s0"
    "folded (ms_entities s0) processor config (surviving (map fst clean)) k'"
    using memory_folds_ledger[OF assms(2,4,6)] unfolding surviving_deliveries es by blast
  let ?h = "snapshots (ms_entities s0) k"
  have same: "snapshots (ms_entities s0) k' = ?h"
    using folded_unique[OF k(3)] k'(3) assms(7) by simp
  note t = k'(1)[unfolded same]
  note D = memory_holdsD[OF k(1)]
  have "memory_storedCurrent s entity eid = memory_storedCurrent t entity eid"
    unfolding memory_stored_row k'(2) k(2)
    using memory_current_latest[OF k(1)] memory_current_latest[OF t] D(1) k(2)
    by (intro snapshot_row_cong(1)) simp_all
  moreover have "memory_reads s = memory_reads t"
    by (rule reads_unique[OF memory_reads_latest[OF k(1)] memory_reads_latest[OF t]]) (simp add: k k')
  then have "read_listing (memory_listCurrent s entity prefix limit) = read_listing (memory_listCurrent t entity prefix limit)"
    unfolding memory_reads_def by (simp add: fun_eq_iff)
  moreover have row: "(case map_of (ms_rows x) (row_key q) of None \<Rightarrow> None
      | Some r \<Rightarrow> map_option v_values (find (covers n) (mr_versions r))) = at_height ?h n q"
    if "memory_holds 0 ?h x" "proper_name q" for x q
    using agreesD[OF memory_holdsD(7)[OF that(1)] that(2) assms(8)]
    by (simp add: row_value_def value_at_def cong: option.case_cong)
  have "read_values (memory_read (covers n) s entity eid) = read_values (memory_read (covers n) t entity eid)"
    unfolding memory_read_row k'(2) k(2)
    using row[OF k(1)] row[OF t] D(1) k(2) by (intro snapshot_row_cong(2)) simp_all
  ultimately show ?thesis by blast
qed

definition sample_transfer :: "int \<Rightarrow> string \<Rightarrow> bool \<Rightarrow> int \<Rightarrow> unit decoded_event log_event" where
  "sample_transfer n h r i =
     \<lparr>blockNumber = n, blockHash = h, transactionIndex = 0, removed = r, address = ''0x01'', data = ''0x'',
      topics = [], transactionHash = ''0xff'', logIndex = i, blockTimestamp = Some (1000 + n),
      decoded = Decoded ''Transfer'' ()\<rparr>"

definition sample_processor :: "(unit, unit) entity_processor" where
  "sample_processor =
     \<lparr>ep_on = (\<lambda>name. if name = ''Transfer''
         then Some (\<lambda>e _. SetRow ''Token'' token_id (amount (logIndex e)) (\<lambda>_. Return)) else None),
      ep_unparsed = None\<rparr>"

definition sample_deliveries :: "(unit decoded_event log_event list \<times> unit decoded_event sync_cursor) list" where
  "sample_deliveries =
     [([sample_transfer 1 ''0x1'' False 5, sample_transfer 2 ''0x2'' False 6], None),
      ([sample_transfer 2 ''0x2'' True 6, sample_transfer 2 ''0x3'' False 7], None)]"

definition sample_clean :: "(unit decoded_event log_event list \<times> unit decoded_event sync_cursor) list" where
  "sample_clean = [([sample_transfer 1 ''0x1'' False 5, sample_transfer 2 ''0x3'' False 7], None)]"

lemmas fold_eval = applyEventStream_def forkPoint_def groupByBlock_def sample_transfer_def apply_one_def
  runBlockHandlers_def handler_of_def sample_processor_def List.map_filter_def ctx_set_def ctx_key_def mustGet_def
  entityKey_def sample_ids staged_by_def of_entity_def ctx_mutations_def blockPointer_def normalizeBlockTimestamp_def
  max_safe_def in_store_def block_write_def memory_applyBlock_def check_block_def normalizeBlockHash_def
  fold_case_def lower_def sample_plan highest_def memory_revertTo_def Let_def

lemma sample_folds:
  "\<exists>s. run_folds memory_writable f sample_processor () sample_deliveries
      (projr (memory_open [sample_declaration] (Some (SetBlocks (Whole 2))) (Some (Whole 1)))) = Some s"
  "\<exists>s. run_folds memory_writable f sample_processor () sample_clean
      (projr (memory_open [sample_declaration] (Some (SetBlocks (Whole 2))) (Some (Whole 1)))) = Some s"
  by (simp_all add: sample_open sample_deliveries_def sample_clean_def fold_eval)

theorem fold_depends_on_surviving_blocks_witness:
  "\<exists>s0 s t. memory_open [sample_declaration] (Some (SetBlocks (Whole 2))) (Some (Whole 1)) = Inr s0 \<and>
     run_folds memory_writable (\<lambda>_. ''a'') sample_processor () sample_deliveries s0 = Some s \<and>
     run_folds memory_writable (\<lambda>_. ''b'') sample_processor () sample_clean s0 = Some t \<and>
     memory_storedCurrent s ''Token'' token_id = memory_storedCurrent t ''Token'' token_id \<and>
     read_values (memory_read (covers 1) s ''Token'' token_id) = read_values (memory_read (covers 1) t ''Token'' token_id)"
proof -
  obtain s0 where s0: "memory_open [sample_declaration] (Some (SetBlocks (Whole 2))) (Some (Whole 1)) = Inr s0"
    by (simp add: sample_open)
  obtain s where s: "run_folds memory_writable (\<lambda>_. ''a'') sample_processor () sample_deliveries s0 = Some s"
    using sample_folds(1)[of "\<lambda>_. ''a''"] s0 by auto
  obtain t where t: "run_folds memory_writable (\<lambda>_. ''b'') sample_processor () sample_clean s0 = Some t"
    using sample_folds(2)[of "\<lambda>_. ''b''"] s0 by auto
  have pos: "\<forall>d \<in> set sample_deliveries. \<forall>e \<in> set (fst d). 0 \<le> blockNumber e"
    "\<forall>d \<in> set sample_clean. \<forall>e \<in> set (fst d). 0 \<le> blockNumber e"
    by (simp_all add: sample_deliveries_def sample_clean_def sample_transfer_def)
  have "surviving (map fst sample_deliveries) = surviving (map fst sample_clean)"
    by (simp add: sample_deliveries_def sample_clean_def surviving_def survive_def groupByBlock_def forkPoint_def
        sample_transfer_def)
  from fold_depends_on_surviving_blocks[OF s0 s0 s t pos this, of 1 "''Token''" token_id]
  have "memory_storedCurrent s ''Token'' token_id = memory_storedCurrent t ''Token'' token_id"
    "read_values (memory_read (covers 1) s ''Token'' token_id) = read_values (memory_read (covers 1) t ''Token'' token_id)"
    by simp_all
  then show ?thesis using s0 s t by blast
qed

text \<open>What one applied block does to the cursor and to the recorded heights.\<close>

lemma apply_one_effect:
  assumes "apply_one memory_writable serialize processor config (Some (key, ls)) l b s = Inr (s', report)"
  shows "memory_readCursor s' key = Some (serialize (if l then ls else cursorSyncedThrough ls (number b)))"
    and "fst ` set (ms_blocks s') = insert (number b) (fst ` set (ms_blocks s))"
proof -
  from assms obtain ms p where p: "blockPointer b = Inr p"
    and ap: "memory_applyBlock p ms (block_write serialize (Some (key, ls)) l (number b)) s = Inr s'"
    by (auto simp: apply_one_def)
  have num: "bp_number p = number b" using p by (auto simp: blockPointer_def split: option.splits)
  show "memory_readCursor s' key = Some (serialize (if l then ls else cursorSyncedThrough ls (number b)))"
    using ap by (auto simp: memory_applyBlock_def memory_readCursor_def block_write_def write_cursor_def)
  show "fst ` set (ms_blocks s') = insert (number b) (fst ` set (ms_blocks s))"
  proof -
    obtain q where "ms_blocks s' = AList.update (number b) q (ms_blocks s)"
      using ap num by (auto simp: memory_applyBlock_def)
    then show ?thesis by (simp add: dom_update)
  qed
qed

lemma apply_blocks_effect:
  fixes serialize :: "'e last_sync \<Rightarrow> string" and config :: 'c
    and processor :: "('x, 'c) entity_processor" and key :: string and ls :: "'e last_sync"
  defines "run \<equiv> apply_blocks memory_writable serialize processor config (Some (key, ls))"
  shows "\<exists>applied left. blocks = applied @ left \<and> (fo_error (run blocks s reports) = None \<longleftrightarrow> left = []) \<and>
    memory_readCursor (fo_store (run blocks s reports)) key =
      (if applied = [] then memory_readCursor s key
       else Some (serialize (if left = [] then ls else cursorSyncedThrough ls (number (last applied))))) \<and>
    fst ` set (ms_blocks (fo_store (run blocks s reports))) = fst ` set (ms_blocks s) \<union> number ` set applied"
proof (induction blocks arbitrary: s reports)
  case Nil
  show ?case by (rule exI[of _ "[]"], rule exI[of _ "[]"]) (simp add: run_def)
next
  case (Cons b blocks)
  show ?case
  proof (cases "apply_one memory_writable serialize processor config (Some (key, ls)) (blocks = []) b s")
    case (Inl e)
    then show ?thesis by (intro exI[of _ "[]"] exI[of _ "b # blocks"]) (simp add: run_def)
  next
    case (Inr x)
    then obtain s' report where one: "apply_one memory_writable serialize processor config (Some (key, ls)) (blocks = []) b s
        = Inr (s', report)" by (cases x) simp
    note eff = apply_one_effect[OF one]
    have step: "run (b # blocks) s reports = run blocks s' (reports @ [report])" using one by (simp add: run_def)
    obtain applied left where IH: "blocks = applied @ left" "(fo_error (run blocks s' (reports @ [report])) = None) = (left = [])"
      "memory_readCursor (fo_store (run blocks s' (reports @ [report]))) key =
        (if applied = [] then memory_readCursor s' key
         else Some (serialize (if left = [] then ls else cursorSyncedThrough ls (number (last applied)))))"
      "fst ` set (ms_blocks (fo_store (run blocks s' (reports @ [report])))) = fst ` set (ms_blocks s') \<union> number ` set applied"
      using Cons[of s' "reports @ [report]"] by (elim exE conjE) (rule that; assumption)
    have c: "memory_readCursor (fo_store (run blocks s' (reports @ [report]))) key =
        Some (serialize (if left = [] then ls else cursorSyncedThrough ls (number (last (b # applied)))))"
      unfolding IH(3) using eff(1) IH(1)
      by (cases "applied = []"; cases "left = []"; simp)
    have h: "fst ` set (ms_blocks (fo_store (run blocks s' (reports @ [report])))) =
        fst ` set (ms_blocks s) \<union> number ` set (b # applied)"
      unfolding IH(4) eff(2) by (simp only: list.set image_insert Un_insert_left Un_insert_right)
    show ?thesis unfolding step
      by (rule exI[of _ "b # applied"], rule exI[of _ left], intro conjI)
        (simp only: IH(1) append_Cons, rule IH(2), simp only: c list.distinct if_False, rule h)
  qed
qed

text \<open>
  C13. A fold that fails half way can be resumed. Whatever goes wrong, a handler that throws, a log
  without a timestamp, a block the store refuses, the blocks before it stay applied and the stored
  cursor, written in the same step as each block, names exactly the last one; before the first
  block it is untouched, and after the last it is the caller's own.
\<close>

theorem failed_fold_keeps_cursor_and_blocks_together:
  "let out = applyEventStream memory_writable serialize processor config (Some (key, ls)) es s in
    \<exists>applied left. groupByBlock es = applied @ left \<and> (fo_error out = None \<longleftrightarrow> left = []) \<and>
    memory_readCursor (fo_store out) key =
      (if left = [] then Some (serialize ls)
       else if applied = [] then memory_readCursor s key
       else Some (serialize (cursorSyncedThrough ls (number (last applied))))) \<and>
    fst ` set (ms_blocks (fo_store out)) =
      {x \<in> fst ` set (ms_blocks s). case forkPoint es of None \<Rightarrow> True | Some f \<Rightarrow> x \<le> f} \<union> number ` set applied"
proof -
  define out where "out = applyEventStream memory_writable serialize processor config (Some (key, ls)) es s"
  define s1 where "s1 = (case forkPoint es of None \<Rightarrow> s | Some f \<Rightarrow> memory_revertTo f s)"
  define reports where "reports = (case forkPoint es of None \<Rightarrow> [] | Some f \<Rightarrow> [Retracted f])"
  define o1 where "o1 = apply_blocks memory_writable serialize processor config (Some (key, ls)) (groupByBlock es) s1 reports"
  have run: "out = (if groupByBlock es = [] then o1\<lparr>fo_store := memory_writeCursor key (serialize ls) (fo_store o1)\<rparr> else o1)"
    by (cases "forkPoint es") (simp_all add: out_def o1_def applyEventStream_def s1_def reports_def in_store_def Let_def)
  have s1: "fst ` set (ms_blocks s1) = {x \<in> fst ` set (ms_blocks s). case forkPoint es of None \<Rightarrow> True | Some f \<Rightarrow> x \<le> f}"
    "memory_readCursor s1 key = memory_readCursor s key"
    by (cases "forkPoint es"; force simp: s1_def memory_revertTo_def memory_readCursor_def Let_def)+
  obtain applied left where eff: "groupByBlock es = applied @ left" "(fo_error o1 = None) = (left = [])"
    "memory_readCursor (fo_store o1) key =
      (if applied = [] then memory_readCursor s1 key
       else Some (serialize (if left = [] then ls else cursorSyncedThrough ls (number (last applied)))))"
    "fst ` set (ms_blocks (fo_store o1)) = fst ` set (ms_blocks s1) \<union> number ` set applied"
    using apply_blocks_effect[of "groupByBlock es" serialize processor config key ls s1 reports, folded o1_def]
    by (elim exE conjE) (rule that; assumption)
  show ?thesis
  proof (cases "groupByBlock es = []")
    case True
    then have none: "applied = []" "left = []" using eff(1) by simp_all
    have "fst ` set (ms_blocks (fo_store out)) = fst ` set (ms_blocks (fo_store o1))"
      "memory_readCursor (fo_store out) key = Some (serialize ls)" "fo_error out = fo_error o1"
      using True by (simp_all add: run memory_writeCursor_def memory_readCursor_def)
    then show ?thesis unfolding Let_def out_def[symmetric] using True eff(2,4) s1(1) none
      by (intro exI[of _ "[]"]) (simp only: simp_thms list.set image_empty Un_empty_right append.simps if_True)
  next
    case False
    have "out = o1" using run False by simp
    have "memory_readCursor (fo_store o1) key =
        (if left = [] then Some (serialize ls)
         else if applied = [] then memory_readCursor s key
         else Some (serialize (cursorSyncedThrough ls (number (last applied)))))"
      using eff(1,3) s1(2) False by (cases "applied = []"; cases "left = []"; simp)
    then show ?thesis unfolding Let_def out_def[symmetric] \<open>out = o1\<close>
      by (rule_tac exI[of _ applied], rule_tac exI[of _ left], intro conjI)
        (use eff(1,2,4) s1(1) in \<open>simp_all only: simp_thms\<close>)
  qed
qed

end
