(* ===== verification/Feed_Cursor.thy ===== *)
theory Feed_Cursor
  imports Prelude "HOL-Library.Word"
begin

section \<open>The opaque cursor of the feeds\<close>

text \<open>
  \<open>packages/server/src/feed/cursor.ts\<close>: the position a client hands back is framed behind a
  32-bit FNV-1a checksum, scrambled with a xorshift keystream seeded by that checksum and written
  in base64url. Bytes are 8-bit words and the checksum and the keystream state 32-bit words, so
  the masks and the unsigned shifts of the source are the width of the type. \<open>stringify\<close> stands
  for \<open>JSON.stringify\<close> followed by the UTF-8 encoder and \<open>parse\<close> for the fatal UTF-8 decoder
  followed by \<open>JSON.parse\<close>, \<open>None\<close> where either throws.
\<close>

unbundle bit_operations_syntax

subsection \<open>Checksum and keystream\<close>

definition fnv1a32 :: "8 word list \<Rightarrow> 32 word" where
  "fnv1a32 bytes = foldl (\<lambda>h b. (h XOR ucast b) * 0x01000193) 0x811c9dc5 bytes"

definition SCRAMBLE_SEED :: "32 word" where "SCRAMBLE_SEED = 0x9e3779b9"

definition xorshift :: "32 word \<Rightarrow> 32 word" where
  "xorshift s0 =
     (let s1 = s0 XOR push_bit 13 s0; s2 = s1 XOR drop_bit 17 s1 in s2 XOR push_bit 5 s2)"

fun xor_from :: "32 word \<Rightarrow> 8 word list \<Rightarrow> 8 word list" where
  "xor_from state [] = []"
| "xor_from state (b # bs) = (b XOR ucast (xorshift state)) # xor_from (xorshift state) bs"

definition xorWithKeystream :: "8 word list \<Rightarrow> 32 word \<Rightarrow> 8 word list" where
  "xorWithKeystream bytes seed =
     xor_from (if seed XOR SCRAMBLE_SEED = 0 then 1 else seed XOR SCRAMBLE_SEED) bytes"

subsection \<open>Base64url\<close>

definition ALPHABET :: string where
  "ALPHABET = ''ABCDEFGHIJKLMNOPQRSTUVWXYZabcdefghijklmnopqrstuvwxyz0123456789-_''"

definition letter :: "8 word \<Rightarrow> char" where
  "letter sextet = ALPHABET ! unat sextet"

fun base64urlEncode :: "8 word list \<Rightarrow> string" where
  "base64urlEncode [] = []"
| "base64urlEncode [b0] = [letter (drop_bit 2 b0), letter (push_bit 4 (b0 AND 3))]"
| "base64urlEncode [b0, b1] =
     [letter (drop_bit 2 b0), letter (push_bit 4 (b0 AND 3) OR drop_bit 4 b1), letter (push_bit 2 (b1 AND 15))]"
| "base64urlEncode (b0 # b1 # b2 # bytes) =
     letter (drop_bit 2 b0) # letter (push_bit 4 (b0 AND 3) OR drop_bit 4 b1) #
     letter (push_bit 2 (b1 AND 15) OR drop_bit 6 b2) # letter (b2 AND 63) # base64urlEncode bytes"

fun index_from :: "nat \<Rightarrow> char \<Rightarrow> string \<Rightarrow> nat option" where
  "index_from i c [] = None"
| "index_from i c (x # xs) = (if x = c then Some i else index_from (Suc i) c xs)"

fun sextets_of :: "string \<Rightarrow> 8 word list option" where
  "sextets_of [] = Some []"
| "sextets_of (c # cs) =
     (case index_from 0 c ALPHABET of
        None \<Rightarrow> None
      | Some i \<Rightarrow> map_option (\<lambda>ss. of_nat i # ss) (sextets_of cs))"

fun bytes_of :: "8 word list \<Rightarrow> 8 word list option" where
  "bytes_of [] = Some []"
| "bytes_of [s0] = None"
| "bytes_of [s0, s1] = Some [push_bit 2 s0 OR drop_bit 4 s1]"
| "bytes_of [s0, s1, s2] = Some [push_bit 2 s0 OR drop_bit 4 s1, push_bit 4 s1 OR drop_bit 2 s2]"
| "bytes_of (s0 # s1 # s2 # s3 # ss) =
     map_option (\<lambda>bs. (push_bit 2 s0 OR drop_bit 4 s1) # (push_bit 4 s1 OR drop_bit 2 s2) #
       (push_bit 6 s2 OR s3) # bs) (bytes_of ss)"

definition base64urlDecode :: "string \<Rightarrow> 8 word list option" where
  "base64urlDecode cursor = (if cursor = [] then None else Option.bind (sextets_of cursor) bytes_of)"

subsection \<open>The envelope\<close>

datatype json = JNull | JBool bool | JNumber jsnum | JString string | JArray "json list" | JObject "(string \<times> json) list"

datatype cursor_atom = AtNumber jsnum | AtString string

record feed_cursor_envelope =
  fce_view :: string
  fce_indexer :: string
  fce_stream :: string
  fce_at :: "(string \<times> cursor_atom) list"

definition CURSOR_VERSION :: jsnum where "CURSOR_VERSION = Whole 1"

fun json_of_atom :: "cursor_atom \<Rightarrow> json" where
  "json_of_atom (AtNumber n) = JNumber n"
| "json_of_atom (AtString t) = JString t"

fun atom_of_json :: "json \<Rightarrow> cursor_atom option" where
  "atom_of_json (JNumber n) = Some (AtNumber n)"
| "atom_of_json (JString t) = Some (AtString t)"
| "atom_of_json _ = None"

definition envelope_json :: "feed_cursor_envelope \<Rightarrow> json" where
  "envelope_json e =
     JObject [(''v'', JNumber CURSOR_VERSION), (''w'', JString (fce_view e)), (''i'', JString (fce_indexer e)),
       (''s'', JString (fce_stream e)), (''a'', JObject (map (\<lambda>(k, v). (k, json_of_atom v)) (fce_at e)))]"

definition frame_cursor :: "8 word list \<Rightarrow> 8 word list" where
  "frame_cursor payload =
     (let checksum = fnv1a32 payload
      in [ucast (drop_bit 24 checksum), ucast (drop_bit 16 checksum), ucast (drop_bit 8 checksum), ucast checksum]
         @ xorWithKeystream payload checksum)"

definition encodeFeedCursor :: "(json \<Rightarrow> 8 word list) \<Rightarrow> feed_cursor_envelope \<Rightarrow> string" where
  "encodeFeedCursor stringify envelope = base64urlEncode (frame_cursor (stringify (envelope_json envelope)))"

definition unframe_cursor :: "8 word list \<Rightarrow> 8 word list option" where
  "unframe_cursor framed =
     (if length framed < 5 then None
      else
        (let checksum = push_bit 24 (ucast (framed ! 0)) OR push_bit 16 (ucast (framed ! 1)) OR
               push_bit 8 (ucast (framed ! 2)) OR ucast (framed ! 3);
             payload = xorWithKeystream (drop 4 framed) checksum
         in if fnv1a32 payload \<noteq> checksum then None else Some payload))"

fun atoms_of :: "(string \<times> json) list \<Rightarrow> (string \<times> cursor_atom) list option" where
  "atoms_of [] = Some []"
| "atoms_of ((k, v) # kvs) =
     (case atom_of_json v of None \<Rightarrow> None | Some a \<Rightarrow> map_option (\<lambda>as. (k, a) # as) (atoms_of kvs))"

fun envelope_of :: "json \<Rightarrow> feed_cursor_envelope option" where
  "envelope_of (JObject members) =
     (if map_of members ''v'' \<noteq> Some (JNumber CURSOR_VERSION) then None
      else
        (case (map_of members ''w'', map_of members ''i'', map_of members ''s'', map_of members ''a'') of
           (Some (JString w), Some (JString i), Some (JString s), Some (JObject at)) \<Rightarrow>
             map_option (\<lambda>as. \<lparr>fce_view = w, fce_indexer = i, fce_stream = s, fce_at = as\<rparr>) (atoms_of at)
         | _ \<Rightarrow> None))"
| "envelope_of _ = None"

definition decodeFeedCursor :: "(8 word list \<Rightarrow> json option) \<Rightarrow> string \<Rightarrow> feed_cursor_envelope option" where
  "decodeFeedCursor parse cursor =
     (case base64urlDecode cursor of
        None \<Rightarrow> None
      | Some framed \<Rightarrow>
          (case unframe_cursor framed of
             None \<Rightarrow> None
           | Some payload \<Rightarrow> (case parse payload of None \<Rightarrow> None | Some j \<Rightarrow> envelope_of j)))"

datatype feed_cursor_refusal = Unreadable | ForeignIndexer | ForeignView | ForeignStream

record served_feed =
  sf_view :: string
  sf_indexer :: string
  sf_stream :: string

definition openFeedCursor :: "(8 word list \<Rightarrow> json option) \<Rightarrow> string \<Rightarrow> served_feed
    \<Rightarrow> (feed_cursor_refusal, feed_cursor_envelope) result" where
  "openFeedCursor parse cursor served =
     (case decodeFeedCursor parse cursor of
        None \<Rightarrow> Inl Unreadable
      | Some envelope \<Rightarrow>
          if fce_indexer envelope \<noteq> sf_indexer served then Inl ForeignIndexer
          else if fce_view envelope \<noteq> sf_view served then Inl ForeignView
          else if fce_stream envelope \<noteq> sf_stream served then Inl ForeignStream
          else Inr envelope)"

subsection \<open>Round trips\<close>

lemma xor_from_twice [simp]: "xor_from s (xor_from s bs) = bs"
  by (induction bs arbitrary: s) (simp_all add: xor.assoc)

lemma xorWithKeystream_twice [simp]: "xorWithKeystream (xorWithKeystream bs seed) seed = bs"
  by (simp add: xorWithKeystream_def)

lemma length_xor_from [simp]: "length (xor_from s bs) = length bs"
  by (induction bs arbitrary: s) simp_all

lemma length_xorWithKeystream [simp]: "length (xorWithKeystream bs seed) = length bs"
  by (simp add: xorWithKeystream_def)

lemma index_from_nth:
  "distinct xs \<Longrightarrow> i < length xs \<Longrightarrow> index_from k (xs ! i) xs = Some (k + i)"
proof (induction xs arbitrary: i k)
  case Nil
  then show ?case by simp
next
  case (Cons x xs)
  then show ?case by (cases i) auto
qed

lemma letter_index: "unat s < 64 \<Longrightarrow> index_from 0 (letter s) ALPHABET = Some (unat s)"
proof -
  assume "unat s < 64"
  moreover have "length ALPHABET = 64" "distinct ALPHABET" by (simp_all add: ALPHABET_def)
  ultimately show ?thesis unfolding letter_def using index_from_nth[of ALPHABET "unat s" 0] by simp
qed

lemma sextets_of_letter [simp]:
  "unat s < 64 \<Longrightarrow> sextets_of (letter s # cs) = map_option (\<lambda>ss. s # ss) (sextets_of cs)"
  by (simp add: letter_index)


lemma byte_eqI:
  fixes a b :: "8 word"
  assumes "bit a 0 = bit b 0" "bit a 1 = bit b 1" "bit a 2 = bit b 2" "bit a 3 = bit b 3"
    "bit a 4 = bit b 4" "bit a 5 = bit b 5" "bit a 6 = bit b 6" "bit a 7 = bit b 7"
  shows "a = b"
proof (rule bit_word_eqI)
  fix n assume "n < LENGTH(8)"
  then have "n \<in> {0, 1, 2, 3, 4, 5, 6, 7}" by auto
  then show "bit a n = bit b n" using assms by auto
qed

lemma sextet_bound:
  fixes w :: "8 word"
  assumes "\<not> bit w 6" "\<not> bit w 7"
  shows "unat w < 64"
proof -
  have "w = take_bit 6 w" by (rule byte_eqI) (use assms in \<open>simp_all add: bit_take_bit_iff\<close>)
  then have "unat w = take_bit 6 (unat w)" by (metis unsigned_take_bit_eq)
  then show ?thesis using take_bit_nat_less_exp[of 6 "unat w"] by simp
qed

lemma no_bit_8 [simp]: "\<not> bit (w :: 8 word) 8" "\<not> bit (w :: 8 word) 9" "\<not> bit (w :: 8 word) 10"
    "\<not> bit (w :: 8 word) 11" "\<not> bit (w :: 8 word) 12" "\<not> bit (w :: 8 word) 13"
  by (auto dest: bit_imp_le_length)

lemma sextet_bounds:
  fixes b b' :: "8 word"
  shows "unat (drop_bit 2 b) < 64" "unat (b AND 63) < 64" "unat (push_bit 4 (b AND 3) OR drop_bit 4 b') < 64"
    "unat (push_bit 2 (b AND 15) OR drop_bit 6 b') < 64" "unat (push_bit 4 (b AND 3)) < 64"
    "unat (push_bit 2 (b AND 15)) < 64"
  by (rule sextet_bound; simp add: bit_simps)+

lemma bytes_rejoined:
  fixes b0 b1 b2 :: "8 word"
  shows "push_bit 2 (drop_bit 2 b0) OR drop_bit 4 (push_bit 4 (b0 AND 3)) = b0"
    "push_bit 2 (drop_bit 2 b0) OR drop_bit 4 (push_bit 4 (b0 AND 3) OR drop_bit 4 b1) = b0"
    "push_bit 4 (push_bit 4 (b0 AND 3) OR drop_bit 4 b1) OR drop_bit 2 (push_bit 2 (b1 AND 15)) = b1"
    "push_bit 4 (push_bit 4 (b0 AND 3) OR drop_bit 4 b1) OR drop_bit 2 (push_bit 2 (b1 AND 15) OR drop_bit 6 b2) = b1"
    "push_bit 6 (push_bit 2 (b1 AND 15) OR drop_bit 6 b2) OR (b2 AND 63) = b2"
  by (rule byte_eqI; simp add: bit_simps)+

lemma base64_round_trip: "\<exists>ss. sextets_of (base64urlEncode bs) = Some ss \<and> bytes_of ss = Some bs"
  by (induction bs rule: base64urlEncode.induct)
    (auto simp del: sextets_of.simps(2) push_bit_and push_bit_or drop_bit_and drop_bit_or simp: sextet_bounds bytes_rejoined)

lemma base64urlDecode_Encode: "bs \<noteq> [] \<Longrightarrow> base64urlDecode (base64urlEncode bs) = Some bs"
  using base64_round_trip[of bs] by (cases bs rule: base64urlEncode.cases) (auto simp: base64urlDecode_def)


lemma fnv_step_inj:
  fixes h h' :: "32 word"
  assumes "(h XOR ucast b) * 0x01000193 = (h' XOR ucast b') * 0x01000193"
  shows "h XOR ucast (b :: 8 word) = h' XOR ucast (b' :: 8 word)"
proof -
  have unit: "(0x01000193 :: 32 word) * 0x359c449b = 1" by simp
  show ?thesis
    using arg_cong[OF assms, of "\<lambda>w. w * 0x359c449b"] unfolding mult.assoc unit mult_1_right .
qed

lemma xor_cancel: "(h :: 'a::len word) XOR a = h XOR b \<longleftrightarrow> a = b"
  by (metis xor.assoc xor.left_neutral xor_self_eq)

lemma fnv_fold_inj:
  "foldl (\<lambda>h b. (h XOR ucast b) * 0x01000193) h bs = foldl (\<lambda>h b. (h XOR ucast b) * 0x01000193) (h' :: 32 word) (bs :: 8 word list)
    \<longleftrightarrow> h = h'"
proof (induction bs arbitrary: h h')
  case Nil
  then show ?case by simp
next
  case (Cons b bs)
  show ?case using fnv_step_inj[of h b h' b] by (auto simp: Cons xor_cancel xor.commute[of _ "ucast b"])
qed

lemma ucast_up_down: "(ucast (ucast (b :: 8 word) :: 32 word) :: 8 word) = b"
  by (rule bit_word_eqI) (simp add: bit_simps)

text \<open>Two texts that differ in one byte have different checksums.\<close>

lemma fnv_detects_byte:
  assumes "fnv1a32 (pre @ b # post) = fnv1a32 (pre @ b' # post)"
  shows "b = b'"
proof -
  define h where "h = foldl (\<lambda>h (b :: 8 word). (h XOR ucast b) * 0x01000193) (0x811c9dc5 :: 32 word) pre"
  have "(h XOR ucast b) * 0x01000193 = (h XOR ucast b') * 0x01000193"
    using assms unfolding fnv1a32_def by (simp add: fnv_fold_inj h_def)
  then have "h XOR ucast b = h XOR ucast b'" by (rule fnv_step_inj)
  then have "(ucast b :: 32 word) = ucast b'" by (simp only: xor_cancel)
  then have "(ucast (ucast b :: 32 word) :: 8 word) = ucast (ucast b' :: 32 word)" by simp
  then show ?thesis by (simp add: ucast_up_down)
qed

lemma atoms_of_json: "atoms_of (map (\<lambda>(k, v). (k, json_of_atom v)) kvs) = Some kvs"
proof (induction kvs)
  case Nil
  then show ?case by simp
next
  case (Cons kv kvs)
  have "atom_of_json (json_of_atom v) = Some v" for v by (cases v) simp_all
  with Cons show ?case by (cases kv) simp
qed

lemma envelope_round_trip [simp]: "envelope_of (envelope_json e) = Some e"
  by (simp add: envelope_json_def atoms_of_json)

lemma checksum_rejoined:
  fixes c :: "32 word"
  shows "push_bit 24 (ucast (ucast (drop_bit 24 c) :: 8 word)) OR push_bit 16 (ucast (ucast (drop_bit 16 c) :: 8 word)) OR
    push_bit 8 (ucast (ucast (drop_bit 8 c) :: 8 word)) OR ucast (ucast c :: 8 word) = c"
proof (rule bit_word_eqI)
  fix n assume n: "n < LENGTH(32)"
  then consider "n < 8" | "8 \<le> n" "n < 16" | "16 \<le> n" "n < 24" | "24 \<le> n" by linarith
  then show "bit (push_bit 24 (ucast (ucast (drop_bit 24 c) :: 8 word)) OR push_bit 16 (ucast (ucast (drop_bit 16 c) :: 8 word)) OR
    push_bit 8 (ucast (ucast (drop_bit 8 c) :: 8 word)) OR ucast (ucast c :: 8 word) :: 32 word) n = bit c n"
    using n by cases (simp_all add: bit_simps, auto)
qed

lemma unframe_frame: "payload \<noteq> [] \<Longrightarrow> unframe_cursor (frame_cursor payload) = Some payload"
  by (cases payload) (simp_all add: unframe_cursor_def frame_cursor_def Let_def checksum_rejoined Suc_le_eq)


text \<open>
  C32. A cursor opens exactly where it was issued. Whatever position is encoded, opening the token
  returns the same envelope to a feed of the same indexer, view and stream, and refuses every other
  feed with the first of the three that differs.
\<close>

theorem feed_cursor_round_trip:
  assumes "stringify (envelope_json e) \<noteq> []" and "parse (stringify (envelope_json e)) = Some (envelope_json e)"
  shows "openFeedCursor parse (encodeFeedCursor stringify e) served =
    (if fce_indexer e \<noteq> sf_indexer served then Inl ForeignIndexer
     else if fce_view e \<noteq> sf_view served then Inl ForeignView
     else if fce_stream e \<noteq> sf_stream served then Inl ForeignStream
     else Inr e)"
proof -
  have "frame_cursor (stringify (envelope_json e)) \<noteq> []" by (simp add: frame_cursor_def Let_def)
  then have "decodeFeedCursor parse (encodeFeedCursor stringify e) = Some e"
    using assms by (simp add: decodeFeedCursor_def encodeFeedCursor_def base64urlDecode_Encode unframe_frame)
  then show ?thesis by (simp add: openFeedCursor_def)
qed

definition sample_envelope :: feed_cursor_envelope where
  "sample_envelope = \<lparr>fce_view = ''stream'', fce_indexer = ''main'', fce_stream = ''d1'', fce_at = [(''seq'', AtNumber (Whole 7))]\<rparr>"

text \<open>The text of the sample envelope, one byte per character, in place of the two codecs.\<close>

definition sample_text :: "8 word list" where
  "sample_text = [0x7b, 0x22, 0x76, 0x22, 0x3a, 0x31, 0x7d]"

theorem feed_cursor_round_trip_witness:
  "openFeedCursor (\<lambda>bs. if bs = sample_text then Some (envelope_json sample_envelope) else None)
     (encodeFeedCursor (\<lambda>_. sample_text) sample_envelope)
     \<lparr>sf_view = ''stream'', sf_indexer = ''main'', sf_stream = ''d2''\<rparr> = Inl ForeignStream"
  using feed_cursor_round_trip[of "\<lambda>_. sample_text" sample_envelope
      "\<lambda>bs. if bs = sample_text then Some (envelope_json sample_envelope) else None"
      "\<lparr>sf_view = ''stream'', sf_indexer = ''main'', sf_stream = ''d2''\<rparr>"]
  by (simp add: sample_text_def sample_envelope_def)

lemma xor_from_append:
  "xor_from s (xs @ ys) = xor_from s xs @ xor_from ((xorshift ^^ length xs) s) ys"
  by (induction xs arbitrary: s) (simp_all add: funpow_swap1)

text \<open>
  A damaged cursor is refused. Replacing any one byte of the scrambled position by a different
  byte makes the token unreadable, whatever the position was and whoever reads it: the checksum
  catches every single-byte change.
\<close>

theorem damaged_cursor_is_refused:
  assumes "frame_cursor payload = head @ pre @ b # post" and "length head = 4" and "b' \<noteq> b"
  shows "openFeedCursor parse (base64urlEncode (head @ pre @ b' # post)) served = Inl Unreadable"
proof -
  define c where "c = fnv1a32 payload"
  define k where "k = (if c XOR SCRAMBLE_SEED = 0 then 1 else c XOR SCRAMBLE_SEED)"
  define s where "s = (xorshift ^^ length pre) k"
  have parts: "head = [ucast (drop_bit 24 c), ucast (drop_bit 16 c), ucast (drop_bit 8 c), ucast c]"
    "xorWithKeystream payload c = pre @ b # post"
    using iffD1[OF append_eq_append_conv[of _ head] assms(1)[unfolded frame_cursor_def Let_def, folded c_def]] assms(2)
    by simp_all
  have plain: "xorWithKeystream (pre @ x # post) c =
      xor_from k pre @ (x XOR ucast (xorshift s)) # xor_from (xorshift s) post" for x
    by (simp add: xorWithKeystream_def xor_from_append k_def s_def)
  have "payload = xor_from k pre @ (b XOR ucast (xorshift s)) # xor_from (xorshift s) post"
    using plain[of b] parts(2) xorWithKeystream_twice[of payload c] by simp
  then have "c = fnv1a32 (xor_from k pre @ (b XOR ucast (xorshift s)) # xor_from (xorshift s) post)"
    by (simp add: c_def)
  moreover have "b' XOR ucast (xorshift s) \<noteq> b XOR ucast (xorshift s)"
    using assms(3) by (simp add: xor_cancel xor.commute[of _ "ucast (xorshift s)"])
  ultimately have "fnv1a32 (xorWithKeystream (pre @ b' # post) c) \<noteq> c"
    unfolding plain using fnv_detects_byte by metis
  then have "unframe_cursor (head @ pre @ b' # post) = None"
    by (simp add: unframe_cursor_def parts(1) checksum_rejoined)
  then show ?thesis
    by (simp add: openFeedCursor_def decodeFeedCursor_def base64urlDecode_Encode)
qed

theorem damaged_cursor_is_refused_witness:
  "openFeedCursor (\<lambda>_. None) (base64urlEncode (take 5 (frame_cursor sample_text) @
     (frame_cursor sample_text ! 5 + 1) # drop 6 (frame_cursor sample_text)))
     \<lparr>sf_view = ''stream'', sf_indexer = ''main'', sf_stream = ''d1''\<rparr> = Inl Unreadable"
proof -
  have len: "length (frame_cursor sample_text) = 11" by (simp add: frame_cursor_def sample_text_def Let_def)
  obtain a b c d e f rest where "frame_cursor sample_text = [a, b, c, d] @ [e] @ f # rest"
    using len by (auto simp: length_Suc_conv numeral_eq_Suc)
  from damaged_cursor_is_refused[OF this, of "f + 1"] this show ?thesis by simp
qed

end
