(* ===== verification/Emission_Store.thy ===== *)
theory Emission_Store
  imports Stream_Types "HOL-Library.Product_Lexorder" "HOL-Library.List_Lexorder" "HOL-Library.Char_ord"
begin

section \<open>The stored emission stream of the server\<close>

text \<open>
  \<open>packages/server/src/emissions.ts\<close>, \<open>feed/entries.ts\<close>, \<open>feed/stream.ts\<close> and
  \<open>feed/canonical.ts\<close> over the tables of \<open>schema/sql/db.sql\<close>: one table of emission rows for all
  indexers and streams, appended in one transaction with the coverage claim, where a retraction
  is a row of its own and turns off the row it takes back. A table is the list of its rows in the
  order of their insertion; \<open>ORDER BY\<close> is a stable sort of them, and SQLite leaves the order of
  equal keys open. The \<open>alive\<close> and \<open>removed\<close> columns hold 0 or 1.
\<close>

subsection \<open>Rows and the append\<close>

type_synonym stream_key = "string \<times> string"

record emission_row =
  er_key :: stream_key
  er_seq :: int
  er_removed :: bool
  er_alive :: bool
  er_blockNumber :: int
  er_blockHash :: string
  er_logIndex :: int
  er_transactionHash :: string
  er_transactionIndex :: int
  er_blockTimestamp :: "int option"
  er_address :: string
  er_topic0 :: "string option"
  er_topic1 :: "string option"
  er_topic2 :: "string option"
  er_topic3 :: "string option"
  er_data :: string

record stream_coverage =
  sc_source :: "source_hash_entry list"
  sc_config :: string
  sc_latestBlock :: int
  sc_lastFromBlock :: int
  sc_lastToBlock :: int

record stored_coverage = stream_coverage +
  sc_startBlock :: int

record emission_db =
  ed_rows :: "emission_row list"
  ed_coverage :: "stream_key \<rightharpoonup> stored_coverage"

record 'a emission_append =
  ea_key :: stream_key
  ea_coverage :: stream_coverage
  ea_emissions :: "'a log_event list"

definition nth_topic :: "string list \<Rightarrow> nat \<Rightarrow> string option" where
  "nth_topic ts i = (if i < length ts then Some (ts ! i) else None)"

definition insertOf :: "stream_key \<Rightarrow> int \<Rightarrow> 'a log_event \<Rightarrow> emission_row" where
  "insertOf k seq e =
     \<lparr>er_key = k, er_seq = seq, er_removed = removed e, er_alive = (\<not> removed e),
      er_blockNumber = blockNumber e, er_blockHash = blockHash e, er_logIndex = logIndex e,
      er_transactionHash = transactionHash e, er_transactionIndex = transactionIndex e,
      er_blockTimestamp = blockTimestamp e, er_address = address e,
      er_topic0 = nth_topic (topics e) 0, er_topic1 = nth_topic (topics e) 1,
      er_topic2 = nth_topic (topics e) 2, er_topic3 = nth_topic (topics e) 3, er_data = data e\<rparr>"

text \<open>The update a retraction runs: \<open>alive = 0\<close> on the live row of the same log.\<close>

definition flag_retracted :: "stream_key \<Rightarrow> 'a log_event \<Rightarrow> emission_row \<Rightarrow> emission_row" where
  "flag_retracted k e r =
     (if er_key r = k \<and> er_blockHash r = blockHash e \<and> er_logIndex r = logIndex e \<and> \<not> er_removed r \<and> er_alive r
      then r\<lparr>er_alive := False\<rparr> else r)"

fun append_rows :: "stream_key \<Rightarrow> int \<Rightarrow> 'a log_event list \<Rightarrow> emission_row list \<Rightarrow> emission_row list" where
  "append_rows k seq [] rows = rows"
| "append_rows k seq (e # es) rows =
     append_rows k (seq + 1) es
       ((if removed e then map (flag_retracted k e) rows else rows) @ [insertOf k (seq + 1) e])"

definition coverageUpsertOf :: "stream_key \<Rightarrow> stream_coverage \<Rightarrow> (stream_key \<rightharpoonup> stored_coverage)
    \<Rightarrow> (stream_key \<rightharpoonup> stored_coverage)" where
  "coverageUpsertOf k c cov =
     cov(k \<mapsto> \<lparr>sc_source = sc_source c, sc_config = sc_config c, sc_latestBlock = sc_latestBlock c,
       sc_lastFromBlock = sc_lastFromBlock c, sc_lastToBlock = sc_lastToBlock c,
       sc_startBlock = (case cov k of None \<Rightarrow> sc_lastFromBlock c | Some old \<Rightarrow> sc_startBlock old)\<rparr>)"

definition rows_of :: "stream_key \<Rightarrow> emission_db \<Rightarrow> emission_row list" where
  "rows_of k db = filter (\<lambda>r. er_key r = k) (ed_rows db)"

definition readStreamHighWaterMark :: "emission_db \<Rightarrow> stream_key \<Rightarrow> int" where
  "readStreamHighWaterMark db k =
     (if rows_of k db = [] then 0 else Max (er_seq ` set (rows_of k db)))"

definition readStreamCoverage :: "emission_db \<Rightarrow> stream_key \<Rightarrow> stored_coverage option" where
  "readStreamCoverage db k = ed_coverage db k"

definition appendEmissions :: "'a emission_append \<Rightarrow> emission_db \<Rightarrow> emission_db" where
  "appendEmissions ap db =
     (let k = ea_key ap;
          seq = (if length (ea_emissions ap) > 0 then readStreamHighWaterMark db k else 0)
      in db\<lparr>ed_rows := append_rows k seq (ea_emissions ap) (ed_rows db),
            ed_coverage := coverageUpsertOf k (ea_coverage ap) (ed_coverage db)\<rparr>)"

subsection \<open>Entries\<close>

fun leading_topics :: "string option list \<Rightarrow> string list" where
  "leading_topics [] = []"
| "leading_topics (None # ts) = []"
| "leading_topics (Some t # ts) = t # leading_topics ts"

definition entryOf :: "emission_row \<Rightarrow> unit log_event" where
  "entryOf r =
     \<lparr>blockNumber = er_blockNumber r, blockHash = er_blockHash r, transactionIndex = er_transactionIndex r,
      removed = False, address = er_address r, data = er_data r,
      topics = leading_topics [er_topic0 r, er_topic1 r, er_topic2 r, er_topic3 r],
      transactionHash = er_transactionHash r, logIndex = er_logIndex r,
      blockTimestamp = er_blockTimestamp r, decoded = ()\<rparr>"

definition feedEntryOf :: "emission_row \<Rightarrow> unit log_event" where
  "feedEntryOf r = (entryOf r)\<lparr>removed := er_removed r\<rparr>"

definition storedLogOf :: "emission_row \<Rightarrow> unit log_event" where
  "storedLogOf r = (entryOf r)\<lparr>removed := er_removed r\<rparr>"

subsection \<open>The two views\<close>

record feed_page =
  fp_entries :: "unit log_event list"
  fp_position :: int
  fp_hasMore :: bool

definition FEED_START_POSITION :: int where "FEED_START_POSITION = 0"

definition readStreamFeed :: "emission_db \<Rightarrow> stream_key \<Rightarrow> int \<Rightarrow> nat \<Rightarrow> feed_page" where
  "readStreamFeed db k after limit =
     (let rows = take (limit + 1) (sort_key er_seq (filter (\<lambda>r. er_seq r > after) (rows_of k db)));
          hasMore = length rows > limit;
          page = (if hasMore then take limit rows else rows)
      in \<lparr>fp_entries = map feedEntryOf page,
          fp_position = (if page \<noteq> [] then er_seq (last page) else after),
          fp_hasMore = hasMore\<rparr>)"

type_synonym canonical_position = "int \<times> int"

definition CANONICAL_START_POSITION :: canonical_position where
  "CANONICAL_START_POSITION = (0, - 1)"

record canonical_page =
  cp_entries :: "unit log_event list"
  cp_last :: "(canonical_position \<times> string) option"
  cp_hasMore :: bool

definition row_position :: "emission_row \<Rightarrow> canonical_position" where
  "row_position r = (er_blockNumber r, er_logIndex r)"

definition canonical_rows :: "emission_db \<Rightarrow> stream_key \<Rightarrow> int \<Rightarrow> canonical_position \<Rightarrow> emission_row list" where
  "canonical_rows db k gate after =
     sort_key row_position
       (filter (\<lambda>r. er_alive r \<and> er_blockNumber r \<le> gate \<and>
          (er_blockNumber r > fst after \<or> (er_blockNumber r = fst after \<and> er_logIndex r > snd after))) (rows_of k db))"

definition readCanonicalView :: "emission_db \<Rightarrow> stream_key \<Rightarrow> int \<Rightarrow> canonical_position \<Rightarrow> nat \<Rightarrow> canonical_page" where
  "readCanonicalView db k gate after limit =
     (let rows = take (limit + 1) (canonical_rows db k gate after);
          hasMore = length rows > limit;
          page = (if hasMore then take limit rows else rows)
      in \<lparr>cp_entries = map entryOf page,
          cp_last = (if page = [] then None else Some (row_position (last page), er_blockHash (last page))),
          cp_hasMore = hasMore\<rparr>)"

definition isStillCanonical :: "emission_db \<Rightarrow> stream_key \<Rightarrow> canonical_position \<Rightarrow> string \<Rightarrow> bool" where
  "isStillCanonical db k at h \<longleftrightarrow>
     (\<exists>r \<in> set (rows_of k db). row_position r = at \<and> er_blockHash r = h \<and> er_alive r)"

definition forkBlockSince :: "emission_db \<Rightarrow> stream_key \<Rightarrow> int \<Rightarrow> int option" where
  "forkBlockSince db k since =
     (let rows = filter (\<lambda>r. er_removed r \<and> er_seq r > since) (rows_of k db)
      in if rows = [] then None else Some (Min (er_blockNumber ` set rows)))"


subsection \<open>One stream of the table\<close>

definition empty_db :: emission_db where "empty_db = \<lparr>ed_rows = [], ed_coverage = Map.empty\<rparr>"

lemma flag_retracted_simps [simp]:
  "er_key (flag_retracted k e r) = er_key r" "er_seq (flag_retracted k e r) = er_seq r"
  "er_removed (flag_retracted k e r) = er_removed r" "feedEntryOf (flag_retracted k e r) = feedEntryOf r"
  "er_key r \<noteq> k \<Longrightarrow> flag_retracted k e r = r"
  by (simp_all add: flag_retracted_def feedEntryOf_def entryOf_def)

lemma insertOf_simps [simp]:
  "er_key (insertOf k s e) = k" "er_seq (insertOf k s e) = s" "er_removed (insertOf k s e) = removed e"
  "er_alive (insertOf k s e) = (\<not> removed e)" "er_blockHash (insertOf k s e) = blockHash e"
  "er_logIndex (insertOf k s e) = logIndex e" "er_blockNumber (insertOf k s e) = blockNumber e"
  by (simp_all add: insertOf_def)

lemma filter_flag_other:
  "k' \<noteq> k \<Longrightarrow> filter (\<lambda>r. er_key r = k') (map (flag_retracted k e) rows) = filter (\<lambda>r. er_key r = k') rows"
  by (induction rows) simp_all

lemma filter_flag_same:
  "filter (\<lambda>r. er_key r = k) (map (flag_retracted k e) rows) = map (flag_retracted k e) (filter (\<lambda>r. er_key r = k) rows)"
  by (induction rows) simp_all

lemma append_rows_other:
  "k' \<noteq> k \<Longrightarrow> filter (\<lambda>r. er_key r = k') (append_rows k s es rows) = filter (\<lambda>r. er_key r = k') rows"
  by (induction es arbitrary: s rows) (simp_all add: filter_flag_other)

lemma append_rows_same:
  "filter (\<lambda>r. er_key r = k) (append_rows k s es rows) = append_rows k s es (filter (\<lambda>r. er_key r = k) rows)"
  by (induction es arbitrary: s rows) (simp_all add: filter_flag_same)

definition high_water :: "emission_row list \<Rightarrow> int" where
  "high_water rows = (if rows = [] then 0 else Max (er_seq ` set rows))"

lemma rows_of_append:
  "rows_of k (appendEmissions ap db) =
    (if ea_key ap = k then append_rows k (high_water (rows_of k db)) (ea_emissions ap) (rows_of k db) else rows_of k db)"
proof (cases "ea_emissions ap")
  case Nil
  then show ?thesis by (simp add: rows_of_def appendEmissions_def Let_def)
next
  case (Cons e es)
  then show ?thesis
    by (simp add: rows_of_def appendEmissions_def Let_def append_rows_same append_rows_other high_water_def
        readStreamHighWaterMark_def del: append_rows.simps)
qed

text \<open>What the retractions of a list of emissions leave: an emission stands until a later retraction names its log.\<close>

definition same_log :: "'a log_event \<Rightarrow> 'b log_event \<Rightarrow> bool" where
  "same_log a b \<longleftrightarrow> blockHash a = blockHash b \<and> logIndex a = logIndex b"

fun marked :: "'a log_event list \<Rightarrow> ('a log_event \<times> bool) list" where
  "marked [] = []"
| "marked (e # es) = (e, \<not> removed e \<and> (\<forall>r \<in> set es. removed r \<longrightarrow> \<not> same_log r e)) # marked es"

definition standing :: "'a log_event list \<Rightarrow> 'a log_event list" where
  "standing es = map fst (filter snd (marked es))"

lemma standing_Cons:
  "standing (e # es) =
    (if \<not> removed e \<and> (\<forall>r \<in> set es. removed r \<longrightarrow> \<not> same_log r e) then e # standing es else standing es)"
  by (simp add: standing_def)

lemma marked_snoc:
  "marked (es @ [x]) = map (\<lambda>(e, b). (e, b \<and> (removed x \<longrightarrow> \<not> same_log x e))) (marked es) @ [(x, \<not> removed x)]"
  by (induction es) auto

text \<open>A log as the table keeps it: its first four topics, which are all an EVM log has, and nothing decoded.\<close>

definition raw_log :: "'a log_event \<Rightarrow> unit log_event" where
  "raw_log e =
     \<lparr>blockNumber = blockNumber e, blockHash = blockHash e, transactionIndex = transactionIndex e,
      removed = removed e, address = address e, data = data e, topics = take 4 (topics e),
      transactionHash = transactionHash e, logIndex = logIndex e, blockTimestamp = blockTimestamp e, decoded = ()\<rparr>"

lemma leading_nth_topics:
  "leading_topics [nth_topic ts 0, nth_topic ts 1, nth_topic ts 2, nth_topic ts 3] = take 4 ts"
proof -
  consider "ts = []" | a where "ts = [a]" | a b where "ts = [a, b]" | a b c where "ts = [a, b, c]"
    | a b c d us where "ts = a # b # c # d # us"
    by (metis list.exhaust)
  then show ?thesis by cases (simp_all add: nth_topic_def)
qed

lemma stored_log [simp]: "feedEntryOf (insertOf k s e) = raw_log e"
  by (simp add: feedEntryOf_def entryOf_def insertOf_def raw_log_def leading_nth_topics
      del: leading_topics.simps One_nat_def)

definition abs_row :: "emission_row \<Rightarrow> unit log_event \<times> bool" where
  "abs_row r = (feedEntryOf r, er_alive r)"

lemma raw_log_simps [simp]:
  "removed (raw_log e) = removed e" "blockHash (raw_log e) = blockHash e" "logIndex (raw_log e) = logIndex e"
  "blockNumber (raw_log e) = blockNumber e" "same_log (raw_log a) b = same_log a b" "same_log a (raw_log b') = same_log a b'"
  by (simp_all add: raw_log_def same_log_def)

lemma feedEntryOf_simps [simp]:
  "removed (feedEntryOf r) = er_removed r" "blockHash (feedEntryOf r) = er_blockHash r"
  "logIndex (feedEntryOf r) = er_logIndex r" "blockNumber (feedEntryOf r) = er_blockNumber r"
  by (simp_all add: feedEntryOf_def entryOf_def)

text \<open>The rows of one stream as the emissions they were appended from, in the order of their positions.\<close>

definition holds_stream :: "emission_row list \<Rightarrow> 'a log_event list \<Rightarrow> bool" where
  "holds_stream rows es \<longleftrightarrow>
     map abs_row rows = map (\<lambda>(e, b). (raw_log e, b)) (marked es) \<and>
     map er_seq rows = map (\<lambda>i. int i + 1) [0..<length rows]"

lemma length_marked [simp]: "length (marked es) = length es"
  by (induction es) simp_all

lemma holds_stream_length: "holds_stream rows es \<Longrightarrow> length rows = length es"
  unfolding holds_stream_def by (metis length_map length_marked)

lemma holds_stream_seqs: "holds_stream rows es \<Longrightarrow> i < length rows \<Longrightarrow> er_seq (rows ! i) = int i + 1"
  unfolding holds_stream_def by (metis (no_types, lifting) add_0 length_map map_nth nth_map nth_upt)

lemma holds_stream_entries: "holds_stream rows es \<Longrightarrow> map feedEntryOf rows = map raw_log es"
proof -
  assume "holds_stream rows es"
  then have "map fst (map abs_row rows) = map fst (map (\<lambda>(e, b). (raw_log e, b)) (marked es))"
    by (simp only: holds_stream_def)
  moreover have "map fst (map (\<lambda>(e, b). (raw_log e, b)) (marked es)) = map raw_log es"
    by (induction es) simp_all
  ultimately show ?thesis by (simp add: abs_row_def comp_def)
qed

lemma high_water_numbered: "holds_stream rows es \<Longrightarrow> high_water rows = int (length rows)"
proof (cases rows rule: rev_cases)
  case (snoc rs r)
  assume h: "holds_stream rows es"
  have "er_seq ` set rows = (\<lambda>i. int i + 1) ` {0..<length rows}"
    using h unfolding holds_stream_def by (metis (no_types, lifting) list.set_map set_upt)
  moreover have "Max ((\<lambda>i. int i + 1) ` {0..<length rows}) = int (length rows)"
  proof (rule Max_eqI)
    show "int (length rows) \<in> (\<lambda>i. int i + 1) ` {0..<length rows}"
      using snoc by (auto intro!: image_eqI[of _ _ "length rs"])
  qed auto
  ultimately show ?thesis using snoc by (simp add: high_water_def)
qed (simp add: high_water_def)

lemma abs_row_flag:
  "abs_row (flag_retracted k x r) =
    (fst (abs_row r), snd (abs_row r) \<and> \<not> (er_key r = k \<and> \<not> er_removed r \<and> same_log x (fst (abs_row r))))"
  by (auto simp: abs_row_def flag_retracted_def same_log_def feedEntryOf_def entryOf_def)

lemma marked_alive: "(e, b) \<in> set (marked es) \<Longrightarrow> b \<Longrightarrow> \<not> removed e"
  by (induction es) auto

lemma live_row_not_removed:
  assumes "holds_stream rows es" and "r \<in> set rows" and "er_alive r"
  shows "\<not> er_removed r"
proof -
  have "abs_row r \<in> (\<lambda>(e, b). (raw_log e, b)) ` set (marked es)"
    using assms(1,2) unfolding holds_stream_def by (metis image_eqI list.set_map)
  then obtain e b where "(e, b) \<in> set (marked es)" "abs_row r = (raw_log e, b)" by auto
  then show ?thesis
    using marked_alive[of e b es] assms(3) by (auto simp: abs_row_def dest: arg_cong[of _ _ removed])
qed

definition push_row :: "stream_key \<Rightarrow> 'a log_event \<Rightarrow> emission_row list \<Rightarrow> emission_row list" where
  "push_row k x rows =
     (if removed x then map (flag_retracted k x) rows else rows) @ [insertOf k (int (length rows) + 1) x]"

lemma length_push_row [simp]: "length (push_row k x rows) = Suc (length rows)"
  by (simp add: push_row_def)

lemma push_row_keys: "\<forall>r \<in> set rows. er_key r = k \<Longrightarrow> \<forall>r \<in> set (push_row k x rows). er_key r = k"
  by (auto simp: push_row_def)

lemma holds_stream_snoc:
  assumes h: "holds_stream rows es" and k: "\<forall>r \<in> set rows. er_key r = k"
  shows "holds_stream (push_row k x rows) (es @ [x])"
proof -
  define rows' where "rows' = (if removed x then map (flag_retracted k x) rows else rows)"
  have flag: "abs_row (flag_retracted k x r) = (\<lambda>(l, b). (l, b \<and> \<not> same_log x l)) (abs_row r)" if "r \<in> set rows" for r
    using live_row_not_removed[OF h that] k that unfolding abs_row_flag by (auto simp: abs_row_def)
  have "map abs_row rows' = map (\<lambda>(l, b). (l, b \<and> (removed x \<longrightarrow> \<not> same_log x l))) (map abs_row rows)"
    using flag by (auto simp: rows'_def case_prod_beta)
  also have "map abs_row rows = map (\<lambda>(e, b). (raw_log e, b)) (marked es)" using h by (simp add: holds_stream_def)
  finally have old: "map abs_row rows' =
      map (\<lambda>(e, b). (raw_log e, b)) (map (\<lambda>(e, b). (e, b \<and> (removed x \<longrightarrow> \<not> same_log x e))) (marked es))"
    by (simp add: case_prod_beta comp_def)
  have new: "abs_row (insertOf k n x) = (raw_log x, \<not> removed x)" for n by (simp add: abs_row_def)
  have "map er_seq rows' = map er_seq rows" "length rows' = length rows" by (simp_all add: rows'_def comp_def)
  then have "map er_seq (push_row k x rows) = map (\<lambda>i. int i + 1) [0..<length (push_row k x rows)]"
    using h unfolding holds_stream_def push_row_def rows'_def[symmetric] by simp
  moreover have "map abs_row (push_row k x rows) = map (\<lambda>(e, b). (raw_log e, b)) (marked (es @ [x]))"
    unfolding push_row_def rows'_def[symmetric] marked_snoc map_append old by (simp only: list.map new split_conv)
  ultimately show ?thesis unfolding holds_stream_def by (rule conjI[rotated])
qed

lemma append_rows_push: "append_rows k (int (length rows)) es rows = fold (push_row k) es rows"
proof (induction es arbitrary: rows)
  case Nil
  then show ?case by simp
next
  case (Cons x es)
  have "append_rows k (int (length rows)) (x # es) rows = append_rows k (int (length rows) + 1) es (push_row k x rows)"
    unfolding push_row_def by simp
  also have "int (length rows) + 1 = int (length (push_row k x rows))" by simp
  also note Cons.IH[of "push_row k x rows"]
  finally show ?case by simp
qed

lemma append_rows_holds:
  assumes "holds_stream rows pre" and "\<forall>r \<in> set rows. er_key r = k"
  shows "holds_stream (append_rows k (int (length rows)) es rows) (pre @ es)"
  unfolding append_rows_push using assms
proof (induction es arbitrary: rows pre)
  case Nil
  then show ?case by simp
next
  case (Cons x es)
  have "holds_stream (push_row k x rows) (pre @ [x])"
    using holds_stream_snoc Cons.prems by (metis list.set_intros(1))
  from Cons.IH[OF this push_row_keys[OF Cons.prems(2)]] show ?case by simp
qed

definition emitted_to :: "stream_key \<Rightarrow> 'a emission_append list \<Rightarrow> 'a log_event list" where
  "emitted_to k aps = concat (map ea_emissions (filter (\<lambda>ap. ea_key ap = k) aps))"

lemma append_holds:
  assumes "holds_stream (rows_of k db) pre"
  shows "holds_stream (rows_of k (appendEmissions ap db)) (if ea_key ap = k then pre @ ea_emissions ap else pre)"
  using assms append_rows_holds[of "rows_of k db" pre k "ea_emissions ap"]
  by (simp add: rows_of_append high_water_numbered) (simp add: rows_of_def)

lemma appends_hold:
  assumes "holds_stream (rows_of k db) pre"
  shows "holds_stream (rows_of k (fold appendEmissions aps db)) (pre @ emitted_to k aps)"
  using assms
proof (induction aps arbitrary: db pre)
  case Nil
  then show ?case by (simp add: emitted_to_def)
next
  case (Cons ap aps)
  have "holds_stream (rows_of k (appendEmissions ap db)) (if ea_key ap = k then pre @ ea_emissions ap else pre)"
    by (rule append_holds) (use Cons.prems in auto)
  from Cons.IH[OF this] show ?case by (auto simp: emitted_to_def split: if_splits)
qed

lemma empty_holds: "holds_stream (rows_of k empty_db) []"
  by (simp add: holds_stream_def rows_of_def empty_db_def)


subsection \<open>The canonical view\<close>

definition log_position :: "'a log_event \<Rightarrow> canonical_position" where
  "log_position e = (blockNumber e, logIndex e)"

definition in_view :: "int \<Rightarrow> canonical_position \<Rightarrow> 'a log_event \<Rightarrow> bool" where
  "in_view gate after e \<longleftrightarrow> blockNumber e \<le> gate \<and>
     (blockNumber e > fst after \<or> (blockNumber e = fst after \<and> logIndex e > snd after))"

lemma map_insort_key:
  assumes "\<forall>y \<in> set (x # xs). k' (f y) = k y"
  shows "map f (insort_key k x xs) = insort_key k' (f x) (map f xs)"
  using assms by (induction xs) auto

lemma map_sort_key:
  assumes "\<forall>y \<in> set xs. k' (f y) = k y"
  shows "map f (sort_key k xs) = sort_key k' (map f xs)"
  using assms
proof (induction xs)
  case Nil
  then show ?case by simp
next
  case (Cons x xs)
  then show ?case by (simp add: map_insort_key)
qed

lemma map_filter_same: "\<forall>x \<in> set xs. Q (f x) = P x \<Longrightarrow> map f (filter P xs) = filter Q (map f xs)"
  by (induction xs) simp_all

lemma live_rows_stand:
  assumes "holds_stream rows es"
  shows "map entryOf (filter er_alive rows) = map raw_log (standing es)"
proof -
  have "map fst (filter snd (map abs_row rows)) = map fst (filter snd (map (\<lambda>(e, b). (raw_log e, b)) (marked es)))"
    using assms by (simp only: holds_stream_def)
  moreover have "filter snd (map abs_row rows) = map abs_row (filter er_alive rows)"
    by (rule map_filter_same[symmetric]) (simp add: abs_row_def)
  moreover have "map fst (filter snd (map (\<lambda>(e, b). (raw_log e, b)) (marked es))) = map raw_log (standing es)"
    unfolding standing_def by (induction es) simp_all
  ultimately have "map feedEntryOf (filter er_alive rows) = map raw_log (standing es)"
    by (simp add: abs_row_def comp_def)
  moreover have "map entryOf (filter er_alive rows) = map feedEntryOf (filter er_alive rows)"
  proof (rule map_cong[OF refl])
    fix r assume "r \<in> set (filter er_alive rows)"
    then have "\<not> er_removed r" using live_row_not_removed[OF assms] by simp
    then show "entryOf r = feedEntryOf r" by (simp add: feedEntryOf_def entryOf_def)
  qed
  ultimately show ?thesis by simp
qed

lemma entryOf_simps [simp]:
  "blockNumber (entryOf r) = er_blockNumber r" "logIndex (entryOf r) = er_logIndex r" "blockHash (entryOf r) = er_blockHash r"
  by (simp_all add: entryOf_def)

lemma canonical_rows_stand:
  assumes "holds_stream (rows_of k db) es"
  shows "map entryOf (canonical_rows db k gate after) =
    sort_key log_position (filter (in_view gate after) (map raw_log (standing es)))"
proof -
  let ?in = "\<lambda>r. er_blockNumber r \<le> gate \<and>
    (er_blockNumber r > fst after \<or> (er_blockNumber r = fst after \<and> er_logIndex r > snd after))"
  have "canonical_rows db k gate after = sort_key row_position (filter ?in (filter er_alive (rows_of k db)))"
    by (simp add: canonical_rows_def conj_commute conj_left_commute)
  also have "map entryOf \<dots> = sort_key log_position (map entryOf (filter ?in (filter er_alive (rows_of k db))))"
    by (rule map_sort_key) (simp add: log_position_def row_position_def)
  also have "map entryOf (filter ?in (filter er_alive (rows_of k db))) =
      filter (in_view gate after) (map entryOf (filter er_alive (rows_of k db)))"
    by (rule map_filter_same) (simp add: in_view_def)
  finally show ?thesis by (simp only: live_rows_stand[OF assms])
qed

definition page_of :: "unit log_event list \<Rightarrow> nat \<Rightarrow> canonical_page" where
  "page_of view limit =
     \<lparr>cp_entries = take limit view,
      cp_last = (if take limit view = [] then None
                 else Some (log_position (last (take limit view)), blockHash (last (take limit view)))),
      cp_hasMore = (limit < length view)\<rparr>"

lemma readCanonicalView_page:
  assumes "map entryOf (canonical_rows db k gate after) = view"
  shows "readCanonicalView db k gate after limit = page_of view limit"
proof -
  define rows where "rows = canonical_rows db k gate after"
  have view: "view = map entryOf rows" using assms by (simp add: rows_def)
  have page: "(if length (take (limit + 1) rows) > limit then take limit (take (limit + 1) rows) else take (limit + 1) rows)
      = take limit rows" by (auto simp: min_def)
  have more: "length (take (limit + 1) rows) > limit \<longleftrightarrow> limit < length view" by (auto simp: view min_def)
  have last: "take limit rows \<noteq> [] \<Longrightarrow> last (take limit view) = entryOf (last (take limit rows))"
    unfolding view take_map by (rule last_map)
  show ?thesis
    unfolding readCanonicalView_def Let_def rows_def[symmetric] page page_of_def
    using more last
    by (cases "take limit rows = []") (simp_all add: view take_map log_position_def row_position_def del: take_eq_Nil)
qed

text \<open>
  C20. The canonical view answers exactly what stands. Whatever batches were appended, for this stream
  and any other, a page of the view holds the emissions that no later retraction took back, each
  once and unchanged, at or below the gate and after the cursor, in chain order.
\<close>

theorem canonical_view_is_what_stands:
  "readCanonicalView (fold appendEmissions aps empty_db) k gate after limit =
    page_of (sort_key log_position (filter (in_view gate after) (map raw_log (standing (emitted_to k aps))))) limit"
  using appends_hold[OF empty_holds, of k] by (intro readCanonicalView_page canonical_rows_stand) simp

definition sample_append :: "string \<Rightarrow> unit log_event list \<Rightarrow> unit emission_append" where
  "sample_append stream es =
     \<lparr>ea_key = (''main'', stream),
      ea_coverage = \<lparr>sc_source = [], sc_config = ''c'', sc_latestBlock = 9, sc_lastFromBlock = 0, sc_lastToBlock = 9\<rparr>,
      ea_emissions = es\<rparr>"

definition sample_appends :: "unit emission_append list" where
  "sample_appends =
     [sample_append ''s'' [sample_log 1 ''a1'' 0, sample_log 2 ''a2'' 0], sample_append ''t'' [sample_log 2 ''a2'' 0],
      sample_append ''s'' [(sample_log 2 ''a2'' 0)\<lparr>removed := True\<rparr>, sample_log 2 ''b2'' 0]]"

theorem canonical_view_is_what_stands_witness:
  "map blockHash (cp_entries (readCanonicalView (fold appendEmissions sample_appends empty_db) (''main'', ''s'') 5
     CANONICAL_START_POSITION 10)) = [''a1'', ''b2'']"
  unfolding canonical_view_is_what_stands
  by (simp add: sample_appends_def sample_append_def emitted_to_def standing_def same_log_def page_of_def in_view_def
      log_position_def CANONICAL_START_POSITION_def)


subsection \<open>A consumer of the feed\<close>

text \<open>
  A consumer that keeps the position each page returns, between appends of any size and to any
  stream: \<open>Polled n\<close> asks for at most \<open>n\<close> entries and adds what it gets.
\<close>

datatype 'a feed_event = Appended "'a emission_append" | Polled nat

fun feed_run :: "stream_key \<Rightarrow> 'a feed_event list \<Rightarrow> emission_db \<times> int \<times> unit log_event list
    \<Rightarrow> emission_db \<times> int \<times> unit log_event list" where
  "feed_run k [] s = s"
| "feed_run k (Appended ap # evs) (db, pos, got) = feed_run k evs (appendEmissions ap db, pos, got)"
| "feed_run k (Polled n # evs) (db, pos, got) =
     (let page = readStreamFeed db k pos n in feed_run k evs (db, fp_position page, got @ fp_entries page))"

fun appends_of :: "'a feed_event list \<Rightarrow> 'a emission_append list" where
  "appends_of [] = []"
| "appends_of (Appended ap # evs) = ap # appends_of evs"
| "appends_of (Polled n # evs) = appends_of evs"

lemma take_min_add: "take (min (length xs) (m + n)) xs = take m xs @ take n (drop m xs)"
proof -
  have "take (min (length xs) (m + n)) xs = take (m + n) xs" by (simp add: min_def)
  then show ?thesis by (simp only: take_add)
qed

lemma filter_above:
  assumes "holds_stream rows es" and "m \<le> length rows"
  shows "filter (\<lambda>r. er_seq r > int m) rows = drop m rows"
proof -
  have "filter (\<lambda>r. er_seq r > int m) (take m rows) = []"
    using assms holds_stream_seqs[OF assms(1)] by (auto simp: filter_empty_conv in_set_conv_nth)
  moreover have "filter (\<lambda>r. er_seq r > int m) (drop m rows) = drop m rows"
    using assms holds_stream_seqs[OF assms(1)] by (auto simp: filter_id_conv in_set_conv_nth)
  ultimately show ?thesis using filter_append[of _ "take m rows" "drop m rows"] by (metis append_Nil append_take_drop_id)
qed

lemma rows_sorted:
  assumes "holds_stream rows es"
  shows "sorted (map er_seq (drop m rows))"
proof -
  have "map er_seq (drop m rows) = map (\<lambda>i. int i + 1) (drop m [0..<length rows])"
    using assms unfolding holds_stream_def by (metis drop_map)
  then show ?thesis by (simp add: sorted_map sorted_wrt_upt)
qed

lemma readStreamFeed_page:
  assumes h: "holds_stream (rows_of k db) es" and m: "m \<le> length es"
  shows "fp_entries (readStreamFeed db k (int m) n) = map raw_log (take n (drop m es))"
    and "fp_position (readStreamFeed db k (int m) n) = int (min (length es) (m + n))"
    and "fp_hasMore (readStreamFeed db k (int m) n) \<longleftrightarrow> m + n < length es"
proof -
  define rows where "rows = rows_of k db"
  have h': "holds_stream rows es" and len: "length rows = length es"
    using h holds_stream_length[OF h] by (simp_all add: rows_def)
  have q: "sort_key er_seq (filter (\<lambda>r. er_seq r > int m) rows) = drop m rows"
    using filter_above[OF h'] m len by (simp add: sort_key_sorted_id rows_sorted[OF h'])
  define page where "page = take n (drop m rows)"
  have page: "(if m + n < length es then take n (take (n + 1) (drop m rows)) else take (n + 1) (drop m rows)) = page"
    using len by (auto simp: page_def min_def)
  have more: "length (take (n + 1) (drop m rows)) > n \<longleftrightarrow> m + n < length es" using len by auto
  have read: "readStreamFeed db k (int m) n = \<lparr>fp_entries = map feedEntryOf page,
      fp_position = (if page \<noteq> [] then er_seq (last page) else int m), fp_hasMore = (m + n < length es)\<rparr>"
    unfolding readStreamFeed_def Let_def rows_def[symmetric] q more page ..
  show "fp_entries (readStreamFeed db k (int m) n) = map raw_log (take n (drop m es))"
    unfolding read page_def using holds_stream_entries[OF h'] by (simp flip: take_map drop_map)
  show "fp_hasMore (readStreamFeed db k (int m) n) \<longleftrightarrow> m + n < length es" by (simp add: read)
  have "er_seq (last page) = int (min (length es) (m + n))" if "page \<noteq> []"
  proof -
    have "length page = min (length es) (m + n) - m" using len by (auto simp: page_def)
    moreover have "last page = page ! (length page - 1)" using that by (rule last_conv_nth)
    moreover have "0 < length page" using that by simp
    ultimately have "last page = rows ! (min (length es) (m + n) - 1)" "m < min (length es) (m + n)"
      by (auto simp: page_def)
    moreover from this(2) have "min (length es) (m + n) - 1 < length rows" "0 < min (length es) (m + n)"
      using len by linarith+
    ultimately show ?thesis using holds_stream_seqs[OF h', of "min (length es) (m + n) - 1"] by simp
  qed
  moreover have "page = [] \<Longrightarrow> int m = int (min (length es) (m + n))" using m len by (auto simp: page_def)
  ultimately show "fp_position (readStreamFeed db k (int m) n) = int (min (length es) (m + n))" by (simp add: read)
qed

lemma feed_run_keeps:
  assumes "holds_stream (rows_of k db) es" and "m \<le> length es" and "got = map raw_log (take m es)"
  shows "\<exists>db' m'. feed_run k evs (db, int m, got) = (db', int m', map raw_log (take m' (es @ emitted_to k (appends_of evs)))) \<and>
    m' \<le> length (es @ emitted_to k (appends_of evs)) \<and>
    holds_stream (rows_of k db') (es @ emitted_to k (appends_of evs))"
  using assms
proof (induction evs arbitrary: db m got es)
  case Nil
  then show ?case by (auto simp: emitted_to_def)
next
  case (Cons ev evs)
  show ?case
  proof (cases ev)
    case (Appended ap)
    define es' where "es' = (if ea_key ap = k then es @ ea_emissions ap else es)"
    have h: "holds_stream (rows_of k (appendEmissions ap db)) es'"
      unfolding es'_def by (rule append_holds) (use Cons.prems Appended in auto)
    have m: "m \<le> length es'" "got = map raw_log (take m es')" using Cons.prems(2,3) by (simp_all add: es'_def)
    have "es @ emitted_to k (appends_of (ev # evs)) = es' @ emitted_to k (appends_of evs)"
      by (simp add: Appended es'_def emitted_to_def)
    then show ?thesis using Cons.IH[OF h m] Appended by simp
  next
    case (Polled n)
    let ?m = "min (length es) (m + n)"
    have got: "got @ fp_entries (readStreamFeed db k (int m) n) = map raw_log (take ?m es)"
      using readStreamFeed_page(1)[OF Cons.prems(1,2)] Cons.prems(3) by (simp add: take_min_add)
    from Cons.IH[OF Cons.prems(1) _ got] Polled show ?thesis
      by (simp add: readStreamFeed_page(2)[OF Cons.prems(1,2)] Let_def)
  qed
qed

lemma polls_catch_up:
  assumes "holds_stream (rows_of k db) es" and "m \<le> length es" and "got = map raw_log (take m es)"
    and "length es \<le> m + sum_list ns"
  shows "snd (snd (feed_run k (map Polled ns) (db, int m, got))) = map raw_log es"
  using assms
proof (induction ns arbitrary: m got)
  case Nil
  then show ?case by simp
next
  case (Cons n ns)
  let ?m = "min (length es) (m + n)"
  have got: "got @ fp_entries (readStreamFeed db k (int m) n) = map raw_log (take ?m es)"
    using readStreamFeed_page(1)[OF Cons.prems(1,2)] Cons.prems(3) by (simp add: take_min_add)
  from Cons.IH[OF Cons.prems(1) _ got] Cons.prems(4) show ?case
    by (simp add: readStreamFeed_page(2)[OF Cons.prems(1,2)] Let_def)
qed

text \<open>
  C22. A consumer of the feed gets the whole stream. However appends and page reads interleave, what it
  holds is a gap-free prefix of the emissions, each once and in order, and as soon as it has asked
  for at least as many entries as are outstanding it holds them all.
\<close>

theorem feed_delivers_every_emission:
  fixes evs :: "'a feed_event list"
  assumes "feed_run k evs (empty_db, FEED_START_POSITION, []) = (db, pos, got)"
  shows "got = map raw_log (take (nat pos) (emitted_to k (appends_of evs))) \<and>
    (length (emitted_to k (appends_of evs)) \<le> nat pos + sum_list ns \<longrightarrow>
      snd (snd (feed_run k (map Polled ns :: 'a feed_event list) (db, pos, got))) = map raw_log (emitted_to k (appends_of evs)))"
proof -
  obtain m where m: "pos = int m" "got = map raw_log (take m (emitted_to k (appends_of evs)))"
    "m \<le> length (emitted_to k (appends_of evs))" "holds_stream (rows_of k db) (emitted_to k (appends_of evs))"
    using feed_run_keeps[OF empty_holds, of 0 "[]" k evs] assms by (auto simp: FEED_START_POSITION_def)
  then show ?thesis by (auto intro: polls_catch_up[OF m(4,3)])
qed

definition sample_feed :: "unit feed_event list" where
  "sample_feed = [Appended (sample_appends ! 0), Polled 1, Appended (sample_appends ! 1), Appended (sample_appends ! 2), Polled 1]"

theorem feed_delivers_every_emission_witness:
  "\<exists>db pos got. feed_run (''main'', ''s'') sample_feed (empty_db, FEED_START_POSITION, []) = (db, pos, got) \<and>
     length got = nat pos \<and>
     snd (snd (feed_run (''main'', ''s'') (map Polled [1, 1] :: unit feed_event list) (db, pos, got))) =
       map raw_log (emitted_to (''main'', ''s'') (appends_of sample_feed))"
proof -
  obtain db pos got where run: "feed_run (''main'', ''s'') sample_feed (empty_db, FEED_START_POSITION, []) = (db, pos, got)"
    by (cases "feed_run (''main'', ''s'') sample_feed (empty_db, FEED_START_POSITION, [])") auto
  have "pos = 2" using run
    by (simp add: sample_feed_def sample_appends_def sample_append_def FEED_START_POSITION_def empty_db_def readStreamFeed_def
        appendEmissions_def rows_of_def readStreamHighWaterMark_def Let_def flag_retracted_def)
  moreover have "length (emitted_to (''main'', ''s'') (appends_of sample_feed)) = 4"
    by (simp add: emitted_to_def sample_feed_def sample_appends_def sample_append_def)
  ultimately show ?thesis using feed_delivers_every_emission[OF run, of "[1, 1]"] run by (intro exI conjI) auto
qed

end
