(* ===== verification/Emission_Compaction.thy ===== *)
theory Emission_Compaction
  imports Emission_Store "HOL-Library.Multiset"
begin

section \<open>Compaction of retracted pairs\<close>

text \<open>
  \<open>packages/server/src/compaction.ts\<close>: one bounded call finds, below a depth no smaller than
  the finality, dead applications and the retractions that killed them, pairs them and deletes
  both rows. The rows deleted by one call are named by their position.
\<close>

datatype pair_compaction_setting = CompactOff | CompactBlocks jsnum | CompactMalformed

datatype pair_compaction = CompactionOff | CompactionWindow int

datatype compaction_error =
    NotADepth
  | NegativeDepth
  | NoFinality int
  | InvalidFinality
  | DepthBelowFinality int int
  | InvalidLatestBlock
  | InvalidBudget

definition resolvePairCompaction :: "pair_compaction_setting option \<Rightarrow> jsnum option
    \<Rightarrow> (compaction_error, pair_compaction) result" where
  "resolvePairCompaction setting finality =
     (case setting of
        None \<Rightarrow> Inr CompactionOff
      | Some CompactOff \<Rightarrow> Inr CompactionOff
      | Some CompactMalformed \<Rightarrow> Inl NotADepth
      | Some (CompactBlocks NotWhole) \<Rightarrow> Inl NegativeDepth
      | Some (CompactBlocks (Whole blocks)) \<Rightarrow>
          if blocks < 0 then Inl NegativeDepth
          else
            (case finality of
               None \<Rightarrow> Inl (NoFinality blocks)
             | Some NotWhole \<Rightarrow> Inl InvalidFinality
             | Some (Whole f) \<Rightarrow>
                 if f < 0 then Inl InvalidFinality
                 else if blocks < f then Inl (DepthBelowFinality blocks f)
                 else Inr (CompactionWindow blocks)))"

definition DEFAULT_MAX_PAIRS :: nat where "DEFAULT_MAX_PAIRS = 490"

definition PAIRS_PER_STATEMENT :: nat where "PAIRS_PER_STATEMENT = 49"

definition budgetOf :: "jsnum option \<Rightarrow> (compaction_error, nat) result" where
  "budgetOf maxPairs =
     (case maxPairs of
        None \<Rightarrow> Inr DEFAULT_MAX_PAIRS
      | Some NotWhole \<Rightarrow> Inl InvalidBudget
      | Some (Whole n) \<Rightarrow> if n < 1 then Inl InvalidBudget else Inr (nat n))"

type_synonym log_key = "int \<times> int \<times> string"

definition row_log :: "emission_row \<Rightarrow> log_key" where
  "row_log r = (er_blockNumber r, er_logIndex r, er_blockHash r)"

record pairing =
  pg_pairs :: "(int \<times> int) list"
  pg_group :: "log_key option"
  pg_dead :: "int list"
  pg_retractions :: "int list"

fun close_pairs :: "nat \<Rightarrow> int list \<Rightarrow> int list \<Rightarrow> (int \<times> int) list \<Rightarrow> (int \<times> int) list" where
  "close_pairs maxPairs (d # ds) (r # rs) pairs =
     (if length pairs < maxPairs then close_pairs maxPairs ds rs (pairs @ [(d, r)]) else pairs)"
| "close_pairs maxPairs _ _ pairs = pairs"

definition close_group :: "nat \<Rightarrow> pairing \<Rightarrow> pairing" where
  "close_group maxPairs p =
     p\<lparr>pg_pairs := close_pairs maxPairs (pg_dead p) (pg_retractions p) (pg_pairs p), pg_dead := [], pg_retractions := []\<rparr>"

definition pair_row :: "nat \<Rightarrow> emission_row \<Rightarrow> pairing \<Rightarrow> pairing" where
  "pair_row maxPairs r p =
     (let q = (if Some (row_log r) \<noteq> pg_group p then (close_group maxPairs p)\<lparr>pg_group := Some (row_log r)\<rparr> else p)
      in if er_removed r then q\<lparr>pg_retractions := pg_retractions q @ [er_seq r]\<rparr>
         else q\<lparr>pg_dead := pg_dead q @ [er_seq r]\<rparr>)"

definition pairsIn :: "emission_row list \<Rightarrow> nat \<Rightarrow> (int \<times> int) list" where
  "pairsIn rows maxPairs =
     pg_pairs (close_group maxPairs
       (fold (pair_row maxPairs) rows \<lparr>pg_pairs = [], pg_group = None, pg_dead = [], pg_retractions = []\<rparr>))"

definition seqs_of :: "(int \<times> int) list \<Rightarrow> int list" where
  "seqs_of pairs = concat (map (\<lambda>(dead, retraction). [dead, retraction]) pairs)"

function deletionsOf :: "(int \<times> int) list \<Rightarrow> int list list" where
  "deletionsOf pairs =
     (if pairs = [] then []
      else seqs_of (take PAIRS_PER_STATEMENT pairs) # deletionsOf (drop PAIRS_PER_STATEMENT pairs))"
  by auto
termination by (relation "measure length") (auto simp: PAIRS_PER_STATEMENT_def)

declare deletionsOf.simps [simp del]

definition delete_seqs :: "stream_key \<Rightarrow> int list \<Rightarrow> emission_row list \<Rightarrow> emission_row list" where
  "delete_seqs k seqs rows = filter (\<lambda>r. \<not> (er_key r = k \<and> er_seq r \<in> set seqs)) rows"

record compaction_query =
  cq_key :: stream_key
  cq_compaction :: "pair_compaction_setting option"
  cq_finality :: "jsnum option"
  cq_latestBlock :: jsnum
  cq_maxPairs :: "jsnum option"

record compaction_report =
  cr_floor :: "int option"
  cr_pairsCompacted :: nat
  cr_rowsDeleted :: nat
  cr_scanned :: nat
  cr_complete :: bool

definition scan_order :: "emission_row \<Rightarrow> int \<times> int \<times> string \<times> int" where
  "scan_order r = (er_blockNumber r, er_logIndex r, er_blockHash r, er_seq r)"

definition compaction_candidates :: "emission_db \<Rightarrow> stream_key \<Rightarrow> int \<Rightarrow> nat \<Rightarrow> emission_row list" where
  "compaction_candidates db k floor scanLimit =
     take scanLimit (sort_key scan_order (filter (\<lambda>r. \<not> er_alive r \<and> er_blockNumber r < floor) (rows_of k db)))"

definition compactEmissionPairs :: "compaction_query \<Rightarrow> emission_db
    \<Rightarrow> (compaction_error, emission_db \<times> compaction_report) result" where
  "compactEmissionPairs q db =
     and_then (resolvePairCompaction (cq_compaction q) (cq_finality q)) (\<lambda>compaction.
       case compaction of
         CompactionOff \<Rightarrow>
           Inr (db, \<lparr>cr_floor = None, cr_pairsCompacted = 0, cr_rowsDeleted = 0, cr_scanned = 0, cr_complete = True\<rparr>)
       | CompactionWindow blocks \<Rightarrow>
           if \<not> is_block_number (cq_latestBlock q) then Inl InvalidLatestBlock
           else and_then (budgetOf (cq_maxPairs q)) (\<lambda>maxPairs.
             let floor = max 0 (whole (cq_latestBlock q) - blocks);
                 scanLimit = maxPairs * 2;
                 candidates = compaction_candidates db (cq_key q) floor scanLimit;
                 pairs = pairsIn candidates maxPairs
             in Inr (db\<lparr>ed_rows := fold (delete_seqs (cq_key q)) (deletionsOf pairs) (ed_rows db)\<rparr>,
                  \<lparr>cr_floor = Some floor, cr_pairsCompacted = length pairs, cr_rowsDeleted = length pairs * 2,
                   cr_scanned = length candidates, cr_complete = (length candidates < scanLimit)\<rparr>)))"

subsection \<open>What a call deletes\<close>

lemma fold_delete_seqs: "fold (delete_seqs k) seqss rows = delete_seqs k (concat seqss) rows"
  by (induction seqss arbitrary: rows) (auto simp: delete_seqs_def intro!: filter_cong)

lemma concat_deletions: "concat (deletionsOf pairs) = seqs_of pairs"
proof (induction pairs rule: deletionsOf.induct)
  case (1 pairs)
  show ?case
  proof (cases "pairs = []")
    case True
    then show ?thesis by (simp add: deletionsOf.simps seqs_of_def)
  next
    case False
    have "seqs_of pairs = seqs_of (take PAIRS_PER_STATEMENT pairs) @ seqs_of (drop PAIRS_PER_STATEMENT pairs)"
      unfolding seqs_of_def by (metis append_take_drop_id concat_append map_append)
    then show ?thesis using 1[OF False] False by (simp add: deletionsOf.simps[of pairs])
  qed
qed

lemma mset_seqs: "mset (seqs_of pairs) = mset (map fst pairs) + mset (map snd pairs)"
  by (induction pairs) (auto simp: seqs_of_def)

lemma close_pairs_sub:
  "mset (seqs_of (close_pairs m ds rs pairs)) \<subseteq># mset (seqs_of pairs) + mset ds + mset rs"
proof (induction m ds rs pairs rule: close_pairs.induct)
  case (1 m d ds r rs pairs)
  show ?case
  proof (cases "length pairs < m")
    case True
    then have "mset (seqs_of (close_pairs m (d # ds) (r # rs) pairs)) \<subseteq># mset (seqs_of (pairs @ [(d, r)])) + mset ds + mset rs"
      using 1 by simp
    also have "\<dots> = mset (seqs_of pairs) + mset (d # ds) + mset (r # rs)" by (simp add: seqs_of_def)
    finally show ?thesis .
  qed (simp add: add.assoc)
qed simp_all

lemma close_pairs_length: "length pairs \<le> m \<Longrightarrow> length (close_pairs m ds rs pairs) \<le> m"
  by (induction m ds rs pairs rule: close_pairs.induct) auto

definition pairing_seqs :: "pairing \<Rightarrow> int multiset" where
  "pairing_seqs p = mset (seqs_of (pg_pairs p)) + mset (pg_dead p) + mset (pg_retractions p)"

lemma close_group_seqs: "pairing_seqs (close_group m p) \<subseteq># pairing_seqs p"
  using close_pairs_sub by (simp add: pairing_seqs_def close_group_def)

lemma pair_row_seqs: "pairing_seqs (pair_row m r p) \<subseteq># add_mset (er_seq r) (pairing_seqs p)"
proof -
  define q where "q = (if Some (row_log r) \<noteq> pg_group p then (close_group m p)\<lparr>pg_group := Some (row_log r)\<rparr> else p)"
  have "pairing_seqs q \<subseteq># pairing_seqs p"
    using close_group_seqs[of m p] by (auto simp: q_def pairing_seqs_def)
  moreover have "pairing_seqs (pair_row m r p) = add_mset (er_seq r) (pairing_seqs q)"
    by (simp add: pair_row_def q_def[symmetric] pairing_seqs_def)
  ultimately show ?thesis by simp
qed

lemma fold_pair_seqs: "pairing_seqs (fold (pair_row m) rows p) \<subseteq># mset (map er_seq rows) + pairing_seqs p"
proof (induction rows arbitrary: p)
  case Nil
  then show ?case by simp
next
  case (Cons r rows)
  have "pairing_seqs (fold (pair_row m) rows (pair_row m r p)) \<subseteq># mset (map er_seq rows) + pairing_seqs (pair_row m r p)"
    by (rule Cons.IH)
  also have "\<dots> \<subseteq># mset (map er_seq (r # rows)) + pairing_seqs p"
    using pair_row_seqs[of m r p] by simp
  finally show ?case by simp
qed

lemma pairsIn_seqs: "mset (seqs_of (pairsIn rows m)) \<subseteq># mset (map er_seq rows)"
proof -
  let ?p = "fold (pair_row m) rows \<lparr>pg_pairs = [], pg_group = None, pg_dead = [], pg_retractions = []\<rparr>"
  have "mset (seqs_of (pairsIn rows m)) = pairing_seqs (close_group m ?p)"
    by (simp add: pairsIn_def pairing_seqs_def close_group_def)
  also have "\<dots> \<subseteq># pairing_seqs ?p" by (rule close_group_seqs)
  also have "\<dots> \<subseteq># mset (map er_seq rows)"
    using fold_pair_seqs[of m rows "\<lparr>pg_pairs = [], pg_group = None, pg_dead = [], pg_retractions = []\<rparr>"]
    by (simp add: pairing_seqs_def seqs_of_def)
  finally show ?thesis .
qed

lemma pair_row_length: "length (pg_pairs p) \<le> m \<Longrightarrow> length (pg_pairs (pair_row m r p)) \<le> m"
  by (simp add: pair_row_def Let_def close_group_def close_pairs_length)

lemma pairsIn_length: "length (pairsIn rows m) \<le> m"
proof -
  have "length (pg_pairs p) \<le> m \<Longrightarrow> length (pg_pairs (fold (pair_row m) rows p)) \<le> m" for p
    by (induction rows arbitrary: p) (simp_all add: pair_row_length)
  then show ?thesis by (simp add: pairsIn_def close_group_def close_pairs_length)
qed


text \<open>Every pair is an application and a retraction of one log.\<close>

definition seqs_at :: "emission_row set \<Rightarrow> bool \<Rightarrow> log_key \<Rightarrow> int set" where
  "seqs_at S rem g = {er_seq r | r. r \<in> S \<and> er_removed r = rem \<and> row_log r = g}"

definition matched :: "emission_row set \<Rightarrow> (int \<times> int) list \<Rightarrow> bool" where
  "matched S pairs \<longleftrightarrow> (\<forall>(d, r) \<in> set pairs. \<exists>g. d \<in> seqs_at S False g \<and> r \<in> seqs_at S True g)"

definition pairing_ok :: "emission_row set \<Rightarrow> pairing \<Rightarrow> bool" where
  "pairing_ok S p \<longleftrightarrow> matched S (pg_pairs p) \<and>
     (case pg_group p of
        None \<Rightarrow> pg_dead p = [] \<and> pg_retractions p = []
      | Some g \<Rightarrow> set (pg_dead p) \<subseteq> seqs_at S False g \<and> set (pg_retractions p) \<subseteq> seqs_at S True g)"

lemma matched_snoc: "matched S pairs \<Longrightarrow> d \<in> seqs_at S False g \<Longrightarrow> r \<in> seqs_at S True g \<Longrightarrow> matched S (pairs @ [(d, r)])"
  unfolding matched_def by (auto simp del: split_paired_Ex)

lemma close_pairs_matched:
  "matched S pairs \<Longrightarrow> set ds \<subseteq> seqs_at S False g \<Longrightarrow> set rs \<subseteq> seqs_at S True g \<Longrightarrow> matched S (close_pairs m ds rs pairs)"
  by (induction m ds rs pairs rule: close_pairs.induct) (auto intro: matched_snoc)

lemma close_group_matched:
  assumes "pairing_ok S p"
  shows "matched S (pg_pairs (close_group m p))"
  using assms close_pairs_matched[of S "pg_pairs p" "pg_dead p" _ "pg_retractions p" m]
  by (auto simp: pairing_ok_def close_group_def split: option.splits)

lemma pair_row_ok:
  assumes "pairing_ok S p" and "r \<in> S"
  shows "pairing_ok S (pair_row m r p)"
proof -
  define q where "q = (if Some (row_log r) \<noteq> pg_group p then (close_group m p)\<lparr>pg_group := Some (row_log r)\<rparr> else p)"
  have "pg_group q = Some (row_log r)" by (simp add: q_def)
  moreover have "pairing_ok S q"
    using assms(1) close_group_matched[OF assms(1), of m] by (auto simp: q_def pairing_ok_def close_group_def)
  moreover have "er_seq r \<in> seqs_at S (er_removed r) (row_log r)" using assms(2) by (auto simp: seqs_at_def)
  ultimately show ?thesis by (auto simp: pair_row_def q_def[symmetric] Let_def pairing_ok_def)
qed

lemma pairsIn_matched: "matched (set rows) (pairsIn rows m)"
proof -
  have "set rs \<subseteq> S \<Longrightarrow> pairing_ok S p \<Longrightarrow> pairing_ok S (fold (pair_row m) rs p)" for rs S p
    by (induction rs arbitrary: p) (simp_all add: pair_row_ok)
  from this[of rows "set rows" "\<lparr>pg_pairs = [], pg_group = None, pg_dead = [], pg_retractions = []\<rparr>"]
  show ?thesis unfolding pairsIn_def by (intro close_group_matched) (simp add: pairing_ok_def matched_def)
qed

subsection \<open>Runs of the table\<close>

datatype 'a store_step = AppendStep "'a emission_append" | CompactStep compaction_query

definition store_step :: "'a store_step \<Rightarrow> emission_db \<Rightarrow> emission_db" where
  "store_step st db =
     (case st of
        AppendStep ap \<Rightarrow> appendEmissions ap db
      | CompactStep q \<Rightarrow> (case compactEmissionPairs q db of Inl e \<Rightarrow> db | Inr (db', report) \<Rightarrow> db'))"

definition primary_key :: "emission_db \<Rightarrow> bool" where
  "primary_key db \<longleftrightarrow> (\<forall>k. distinct (map er_seq (rows_of k db)))"

lemma append_rows_distinct:
  assumes "distinct (map er_seq rows)" and "\<forall>r \<in> set rows. er_seq r \<le> s"
  shows "distinct (map er_seq (append_rows k s es rows))"
  using assms
proof (induction es arbitrary: s rows)
  case Nil
  then show ?case by simp
next
  case (Cons e es)
  define rows' where "rows' = (if removed e then map (flag_retracted k e) rows else rows)"
  have seqs: "map er_seq rows' = map er_seq rows" by (simp add: rows'_def comp_def)
  then have bound: "\<forall>r \<in> set rows'. er_seq r \<le> s" using Cons.prems(2) by (metis image_iff list.set_map)
  then have "s + 1 \<notin> er_seq ` set rows'" by force
  moreover have "distinct (map er_seq rows')" using Cons.prems(1) seqs by simp
  ultimately have "distinct (map er_seq (rows' @ [insertOf k (s + 1) e]))" by simp
  moreover have "\<forall>r \<in> set (rows' @ [insertOf k (s + 1) e]). er_seq r \<le> s + 1" using bound by force
  ultimately have "distinct (map er_seq (append_rows k (s + 1) es (rows' @ [insertOf k (s + 1) e])))" by (rule Cons.IH)
  then show ?case by (simp add: rows'_def)
qed

lemma high_water_bound: "r \<in> set rows \<Longrightarrow> er_seq r \<le> high_water rows"
  by (auto simp: high_water_def)

lemma append_primary_key: "primary_key db \<Longrightarrow> primary_key (appendEmissions ap db)"
  by (simp add: primary_key_def rows_of_append append_rows_distinct high_water_bound)

lemma rows_of_delete:
  "filter (\<lambda>r. er_key r = k') (delete_seqs k seqs rows) =
    (if k' = k then filter (\<lambda>r. er_seq r \<notin> set seqs) (filter (\<lambda>r. er_key r = k') rows) else filter (\<lambda>r. er_key r = k') rows)"
  by (auto simp: delete_seqs_def intro!: filter_cong)

lemma rows_of_deleted:
  "rows_of k' (db\<lparr>ed_rows := delete_seqs k seqs (ed_rows db)\<rparr>) =
    (if k' = k then filter (\<lambda>r. er_seq r \<notin> set seqs) (rows_of k' db) else rows_of k' db)"
  by (simp add: rows_of_def rows_of_delete del: filter_filter)

text \<open>A successful call in closed form: nothing, or the positions of some pairs of dead rows below the floor.\<close>

lemma compact_closed:
  assumes "compactEmissionPairs q db = Inr (db', report)"
  obtains (off) "db' = db" "cr_pairsCompacted report = 0" "cr_rowsDeleted report = 0"
  | (window) blocks latest m where "resolvePairCompaction (cq_compaction q) (cq_finality q) = Inr (CompactionWindow blocks)"
      "cq_latestBlock q = Whole latest" "0 \<le> latest" "budgetOf (cq_maxPairs q) = Inr m"
      "cr_pairsCompacted report = length (pairsIn (compaction_candidates db (cq_key q) (max 0 (latest - blocks)) (m * 2)) m)"
      "cr_rowsDeleted report = 2 * cr_pairsCompacted report"
      "db' = db\<lparr>ed_rows := delete_seqs (cq_key q)
         (seqs_of (pairsIn (compaction_candidates db (cq_key q) (max 0 (latest - blocks)) (m * 2)) m)) (ed_rows db)\<rparr>"
proof -
  from assms obtain c where c: "resolvePairCompaction (cq_compaction q) (cq_finality q) = Inr c"
    by (auto simp: compactEmissionPairs_def)
  show thesis
  proof (cases c)
    case CompactionOff
    with assms c show thesis by (intro off) (auto simp: compactEmissionPairs_def)
  next
    case (CompactionWindow blocks)
    with assms c have ok: "is_block_number (cq_latestBlock q)"
      by (auto simp: compactEmissionPairs_def split: if_splits)
    then obtain latest where latest: "cq_latestBlock q = Whole latest" "0 \<le> latest" by (rule is_block_numberE)
    from assms c CompactionWindow ok obtain m where m: "budgetOf (cq_maxPairs q) = Inr m"
      by (auto simp: compactEmissionPairs_def)
    show thesis
      using assms c CompactionWindow latest m
      by (intro window[of blocks latest m])
        (auto simp: compactEmissionPairs_def fold_delete_seqs concat_deletions Let_def)
  qed
qed

lemma compact_primary_key:
  assumes "primary_key db" and "compactEmissionPairs q db = Inr (db', report)"
  shows "primary_key db'"
  using assms(2)
proof (cases rule: compact_closed)
  case off
  then show ?thesis using assms(1) by simp
next
  case (window blocks latest m)
  show ?thesis using assms(1) unfolding primary_key_def window(7) rows_of_deleted
    by (simp add: distinct_map_filter del: split_paired_All)
qed

lemma run_primary_key: "primary_key (fold store_step steps empty_db)"
proof -
  have "primary_key (store_step st db)" if "primary_key db" for st :: "'a store_step" and db
    using that append_primary_key compact_primary_key
    by (auto simp: store_step_def split: store_step.splits sum.splits)
  then have "primary_key db \<Longrightarrow> primary_key (fold store_step steps db)" for db
    by (induction steps arbitrary: db) simp_all
  moreover have "primary_key empty_db" by (simp add: primary_key_def rows_of_def empty_db_def)
  ultimately show ?thesis by simp
qed


subsection \<open>Compaction changes no answer\<close>

lemma candidates_dead:
  assumes "r \<in> set (compaction_candidates db k floor n)"
  shows "r \<in> set (rows_of k db)" "\<not> er_alive r" "er_blockNumber r < floor"
  using in_set_takeD[OF assms[unfolded compaction_candidates_def]] by simp_all

lemma seq_unique:
  assumes "primary_key db" and "r \<in> set (rows_of k db)" and "r' \<in> set (rows_of k db)" and "er_seq r = er_seq r'"
  shows "r = r'"
  using assms by (metis distinct_map inj_onD primary_key_def)

lemma pair_seqs_dead:
  assumes pk: "primary_key db" and r: "r \<in> set (rows_of k db)"
    and s: "er_seq r \<in> set (seqs_of (pairsIn (compaction_candidates db k floor n) m))"
  shows "\<not> er_alive r" "er_blockNumber r < floor"
proof -
  have "er_seq r \<in># mset (map er_seq (compaction_candidates db k floor n))"
    using s mset_subset_eqD[OF pairsIn_seqs] by (metis set_mset_mset)
  then obtain c where c: "c \<in> set (compaction_candidates db k floor n)" "er_seq c = er_seq r" by auto
  then have "c = r" using seq_unique[OF pk candidates_dead(1)[OF c(1)] r] by simp
  with c(1) show "\<not> er_alive r" "er_blockNumber r < floor" using candidates_dead by blast+
qed

lemma delete_length:
  assumes "distinct (map er_seq rows)" and "mset ss \<subseteq># mset (map er_seq rows)"
  shows "length (filter (\<lambda>r. er_seq r \<notin> set ss) rows) + length ss = length rows"
proof -
  have "distinct ss" using assms by (metis distinct_append mset_append ex_mset mset_eq_imp_distinct_iff subset_mset.le_iff_add)
  have "set ss \<subseteq> er_seq ` set rows" using assms(2) by (metis list.set_map set_mset_mono set_mset_mset)
  have "length (filter (\<lambda>r. er_seq r \<in> set ss) rows) = card (er_seq ` set (filter (\<lambda>r. er_seq r \<in> set ss) rows))"
    using distinct_card[OF distinct_map_filter[OF assms(1), of "\<lambda>r. er_seq r \<in> set ss"]] by simp
  also have "er_seq ` set (filter (\<lambda>r. er_seq r \<in> set ss) rows) = set ss"
    using \<open>set ss \<subseteq> er_seq ` set rows\<close> by auto
  also have "card (set ss) = length ss" using \<open>distinct ss\<close> by (rule distinct_card)
  finally show ?thesis using sum_length_filter_compl[of "\<lambda>r. er_seq r \<in> set ss" rows] by simp
qed

lemma delete_split:
  "length (delete_seqs k ss rows) =
    length (filter (\<lambda>r. er_seq r \<notin> set ss) (filter (\<lambda>r. er_key r = k) rows)) + length (filter (\<lambda>r. er_key r \<noteq> k) rows)"
  by (induction rows) (simp_all add: delete_seqs_def)

text \<open>
  C24. Compaction is invisible to the canonical view. After any history of appends and compactions, a
  further call changes no page of the view of any stream, for any gate, cursor and page size, and no
  answer about a position; what it deletes is dead and below the floor, at least the finality behind the tip.
\<close>

theorem compaction_changes_no_answer:
  assumes "db = fold store_step steps empty_db" and "compactEmissionPairs q db = Inr (db', report)"
  shows "readCanonicalView db' k gate after limit = readCanonicalView db k gate after limit \<and>
    isStillCanonical db' k at h = isStillCanonical db k at h \<and>
    (\<forall>r \<in> set (ed_rows db) - set (ed_rows db'). \<not> er_alive r \<and>
      (\<exists>f. cq_finality q = Some (Whole f) \<and> er_blockNumber r < max 0 (whole (cq_latestBlock q) - f)))"
  using assms(2)
proof (cases rule: compact_closed)
  case off
  then show ?thesis by simp
next
  case (window blocks latest m)
  have pk: "primary_key db" unfolding assms(1) by (rule run_primary_key)
  define floor where "floor = max 0 (latest - blocks)"
  define ss where "ss = seqs_of (pairsIn (compaction_candidates db (cq_key q) floor (m * 2)) m)"
  have db': "db' = db\<lparr>ed_rows := delete_seqs (cq_key q) ss (ed_rows db)\<rparr>" using window(7) by (simp add: ss_def floor_def)
  note dead = pair_seqs_dead[OF pk, of _ "cq_key q" floor "m * 2" m, folded ss_def]
  have live: "filter (\<lambda>r. er_alive r \<and> P r) (rows_of k db') = filter (\<lambda>r. er_alive r \<and> P r) (rows_of k db)" for P
    unfolding db' rows_of_deleted using dead by (auto intro!: filter_cong)
  have "isStillCanonical db' k at h = isStillCanonical db k at h"
    using arg_cong[OF live[of "\<lambda>r. row_position r = at \<and> er_blockHash r = h"], of "\<lambda>rs. rs \<noteq> []"]
    unfolding isStillCanonical_def filter_empty_conv by blast
  moreover have "readCanonicalView db' k gate after limit = readCanonicalView db k gate after limit"
    unfolding readCanonicalView_def canonical_rows_def live ..
  moreover have "\<not> er_alive r \<and> (\<exists>f. cq_finality q = Some (Whole f) \<and> er_blockNumber r < max 0 (whole (cq_latestBlock q) - f))"
    if r: "r \<in> set (ed_rows db) - set (ed_rows db')" for r
  proof -
    have gone: "r \<in> set (rows_of (cq_key q) db)" "er_seq r \<in> set ss"
      using r unfolding db' by (auto simp: delete_seqs_def rows_of_def)
    obtain f where "cq_finality q = Some (Whole f)" "f \<le> blocks"
      using window(1) by (auto simp: resolvePairCompaction_def split: option.splits pair_compaction_setting.splits jsnum.splits if_splits)
    moreover have "er_blockNumber r < floor" using dead[OF gone] by simp
    ultimately show ?thesis using dead(1)[OF gone] window(2) by (auto simp: floor_def)
  qed
  ultimately show ?thesis by blast
qed


definition sample_steps :: "unit store_step list" where
  "sample_steps =
     [AppendStep (sample_append ''s'' [sample_log 10 ''a'' 0]),
      AppendStep (sample_append ''s'' [(sample_log 10 ''a'' 0)\<lparr>removed := True\<rparr>])]"

definition sample_query :: compaction_query where
  "sample_query =
     \<lparr>cq_key = (''main'', ''s''), cq_compaction = Some (CompactBlocks (Whole 2)), cq_finality = Some (Whole 2),
      cq_latestBlock = Whole 200, cq_maxPairs = None\<rparr>"

lemmas store_eval = store_step_def sample_steps_def sample_append_def sample_query_def appendEmissions_def
  readStreamHighWaterMark_def rows_of_def empty_db_def Let_def flag_retracted_def sample_log_def insertOf_def
  compactEmissionPairs_def resolvePairCompaction_def budgetOf_def DEFAULT_MAX_PAIRS_def compaction_candidates_def
  pairsIn_def pair_row_def close_group_def row_log_def scan_order_def delete_seqs_def fold_delete_seqs concat_deletions
  seqs_of_def readStreamFeed_def coverageUpsertOf_def

lemma sample_compaction:
  "\<exists>db' report. compactEmissionPairs sample_query (fold store_step sample_steps empty_db) = Inr (db', report) \<and>
    ed_rows db' = [] \<and> cr_pairsCompacted report = 1"
  by (simp add: store_eval)

theorem compaction_changes_no_answer_witness:
  "\<exists>db' report. compactEmissionPairs sample_query (fold store_step sample_steps empty_db) = Inr (db', report) \<and>
    readCanonicalView db' (''main'', ''s'') 200 (0, - 1) 5 =
      readCanonicalView (fold store_step sample_steps empty_db) (''main'', ''s'') 200 (0, - 1) 5"
proof -
  obtain db' report where run: "compactEmissionPairs sample_query (fold store_step sample_steps empty_db) = Inr (db', report)"
    using sample_compaction by blast
  from compaction_changes_no_answer[OF refl run] run show ?thesis by blast
qed

text \<open>
  Compaction deletes whole pairs and no more than its budget. After any history, what a call
  deletes is a list of pairs, each an application that is already dead and a retraction of the same
  log, all distinct rows, so the report counts exactly the rows that are gone.
\<close>

theorem compaction_deletes_whole_pairs:
  assumes "db = fold store_step steps empty_db" and "compactEmissionPairs q db = Inr (db', report)"
  shows "\<exists>pairs. ed_rows db' = delete_seqs (cq_key q) (seqs_of pairs) (ed_rows db) \<and>
    length pairs = cr_pairsCompacted report \<and>
    (\<forall>m. budgetOf (cq_maxPairs q) = Inr m \<longrightarrow> length pairs \<le> m) \<and>
    length (ed_rows db') + cr_rowsDeleted report = length (ed_rows db) \<and>
    (\<forall>(d, r) \<in> set pairs. \<exists>x \<in> set (rows_of (cq_key q) db). \<exists>y \<in> set (rows_of (cq_key q) db).
       er_seq x = d \<and> er_seq y = r \<and> \<not> er_removed x \<and> \<not> er_alive x \<and> er_removed y \<and> row_log x = row_log y)"
  using assms(2)
proof (cases rule: compact_closed)
  case off
  then show ?thesis by (intro exI[of _ "[]"]) (simp add: delete_seqs_def seqs_of_def)
next
  case (window blocks latest m)
  have pk: "primary_key db" unfolding assms(1) by (rule run_primary_key)
  define cands where "cands = compaction_candidates db (cq_key q) (max 0 (latest - blocks)) (m * 2)"
  define pairs where "pairs = pairsIn cands m"
  have db': "db' = db\<lparr>ed_rows := delete_seqs (cq_key q) (seqs_of pairs) (ed_rows db)\<rparr>"
    and count: "cr_pairsCompacted report = length pairs" using window(5,7) by (simp_all add: pairs_def cands_def)
  have "mset (map er_seq cands) \<subseteq># mset (map er_seq (rows_of (cq_key q) db))"
  proof -
    have "mset cands \<subseteq># mset (rows_of (cq_key q) db)"
      unfolding cands_def compaction_candidates_def
      by (metis (no_types, lifting) append_take_drop_id mset_append mset_filter mset_sort mset_subset_eq_add_left
          multiset_filter_subset subset_mset.order_trans)
    then show ?thesis by (simp add: image_mset_subseteq_mono)
  qed
  then have sub: "mset (seqs_of pairs) \<subseteq># mset (map er_seq (rows_of (cq_key q) db))"
    unfolding pairs_def by (rule subset_mset.order_trans[OF pairsIn_seqs])
  let ?mine = "\<lambda>r. er_key r = cq_key q"
  have "length (delete_seqs (cq_key q) (seqs_of pairs) (ed_rows db)) =
      length (filter (\<lambda>r. er_seq r \<notin> set (seqs_of pairs)) (rows_of (cq_key q) db)) +
      length (filter (\<lambda>r. \<not> ?mine r) (ed_rows db))"
    unfolding rows_of_def by (rule delete_split)
  also have "length (filter (\<lambda>r. er_seq r \<notin> set (seqs_of pairs)) (rows_of (cq_key q) db)) + length (seqs_of pairs) =
      length (rows_of (cq_key q) db)"
    by (rule delete_length[OF _ sub]) (use pk primary_key_def in blast)
  then have "length (filter (\<lambda>r. er_seq r \<notin> set (seqs_of pairs)) (rows_of (cq_key q) db)) =
      length (rows_of (cq_key q) db) - length (seqs_of pairs)" "length (seqs_of pairs) \<le> length (rows_of (cq_key q) db)"
    by linarith+
  moreover have "length (rows_of (cq_key q) db) + length (filter (\<lambda>r. \<not> ?mine r) (ed_rows db)) = length (ed_rows db)"
    unfolding rows_of_def by (rule sum_length_filter_compl)
  moreover have "length (seqs_of pairs) = cr_rowsDeleted report"
    using window(6) count mset_seqs[of pairs] by (metis length_map mult_2 size_mset size_union)
  moreover have "length (ed_rows db') = length (delete_seqs (cq_key q) (seqs_of pairs) (ed_rows db))" by (simp add: db')
  ultimately have len: "length (ed_rows db') + cr_rowsDeleted report = length (ed_rows db)" by linarith
  have "\<exists>x \<in> set (rows_of (cq_key q) db). \<exists>y \<in> set (rows_of (cq_key q) db).
       er_seq x = d \<and> er_seq y = r \<and> \<not> er_removed x \<and> \<not> er_alive x \<and> er_removed y \<and> row_log x = row_log y"
    if dr: "(d, r) \<in> set pairs" for d r
  proof -
    obtain g where "d \<in> seqs_at (set cands) False g" "r \<in> seqs_at (set cands) True g"
      using bspec[OF pairsIn_matched[of cands m, folded pairs_def, unfolded matched_def] dr] by auto
    then obtain x y where "x \<in> set cands" "y \<in> set cands" "er_seq x = d" "er_seq y = r"
      "\<not> er_removed x" "er_removed y" "row_log x = g" "row_log y = g" by (auto simp: seqs_at_def)
    moreover have "x \<in> set (rows_of (cq_key q) db)" "\<not> er_alive x" "y \<in> set (rows_of (cq_key q) db)"
      using candidates_dead calculation(1,2) unfolding cands_def by simp_all
    ultimately show ?thesis by (intro bexI[of _ x] bexI[of _ y]) simp_all
  qed
  then show ?thesis
    using db' count len window(4) pairsIn_length[of cands m]
    by (intro exI[of _ pairs]) (auto simp: pairs_def)
qed

theorem compaction_deletes_whole_pairs_witness:
  "\<exists>db' report. compactEmissionPairs sample_query (fold store_step sample_steps empty_db) = Inr (db', report) \<and>
    length (ed_rows db') + cr_rowsDeleted report = 2 \<and> cr_rowsDeleted report = 2"
proof -
  obtain db' report where run: "compactEmissionPairs sample_query (fold store_step sample_steps empty_db) = Inr (db', report)"
    "ed_rows db' = []" using sample_compaction by blast
  have "length (ed_rows (fold store_step sample_steps empty_db)) = 2" by (simp add: store_eval)
  with compaction_deletes_whole_pairs[OF refl run(1)] run show ?thesis by auto
qed


end
