(* ===== verification/Receivers.thy ===== *)
theory Receivers
  imports Stream_Replay Invalidation Emission_Store "HOL-Library.Sublist"
begin

section \<open>The receiver that folds\<close>

text \<open>
  \<open>packages/core/src/streamBuilder.ts\<close>, the receiver that folds what it is sent, and the envelope
  checks of \<open>packages/core/src/ingest.ts\<close> it shares with the writer of a stream. What it calls is given
  by its options and stays a field of the receiver: the processor, the appender that writes the
  stream, the container that may refuse a new generation, the counter of reorgs. Every operation
  returns the state it leaves beside its answer, also when it refuses.
\<close>

subsection \<open>The envelope\<close>

fun assertAscendingByBlock :: "'a log_event list \<Rightarrow> (engine_error, unit) result" where
  "assertAscendingByBlock (previous # current # es) =
     (if blockNumber current < blockNumber previous
      then Inl (InvalidBatch (Unordered (blockNumber current) (blockNumber previous)))
      else assertAscendingByBlock (current # es))"
| "assertAscendingByBlock _ = Inr ()"

fun assertLogsCarryTimestamps :: "'a log_event list \<Rightarrow> (engine_error, unit) result" where
  "assertLogsCarryTimestamps [] = Inr ()"
| "assertLogsCarryTimestamps (e # es) =
     (if blockTimestamp e = None then Inl (TimestamplessLog (blockNumber e) (blockHash e))
      else assertLogsCarryTimestamps es)"

fun check_logs :: "int \<Rightarrow> int \<Rightarrow> 'a log_event list \<Rightarrow> (engine_error, unit) result" where
  "check_logs fromBlock toBlock [] = Inr ()"
| "check_logs fromBlock toBlock (e # es) =
     (if blockNumber e < 0 \<or> blockNumber e < fromBlock \<or> blockNumber e > toBlock
      then Inl (InvalidBatch (LogOutsideRange (blockNumber e)))
      else if removed e then Inl (InvalidBatch (LogMarkedRemoved (blockNumber e)))
      else check_logs fromBlock toBlock es)"

definition assertWellFormed :: "'a wire_batch \<Rightarrow> (engine_error, 'a log_event list) result" where
  "assertWellFormed b =
     (let f = whole (wb_fromBlock b); t = whole (wb_toBlock b); l = whole (wb_latestBlock b) in
      if \<not> is_block_number (wb_fromBlock b) \<or> \<not> is_block_number (wb_toBlock b) \<or> \<not> is_block_number (wb_latestBlock b)
      then Inl (InvalidBatch NotBlockNumbers)
      else if t < f then Inl (InvalidBatch (BackwardsRange f t))
      else if t > l then Inl (InvalidBatch (AboveTip t l))
      else
        (case wb_logs b of
           None \<Rightarrow> Inl (InvalidBatch LogsNotArray)
         | Some es \<Rightarrow>
             and_then (assertAscendingByBlock es) (\<lambda>_. and_then (check_logs f t es) (\<lambda>_. Inr es))))"

lemma ascending_sorted: "assertAscendingByBlock es = Inr () \<longleftrightarrow> sorted (map blockNumber es)"
proof (induction es rule: assertAscendingByBlock.induct)
  case (1 p c es)
  then show ?case by (auto simp: order.trans)
qed simp_all

lemma check_logs_Inr:
  "check_logs f t es = Inr () \<longleftrightarrow>
    (\<forall>e \<in> set es. 0 \<le> blockNumber e \<and> f \<le> blockNumber e \<and> blockNumber e \<le> t \<and> \<not> removed e)"
  by (induction es) auto

lemma assertWellFormed_Inr:
  "assertWellFormed b = Inr es \<longleftrightarrow>
    (\<exists>f t l. wb_fromBlock b = Whole f \<and> wb_toBlock b = Whole t \<and> wb_latestBlock b = Whole l \<and>
      0 \<le> f \<and> f \<le> t \<and> t \<le> l \<and> wb_logs b = Some es \<and> sorted (map blockNumber es) \<and>
      (\<forall>e \<in> set es. f \<le> blockNumber e \<and> blockNumber e \<le> t \<and> \<not> removed e))"
proof (cases "is_block_number (wb_fromBlock b) \<and> is_block_number (wb_toBlock b) \<and> is_block_number (wb_latestBlock b)")
  case False
  then show ?thesis by (auto simp: assertWellFormed_def Let_def)
next
  case True
  then obtain f t l where n: "wb_fromBlock b = Whole f" "wb_toBlock b = Whole t" "wb_latestBlock b = Whole l"
    "0 \<le> f" "0 \<le> t" "0 \<le> l" by (auto elim!: is_block_numberE)
  show ?thesis
    by (cases "wb_logs b")
      (use n in \<open>auto simp: assertWellFormed_def Let_def ascending_sorted check_logs_Inr\<close>)
qed

subsection \<open>The folding receiver\<close>

record 'a emission_write =
  ew_stream :: string
  ew_coverage :: stream_coverage
  ew_emissions :: "'a log_event list"

datatype 'x receive_error =
    Engine engine_error
  | GenerationRefused 'x
  | StoreFailed 'x
  | ProcessFailed 'x

record ('p, 'd, 'c, 'r) ingestion =
  ig_processor :: 'p
  ig_stream :: 'd
  ig_container :: 'c
  ig_reorgs :: 'r

record ('a, 'x, 'p, 'd, 'c, 'r) stream_builder =
  sb_context :: wire_context
  sb_streamDigest :: string
  sb_sourceHashes :: "source_hash_entry list"
  sb_defaultFromBlock :: int
  sb_finality :: int
  sb_processorIdentity :: string
  sb_load :: "'p \<Rightarrow> 'a last_sync option \<times> 'p"
  sb_process :: "'a log_event list \<Rightarrow> 'a last_sync \<Rightarrow> 'p \<Rightarrow> 'p \<times> 'x option"
  sb_clear :: "'p \<Rightarrow> 'p"
  sb_appendEmissions :: "('a emission_write \<Rightarrow> 'd \<Rightarrow> ('x, 'd) result) option"
  sb_recordReorg :: "(reorg_detection \<Rightarrow> 'r \<Rightarrow> 'r option) option"
  sb_resolveGeneration :: "(string \<times> string \<Rightarrow> 'c \<Rightarrow> ('x, 'c) result) option"

text \<open>
  The cursor if it is this receiver's, a fresh one otherwise. A foreign cursor is cleared unless a
  container holds every generation apart.
\<close>

definition resolve_generation :: "('a, 'x, 'p, 'd, 'c, 'r) stream_builder \<Rightarrow> ('p, 'd, 'c, 'r) ingestion
    \<Rightarrow> ('x receive_error, ('p, 'd, 'c, 'r) ingestion) result" where
  "resolve_generation B s =
     (case sb_resolveGeneration B of
        None \<Rightarrow> Inr s
      | Some resolve \<Rightarrow>
          (case resolve (sb_streamDigest B, sb_processorIdentity B) (ig_container s) of
             Inl x \<Rightarrow> Inl (GenerationRefused x)
           | Inr c \<Rightarrow> Inr (s\<lparr>ig_container := c\<rparr>)))"

definition cursor_is_ours :: "('a, 'x, 'p, 'd, 'c, 'r) stream_builder \<Rightarrow> 'a last_sync \<Rightarrow> bool" where
  "cursor_is_ours B lastSync \<longleftrightarrow>
     sb_processorIdentity B = ctx_processor (context_id lastSync) \<and>
     stateMatches (wire_source (sb_context B)) (wire_config (sb_context B)) (lastToBlock lastSync) (context_id lastSync)"

definition own_context :: "('a, 'x, 'p, 'd, 'c, 'r) stream_builder \<Rightarrow> context_identifier" where
  "own_context B =
     \<lparr>ctx_source = wire_source (sb_context B), ctx_config = wire_config (sb_context B), ctx_processor = sb_processorIdentity B\<rparr>"

definition currentLastSync :: "('a, 'x, 'p, 'd, 'c, 'r) stream_builder \<Rightarrow> ('p, 'd, 'c, 'r) ingestion
    \<Rightarrow> ('x receive_error, 'a last_sync) result \<times> ('p, 'd, 'c, 'r) ingestion" where
  "currentLastSync B s =
     (case resolve_generation B s of
        Inl e \<Rightarrow> (Inl e, s)
      | Inr s1 \<Rightarrow>
          (let (loaded, p) = sb_load B (ig_processor s1); s2 = s1\<lparr>ig_processor := p\<rparr>
           in case loaded of
                None \<Rightarrow> (Inr (fresh_last_sync (own_context B)), s2)
              | Some lastSync \<Rightarrow>
                  if cursor_is_ours B lastSync then (Inr lastSync, s2)
                  else if sb_resolveGeneration B \<noteq> None then (Inr (fresh_last_sync (own_context B)), s2)
                  else (Inr (fresh_last_sync (own_context B)), s2\<lparr>ig_processor := sb_clear B p\<rparr>)))"

definition expectedFromBlock :: "('a, 'x, 'p, 'd, 'c, 'r) stream_builder \<Rightarrow> ('p, 'd, 'c, 'r) ingestion
    \<Rightarrow> ('x receive_error, int) result \<times> ('p, 'd, 'c, 'r) ingestion" where
  "expectedFromBlock B s =
     (let (r, s') = currentLastSync B s
      in (and_then r (\<lambda>lastSync. Inr (getFromBlock lastSync (sb_defaultFromBlock B) (sb_finality B))), s'))"

definition coverage_write :: "string \<Rightarrow> source_hash_entry list \<Rightarrow> string \<Rightarrow> 'a log_event list \<Rightarrow> 'a last_sync \<Rightarrow> 'a emission_write" where
  "coverage_write stream hashes config emissions newSync =
     \<lparr>ew_stream = stream,
      ew_coverage = \<lparr>sc_source = hashes, sc_config = config, sc_latestBlock = latestBlock newSync,
        sc_lastFromBlock = lastFromBlock newSync, sc_lastToBlock = lastToBlock newSync\<rparr>,
      ew_emissions = emissions\<rparr>"

definition storeStream :: "('a, 'x, 'p, 'd, 'c, 'r) stream_builder \<Rightarrow> 'a log_event list \<Rightarrow> 'a last_sync
    \<Rightarrow> ('p, 'd, 'c, 'r) ingestion \<Rightarrow> ('x receive_error, ('p, 'd, 'c, 'r) ingestion) result" where
  "storeStream B emissions newSync s =
     (case sb_appendEmissions B of
        None \<Rightarrow> Inr s
      | Some write \<Rightarrow>
          (case write (coverage_write (sb_streamDigest B) (sb_sourceHashes B) (wire_config (sb_context B)) emissions newSync)
                  (ig_stream s) of
             Inl x \<Rightarrow> Inl (StoreFailed x)
           | Inr d \<Rightarrow> Inr (s\<lparr>ig_stream := d\<rparr>)))"

text \<open>A count that fails is logged and dropped.\<close>

definition noteReorg :: "(reorg_detection \<Rightarrow> 'r \<Rightarrow> 'r option) option \<Rightarrow> reorg_detection option \<Rightarrow> 'r \<Rightarrow> 'r" where
  "noteReorg recorder r n =
     (case (recorder, r) of
        (Some rec, Some d) \<Rightarrow> (case rec d n of None \<Rightarrow> n | Some n' \<Rightarrow> n')
      | _ \<Rightarrow> n)"

record 'a ingestion_result =
  ir_applied :: nat
  ir_retracted :: nat
  ir_emissions :: "'a log_event list"
  ir_lastSync :: "'a last_sync"
  ir_expectedFromBlock :: int
  ir_reorg :: "reorg_detection option"

definition ingestion_answer :: "int \<Rightarrow> int \<Rightarrow> 'a generated \<Rightarrow> 'a ingestion_result" where
  "ingestion_answer d f g =
     \<lparr>ir_applied = length (filter (\<lambda>e. \<not> removed e) (eventStream g)),
      ir_retracted = length (filter removed (eventStream g)),
      ir_emissions = eventStream g, ir_lastSync = newLastSync g,
      ir_expectedFromBlock = getFromBlock (newLastSync g) d f, ir_reorg = reorg g\<rparr>"

definition batch_args :: "'a wire_batch \<Rightarrow> int \<Rightarrow> range_args" where
  "batch_args batch f =
     \<lparr>newLatestBlock = whole (wb_latestBlock batch), newLastFromBlock = whole (wb_fromBlock batch),
      newLastToBlock = whole (wb_toBlock batch), finality_depth = f\<rparr>"

definition fold_delta :: "('a, 'x, 'p, 'd, 'c, 'r) stream_builder \<Rightarrow> 'a generated \<Rightarrow> ('p, 'd, 'c, 'r) ingestion
    \<Rightarrow> ('x receive_error, 'a ingestion_result) result \<times> ('p, 'd, 'c, 'r) ingestion" where
  "fold_delta B g s =
     (case storeStream B (eventStream g) (newLastSync g) s of
        Inl e \<Rightarrow> (Inl e, s)
      | Inr s1 \<Rightarrow>
          (let (p, failed) = sb_process B (eventStream g) (newLastSync g) (ig_processor s1);
               s2 = s1\<lparr>ig_processor := p\<rparr>
           in case failed of
                Some x \<Rightarrow> (Inl (ProcessFailed x), s2)
              | None \<Rightarrow>
                  (Inr (ingestion_answer (sb_defaultFromBlock B) (sb_finality B) g),
                   s2\<lparr>ig_reorgs := noteReorg (sb_recordReorg B) (reorg g) (ig_reorgs s2)\<rparr>)))"

definition receive :: "('a, 'x, 'p, 'd, 'c, 'r) stream_builder \<Rightarrow> 'a wire_batch \<Rightarrow> ('p, 'd, 'c, 'r) ingestion
    \<Rightarrow> ('x receive_error, 'a ingestion_result) result \<times> ('p, 'd, 'c, 'r) ingestion" where
  "receive B batch s =
     (if \<not> sameWireContext (Some (sb_context B)) (wb_context batch) then (Inl (Engine WireContextMismatch), s)
      else
        (case assertWellFormed batch of
           Inl e \<Rightarrow> (Inl (Engine e), s)
         | Inr es \<Rightarrow>
             (case currentLastSync B s of
                (Inl e, s1) \<Rightarrow> (Inl e, s1)
              | (Inr lastSync, s1) \<Rightarrow>
                  (case generateStreamToAppend lastSync (sb_defaultFromBlock B) es (batch_args batch (sb_finality B)) of
                     Inl e \<Rightarrow> (Inl (Engine e), s1)
                   | Inr g \<Rightarrow> fold_delta B g s1))))"


subsection \<open>The appender over the server's table\<close>

text \<open>\<open>emissionAppenderFor\<close> of the server, with \<open>fails\<close> telling when the database rejects the transaction.\<close>

definition emissionAppenderFor :: "(emission_db \<Rightarrow> 'x option) \<Rightarrow> string \<Rightarrow> 'a emission_write \<Rightarrow> emission_db
    \<Rightarrow> ('x, emission_db) result" where
  "emissionAppenderFor fails indexer w db =
     (case fails db of
        Some x \<Rightarrow> Inl x
      | None \<Rightarrow> Inr (appendEmissions \<lparr>ea_key = (indexer, ew_stream w), ea_coverage = ew_coverage w,
                    ea_emissions = ew_emissions w\<rparr> db))"

text \<open>The same receiver with a record of what its processor was handed.\<close>

definition with_trace :: "('a, 'x, 'p, 'd, 'c, 'r) stream_builder
    \<Rightarrow> ('a, 'x, 'p \<times> 'a log_event list, 'd, 'c, 'r) stream_builder" where
  "with_trace B =
     \<lparr>sb_context = sb_context B, sb_streamDigest = sb_streamDigest B, sb_sourceHashes = sb_sourceHashes B,
      sb_defaultFromBlock = sb_defaultFromBlock B, sb_finality = sb_finality B,
      sb_processorIdentity = sb_processorIdentity B,
      sb_load = (\<lambda>(p, tr). let (loaded, p') = sb_load B p in (loaded, (p', tr))),
      sb_process = (\<lambda>es ls (p, tr). let (p', failed) = sb_process B es ls p in ((p', tr @ es), failed)),
      sb_clear = (\<lambda>(p, tr). (sb_clear B p, tr)), sb_appendEmissions = sb_appendEmissions B,
      sb_recordReorg = sb_recordReorg B, sb_resolveGeneration = sb_resolveGeneration B\<rparr>"

lemma currentLastSync_keeps:
  assumes "currentLastSync (with_trace B) s = (r, s')"
  shows "ig_stream s' = ig_stream s" "snd (ig_processor s') = snd (ig_processor s)" "ig_reorgs s' = ig_reorgs s"
  using assms
  by (auto simp: currentLastSync_def resolve_generation_def with_trace_def Let_def split_beta
      split: option.splits sum.splits prod.splits if_splits)

text \<open>One batch, as the table and the processor see it: nothing, an append alone, or an append and its fold.\<close>

lemma receive_effect:
  assumes "receive (with_trace B) batch s = (r, s')"
    and app: "sb_appendEmissions B = Some (emissionAppenderFor fails indexer)"
  obtains (refused) "ig_stream s' = ig_stream s" "snd (ig_processor s') = snd (ig_processor s)"
      "ig_reorgs s' = ig_reorgs s" "\<forall>a. r \<noteq> Inr a"
  | (appended) ap where "ea_key ap = (indexer, sb_streamDigest B)" "ig_stream s' = appendEmissions ap (ig_stream s)"
      "snd (ig_processor s') = snd (ig_processor s) @ ea_emissions ap"
proof (cases "\<exists>es lastSync s1 g. sameWireContext (Some (sb_context B)) (wb_context batch) \<and> assertWellFormed batch = Inr es \<and>
    currentLastSync (with_trace B) s = (Inr lastSync, s1) \<and>
    generateStreamToAppend lastSync (sb_defaultFromBlock B) es (batch_args batch (sb_finality B)) = Inr g")
  case False
  have "(ig_stream s', snd (ig_processor s'), ig_reorgs s') = (ig_stream s, snd (ig_processor s), ig_reorgs s) \<and> (\<forall>a. r \<noteq> Inr a)"
    using assms(1) False currentLastSync_keeps[of B s]
    by (auto simp: receive_def with_trace_def[of B] split: if_splits sum.splits prod.splits)
  then show thesis using refused by simp
next
  case True
  then obtain es lastSync s1 g where ok: "sameWireContext (Some (sb_context B)) (wb_context batch)" "assertWellFormed batch = Inr es"
    "currentLastSync (with_trace B) s = (Inr lastSync, s1)"
    "generateStreamToAppend lastSync (sb_defaultFromBlock B) es (batch_args batch (sb_finality B)) = Inr g" by blast
  note keeps = currentLastSync_keeps[OF ok(3)]
  have run: "fold_delta (with_trace B) g s1 = (r, s')"
    using assms(1) ok by (simp add: receive_def with_trace_def)
  show thesis
  proof (cases "fails (ig_stream s1)")
    case (Some x)
    then have "s' = s1" "\<forall>a. r \<noteq> Inr a" using run app
      by (auto simp: fold_delta_def storeStream_def with_trace_def emissionAppenderFor_def)
    then show thesis using refused keeps by simp
  next
    case None
    let ?w = "coverage_write (sb_streamDigest B) (sb_sourceHashes B) (wire_config (sb_context B)) (eventStream g) (newLastSync g)"
    let ?ap = "\<lparr>ea_key = (indexer, ew_stream ?w), ea_coverage = ew_coverage ?w, ea_emissions = ew_emissions ?w\<rparr>"
    have "ig_stream s' = appendEmissions ?ap (ig_stream s)" "snd (ig_processor s') = snd (ig_processor s) @ eventStream g"
      using run None keeps app
      by (auto simp: fold_delta_def storeStream_def with_trace_def emissionAppenderFor_def Let_def split_beta
          split: option.splits prod.splits)
    then show thesis using appended[of ?ap] by (simp add: coverage_write_def)
  qed
qed

text \<open>Receiving a list of batches, whatever each one answers.\<close>

definition receive_all :: "('a, 'x, 'p, 'd, 'c, 'r) stream_builder \<Rightarrow> 'a wire_batch list \<Rightarrow> ('p, 'd, 'c, 'r) ingestion
    \<Rightarrow> ('p, 'd, 'c, 'r) ingestion" where
  "receive_all B batches s = fold (\<lambda>b s. snd (receive B b s)) batches s"

lemma receive_all_stream:
  assumes app: "sb_appendEmissions B = Some (emissionAppenderFor fails indexer)"
    and "holds_stream (rows_of (indexer, sb_streamDigest B) (ig_stream s)) (snd (ig_processor s))"
  shows "holds_stream (rows_of (indexer, sb_streamDigest B) (ig_stream (receive_all (with_trace B) batches s)))
    (snd (ig_processor (receive_all (with_trace B) batches s)))"
  using assms(2)
proof (induction batches arbitrary: s)
  case Nil
  then show ?case by (simp add: receive_all_def)
next
  case (Cons b batches)
  define s' where "s' = snd (receive (with_trace B) b s)"
  have eq: "receive (with_trace B) b s = (fst (receive (with_trace B) b s), s')" by (simp add: s'_def)
  have "holds_stream (rows_of (indexer, sb_streamDigest B) (ig_stream s')) (snd (ig_processor s'))"
  proof (rule receive_effect[OF eq app], goal_cases)
    case 1
    then show ?case using Cons.prems by simp
  next
    case (2 ap)
    then show ?case using append_holds[OF Cons.prems, of ap] by simp
  qed
  from Cons.IH[OF this] show ?case by (simp add: receive_all_def s'_def)
qed


text \<open>A receiver whose processor only keeps the cursor, over a database that never fails.\<close>

definition sample_builder :: "(unit, unit, unit last_sync option, emission_db, unit, nat) stream_builder" where
  "sample_builder =
     \<lparr>sb_context = \<lparr>wire_source = [entry 0 ''h'' ''sh''], wire_config = ''c''\<rparr>, sb_streamDigest = ''s'',
      sb_sourceHashes = [], sb_defaultFromBlock = 0, sb_finality = 3, sb_processorIdentity = ''p'',
      sb_load = (\<lambda>p. (p, p)), sb_process = (\<lambda>es ls p. (Some ls, None)), sb_clear = (\<lambda>p. None),
      sb_appendEmissions = Some (emissionAppenderFor (\<lambda>_. None) ''main''),
      sb_recordReorg = Some (\<lambda>_ n. Some (n + 1)), sb_resolveGeneration = None\<rparr>"

definition sample_batch :: "unit wire_batch" where
  "sample_batch =
     \<lparr>wb_context = Some \<lparr>wire_source = [entry 0 ''h'' ''sh''], wire_config = ''c''\<rparr>, wb_fromBlock = Whole 0,
      wb_toBlock = Whole 5, wb_latestBlock = Whole 5, wb_logs = Some [sample_log 3 ''a3'' 0, sample_log 4 ''a4'' 0]\<rparr>"

definition sample_ingestion :: "(unit last_sync option, emission_db, unit, nat) ingestion" where
  "sample_ingestion = \<lparr>ig_processor = None, ig_stream = empty_db, ig_container = (), ig_reorgs = 0\<rparr>"

lemmas receive_eval = receive_def sameWireContext_iff assertWellFormed_def currentLastSync_def resolve_generation_def
  sample_builder_def sample_batch_def sample_ingestion_def fresh_last_sync_def own_context_def generateStreamToAppend_def
  batch_args_def getFromBlock_def groupLogsPerBlock_def newBlockHashPerNumber_def new_blocks_def windowKeyOf_def
  retractions_of_def fold_delta_def storeStream_def emissionAppenderFor_def coverage_write_def with_trace_def
  receive_all_def Let_def

text \<open>
  C17. Nothing is folded that is not stored. Whatever batches arrive, in whatever order, whichever of
  them are refused, and whenever the database or the processor fails, the stored stream is row for row
  what the processor was handed: the stream can be re-folded into the state, with no hole in it.
\<close>

theorem stream_is_what_was_folded:
  assumes "sb_appendEmissions B = Some (emissionAppenderFor fails indexer)"
  shows "map feedEntryOf (rows_of (indexer, sb_streamDigest B)
      (ig_stream (receive_all (with_trace B) batches
        \<lparr>ig_processor = (p, []), ig_stream = empty_db, ig_container = c, ig_reorgs = n\<rparr>))) =
    map raw_log (snd (ig_processor (receive_all (with_trace B) batches
        \<lparr>ig_processor = (p, []), ig_stream = empty_db, ig_container = c, ig_reorgs = n\<rparr>)))"
  by (intro holds_stream_entries receive_all_stream[OF assms]) (simp add: empty_holds)

theorem stream_is_what_was_folded_witness:
  "map blockHash (map feedEntryOf (rows_of (''main'', ''s'') (ig_stream (receive_all (with_trace sample_builder) [sample_batch, sample_batch]
     \<lparr>ig_processor = (None, []), ig_stream = empty_db, ig_container = (), ig_reorgs = 0\<rparr>)))) = [''a3'', ''a4'']"
proof -
  have app: "sb_appendEmissions sample_builder = Some (emissionAppenderFor (\<lambda>_. None) ''main'')"
    by (simp add: sample_builder_def)
  have digest: "sb_streamDigest sample_builder = ''s''" by (simp add: sample_builder_def)
  have hashes: "map blockHash (map raw_log es) = map blockHash es" for es :: "unit log_event list" by simp
  show ?thesis
    unfolding stream_is_what_was_folded[OF app, of "[sample_batch, sample_batch]" None "()" 0, unfolded digest] hashes
    by (simp add: receive_eval cursor_is_ours_def stateMatches_def sourceInvalidationOf_def verdictOn_def)
qed

lemma generate_Inl:
  "(\<exists>e. generateStreamToAppend s d es args = Inl e) \<longleftrightarrow> newLastFromBlock args \<noteq> getFromBlock s d (finality_depth args)"
  by (simp add: generateStreamToAppend_def Let_def)

lemma currentLastSync_error:
  "currentLastSync B s = (Inl e, s1) \<Longrightarrow> \<exists>x. e = GenerationRefused x"
  by (auto simp: currentLastSync_def resolve_generation_def Let_def split_beta
      split: option.splits sum.splits prod.splits if_splits)

lemma currentLastSync_kept:
  assumes "currentLastSync B s = (r, s1)"
  shows "ig_stream s1 = ig_stream s" "ig_reorgs s1 = ig_reorgs s"
    "ig_processor s1 \<in> {ig_processor s, snd (sb_load B (ig_processor s))} \<or>
       (\<exists>foreign. fst (sb_load B (ig_processor s)) = Some foreign \<and> \<not> cursor_is_ours B foreign \<and>
          sb_resolveGeneration B = None \<and> ig_processor s1 = sb_clear B (snd (sb_load B (ig_processor s))))"
  using assms
  by (auto simp: currentLastSync_def resolve_generation_def Let_def split_beta
      split: option.splits sum.splits prod.splits if_splits)

lemma fold_delta_no_engine: "fst (fold_delta B g s) \<noteq> Inl (Engine e)"
  by (auto simp: fold_delta_def storeStream_def Let_def split_beta split: option.splits sum.splits prod.splits)

text \<open>
  C21. A batch is refused before anything is written, and only for cause. The receiver refuses exactly
  the batches of another source or configuration, those whose envelope is malformed, and those that
  do not start where it said the next one must; a refusal writes no emission and counts no reorg, and
  the only state it can drop is a cursor of another fold, when no container keeps folds apart.
\<close>

theorem batches_are_refused_exactly:
  assumes "currentLastSync B s = (Inr lastSync, s1)" and "receive B batch s = (r, s')"
  shows "((\<exists>e. r = Inl (Engine e)) \<longleftrightarrow>
      \<not> (sameWireContext (Some (sb_context B)) (wb_context batch) \<and> (\<exists>es. assertWellFormed batch = Inr es) \<and>
         fst (expectedFromBlock B s) = Inr (whole (wb_fromBlock batch)))) \<and>
    ((\<exists>e. r = Inl (Engine e)) \<longrightarrow> ig_stream s' = ig_stream s \<and> ig_reorgs s' = ig_reorgs s \<and>
      (ig_processor s' \<in> {ig_processor s, snd (sb_load B (ig_processor s))} \<or>
       (\<exists>foreign. fst (sb_load B (ig_processor s)) = Some foreign \<and> \<not> cursor_is_ours B foreign \<and>
          sb_resolveGeneration B = None \<and> ig_processor s' = sb_clear B (snd (sb_load B (ig_processor s))))))"
proof -
  have expected: "fst (expectedFromBlock B s) = Inr (getFromBlock lastSync (sb_defaultFromBlock B) (sb_finality B))"
    using assms(1) by (simp add: expectedFromBlock_def)
  note kept = currentLastSync_kept[OF assms(1)]
  show ?thesis
  proof (cases "sameWireContext (Some (sb_context B)) (wb_context batch)")
    case False
    then show ?thesis using assms(2) by (auto simp: receive_def)
  next
    case same: True
    show ?thesis
    proof (cases "assertWellFormed batch")
      case (Inl e)
      then show ?thesis using assms(2) same by (auto simp: receive_def)
    next
      case (Inr es)
      define gen where "gen = generateStreamToAppend lastSync (sb_defaultFromBlock B) es (batch_args batch (sb_finality B))"
      have run: "(r, s') = (case gen of Inl e \<Rightarrow> (Inl (Engine e), s1) | Inr g \<Rightarrow> fold_delta B g s1)"
        using assms same Inr by (simp add: receive_def gen_def)
      have gen: "(\<exists>e. gen = Inl e) \<longleftrightarrow>
          whole (wb_fromBlock batch) \<noteq> getFromBlock lastSync (sb_defaultFromBlock B) (sb_finality B)"
        unfolding gen_def generate_Inl by (simp add: batch_args_def)
      show ?thesis
      proof (cases gen)
        case (Inl e)
        then have "s' = s1" "r = Inl (Engine e)" using run by simp_all
        moreover have "whole (wb_fromBlock batch) \<noteq> getFromBlock lastSync (sb_defaultFromBlock B) (sb_finality B)"
          using gen Inl by blast
        ultimately show ?thesis using kept expected by auto
      next
        case (Inr g)
        then have "\<nexists>e. r = Inl (Engine e)" using run fold_delta_no_engine[of B g s1] by (metis fst_conv sum.simps(6))
        moreover have "whole (wb_fromBlock batch) = getFromBlock lastSync (sb_defaultFromBlock B) (sb_finality B)"
          using gen Inr by auto
        ultimately show ?thesis using same \<open>assertWellFormed batch = Inr es\<close> expected by auto
      qed
    qed
  qed
qed


theorem batches_are_refused_exactly_witness:
  "\<exists>e s'. receive sample_builder (sample_batch\<lparr>wb_fromBlock := Whole 1\<rparr>) sample_ingestion = (Inl (Engine e), s') \<and>
    ig_stream s' = empty_db"
proof -
  obtain lastSync s1 where ls: "currentLastSync sample_builder sample_ingestion = (Inr lastSync, s1)"
    by (simp add: receive_eval)
  obtain r s' where r: "receive sample_builder (sample_batch\<lparr>wb_fromBlock := Whole 1\<rparr>) sample_ingestion = (r, s')"
    by (cases "receive sample_builder (sample_batch\<lparr>wb_fromBlock := Whole 1\<rparr>) sample_ingestion") auto
  have "fst (expectedFromBlock sample_builder sample_ingestion) \<noteq> Inr (1 :: int)"
    by (simp add: expectedFromBlock_def receive_eval)
  then have "fst (expectedFromBlock sample_builder sample_ingestion) \<noteq> Inr (whole (wb_fromBlock (sample_batch\<lparr>wb_fromBlock := Whole 1\<rparr>)))"
    by simp
  with batches_are_refused_exactly[OF ls r] r show ?thesis by (auto simp: sample_ingestion_def)
qed

end
