(* ===== verification/Event_Ranges.thy ===== *)
theory Event_Ranges
  imports Prelude
begin

section \<open>Declared block ranges of events\<close>

text \<open>
  \<open>packages/core/src/internal/engine/eventRanges.ts\<close>: a contract's ABI may say from which block to
  which block an event is emitted. The ranges declared for one signature at one address are merged,
  refused when they leave a gap, and then decide which topics a request for a window names. The
  canonical signature and the topic hash of an ABI event come from the viem package and are fields
  of the event here.
\<close>

subsection \<open>Declarations\<close>

record event_block_range =
  firstBlock :: int
  lastBlock :: "int option"

record abi_event =
  ae_signature :: string
  ae_topic0 :: "string option"
  ae_firstBlock :: "jsnum option"
  ae_lastBlock :: "jsnum option"

datatype abi_item = AbiEvent abi_event | AbiOther

record contract_data =
  cd_address :: string
  cd_abi :: "abi_item list"
  cd_startBlock :: "int option"

datatype ranged_contracts = ContractList "contract_data list" | AllContracts "abi_item list" "int option"

record contract_entry =
  ce_address :: "string option"
  ce_abi :: "abi_item list"
  ce_defaultFirstBlock :: int

datatype range_error =
    BadFirstBlock string
  | BadLastBlock string
  | LastBeforeFirst string int int
  | GapInRanges string int int

definition MAX_SAFE_INTEGER :: int where
  "MAX_SAFE_INTEGER = 9007199254740991"

definition assertBlockNumber :: "jsnum \<Rightarrow> 'e \<Rightarrow> ('e, unit) result" where
  "assertBlockNumber v e = guard (is_block_number v \<and> whole v \<le> MAX_SAFE_INTEGER) e"

fun assert_declared :: "jsnum option \<Rightarrow> 'e \<Rightarrow> ('e, int option) result" where
  "assert_declared None e = Inr None"
| "assert_declared (Some v) e = and_then (assertBlockNumber v e) (\<lambda>_. Inr (Some (whole v)))"

definition declaredRangeOf :: "abi_event \<Rightarrow> int \<Rightarrow> (range_error, event_block_range option) result" where
  "declaredRangeOf e contractStartBlock =
     (if ae_firstBlock e = None \<and> ae_lastBlock e = None then Inr None
      else
        and_then (assert_declared (ae_firstBlock e) (BadFirstBlock (ae_signature e))) (\<lambda>first.
        and_then (assert_declared (ae_lastBlock e) (BadLastBlock (ae_signature e))) (\<lambda>last_block.
          let start = (case first of None \<Rightarrow> contractStartBlock | Some f \<Rightarrow> f) in
          case last_block of
            None \<Rightarrow> Inr (Some \<lparr>firstBlock = start, lastBlock = None\<rparr>)
          | Some l \<Rightarrow>
              if l < start then Inl (LastBeforeFirst (ae_signature e) l start)
              else Inr (Some \<lparr>firstBlock = start, lastBlock = Some l\<rparr>))))"

definition range_or_default :: "abi_event \<Rightarrow> int \<Rightarrow> (range_error, event_block_range) result" where
  "range_or_default e fallback =
     and_then (declaredRangeOf e fallback) (\<lambda>r.
       Inr (case r of None \<Rightarrow> \<lparr>firstBlock = fallback, lastBlock = None\<rparr> | Some r \<Rightarrow> r))"

fun events_of :: "abi_item list \<Rightarrow> abi_event list" where
  "events_of [] = []"
| "events_of (AbiEvent e # items) = e # events_of items"
| "events_of (AbiOther # items) = events_of items"

fun contract_abis :: "ranged_contracts \<Rightarrow> abi_item list list" where
  "contract_abis (ContractList cs) = map cd_abi cs"
| "contract_abis (AllContracts abi start) = [abi]"

definition contractsDeclareEventRanges :: "ranged_contracts \<Rightarrow> bool" where
  "contractsDeclareEventRanges cs =
     list_ex (\<lambda>abi. list_ex (\<lambda>e. ae_firstBlock e \<noteq> None \<or> ae_lastBlock e \<noteq> None) (events_of abi)) (contract_abis cs)"

subsection \<open>Merging the ranges of one signature\<close>

text \<open>
  The merged list starts with the first range and every later one is merged into its last entry or
  refused, so it never has a second entry: the loop carries that entry alone.
\<close>

fun merge_ranges :: "string \<Rightarrow> event_block_range \<Rightarrow> event_block_range list \<Rightarrow> (range_error, event_block_range) result" where
  "merge_ranges sig previous [] = Inr previous"
| "merge_ranges sig previous (r # rs) =
     (let previousLast = the (lastBlock previous) in
      if firstBlock r > previousLast + 1
      then Inl (GapInRanges sig (previousLast + 1) (firstBlock r - 1))
      else merge_ranges sig
             \<lparr>firstBlock = firstBlock previous, lastBlock = Some (max previousLast (the (lastBlock r)))\<rparr> rs)"

definition normalizeRanges :: "string \<Rightarrow> event_block_range list \<Rightarrow> (range_error, event_block_range list) result" where
  "normalizeRanges sig ranges =
     (if list_ex (\<lambda>r. lastBlock r = None) ranges
      then Inr [\<lparr>firstBlock = Min (set (map firstBlock ranges)), lastBlock = None\<rparr>]
      else
        (case sort_key firstBlock ranges of
           [] \<Rightarrow> Inr []
         | r # rs \<Rightarrow> and_then (merge_ranges sig r rs) (\<lambda>m. Inr [m])))"

subsection \<open>Live events and the ranges of a topic\<close>

record live_event =
  le_address :: "string option"
  le_signature :: string
  le_event :: abi_event
  le_ranges :: "event_block_range list"

type_synonym signature_groups = "(string \<times> abi_event \<times> event_block_range list) list"

definition push_range :: "abi_event \<Rightarrow> event_block_range \<Rightarrow> signature_groups \<Rightarrow> signature_groups" where
  "push_range e r gs =
     (case map_of gs (ae_signature e) of
        None \<Rightarrow> gs @ [(ae_signature e, e, [r])]
      | Some (first, ranges) \<Rightarrow> AList.update (ae_signature e) (first, ranges @ [r]) gs)"

fun group_events :: "int \<Rightarrow> abi_event list \<Rightarrow> signature_groups \<Rightarrow> (range_error, signature_groups) result" where
  "group_events fallback [] gs = Inr gs"
| "group_events fallback (e # es) gs =
     and_then (range_or_default e fallback) (\<lambda>r. group_events fallback es (push_range e r gs))"

definition live_of_group :: "string option \<Rightarrow> string \<times> abi_event \<times> event_block_range list \<Rightarrow> (range_error, live_event) result" where
  "live_of_group addr g =
     (case g of (sig, e, ranges) \<Rightarrow>
        and_then (normalizeRanges sig ranges) (\<lambda>rs.
          Inr \<lparr>le_address = addr, le_signature = sig, le_event = e, le_ranges = rs\<rparr>))"

definition live_in_contract :: "contract_entry \<Rightarrow> (range_error, live_event list) result" where
  "live_in_contract c =
     and_then (group_events (ce_defaultFirstBlock c) (events_of (ce_abi c)) [])
       (traverse (live_of_group (ce_address c)))"

definition liveEventsIn :: "contract_entry list \<Rightarrow> (range_error, live_event list) result" where
  "liveEventsIn cs = and_then (traverse live_in_contract cs) (\<lambda>ls. Inr (concat ls))"

fun contractEntriesOf :: "ranged_contracts \<Rightarrow> (int option \<Rightarrow> int) \<Rightarrow> contract_entry list" where
  "contractEntriesOf (ContractList cs) defaultOf =
     map (\<lambda>c. \<lparr>ce_address = Some (cd_address c), ce_abi = cd_abi c, ce_defaultFirstBlock = defaultOf (cd_startBlock c)\<rparr>) cs"
| "contractEntriesOf (AllContracts abi start) defaultOf =
     [\<lparr>ce_address = None, ce_abi = abi, ce_defaultFirstBlock = defaultOf start\<rparr>]"

definition from_the_start_block :: "int option \<Rightarrow> int" where
  "from_the_start_block start = (case start of None \<Rightarrow> 0 | Some b \<Rightarrow> b)"

definition from_block_zero :: "int option \<Rightarrow> int" where
  "from_block_zero start = 0"

definition liveEventsOf :: "ranged_contracts \<Rightarrow> (range_error, live_event list) result" where
  "liveEventsOf cs = liveEventsIn (contractEntriesOf cs from_the_start_block)"

type_synonym topic_block_ranges = "(string \<times> event_block_range list) list"

definition add_topic :: "live_event \<Rightarrow> topic_block_ranges \<Rightarrow> topic_block_ranges" where
  "add_topic live perTopic =
     (case ae_topic0 (le_event live) of
        None \<Rightarrow> perTopic
      | Some topic0 \<Rightarrow>
          (case map_of perTopic topic0 of
             None \<Rightarrow> perTopic @ [(topic0, le_ranges live)]
           | Some existing \<Rightarrow> AList.update topic0 (existing @ le_ranges live) perTopic))"

definition requestableRangesPerTopic :: "ranged_contracts \<Rightarrow> (range_error, topic_block_ranges) result" where
  "requestableRangesPerTopic cs =
     (if \<not> contractsDeclareEventRanges cs then Inr []
      else and_then (liveEventsIn (contractEntriesOf cs from_block_zero)) (\<lambda>live. Inr (fold add_topic live [])))"

definition canOccurIn :: "event_block_range list option \<Rightarrow> int \<Rightarrow> int \<Rightarrow> bool" where
  "canOccurIn ranges fromBlock toBlock =
     (case ranges of
        None \<Rightarrow> True
      | Some rs \<Rightarrow>
          list_ex (\<lambda>r. firstBlock r \<le> toBlock \<and> (case lastBlock r of None \<Rightarrow> True | Some l \<Rightarrow> l \<ge> fromBlock)) rs)"

definition topicsThatCanOccurIn :: "string list option \<Rightarrow> topic_block_ranges \<Rightarrow> int \<Rightarrow> int \<Rightarrow> string list option" where
  "topicsThatCanOccurIn eventNameTopics topicBlockRanges fromBlock toBlock =
     (case eventNameTopics of
        None \<Rightarrow> None
      | Some topic0s \<Rightarrow>
          if topicBlockRanges = [] then None
          else Some (filter (\<lambda>t. canOccurIn (map_of topicBlockRanges t) fromBlock toBlock) topic0s))"

subsection \<open>What the declarations say\<close>

text \<open>The blocks of a range, and the blocks at which a source declares that a topic may be emitted.\<close>

definition blocks :: "event_block_range \<Rightarrow> int set" where
  "blocks r = {b. firstBlock r \<le> b \<and> (case lastBlock r of None \<Rightarrow> True | Some l \<Rightarrow> b \<le> l)}"

definition proper :: "event_block_range \<Rightarrow> bool" where
  "proper r \<longleftrightarrow> (case lastBlock r of None \<Rightarrow> True | Some l \<Rightarrow> firstBlock r \<le> l)"

definition source_events :: "ranged_contracts \<Rightarrow> abi_event set" where
  "source_events cs = (\<Union>abi \<in> set (contract_abis cs). set (events_of abi))"

fun declared_bound :: "jsnum option \<Rightarrow> int option" where
  "declared_bound None = None"
| "declared_bound (Some v) = Some (whole v)"

definition declared_at :: "abi_event \<Rightarrow> int \<Rightarrow> bool" where
  "declared_at e b \<longleftrightarrow>
     from_the_start_block (declared_bound (ae_firstBlock e)) \<le> b \<and>
     (case declared_bound (ae_lastBlock e) of None \<Rightarrow> True | Some l \<Rightarrow> b \<le> l)"

lemma blocks_simps [simp]:
  "b \<in> blocks \<lparr>firstBlock = f, lastBlock = None\<rparr> \<longleftrightarrow> f \<le> b"
  "b \<in> blocks \<lparr>firstBlock = f, lastBlock = Some l\<rparr> \<longleftrightarrow> f \<le> b \<and> b \<le> l"
  by (simp_all add: blocks_def)

lemma meets_window:
  assumes "proper r" and "f \<le> t"
  shows "firstBlock r \<le> t \<and> (case lastBlock r of None \<Rightarrow> True | Some l \<Rightarrow> l \<ge> f) \<longleftrightarrow> (\<exists>b \<in> blocks r. f \<le> b \<and> b \<le> t)"
proof
  assume "firstBlock r \<le> t \<and> (case lastBlock r of None \<Rightarrow> True | Some l \<Rightarrow> l \<ge> f)"
  then have "max f (firstBlock r) \<in> blocks r \<and> f \<le> max f (firstBlock r) \<and> max f (firstBlock r) \<le> t"
    using assms by (auto simp: blocks_def proper_def split: option.splits)
  then show "\<exists>b \<in> blocks r. f \<le> b \<and> b \<le> t" by blast
next
  assume "\<exists>b \<in> blocks r. f \<le> b \<and> b \<le> t"
  then show "firstBlock r \<le> t \<and> (case lastBlock r of None \<Rightarrow> True | Some l \<Rightarrow> l \<ge> f)"
    by (auto simp: blocks_def split: option.splits)
qed

lemma merge_ranges_blocks:
  assumes "merge_ranges sig p rs = Inr q" "proper p" "lastBlock p \<noteq> None"
    and "\<forall>r \<in> set rs. proper r \<and> lastBlock r \<noteq> None \<and> firstBlock p \<le> firstBlock r"
    and "sorted (map firstBlock rs)"
  shows "proper q \<and> lastBlock q \<noteq> None \<and> blocks q = blocks p \<union> (\<Union>r \<in> set rs. blocks r)"
  using assms
proof (induction rs arbitrary: p)
  case Nil
  then show ?case by simp
next
  case (Cons r rs)
  obtain l where l: "lastBlock p = Some l" using Cons.prems by blast
  obtain m where m: "lastBlock r = Some m" using Cons.prems by auto
  let ?p = "\<lparr>firstBlock = firstBlock p, lastBlock = Some (max l m)\<rparr>"
  have near: "firstBlock r \<le> l + 1" and rec: "merge_ranges sig ?p rs = Inr q"
    using Cons.prems(1) l m by (auto simp: Let_def split: if_splits)
  have "blocks ?p = blocks p \<union> blocks r"
    using Cons.prems near l m by (auto simp: blocks_def proper_def)
  moreover have "proper ?p" using Cons.prems l by (auto simp: proper_def)
  ultimately show ?case
    using Cons.IH[OF rec] Cons.prems by auto
qed

lemma normalizeRanges_blocks:
  assumes "normalizeRanges sig ranges = Inr rs" and "\<forall>r \<in> set ranges. proper r"
  shows "(\<forall>r \<in> set rs. proper r) \<and> (\<Union>r \<in> set ranges. blocks r) \<subseteq> (\<Union>r \<in> set rs. blocks r)
    \<and> ((\<forall>r \<in> set ranges. lastBlock r \<noteq> None) \<longrightarrow> (\<Union>r \<in> set rs. blocks r) = (\<Union>r \<in> set ranges. blocks r))"
proof (cases "list_ex (\<lambda>r. lastBlock r = None) ranges")
  case True
  then have "rs = [\<lparr>firstBlock = Min (set (map firstBlock ranges)), lastBlock = None\<rparr>]"
    using assms(1) by (simp add: normalizeRanges_def)
  moreover have "Min (set (map firstBlock ranges)) \<le> b" if x: "r \<in> set ranges" "b \<in> blocks r" for r b
    using x by (intro order.trans[OF Min_le[of "set (map firstBlock ranges)" "firstBlock r"]]) (auto simp: blocks_def)
  ultimately show ?thesis using True by (auto simp: proper_def list_ex_iff)
next
  case False
  then have bounded: "\<forall>r \<in> set ranges. lastBlock r \<noteq> None" by (simp add: list_ex_iff)
  show ?thesis
  proof (cases "sort_key firstBlock ranges")
    case Nil
    then have "set ranges = {}" by (metis set_sort empty_set)
    then show ?thesis using assms(1) False Nil by (simp add: normalizeRanges_def)
  next
    case (Cons p ps)
    then obtain q where q: "merge_ranges sig p ps = Inr q" "rs = [q]"
      using assms(1) False by (auto simp: normalizeRanges_def)
    have elems: "set ranges = insert p (set ps)" by (metis Cons set_sort list.simps(15))
    have "sorted (map firstBlock (p # ps))" by (metis Cons sorted_sort_key)
    then show ?thesis
      using merge_ranges_blocks[OF q(1)] assms(2) bounded elems q(2) by auto
  qed
qed

lemma list_all2_from:
  "list_all2 P xs ys \<Longrightarrow> x \<in> set xs \<Longrightarrow> \<exists>y \<in> set ys. P x y"
  by (induction rule: list_all2_induct) auto

lemma list_all2_onto:
  "list_all2 P xs ys \<Longrightarrow> y \<in> set ys \<Longrightarrow> \<exists>x \<in> set xs. P x y"
  by (induction rule: list_all2_induct) auto

subsection \<open>From the declarations to the ranges of a topic\<close>

lemma assert_declared_Inr:
  "assert_declared v e = Inr d \<Longrightarrow> d = declared_bound v"
  by (cases v) auto

lemma range_or_default_form:
  assumes "range_or_default e 0 = Inr r"
  shows "firstBlock r = from_the_start_block (declared_bound (ae_firstBlock e))"
    and "lastBlock r = declared_bound (ae_lastBlock e)" and "proper r"
  using assms
  by (cases "ae_firstBlock e"; cases "ae_lastBlock e";
      fastforce simp: range_or_default_def declaredRangeOf_def Let_def from_the_start_block_def proper_def
        assertBlockNumber_def split: if_splits)+

lemma range_or_default_blocks:
  assumes "range_or_default e 0 = Inr r"
  shows "proper r" "blocks r = {b. declared_at e b}" "lastBlock r = None \<longleftrightarrow> ae_lastBlock e = None"
  using range_or_default_form[OF assms]
  by (simp_all add: blocks_def declared_at_def) (cases "ae_lastBlock e"; simp)

definition ranges_of :: "signature_groups \<Rightarrow> string \<Rightarrow> event_block_range set" where
  "ranges_of gs sig = (case map_of gs sig of None \<Rightarrow> {} | Some (e, rs) \<Rightarrow> set rs)"

lemma ranges_of_add:
  "ranges_of (push_range e r gs) sig = ranges_of gs sig \<union> (if ae_signature e = sig then {r} else {})"
  by (auto simp: ranges_of_def push_range_def update_conv' split: option.splits)

lemma push_range_dom:
  "dom (map_of (push_range e r gs)) = insert (ae_signature e) (dom (map_of gs))"
  by (auto simp: push_range_def update_conv' split: option.splits if_splits)

lemma push_range_distinct:
  "distinct (map fst gs) \<Longrightarrow> distinct (map fst (push_range e r gs))"
  by (auto simp: push_range_def distinct_update map_of_eq_None_iff split: option.splits)

definition own_groups :: "abi_event set \<Rightarrow> signature_groups \<Rightarrow> bool" where
  "own_groups E gs \<longleftrightarrow> (\<forall>sig e rs. map_of gs sig = Some (e, rs) \<longrightarrow> e \<in> E \<and> ae_signature e = sig)"

lemma own_groups_add:
  "own_groups E gs \<Longrightarrow> e \<in> E \<Longrightarrow> own_groups E (push_range e r gs)"
  by (auto simp: own_groups_def push_range_def update_conv' split: option.splits if_splits)

lemma group_events_groups:
  assumes "group_events fallback es gs = Inr gs'" "distinct (map fst gs)" "own_groups E gs" "set es \<subseteq> E"
  shows "distinct (map fst gs') \<and> own_groups E gs'
    \<and> dom (map_of gs') = dom (map_of gs) \<union> ae_signature ` set es
    \<and> (\<forall>sig. ranges_of gs' sig = ranges_of gs sig \<union> {r. \<exists>e \<in> set es. ae_signature e = sig \<and> range_or_default e fallback = Inr r})
    \<and> (\<forall>e \<in> set es. \<exists>r. range_or_default e fallback = Inr r)"
  using assms
proof (induction es arbitrary: gs)
  case Nil
  then show ?case by simp
next
  case (Cons e es)
  obtain r where r: "range_or_default e fallback = Inr r"
    and rec: "group_events fallback es (push_range e r gs) = Inr gs'"
    using Cons.prems(1) by auto
  have ih: "distinct (map fst gs') \<and> own_groups E gs'
    \<and> dom (map_of gs') = dom (map_of (push_range e r gs)) \<union> ae_signature ` set es
    \<and> (\<forall>sig. ranges_of gs' sig = ranges_of (push_range e r gs) sig \<union>
          {r. \<exists>e \<in> set es. ae_signature e = sig \<and> range_or_default e fallback = Inr r})
    \<and> (\<forall>e \<in> set es. \<exists>r. range_or_default e fallback = Inr r)"
    using Cons.prems push_range_distinct own_groups_add by (intro Cons.IH[OF rec]) auto
  have dom': "dom (map_of gs') = dom (map_of gs) \<union> ae_signature ` set (e # es)"
    using ih by (simp add: push_range_dom insert_commute)
  have "ranges_of gs' sig = ranges_of gs sig \<union> {r. \<exists>e \<in> set (e # es). ae_signature e = sig \<and> range_or_default e fallback = Inr r}" for sig
  proof -
    have "ranges_of gs' sig = (ranges_of gs sig \<union> (if ae_signature e = sig then {r} else {})) \<union>
          {r. \<exists>e \<in> set es. ae_signature e = sig \<and> range_or_default e fallback = Inr r}"
      using ih by (simp add: ranges_of_add)
    moreover have "{r. \<exists>e \<in> set (e # es). ae_signature e = sig \<and> range_or_default e fallback = Inr r} =
        (if ae_signature e = sig then {r} else {}) \<union> {r. \<exists>e \<in> set es. ae_signature e = sig \<and> range_or_default e fallback = Inr r}"
      using r by auto
    ultimately show ?thesis by (simp only: Un_assoc)
  qed
  then show ?case using ih r dom' by simp
qed

definition same_signature :: "abi_event \<Rightarrow> abi_event \<Rightarrow> bool" where
  "same_signature e e' \<longleftrightarrow> ae_signature e = ae_signature e'"

definition covers_events :: "abi_event set \<Rightarrow> live_event set \<Rightarrow> bool" where
  "covers_events E L \<longleftrightarrow> (\<forall>e \<in> E. \<exists>l \<in> L. same_signature e (le_event l) \<and> le_event l \<in> E \<and>
     {b. declared_at e b} \<subseteq> (\<Union>r \<in> set (le_ranges l). blocks r))"

definition sound_live :: "abi_event set \<Rightarrow> live_event \<Rightarrow> bool" where
  "sound_live E l \<longleftrightarrow> le_event l \<in> E \<and> (\<forall>r \<in> set (le_ranges l). proper r) \<and>
     ((\<forall>e \<in> E. same_signature e (le_event l) \<longrightarrow> ae_lastBlock e \<noteq> None) \<longrightarrow>
       (\<Union>r \<in> set (le_ranges l). blocks r) \<subseteq> {b. \<exists>e \<in> E. same_signature e (le_event l) \<and> declared_at e b})"

lemma live_in_contract_events:
  assumes "live_in_contract c = Inr ls" and "ce_defaultFirstBlock c = 0"
  shows "covers_events (set (events_of (ce_abi c))) (set ls)" "\<forall>l \<in> set ls. sound_live (set (events_of (ce_abi c))) l"
proof -
  let ?E = "set (events_of (ce_abi c))"
  obtain gs where g: "group_events 0 (events_of (ce_abi c)) [] = Inr gs"
    and t: "traverse (live_of_group (ce_address c)) gs = Inr ls"
    using assms by (auto simp: live_in_contract_def)
  note groups = group_events_groups[OF g, of ?E]
  have dist: "distinct (map fst gs)" and own: "own_groups ?E gs"
    and doms: "dom (map_of gs) = ae_signature ` ?E"
    and rof: "\<And>sig. ranges_of gs sig = {r. \<exists>e \<in> ?E. ae_signature e = sig \<and> range_or_default e 0 = Inr r}"
    and ok: "\<And>e. e \<in> ?E \<Longrightarrow> \<exists>r. range_or_default e 0 = Inr r"
    using groups by (auto simp: own_groups_def ranges_of_def)
  have each: "list_all2 (\<lambda>g l. live_of_group (ce_address c) g = Inr l) gs ls"
    using t by (simp add: traverse_Inr_iff)
  have one: "sound_live ?E l \<and> ae_signature (le_event l) = sig \<and> le_event l = e1 \<and>
      (\<forall>e \<in> ?E. ae_signature e = sig \<longrightarrow> {b. declared_at e b} \<subseteq> (\<Union>r \<in> set (le_ranges l). blocks r))"
    if x: "(sig, e1, rs) \<in> set gs" "live_of_group (ce_address c) (sig, e1, rs) = Inr l" for sig e1 rs l
  proof -
    obtain out where out: "normalizeRanges sig rs = Inr out" "le_event l = e1" "le_ranges l = out"
      using x(2) by (auto simp: live_of_group_def)
    have mo: "map_of gs sig = Some (e1, rs)" using dist x(1) by simp
    have rs: "set rs = {r. \<exists>e \<in> ?E. ae_signature e = sig \<and> range_or_default e 0 = Inr r}"
      using rof[of sig] mo by (simp add: ranges_of_def)
    have e1: "e1 \<in> ?E" "ae_signature e1 = sig" using own mo by (auto simp: own_groups_def)
    have pr: "\<forall>r \<in> set rs. proper r" using rs range_or_default_blocks(1) by blast
    note n = normalizeRanges_blocks[OF out(1) pr]
    have all: "{b. declared_at e b} \<subseteq> (\<Union>r \<in> set out. blocks r)" if y: "e \<in> ?E" "ae_signature e = sig" for e
    proof -
      obtain r where r: "range_or_default e 0 = Inr r" using ok[OF y(1)] by blast
      then have "r \<in> set rs" using rs y by blast
      then have "blocks r \<subseteq> (\<Union>r \<in> set rs. blocks r)" by (rule UN_upper)
      then show ?thesis using n range_or_default_blocks(2)[OF r] by (metis subset_trans)
    qed
    have "(\<Union>r \<in> set out. blocks r) \<subseteq> {b. \<exists>e \<in> ?E. ae_signature e = sig \<and> declared_at e b}"
      if y: "\<forall>e \<in> ?E. ae_signature e = sig \<longrightarrow> ae_lastBlock e \<noteq> None"
    proof -
      have "\<forall>r \<in> set rs. lastBlock r \<noteq> None" using rs range_or_default_blocks(3) y by blast
      then have eq: "(\<Union>r \<in> set out. blocks r) = (\<Union>r \<in> set rs. blocks r)" using n by blast
      show ?thesis unfolding eq using rs range_or_default_blocks(2) by blast
    qed
    then show ?thesis unfolding sound_live_def same_signature_def out(2,3) e1(2)
      using all e1 n by simp
  qed
  show "\<forall>l \<in> set ls. sound_live ?E l"
  proof
    fix l assume "l \<in> set ls"
    then obtain g where "g \<in> set gs" "live_of_group (ce_address c) g = Inr l"
      using list_all2_onto[OF each] by blast
    then show "sound_live ?E l" using one by (metis prod_cases3)
  qed
  show "covers_events ?E (set ls)"
    unfolding covers_events_def
  proof
    fix e assume e: "e \<in> ?E"
    then have "ae_signature e \<in> dom (map_of gs)" using doms by blast
    then obtain e1 rs where "(ae_signature e, e1, rs) \<in> set gs" by (auto dest: map_of_SomeD)
    moreover obtain l where "l \<in> set ls" "live_of_group (ce_address c) (ae_signature e, e1, rs) = Inr l"
      using list_all2_from[OF each calculation] by blast
    ultimately show "\<exists>l \<in> set ls. same_signature e (le_event l) \<and> le_event l \<in> ?E \<and>
        {b. declared_at e b} \<subseteq> (\<Union>r \<in> set (le_ranges l). blocks r)"
      using one[of "ae_signature e" e1 rs l] e unfolding same_signature_def sound_live_def by metis
  qed
qed

lemma liveEventsIn_events:
  assumes "liveEventsIn cs = Inr live" and "\<forall>c \<in> set cs. ce_defaultFirstBlock c = 0"
  shows "\<And>c. c \<in> set cs \<Longrightarrow> covers_events (set (events_of (ce_abi c))) (set live)"
    and "\<And>l. l \<in> set live \<Longrightarrow> \<exists>c \<in> set cs. sound_live (set (events_of (ce_abi c))) l"
proof -
  obtain ls where ls: "list_all2 (\<lambda>c l. live_in_contract c = Inr l) cs ls" "live = concat ls"
    using assms(1) by (auto simp: liveEventsIn_def traverse_Inr_iff)
  show "covers_events (set (events_of (ce_abi c))) (set live)" if c: "c \<in> set cs" for c
  proof -
    obtain l where l: "l \<in> set ls" "live_in_contract c = Inr l"
      using list_all2_from[OF ls(1) c] by blast
    have "set l \<subseteq> set live" using ls(2) l(1) by auto
    then show ?thesis using live_in_contract_events(1)[OF l(2)] assms(2) c
      unfolding covers_events_def by (meson subsetD)
  qed
  show "\<exists>c \<in> set cs. sound_live (set (events_of (ce_abi c))) l" if l: "l \<in> set live" for l
  proof -
    obtain k where k: "k \<in> set ls" "l \<in> set k" using l ls(2) by auto
    obtain c where c: "c \<in> set cs" "live_in_contract c = Inr k"
      using list_all2_onto[OF ls(1) k(1)] by blast
    then show ?thesis using live_in_contract_events(2)[OF c(2)] assms(2) k(2) by blast
  qed
qed

definition topic_ranges :: "live_event set \<Rightarrow> string \<Rightarrow> event_block_range set" where
  "topic_ranges L t = (\<Union>l \<in> {l \<in> L. ae_topic0 (le_event l) = Some t}. set (le_ranges l))"

definition set_or_empty :: "'a list option \<Rightarrow> 'a set" where
  "set_or_empty v = (case v of None \<Rightarrow> {} | Some xs \<Rightarrow> set xs)"

lemma add_topic_ranges:
  "set_or_empty (map_of (add_topic l m) t) =
    set_or_empty (map_of m t) \<union> (if ae_topic0 (le_event l) = Some t then set (le_ranges l) else {})"
  "map_of (add_topic l m) t = None \<longleftrightarrow> map_of m t = None \<and> ae_topic0 (le_event l) \<noteq> Some t"
  by (auto simp: add_topic_def set_or_empty_def update_conv' split: option.splits if_splits)

lemma fold_add_topic:
  "set_or_empty (map_of (fold add_topic ls m) t) = set_or_empty (map_of m t) \<union> topic_ranges (set ls) t
   \<and> (map_of (fold add_topic ls m) t = None \<longleftrightarrow> map_of m t = None \<and> (\<forall>l \<in> set ls. ae_topic0 (le_event l) \<noteq> Some t))"
proof (induction ls arbitrary: m)
  case Nil
  then show ?case by (simp add: topic_ranges_def)
next
  case (Cons l ls)
  have "topic_ranges (set (l # ls)) t =
      (if ae_topic0 (le_event l) = Some t then set (le_ranges l) else {}) \<union> topic_ranges (set ls) t"
    by (auto simp: topic_ranges_def)
  then show ?case
    using Cons.IH[of "add_topic l m"] add_topic_ranges[of l m t] by (simp add: Un_assoc)
qed

lemma source_events_entries:
  "source_events cs = (\<Union>c \<in> set (contractEntriesOf cs start). set (events_of (ce_abi c)))"
  by (cases cs) (auto simp: source_events_def)

lemma requestable_ranges_of_topic:
  assumes "requestableRangesPerTopic cs = Inr m" "m \<noteq> []"
    and same: "\<forall>e \<in> source_events cs. \<forall>e' \<in> source_events cs. same_signature e e' \<longrightarrow> ae_topic0 e = ae_topic0 e'"
    and "map_of m t = Some rs"
  shows "\<forall>r \<in> set rs. proper r"
    and "\<And>e b. e \<in> source_events cs \<Longrightarrow> ae_topic0 e = Some t \<Longrightarrow> declared_at e b \<Longrightarrow> \<exists>r \<in> set rs. b \<in> blocks r"
    and "\<And>b. (\<And>e. e \<in> source_events cs \<Longrightarrow> ae_topic0 e = Some t \<Longrightarrow> ae_lastBlock e \<noteq> None) \<Longrightarrow>
      \<exists>r \<in> set rs. b \<in> blocks r \<Longrightarrow> \<exists>e \<in> source_events cs. ae_topic0 e = Some t \<and> declared_at e b"
proof -
  let ?entries = "contractEntriesOf cs from_block_zero"
  obtain live where live: "liveEventsIn ?entries = Inr live" "m = fold add_topic live []"
    using assms(1,2) by (auto simp: requestableRangesPerTopic_def split: if_splits)
  have zero: "\<forall>c \<in> set ?entries. ce_defaultFirstBlock c = 0"
    by (cases cs) (auto simp: from_block_zero_def)
  note evs = source_events_entries[of cs from_block_zero]
  note facts = liveEventsIn_events[OF live(1) zero]
  have rs: "set rs = topic_ranges (set live) t"
    using fold_add_topic[of live "[]" t] assms(4) live(2) by (simp add: set_or_empty_def)
  have sound: "le_event l \<in> source_events cs \<and> (\<forall>r \<in> set (le_ranges l). proper r) \<and>
     ((\<forall>e \<in> source_events cs. same_signature e (le_event l) \<longrightarrow> ae_lastBlock e \<noteq> None) \<longrightarrow>
       (\<Union>r \<in> set (le_ranges l). blocks r) \<subseteq> {b. \<exists>e \<in> source_events cs. same_signature e (le_event l) \<and> declared_at e b})"
    if l: "l \<in> set live" for l
  proof -
    obtain c where c: "c \<in> set ?entries" "sound_live (set (events_of (ce_abi c))) l" using facts(2)[OF l] by blast
    then have "set (events_of (ce_abi c)) \<subseteq> source_events cs" using evs by auto
    then show ?thesis using c(2) unfolding sound_live_def by blast
  qed
  show "\<forall>r \<in> set rs. proper r" using rs sound by (auto simp: topic_ranges_def)
  show "\<exists>r \<in> set rs. b \<in> blocks r" if e: "e \<in> source_events cs" "ae_topic0 e = Some t" "declared_at e b" for e b
  proof -
    obtain c where c: "c \<in> set ?entries" "e \<in> set (events_of (ce_abi c))" using evs e(1) by blast
    obtain l where l: "l \<in> set live" "same_signature e (le_event l)"
      "{b. declared_at e b} \<subseteq> (\<Union>r \<in> set (le_ranges l). blocks r)"
      using facts(1)[OF c(1)] c(2) unfolding covers_events_def by blast
    have "ae_topic0 (le_event l) = Some t" using same e(1,2) sound[OF l(1)] l(2) by metis
    then have "set (le_ranges l) \<subseteq> set rs" using rs l(1) by (auto simp: topic_ranges_def)
    then show ?thesis using l(3) e(3) by blast
  qed
  show "\<exists>e \<in> source_events cs. ae_topic0 e = Some t \<and> declared_at e b"
    if x: "\<And>e. e \<in> source_events cs \<Longrightarrow> ae_topic0 e = Some t \<Longrightarrow> ae_lastBlock e \<noteq> None"
      "\<exists>r \<in> set rs. b \<in> blocks r" for b
  proof -
    obtain l r where l: "l \<in> set live" "ae_topic0 (le_event l) = Some t" "r \<in> set (le_ranges l)" "b \<in> blocks r"
      using x(2) rs by (auto simp: topic_ranges_def)
    have "\<forall>e \<in> source_events cs. same_signature e (le_event l) \<longrightarrow> ae_lastBlock e \<noteq> None"
      using x(1) same sound[OF l(1)] l(2) by metis
    then obtain e where "e \<in> source_events cs" "same_signature e (le_event l)" "declared_at e b"
      using sound[OF l(1)] l(3,4) by blast
    then show ?thesis using same sound[OF l(1)] l(2) by metis
  qed
qed

lemma canOccurIn_blocks:
  assumes "\<forall>r \<in> set rs. proper r" "f \<le> t"
  shows "canOccurIn (Some rs) f t \<longleftrightarrow> (\<exists>r \<in> set rs. \<exists>b \<in> blocks r. f \<le> b \<and> b \<le> t)"
  unfolding canOccurIn_def list_ex_iff option.case using meets_window[OF _ assms(2)] assms(1) by blast

text \<open>
  C35. Narrowing a request by the declared ranges is sound and, where ranges are closed, exact. For
  a source whose ranges are accepted and whose topic is a function of the signature, a topic is
  named for a window whenever some event with that topic is declared live at a block of the window;
  and when every event with that topic is declared with a last block, it is named only then. No
  event is lost by merging ranges, sharing a signature or sharing an address.
\<close>

theorem narrowing_is_exact:
  assumes "requestableRangesPerTopic cs = Inr ranges" and "f \<le> t"
    and "\<forall>e \<in> source_events cs. \<forall>e' \<in> source_events cs. same_signature e e' \<longrightarrow> ae_topic0 e = ae_topic0 e'"
    and "topicsThatCanOccurIn (Some topics) ranges f t = Some named"
    and "e0 \<in> source_events cs" "ae_topic0 e0 = Some topic" "topic \<in> set topics"
  shows "let live = (\<exists>b \<ge> f. b \<le> t \<and> (\<exists>e \<in> source_events cs. ae_topic0 e = Some topic \<and> declared_at e b));
      closed = (\<forall>e \<in> source_events cs. ae_topic0 e = Some topic \<longrightarrow> ae_lastBlock e \<noteq> None)
    in (live \<longrightarrow> topic \<in> set named) \<and> (closed \<longrightarrow> (topic \<in> set named \<longleftrightarrow> live))"
proof -
  have ne: "ranges \<noteq> []"
    and named: "topic \<in> set named \<longleftrightarrow> canOccurIn (map_of ranges topic) f t"
    using assms(4,7) by (auto simp: topicsThatCanOccurIn_def split: if_splits)
  show ?thesis
  proof (cases "map_of ranges topic")
    case None
    obtain live where live: "liveEventsIn (contractEntriesOf cs from_block_zero) = Inr live" "ranges = fold add_topic live []"
      using assms(1) ne by (auto simp: requestableRangesPerTopic_def split: if_splits)
    have none: "\<forall>l \<in> set live. ae_topic0 (le_event l) \<noteq> Some topic"
      using fold_add_topic[of live "[]" topic] None live(2) by simp
    have zero: "\<forall>c \<in> set (contractEntriesOf cs from_block_zero). ce_defaultFirstBlock c = 0"
      by (cases cs) (auto simp: from_block_zero_def)
    obtain c where c: "c \<in> set (contractEntriesOf cs from_block_zero)" "e0 \<in> set (events_of (ce_abi c))"
      "set (events_of (ce_abi c)) \<subseteq> source_events cs"
      using assms(5) unfolding source_events_entries[of cs from_block_zero] by blast
    then obtain l where "l \<in> set live" "same_signature e0 (le_event l)" "le_event l \<in> source_events cs"
      using liveEventsIn_events(1)[OF live(1) zero c(1)] unfolding covers_events_def by blast
    then have False using none assms(3,5,6) by metis
    then show ?thesis ..
  next
    case (Some rs)
    note r = requestable_ranges_of_topic[OF assms(1) ne assms(3) Some]
    have iff: "topic \<in> set named \<longleftrightarrow> (\<exists>r \<in> set rs. \<exists>b \<in> blocks r. f \<le> b \<and> b \<le> t)"
      using named Some canOccurIn_blocks[OF r(1) assms(2)] by simp
    show ?thesis
      unfolding Let_def iff using r(2,3) by (intro conjI impI iffI) blast+
  qed
qed

text \<open>
  A contract upgraded at block 10 declares its event twice, at another address the same event ends
  at block 3: the ranges are merged per address, and a window between the two asks for nothing.
\<close>

definition sample_event :: "jsnum option \<Rightarrow> jsnum option \<Rightarrow> abi_item" where
  "sample_event first final =
     AbiEvent \<lparr>ae_signature = ''E()'', ae_topic0 = Some ''0xe'', ae_firstBlock = first, ae_lastBlock = final\<rparr>"

definition sample_contracts :: ranged_contracts where
  "sample_contracts = ContractList
     [\<lparr>cd_address = ''0xa'', cd_abi = [sample_event (Some (Whole 11)) (Some (Whole 20)), AbiOther,
        sample_event (Some (Whole 7)) (Some (Whole 10))], cd_startBlock = Some 5\<rparr>,
      \<lparr>cd_address = ''0xb'', cd_abi = [sample_event None (Some (Whole 3))], cd_startBlock = Some 1\<rparr>]"

lemmas range_eval = requestableRangesPerTopic_def contractsDeclareEventRanges_def liveEventsIn_def live_in_contract_def
  live_of_group_def normalizeRanges_def push_range_def range_or_default_def declaredRangeOf_def assertBlockNumber_def
  add_topic_def topicsThatCanOccurIn_def canOccurIn_def from_block_zero_def sample_contracts_def sample_event_def
  MAX_SAFE_INTEGER_def source_events_def declared_at_def from_the_start_block_def

lemma narrowing_is_exact_witness:
  "requestableRangesPerTopic sample_contracts =
     Inr [(''0xe'', [\<lparr>firstBlock = 7, lastBlock = Some 20\<rparr>, \<lparr>firstBlock = 0, lastBlock = Some 3\<rparr>])] \<and>
   (\<exists>named. topicsThatCanOccurIn (Some [''0xe'']) [(''0xe'', [\<lparr>firstBlock = 7, lastBlock = Some 20\<rparr>,
      \<lparr>firstBlock = 0, lastBlock = Some 3\<rparr>])] 4 6 = Some named \<and> ''0xe'' \<notin> set named)"
proof -
  have r: "requestableRangesPerTopic sample_contracts =
     Inr [(''0xe'', [\<lparr>firstBlock = 7, lastBlock = Some 20\<rparr>, \<lparr>firstBlock = 0, lastBlock = Some 3\<rparr>])]"
    by (simp add: range_eval Let_def)
  obtain named where n: "topicsThatCanOccurIn (Some [''0xe'']) [(''0xe'', [\<lparr>firstBlock = 7, lastBlock = Some 20\<rparr>,
      \<lparr>firstBlock = 0, lastBlock = Some 3\<rparr>])] 4 6 = Some named" by (simp add: range_eval)
  have evs: "source_events sample_contracts =
      {e. AbiEvent e \<in> {sample_event (Some (Whole 11)) (Some (Whole 20)), sample_event (Some (Whole 7)) (Some (Whole 10)),
        sample_event None (Some (Whole 3))}}"
    by (auto simp: range_eval)
  show ?thesis
    using r n narrowing_is_exact[OF r _ _ n, of "\<lparr>ae_signature = ''E()'', ae_topic0 = Some ''0xe'',
        ae_firstBlock = None, ae_lastBlock = Some (Whole 3)\<rparr>" "''0xe''"]
    by (auto simp: evs sample_event_def declared_at_def from_the_start_block_def Let_def)
qed

end
