(* ===== verification/Log_Requests.thy ===== *)
theory Log_Requests
  imports Stream_Types "HOL-Library.Product_Lexorder"
begin

section \<open>The eth_getLogs requests of a window\<close>

text \<open>
  \<open>packages/core/src/internal/engine/ethereum.ts\<close>: which requests a list of topics and argument
  filters becomes, how at most four of them run at once, and how their answers are merged. The node
  is the argument \<open>provider\<close>; the interleaving of the pool is an explicit schedule, the order in which
  the requests in flight settle. A log's hexadecimal quantities are read as the numbers they stand for.
\<close>

subsection \<open>Requests and filters\<close>

datatype topic_pattern = AnyTopic | ExactTopic string | OneOfTopics "string list"

record log_request =
  lr_topics :: "topic_pattern list"
  lr_contractAddresses :: "string list option"

datatype extra_filter =
    MatchFilter (ef_topic0: string) (ef_contractAddresses: "string list option") "topic_pattern list"
  | LeftoverFilter (ef_topic0: string) (ef_contractAddresses: "string list option")

fun join_with :: "string \<Rightarrow> string list \<Rightarrow> string" where
  "join_with sep [] = []"
| "join_with sep [x] = x"
| "join_with sep (x # y # xs) = x @ sep @ join_with sep (y # xs)"

definition addressScopeKey :: "string list option \<Rightarrow> string" where
  "addressScopeKey scope = (case scope of None \<Rightarrow> ''*'' | Some addresses \<Rightarrow> join_with '','' addresses)"

fun wildcard_end :: "topic_pattern list \<Rightarrow> nat \<Rightarrow> nat" where
  "wildcard_end m 0 = 0"
| "wildcard_end m (Suc n) = (if m ! n = AnyTopic then wildcard_end m n else Suc n)"

definition withoutTrailingWildcards :: "topic_pattern list \<Rightarrow> topic_pattern list" where
  "withoutTrailingWildcards m = take (wildcard_end m (length m)) m"

type_synonym leftover_groups = "(string \<times> string list option \<times> string list) list"

definition push_leftover :: "string list option \<Rightarrow> string \<Rightarrow> leftover_groups \<Rightarrow> leftover_groups" where
  "push_leftover scope topic0 groups =
     (case map_of groups (addressScopeKey scope) of
        None \<Rightarrow> groups @ [(addressScopeKey scope, scope, [topic0])]
      | Some (own, topic0s) \<Rightarrow> AList.update (addressScopeKey scope) (own, topic0s @ [topic0]) groups)"

record request_plan =
  scopedRequests :: "log_request list"
  leftoverGroups :: leftover_groups
  mentioned :: "string list"

definition plan_filter :: "string list \<Rightarrow> extra_filter \<Rightarrow> request_plan \<Rightarrow> request_plan" where
  "plan_filter live fl plan0 =
     (let plan = plan0\<lparr>mentioned := mentioned plan0 @ [ef_topic0 fl]\<rparr> in
      if ef_topic0 fl \<notin> set live then plan
      else
        (case fl of
           LeftoverFilter topic0 scope \<Rightarrow> plan\<lparr>leftoverGroups := push_leftover scope topic0 (leftoverGroups plan)\<rparr>
         | MatchFilter topic0 scope match \<Rightarrow>
             plan\<lparr>scopedRequests := scopedRequests plan @
               [\<lparr>lr_topics = ExactTopic topic0 # withoutTrailingWildcards match, lr_contractAddresses = scope\<rparr>]\<rparr>))"

definition plan_unmentioned :: "string list option \<Rightarrow> string \<Rightarrow> request_plan \<Rightarrow> request_plan" where
  "plan_unmentioned scope topic0 plan =
     (if topic0 \<in> set (mentioned plan) then plan
      else plan\<lparr>leftoverGroups := push_leftover scope topic0 (leftoverGroups plan)\<rparr>)"

definition shared_requests :: "leftover_groups \<Rightarrow> log_request list" where
  "shared_requests groups =
     map (\<lambda>(k, scope, topic0s). \<lparr>lr_topics = [OneOfTopics topic0s], lr_contractAddresses = scope\<rparr>)
       (filter (\<lambda>(k, scope, topic0s). topic0s \<noteq> []) groups)"

definition generateLogRequestForTopicsAndFiltersCombinations ::
    "string list option \<Rightarrow> string list \<Rightarrow> extra_filter list \<Rightarrow> log_request list" where
  "generateLogRequestForTopicsAndFiltersCombinations contractAddresses eventNameTopics filters =
     (if filters = [] then [\<lparr>lr_topics = [OneOfTopics eventNameTopics], lr_contractAddresses = contractAddresses\<rparr>]
      else
        (let filtered = fold (plan_filter eventNameTopics) filters \<lparr>scopedRequests = [], leftoverGroups = [], mentioned = []\<rparr>;
             plan = fold (plan_unmentioned contractAddresses) eventNameTopics filtered
         in shared_requests (leftoverGroups plan) @ scopedRequests plan))"

subsection \<open>The bounded pool\<close>

definition MAX_CONCURRENT_LOG_REQUESTS :: nat where
  "MAX_CONCURRENT_LOG_REQUESTS = 4"

record ('e, 'r) pool =
  nextIndex :: nat
  in_flight :: "nat list"
  results :: "nat \<rightharpoonup> 'r"
  failures :: "(nat \<times> 'e) list"

text \<open>The workers are started one after the other, each taking the next index before it first waits.\<close>

definition start_pool :: "nat \<Rightarrow> ('e, 'r) pool" where
  "start_pool n = \<lparr>nextIndex = min MAX_CONCURRENT_LOG_REQUESTS n, in_flight = [0..<min MAX_CONCURRENT_LOG_REQUESTS n],
     results = Map.empty, failures = []\<rparr>"

definition take_next :: "nat \<Rightarrow> ('e, 'r) pool \<Rightarrow> ('e, 'r) pool" where
  "take_next n p =
     (if failures p = [] \<and> nextIndex p < n
      then p\<lparr>nextIndex := Suc (nextIndex p), in_flight := in_flight p @ [nextIndex p]\<rparr> else p)"

text \<open>One request in flight settles: its worker stores the answer and takes the next index, or stops.\<close>

definition settle :: "(nat \<Rightarrow> ('e, 'r) result) \<Rightarrow> nat \<Rightarrow> nat \<Rightarrow> ('e, 'r) pool \<Rightarrow> ('e, 'r) pool" where
  "settle answer n index p =
     (if index \<notin> set (in_flight p) then p
      else
        (let q = p\<lparr>in_flight := remove1 index (in_flight p)\<rparr> in
         case answer index of
           Inl e \<Rightarrow> q\<lparr>failures := failures q @ [(index, e)]\<rparr>
         | Inr r \<Rightarrow> take_next n (q\<lparr>results := (results q)(index \<mapsto> r)\<rparr>)))"

fun earliest_failure :: "nat \<times> 'e \<Rightarrow> (nat \<times> 'e) list \<Rightarrow> nat \<times> 'e" where
  "earliest_failure earliest [] = earliest"
| "earliest_failure earliest (failure # fs) =
     earliest_failure (if fst failure < fst earliest then failure else earliest) fs"

definition pool_outcome :: "nat \<Rightarrow> ('e, 'r) pool \<Rightarrow> ('e, 'r list) result" where
  "pool_outcome n p =
     (case failures p of
        [] \<Rightarrow> Inr (map (\<lambda>i. the (results p i)) [0..<n])
      | f # fs \<Rightarrow> Inl (snd (earliest_failure f fs)))"

definition run_pool :: "(nat \<Rightarrow> ('e, 'r) result) \<Rightarrow> nat \<Rightarrow> nat list \<Rightarrow> ('e, 'r) pool" where
  "run_pool answer n schedule = fold (settle answer n) schedule (start_pool n)"

definition settles :: "(nat \<Rightarrow> ('e, 'r) result) \<Rightarrow> nat \<Rightarrow> nat list \<Rightarrow> bool" where
  "settles answer n schedule \<longleftrightarrow> in_flight (run_pool answer n schedule) = []"

subsection \<open>Fetching and merging\<close>

datatype 'a node_log = PendingLog | IncludedLog "'a log_event"

fun included :: "'a node_log list \<Rightarrow> 'a log_event list" where
  "included [] = []"
| "included (PendingLog # ls) = included ls"
| "included (IncludedLog l # ls) = l # included ls"

record block_window =
  bw_fromBlock :: int
  bw_toBlock :: int

type_synonym ('e, 'a) log_provider =
  "topic_pattern list option \<Rightarrow> string list option \<Rightarrow> block_window \<Rightarrow> ('e, 'a node_log list) result"

definition getLogs_request :: "('e, 'a) log_provider \<Rightarrow> string list option \<Rightarrow> topic_pattern list option \<Rightarrow> block_window
    \<Rightarrow> ('e, 'a log_event list) result" where
  "getLogs_request provider contractAddresses topic_list w =
     and_then (provider topic_list contractAddresses w) (\<lambda>ls. Inr (included ls))"

definition request_answer :: "('e, 'a) log_provider \<Rightarrow> log_request list \<Rightarrow> block_window \<Rightarrow> nat \<Rightarrow> ('e, 'a log_event list) result" where
  "request_answer provider requestList w i =
     getLogs_request provider (lr_contractAddresses (requestList ! i)) (Some (lr_topics (requestList ! i))) w"

definition issueRequestsBounded :: "('e, 'a) log_provider \<Rightarrow> log_request list \<Rightarrow> block_window \<Rightarrow> nat list
    \<Rightarrow> ('e, 'a log_event list list) result" where
  "issueRequestsBounded provider requestList w schedule =
     pool_outcome (length requestList)
       (run_pool (request_answer provider requestList w) (length requestList) schedule)"

definition chain_position :: "'a log_event \<Rightarrow> int \<times> int" where
  "chain_position l = (blockNumber l, logIndex l)"

fun drop_repeats :: "'a log_event option \<Rightarrow> 'a log_event list \<Rightarrow> 'a log_event list" where
  "drop_repeats lastAdded [] = []"
| "drop_repeats lastAdded (l # ls) =
     (if (case lastAdded of None \<Rightarrow> False | Some a \<Rightarrow> blockHash l = blockHash a \<and> logIndex l = logIndex a)
      then drop_repeats lastAdded ls else l # drop_repeats (Some l) ls)"

definition getLogsWithVariousFilters :: "('e, 'a) log_provider \<Rightarrow> string list option \<Rightarrow> string list option
    \<Rightarrow> extra_filter list option \<Rightarrow> block_window \<Rightarrow> nat list \<Rightarrow> ('e, 'a log_event list) result" where
  "getLogsWithVariousFilters provider contractAddresses eventNameTopics filters w schedule =
     (case eventNameTopics of
        None \<Rightarrow> getLogs_request provider contractAddresses None w
      | Some topic0s \<Rightarrow>
          (let requestList = generateLogRequestForTopicsAndFiltersCombinations contractAddresses topic0s
                 (case filters of None \<Rightarrow> [] | Some fs \<Rightarrow> fs)
           in if length requestList = 1
              then getLogs_request provider (lr_contractAddresses (requestList ! 0)) (Some (lr_topics (requestList ! 0))) w
              else and_then (issueRequestsBounded provider requestList w schedule) (\<lambda>perRequest.
                     Inr (drop_repeats None (sort_key chain_position (concat perRequest))))))"

subsection \<open>The pool answers like a sequential loop\<close>

definition settled_requests :: "('e, 'r) pool \<Rightarrow> nat set" where
  "settled_requests p = {..<nextIndex p} - set (in_flight p)"

definition pool_inv :: "(nat \<Rightarrow> ('e, 'r) result) \<Rightarrow> nat \<Rightarrow> ('e, 'r) pool \<Rightarrow> bool" where
  "pool_inv answer n p \<longleftrightarrow>
     nextIndex p \<le> n \<and> distinct (in_flight p) \<and> set (in_flight p) \<subseteq> {..<nextIndex p}
     \<and> length (in_flight p) \<le> MAX_CONCURRENT_LOG_REQUESTS
     \<and> (\<forall>i \<in> settled_requests p. \<forall>r. answer i = Inr r \<longrightarrow> results p i = Some r)
     \<and> set (failures p) = {(i, e). i \<in> settled_requests p \<and> answer i = Inl e}
     \<and> (failures p = [] \<longrightarrow> in_flight p = [] \<longrightarrow> nextIndex p = n)"

lemma start_pool_inv: "pool_inv answer n (start_pool n)"
  by (auto simp: pool_inv_def start_pool_def settled_requests_def MAX_CONCURRENT_LOG_REQUESTS_def lessThan_atLeast0)

lemma settled_remove:
  assumes "distinct (in_flight p)" "i \<in> set (in_flight p)" "i < nextIndex p"
  shows "settled_requests (p\<lparr>in_flight := remove1 i (in_flight p)\<rparr>) = insert i (settled_requests p)"
  using assms by (auto simp: settled_requests_def)

lemma settle_inv:
  assumes inv: "pool_inv answer n p"
  shows "pool_inv answer n (settle answer n i p)"
proof (cases "i \<in> set (in_flight p)")
  case False
  then show ?thesis using inv by (simp add: settle_def)
next
  case i: True
  have d: "distinct (in_flight p)" and lt: "i < nextIndex p" and nn: "nextIndex p \<le> n"
    and sub: "set (in_flight p) \<subseteq> {..<nextIndex p}" and len: "length (in_flight p) \<le> MAX_CONCURRENT_LOG_REQUESTS"
    and res: "\<forall>i \<in> settled_requests p. \<forall>r. answer i = Inr r \<longrightarrow> results p i = Some r"
    and fails: "set (failures p) = {(i, e). i \<in> settled_requests p \<and> answer i = Inl e}"
    using inv i by (auto simp: pool_inv_def)
  let ?fl = "remove1 i (in_flight p)"
  have fl: "distinct ?fl" "set ?fl = set (in_flight p) - {i}" "Suc (length ?fl) = length (in_flight p)"
    using d i by (simp_all add: length_remove1) (metis Suc_pred length_pos_if_in_set)
  have done1: "{..<nextIndex p} - set ?fl = insert i (settled_requests p)"
    using fl(2) lt by (auto simp: settled_requests_def)
  have i_new: "i \<notin> settled_requests p" using i by (simp add: settled_requests_def)
  show ?thesis
  proof (cases "answer i")
    case (Inl e)
    then show ?thesis
      using i d nn sub len res fails fl i_new done1
      by (auto simp: settle_def pool_inv_def settled_requests_def Let_def)
  next
    case (Inr r)
    let ?q = "p\<lparr>in_flight := ?fl, results := (results p)(i \<mapsto> r)\<rparr>"
    have q: "settle answer n i p = take_next n ?q" using i Inr by (simp add: settle_def)
    have fq: "set (failures p) = {(j, e). j \<in> insert i (settled_requests p) \<and> answer j = Inl e}"
      using fails Inr by auto
    have rq: "\<forall>j \<in> insert i (settled_requests p). \<forall>s. answer j = Inr s \<longrightarrow> ((results p)(i \<mapsto> r)) j = Some s"
      using res Inr by auto
    show ?thesis
    proof (cases "failures p = [] \<and> nextIndex p < n")
      case True
      have "{..<Suc (nextIndex p)} - set (?fl @ [nextIndex p]) = insert i (settled_requests p)"
        using done1 by (auto simp: lessThan_Suc)
      then show ?thesis
        unfolding q using True fl sub len fq rq i
        by (auto simp: take_next_def pool_inv_def settled_requests_def)
    next
      case False
      then show ?thesis
        unfolding q using nn fl sub len fq rq done1
        by (auto simp: take_next_def pool_inv_def settled_requests_def)
    qed
  qed
qed

lemma run_pool_inv: "pool_inv answer n (run_pool answer n schedule)"
proof -
  have "pool_inv answer n p \<Longrightarrow> pool_inv answer n (fold (settle answer n) schedule p)" for p
    by (induction schedule arbitrary: p) (auto intro: settle_inv)
  then show ?thesis by (simp add: run_pool_def start_pool_inv)
qed

lemma earliest_failure_least:
  "earliest_failure f fs \<in> set (f # fs) \<and> (\<forall>g \<in> set (f # fs). fst (earliest_failure f fs) \<le> fst g)"
proof (induction fs arbitrary: f)
  case Nil
  then show ?case by simp
next
  case (Cons g fs)
  show ?case using Cons.IH[of "if fst g < fst f then g else f"] by (auto split: if_splits)
qed

lemma traverse_first_error:
  assumes "i < n" "answer i = Inl e" "\<forall>j < i. \<exists>r. answer j = Inr r"
  shows "traverse answer [0..<n] = Inl e"
proof -
  have "traverse answer (xs @ i # ys) = Inl e" if "\<forall>j \<in> set xs. \<exists>r. answer j = Inr r" for xs ys
    using that assms(2) by (induction xs) auto
  moreover have "[0..<n] = [0..<i] @ i # [Suc i..<n]"
    using assms(1) using upt_add_eq_append[of 0 i "n - i"] by (simp add: upt_conv_Cons)
  ultimately show ?thesis using assms(3) by simp
qed

lemma pool_outcome_sequential:
  assumes inv: "pool_inv answer n p" and stopped: "in_flight p = []"
  shows "pool_outcome n p = traverse answer [0..<n]"
proof (cases "failures p")
  case Nil
  then have "nextIndex p = n" and "\<forall>i < n. \<exists>r. answer i = Inr r \<and> results p i = Some r"
    using inv stopped by (auto simp: pool_inv_def settled_requests_def) (metis lessThan_iff old.sum.exhaust)
  then have "traverse answer [0..<n] = Inr (map (\<lambda>i. the (results p i)) [0..<n])"
    by (auto simp: traverse_Inr_iff list_all2_conv_all_nth)
  then show ?thesis using Nil by (simp add: pool_outcome_def)
next
  case (Cons f fs)
  obtain i e where ie: "earliest_failure f fs = (i, e)" by fastforce
  have mem: "(i, e) \<in> set (failures p)" and least: "\<forall>g \<in> set (failures p). i \<le> fst g"
    using earliest_failure_least[of f fs] ie Cons by auto
  have "i < nextIndex p" "nextIndex p \<le> n" "answer i = Inl e"
    using inv mem by (auto simp: pool_inv_def settled_requests_def)
  moreover have "\<exists>r. answer j = Inr r" if j: "j < i" for j
  proof (cases "answer j")
    case (Inl e')
    have "(j, e') \<in> set (failures p)"
      using inv stopped j Inl \<open>i < nextIndex p\<close> by (auto simp: pool_inv_def settled_requests_def)
    then show ?thesis using least j by fastforce
  qed auto
  ultimately have "traverse answer [0..<n] = Inl e" by (intro traverse_first_error[of i]) auto
  then show ?thesis using Cons ie by (simp add: pool_outcome_def)
qed

lemma traverse_of_map: "traverse f (map g xs) = traverse (\<lambda>x. f (g x)) xs"
  by (induction xs) simp_all

lemma traverse_nth: "traverse (\<lambda>i. f (xs ! i)) [0..<length xs] = traverse f xs"
  using traverse_of_map[of f "(!) xs" "[0..<length xs]"] by (simp add: map_nth)

lemma settled_pool_is_sequential:
  assumes "settles (request_answer provider requestList w) (length requestList) schedule"
  shows "issueRequestsBounded provider requestList w schedule =
    traverse (\<lambda>r. getLogs_request provider (lr_contractAddresses r) (Some (lr_topics r)) w) requestList"
  using pool_outcome_sequential[OF run_pool_inv assms[unfolded settles_def]]
    traverse_nth[of "\<lambda>r. getLogs_request provider (lr_contractAddresses r) (Some (lr_topics r)) w" requestList]
  by (simp add: issueRequestsBounded_def request_answer_def[abs_def])

text \<open>The runs of the pool: some request in flight settles, whichever it is.\<close>

inductive pool_run :: "(nat \<Rightarrow> ('e, 'r) result) \<Rightarrow> nat \<Rightarrow> nat list \<Rightarrow> ('e, 'r) pool \<Rightarrow> bool" for answer n where
  pool_start: "pool_run answer n [] (start_pool n)"
| pool_settle: "pool_run answer n schedule p \<Longrightarrow> i \<in> set (in_flight p) \<Longrightarrow>
    pool_run answer n (schedule @ [i]) (settle answer n i p)"

lemma pool_run_is: "pool_run answer n schedule p \<Longrightarrow> p = run_pool answer n schedule"
  by (induction rule: pool_run.induct) (simp_all add: run_pool_def)

lemma pool_run_counts:
  "pool_run answer n schedule p \<Longrightarrow> length schedule + length (in_flight p) = nextIndex p"
proof (induction rule: pool_run.induct)
  case pool_start
  then show ?case by (simp add: start_pool_def)
next
  case (pool_settle schedule p i)
  have "length (in_flight p) = Suc (length (remove1 i (in_flight p)))"
    using pool_settle.hyps by (simp add: length_remove1) (metis Suc_pred length_pos_if_in_set)
  then show ?case
    using pool_settle by (cases "answer i") (auto simp: settle_def take_next_def Let_def)
qed

fun in_order :: "(nat \<Rightarrow> ('e, 'r) result) \<Rightarrow> nat \<Rightarrow> ('e, 'r) pool \<Rightarrow> nat list \<Rightarrow> bool" where
  "in_order answer n p [] = True"
| "in_order answer n p (i # is) = (i \<in> set (in_flight p) \<and> in_order answer n (settle answer n i p) is)"

lemma in_order_pool_run:
  assumes "in_order answer n (start_pool n) schedule"
  shows "pool_run answer n schedule (run_pool answer n schedule)"
proof -
  have "pool_run answer n (s @ t) (fold (settle answer n) t p)"
    if "pool_run answer n s p" "in_order answer n p t" for s t p
    using that
  proof (induction t arbitrary: s p)
    case (Cons i t)
    then show ?case using pool_settle[of answer n s p i] Cons.IH[of "s @ [i]" "settle answer n i p"] by simp
  qed simp
  from this[OF pool_start assms] show ?thesis by (simp add: run_pool_def)
qed

text \<open>
  C26. Whatever the order in which the requests in flight settle, the pool never has more than four
  of them in flight, no run of it settles more requests than there are, a run that is not over can
  go on, and one that is over answers what issuing the requests one after the other would have
  answered: all the answers in the order of the requests, or the failure of the earliest request
  that fails.
\<close>

theorem bounded_pool_is_the_sequential_loop:
  fixes provider :: "('e, 'a) log_provider"
  assumes run: "pool_run (request_answer provider requestList w) (length requestList) schedule p"
  shows "length (in_flight p) \<le> MAX_CONCURRENT_LOG_REQUESTS \<and> length schedule \<le> length requestList \<and>
    (in_flight p \<noteq> [] \<longrightarrow>
      (\<exists>i p'. pool_run (request_answer provider requestList w) (length requestList) (schedule @ [i]) p')) \<and>
    (in_flight p = [] \<longrightarrow> issueRequestsBounded provider requestList w schedule =
       traverse (\<lambda>r. getLogs_request provider (lr_contractAddresses r) (Some (lr_topics r)) w) requestList)"
proof -
  have inv: "pool_inv (request_answer provider requestList w) (length requestList) p"
    using run_pool_inv pool_run_is[OF run] by metis
  have "\<exists>i p'. pool_run (request_answer provider requestList w) (length requestList) (schedule @ [i]) p'"
    if more: "in_flight p \<noteq> []"
    using pool_settle[OF run, of "hd (in_flight p)"] more by auto
  then show ?thesis
    using inv pool_run_counts[OF run] pool_run_is[OF run] settled_pool_is_sequential[of provider requestList w schedule]
    by (auto simp: pool_inv_def settles_def)
qed

text \<open>Five requests of which the third and the fifth fail, the fifth first: the third is reported.\<close>

definition failing_provider :: "(string, unit) log_provider" where
  "failing_provider patterns scope w =
     (case scope of Some [a] \<Rightarrow> if a = ''0x2'' \<or> a = ''0x4'' then Inl a else Inr [IncludedLog (sample_log 1 ''h'' 0)]
      | _ \<Rightarrow> Inr [])"

definition five_requests :: "log_request list" where
  "five_requests = map (\<lambda>a. \<lparr>lr_topics = [], lr_contractAddresses = Some [a]\<rparr>) [''0x0'', ''0x1'', ''0x2'', ''0x3'', ''0x4'']"

lemmas pool_eval = run_pool_def start_pool_def settle_def take_next_def request_answer_def getLogs_request_def
  failing_provider_def five_requests_def MAX_CONCURRENT_LOG_REQUESTS_def

lemma bounded_pool_is_the_sequential_loop_witness:
  "issueRequestsBounded failing_provider five_requests \<lparr>bw_fromBlock = 0, bw_toBlock = 9\<rparr> [0, 4, 3, 2, 1] = Inl ''0x2''"
proof -
  let ?w = "\<lparr>bw_fromBlock = 0, bw_toBlock = 9\<rparr>"
  let ?run = "pool_run (request_answer failing_provider five_requests ?w) (length five_requests)"
  have "in_order (request_answer failing_provider five_requests ?w) (length five_requests)
      (start_pool (length five_requests)) [0, 4, 3, 2, 1]"
    by (simp add: pool_eval)
  then have p: "?run [0, 4, 3, 2, 1] (run_pool (request_answer failing_provider five_requests ?w) (length five_requests) [0, 4, 3, 2, 1])"
    by (rule in_order_pool_run)
  have stopped: "in_flight (run_pool (request_answer failing_provider five_requests ?w) (length five_requests) [0, 4, 3, 2, 1]) = []"
    by (simp add: pool_eval)
  have "traverse (\<lambda>r. getLogs_request failing_provider (lr_contractAddresses r) (Some (lr_topics r)) ?w) five_requests = Inl ''0x2''"
    by (simp add: getLogs_request_def failing_provider_def five_requests_def)
  then show ?thesis using bounded_pool_is_the_sequential_loop[OF p] stopped by simp
qed

subsection \<open>What a source wants to see\<close>

text \<open>
  The documented behaviour of eth_getLogs on a request with well-formed patterns, and what the
  topics and filters of a source mean, position by position: a null position constrains nothing,
  whether the log has that topic or not.
\<close>

fun pattern_matches :: "topic_pattern \<Rightarrow> string \<Rightarrow> bool" where
  "pattern_matches AnyTopic t = True"
| "pattern_matches (ExactTopic u) t = (t = u)"
| "pattern_matches (OneOfTopics us) t = (t \<in> set us)"

fun positions_match :: "topic_pattern list \<Rightarrow> string list \<Rightarrow> bool" where
  "positions_match [] ts = True"
| "positions_match (p # ps) [] = False"
| "positions_match (p # ps) (t # ts) = (pattern_matches p t \<and> positions_match ps ts)"

definition in_scope :: "string list option \<Rightarrow> string \<Rightarrow> bool" where
  "in_scope scope a = (case scope of None \<Rightarrow> True | Some addresses \<Rightarrow> a \<in> set addresses)"

definition request_matches :: "topic_pattern list option \<Rightarrow> string list option \<Rightarrow> 'a log_event \<Rightarrow> bool" where
  "request_matches patterns scope l \<longleftrightarrow>
     in_scope scope (address l) \<and> (case patterns of None \<Rightarrow> True | Some ps \<Rightarrow> positions_match ps (topics l))"

fun well_formed_pattern :: "topic_pattern \<Rightarrow> bool" where
  "well_formed_pattern (OneOfTopics us) = (us \<noteq> [])"
| "well_formed_pattern p = True"

definition well_formed_scope :: "string list option \<Rightarrow> bool" where
  "well_formed_scope scope = (case scope of None \<Rightarrow> True
     | Some as \<Rightarrow> as \<noteq> [] \<and> (\<forall>a \<in> set as. a \<noteq> [] \<and> hd a = CHR ''0'' \<and> CHR '','' \<notin> set a))"

definition well_formed_request :: "topic_pattern list option \<Rightarrow> string list option \<Rightarrow> bool" where
  "well_formed_request patterns scope \<longleftrightarrow>
     well_formed_scope scope \<and> (case patterns of None \<Rightarrow> True | Some ps \<Rightarrow> \<forall>p \<in> set ps. well_formed_pattern p)"

definition in_window :: "block_window \<Rightarrow> 'a log_event \<Rightarrow> bool" where
  "in_window w l \<longleftrightarrow> bw_fromBlock w \<le> blockNumber l \<and> blockNumber l \<le> bw_toBlock w"

definition arguments_match :: "topic_pattern list \<Rightarrow> string list \<Rightarrow> bool" where
  "arguments_match m args \<longleftrightarrow>
     (\<forall>i < length m. m ! i \<noteq> AnyTopic \<longrightarrow> i < length args \<and> pattern_matches (m ! i) (args ! i))"

fun filter_wants :: "extra_filter \<Rightarrow> 'a log_event \<Rightarrow> bool" where
  "filter_wants (LeftoverFilter topic0 scope) l = (in_scope scope (address l) \<and> hd (topics l) = topic0)"
| "filter_wants (MatchFilter topic0 scope m) l =
     (in_scope scope (address l) \<and> hd (topics l) = topic0 \<and> arguments_match m (tl (topics l)))"

definition wanted :: "string list option \<Rightarrow> string list \<Rightarrow> extra_filter list \<Rightarrow> 'a log_event \<Rightarrow> bool" where
  "wanted scope topic0s filters l \<longleftrightarrow>
     topics l \<noteq> [] \<and> hd (topics l) \<in> set topic0s \<and>
     (if hd (topics l) \<in> ef_topic0 ` set filters then \<exists>fl \<in> set filters. filter_wants fl l
      else in_scope scope (address l))"

fun well_formed_filter :: "extra_filter \<Rightarrow> bool" where
  "well_formed_filter (LeftoverFilter topic0 scope) = well_formed_scope scope"
| "well_formed_filter (MatchFilter topic0 scope m) = (well_formed_scope scope \<and> (\<forall>p \<in> set m. well_formed_pattern p))"

lemma wildcard_end_spec:
  "wildcard_end m n \<le> n \<and> (\<forall>i. wildcard_end m n \<le> i \<longrightarrow> i < n \<longrightarrow> m ! i = AnyTopic)
   \<and> (wildcard_end m n \<noteq> 0 \<longrightarrow> m ! (wildcard_end m n - 1) \<noteq> AnyTopic)"
  by (induction n) (auto simp: less_Suc_eq)

lemma positions_match_nth:
  "positions_match ps ts \<longleftrightarrow> length ps \<le> length ts \<and> (\<forall>i < length ps. pattern_matches (ps ! i) (ts ! i))"
proof (induction ps ts rule: positions_match.induct)
  case (3 p ps t ts)
  then show ?case by (auto simp: All_less_Suc2)
qed simp_all

lemma arguments_match_Nil [simp]: "arguments_match [] args"
  by (simp add: arguments_match_def)

lemma arguments_match_Cons [simp]:
  "arguments_match (p # ps) args \<longleftrightarrow>
    (p \<noteq> AnyTopic \<longrightarrow> args \<noteq> [] \<and> pattern_matches p (hd args)) \<and> arguments_match ps (tl args)"
  by (cases args) (auto simp: arguments_match_def All_less_Suc2)

lemma stripped_filter_matches:
  "positions_match (withoutTrailingWildcards m) args \<longleftrightarrow> arguments_match m args"
proof -
  let ?n = "wildcard_end m (length m)"
  note spec = wildcard_end_spec[of m "length m"]
  have "arguments_match m args \<longleftrightarrow> ?n \<le> length args \<and> (\<forall>i < ?n. pattern_matches (m ! i) (args ! i))"
  proof
    assume am: "arguments_match m args"
    have "?n \<le> length args"
    proof (cases "?n = 0")
      case False
      then have "?n - 1 < length m" "m ! (?n - 1) \<noteq> AnyTopic" using spec by auto
      then have "?n - 1 < length args" using am unfolding arguments_match_def by blast
      then show ?thesis by simp
    qed simp
    moreover have "pattern_matches (m ! i) (args ! i)" if i: "i < ?n" for i
      using am spec i unfolding arguments_match_def by (cases "m ! i = AnyTopic") auto
    ultimately show "?n \<le> length args \<and> (\<forall>i < ?n. pattern_matches (m ! i) (args ! i))" by blast
  next
    assume "?n \<le> length args \<and> (\<forall>i < ?n. pattern_matches (m ! i) (args ! i))"
    then show "arguments_match m args"
      using spec unfolding arguments_match_def by (meson leI le_trans less_le_trans)
  qed
  then show ?thesis using spec by (simp add: withoutTrailingWildcards_def positions_match_nth)
qed

lemma split_at_first:
  "c \<notin> set a \<Longrightarrow> c \<notin> set a' \<Longrightarrow> a @ c # b = a' @ c # b' \<longleftrightarrow> a = a' \<and> b = b'"
proof (induction a arbitrary: a')
  case Nil
  then show ?case by (cases a') auto
next
  case (Cons x a)
  then show ?case by (cases a') auto
qed

lemma no_split: "c \<notin> set a \<Longrightarrow> a \<noteq> a' @ c # b'"
  by auto

lemma join_with_comma_inj:
  assumes "join_with [c] xs = join_with [c] ys"
    and "\<forall>a \<in> set xs. a \<noteq> [] \<and> c \<notin> set a" "\<forall>a \<in> set ys. a \<noteq> [] \<and> c \<notin> set a"
  shows "xs = ys"
  using assms
proof (induction "[c]" xs arbitrary: ys rule: join_with.induct)
  case 1
  then show ?case by (cases ys rule: remdups_adj.cases) auto
next
  case (2 x)
  then show ?case by (cases ys rule: remdups_adj.cases) (auto dest: no_split)
next
  case (3 x y xs)
  show ?case
  proof (cases ys rule: remdups_adj.cases)
    case (3 u v us)
    have "x = u \<and> join_with [c] (y # xs) = join_with [c] (v # us)"
      using "3.prems" 3 split_at_first[of c x u] by auto
    then show ?thesis using "3.hyps"[of "v # us"] "3.prems" 3 by auto
  qed (use "3.prems" in \<open>auto dest: no_split[of c]\<close>)
qed

lemma addressScopeKey_inj:
  assumes "well_formed_scope s" "well_formed_scope s'" "addressScopeKey s = addressScopeKey s'"
  shows "s = s'"
proof -
  have star: "join_with '','' as \<noteq> ''*''" if "well_formed_scope (Some as)" for as
    using that by (cases as rule: remdups_adj.cases) (auto simp: well_formed_scope_def Cons_eq_append_conv append_eq_Cons_conv)
  show ?thesis
    using assms star join_with_comma_inj[of "CHR '',''"]
    by (cases s; cases s') (auto simp: addressScopeKey_def well_formed_scope_def dest: sym)
qed

subsection \<open>The requests ask for exactly what is wanted\<close>

definition groups_ok :: "leftover_groups \<Rightarrow> bool" where
  "groups_ok gs \<longleftrightarrow> distinct (map fst gs) \<and>
     (\<forall>(k, scope, ts) \<in> set gs. k = addressScopeKey scope \<and> well_formed_scope scope \<and> ts \<noteq> [])"

definition groups_want :: "leftover_groups \<Rightarrow> 'a log_event \<Rightarrow> bool" where
  "groups_want gs l \<longleftrightarrow> (\<exists>(k, scope, ts) \<in> set gs. in_scope scope (address l) \<and> hd (topics l) \<in> set ts)"

lemma push_leftover_groups:
  assumes ok: "groups_ok gs" and wf: "well_formed_scope scope"
  shows "groups_ok (push_leftover scope t gs)"
    and "groups_want (push_leftover scope t gs) l \<longleftrightarrow> groups_want gs l \<or> (in_scope scope (address l) \<and> hd (topics l) = t)"
proof -
  let ?k = "addressScopeKey scope"
  have both: "groups_ok (push_leftover scope t gs) \<and>
    (groups_want (push_leftover scope t gs) l \<longleftrightarrow> groups_want gs l \<or> (in_scope scope (address l) \<and> hd (topics l) = t))"
  proof (cases "map_of gs ?k")
    case None
    then have "?k \<notin> fst ` set gs" by (simp add: map_of_eq_None_iff)
    then show ?thesis
      using ok wf None by (auto simp: push_leftover_def groups_ok_def groups_want_def)
  next
    case (Some v)
    obtain own ts where v: "v = (own, ts)" by fastforce
    have mem: "(?k, own, ts) \<in> set gs" using Some v by (auto dest: map_of_SomeD)
    then have "own = scope" using ok wf addressScopeKey_inj unfolding groups_ok_def by fastforce
    have d: "distinct (map fst gs)" using ok by (simp add: groups_ok_def)
    have d': "distinct (map fst (push_leftover scope t gs))"
      using d Some v by (simp add: push_leftover_def distinct_update)
    have upd: "p \<in> set (push_leftover scope t gs) \<longleftrightarrow> (if fst p = ?k then p = (?k, scope, ts @ [t]) else p \<in> set gs)" for p
    proof -
      have "p \<in> set (push_leftover scope t gs) \<longleftrightarrow> map_of (push_leftover scope t gs) (fst p) = Some (snd p)"
        using d' by (metis map_of_eq_Some_iff prod.collapse)
      also have "\<dots> \<longleftrightarrow> (if fst p = ?k then snd p = (scope, ts @ [t]) else map_of gs (fst p) = Some (snd p))"
        using Some v \<open>own = scope\<close> by (auto simp: push_leftover_def update_conv')
      also have "\<dots> \<longleftrightarrow> (if fst p = ?k then p = (?k, scope, ts @ [t]) else p \<in> set gs)"
        using d by (metis map_of_eq_Some_iff prod.collapse prod.inject)
      finally show ?thesis .
    qed
    have rest: "p \<in> set gs \<Longrightarrow> fst p = ?k \<Longrightarrow> p = (?k, scope, ts)" for p
      using d mem \<open>own = scope\<close> by (metis eq_key_imp_eq_value prod.collapse)
    have "groups_ok (push_leftover scope t gs)"
      using ok wf d' unfolding groups_ok_def by (auto simp: upd split: if_splits)
    moreover have "groups_want (push_leftover scope t gs) l \<longleftrightarrow> groups_want gs l \<or> (in_scope scope (address l) \<and> hd (topics l) = t)"
    proof -
      have "groups_want (push_leftover scope t gs) l \<longleftrightarrow>
          (\<exists>(k, s, us) \<in> {p \<in> set gs. fst p \<noteq> ?k} \<union> {(?k, scope, ts @ [t])}. in_scope s (address l) \<and> hd (topics l) \<in> set us)"
        unfolding groups_want_def using upd by (intro bex_cong) (auto split: if_splits)
      moreover have "groups_want gs l \<longleftrightarrow>
          (\<exists>(k, s, us) \<in> {p \<in> set gs. fst p \<noteq> ?k} \<union> {(?k, scope, ts)}. in_scope s (address l) \<and> hd (topics l) \<in> set us)"
      proof -
        have "p \<in> {p \<in> set gs. fst p \<noteq> ?k} \<union> {(?k, scope, ts)} \<longleftrightarrow> p \<in> set gs" for p
          using rest[of p] mem \<open>own = scope\<close> by (cases "fst p = ?k") auto
        then show ?thesis unfolding groups_want_def by (intro bex_cong set_eqI refl) (simp only:)
      qed
      ultimately show ?thesis by auto
    qed
    ultimately show ?thesis ..
  qed
  then show "groups_ok (push_leftover scope t gs)"
    and "groups_want (push_leftover scope t gs) l \<longleftrightarrow> groups_want gs l \<or> (in_scope scope (address l) \<and> hd (topics l) = t)"
    by auto
qed

definition wants :: "log_request \<Rightarrow> 'a log_event \<Rightarrow> bool" where
  "wants r l \<longleftrightarrow> request_matches (Some (lr_topics r)) (lr_contractAddresses r) l"

definition asks_well :: "log_request \<Rightarrow> bool" where
  "asks_well r \<longleftrightarrow> lr_topics r \<noteq> [] \<and> well_formed_request (Some (lr_topics r)) (lr_contractAddresses r)"

definition plan_ok :: "request_plan \<Rightarrow> bool" where
  "plan_ok plan \<longleftrightarrow> groups_ok (leftoverGroups plan) \<and> (\<forall>r \<in> set (scopedRequests plan). asks_well r)"

definition plan_wants :: "request_plan \<Rightarrow> 'a log_event \<Rightarrow> bool" where
  "plan_wants plan l \<longleftrightarrow> groups_want (leftoverGroups plan) l \<or> (\<exists>r \<in> set (scopedRequests plan). wants r l)"

lemma scoped_request_wants:
  assumes "topics l \<noteq> []"
  shows "wants \<lparr>lr_topics = ExactTopic t # withoutTrailingWildcards m, lr_contractAddresses = scope\<rparr> l
    \<longleftrightarrow> filter_wants (MatchFilter t scope m) l"
  using assms stripped_filter_matches by (cases "topics l") (auto simp: wants_def request_matches_def)

lemma scoped_request_asks_well:
  "well_formed_filter (MatchFilter t scope m) \<Longrightarrow>
    asks_well \<lparr>lr_topics = ExactTopic t # withoutTrailingWildcards m, lr_contractAddresses = scope\<rparr>"
  by (auto simp: asks_well_def well_formed_request_def withoutTrailingWildcards_def dest: in_set_takeD)

lemma plan_filter_wants:
  assumes "plan_ok plan" "well_formed_filter fl" "topics l \<noteq> []"
  shows "plan_ok (plan_filter live fl plan) \<and> mentioned (plan_filter live fl plan) = mentioned plan @ [ef_topic0 fl]
    \<and> (plan_wants (plan_filter live fl plan) l \<longleftrightarrow> plan_wants plan l \<or> (ef_topic0 fl \<in> set live \<and> filter_wants fl l))"
proof (cases fl)
  case (MatchFilter t scope m)
  then show ?thesis
    using assms scoped_request_wants[OF assms(3), of t m scope] scoped_request_asks_well[of t scope m]
    by (auto simp: plan_filter_def Let_def plan_ok_def plan_wants_def)
next
  case (LeftoverFilter t scope)
  then have wf: "well_formed_scope scope" and ok: "groups_ok (leftoverGroups plan)"
    using assms by (simp_all add: plan_ok_def)
  show ?thesis
    using assms LeftoverFilter push_leftover_groups(1)[OF ok wf, of t] push_leftover_groups(2)[OF ok wf, of t l]
    by (auto simp: plan_filter_def Let_def plan_ok_def plan_wants_def)
qed

lemma fold_plan_filter:
  assumes "plan_ok plan" "\<forall>fl \<in> set filters. well_formed_filter fl" "topics l \<noteq> []"
  shows "plan_ok (fold (plan_filter live) filters plan)
    \<and> mentioned (fold (plan_filter live) filters plan) = mentioned plan @ map ef_topic0 filters
    \<and> (plan_wants (fold (plan_filter live) filters plan) l \<longleftrightarrow>
        plan_wants plan l \<or> (\<exists>fl \<in> set filters. ef_topic0 fl \<in> set live \<and> filter_wants fl l))"
  using assms
proof (induction filters arbitrary: plan)
  case Nil
  then show ?case by simp
next
  case (Cons fl filters)
  note step = plan_filter_wants[OF Cons.prems(1) _ Cons.prems(3), of fl live]
  show ?case using Cons.IH[of "plan_filter live fl plan"] Cons.prems step by auto
qed

lemma fold_plan_unmentioned:
  assumes "plan_ok plan" "well_formed_scope scope"
  shows "plan_ok (fold (plan_unmentioned scope) ts plan)
    \<and> (plan_wants (fold (plan_unmentioned scope) ts plan) l \<longleftrightarrow>
        plan_wants plan l \<or> (in_scope scope (address l) \<and> hd (topics l) \<in> set ts - set (mentioned plan)))"
  using assms
proof (induction ts arbitrary: plan)
  case Nil
  then show ?case by simp
next
  case (Cons t ts)
  have ok: "groups_ok (leftoverGroups plan)" using Cons.prems by (simp add: plan_ok_def)
  have step: "plan_ok (plan_unmentioned scope t plan)" "mentioned (plan_unmentioned scope t plan) = mentioned plan"
    "plan_wants (plan_unmentioned scope t plan) l \<longleftrightarrow>
       plan_wants plan l \<or> (t \<notin> set (mentioned plan) \<and> in_scope scope (address l) \<and> hd (topics l) = t)"
    using Cons.prems(1) push_leftover_groups(1)[OF ok Cons.prems(2), of t]
      push_leftover_groups(2)[OF ok Cons.prems(2), of t l]
    by (auto simp: plan_unmentioned_def plan_ok_def plan_wants_def)
  show ?case using Cons.IH[OF step(1) Cons.prems(2)] step by auto
qed

definition group_request :: "string \<times> string list option \<times> string list \<Rightarrow> log_request" where
  "group_request g = (case g of (k, scope, ts) \<Rightarrow> \<lparr>lr_topics = [OneOfTopics ts], lr_contractAddresses = scope\<rparr>)"

lemma one_of_wants:
  assumes "topics l \<noteq> []"
  shows "wants \<lparr>lr_topics = [OneOfTopics ts], lr_contractAddresses = scope\<rparr> l \<longleftrightarrow>
    in_scope scope (address l) \<and> hd (topics l) \<in> set ts"
  using assms by (cases "topics l") (auto simp: wants_def request_matches_def)

lemma shared_requests_groups:
  assumes "groups_ok gs"
  shows "shared_requests gs = map group_request gs"
proof -
  have "filter (\<lambda>(k, scope, ts). ts \<noteq> []) gs = gs"
    using assms unfolding groups_ok_def by (intro filter_True) auto
  then show ?thesis by (simp add: shared_requests_def group_request_def)
qed

lemma shared_requests_want:
  assumes "groups_ok gs"
  shows "topics l \<noteq> [] \<Longrightarrow> (\<exists>r \<in> set (shared_requests gs). wants r l) \<longleftrightarrow> groups_want gs l"
    and "\<forall>r \<in> set (shared_requests gs). asks_well r"
proof -
  show "(\<exists>r \<in> set (shared_requests gs). wants r l) \<longleftrightarrow> groups_want gs l" if "topics l \<noteq> []"
    unfolding shared_requests_groups[OF assms] groups_want_def group_request_def set_map bex_simps(7)
    using one_of_wants[OF that] by (intro bex_cong) (simp_all split: prod.splits)
  show "\<forall>r \<in> set (shared_requests gs). asks_well r"
    using assms unfolding shared_requests_groups[OF assms] groups_ok_def group_request_def asks_well_def well_formed_request_def
    by (auto split: prod.splits)
qed

lemma requests_ask_for_the_wanted:
  assumes "topic0s \<noteq> []" "well_formed_scope scope" "\<forall>fl \<in> set filters. well_formed_filter fl"
  shows "\<forall>r \<in> set (generateLogRequestForTopicsAndFiltersCombinations scope topic0s filters). asks_well r"
    and "(\<exists>r \<in> set (generateLogRequestForTopicsAndFiltersCombinations scope topic0s filters). wants r l)
      \<longleftrightarrow> wanted scope topic0s filters l"
proof -
  let ?empty = "\<lparr>scopedRequests = [], leftoverGroups = [], mentioned = []\<rparr>"
  let ?p = "fold (plan_filter topic0s) filters ?empty"
  let ?q = "fold (plan_unmentioned scope) topic0s ?p"
  let ?rs = "generateLogRequestForTopicsAndFiltersCombinations scope topic0s filters"
  have empty: "plan_ok ?empty" "\<not> plan_wants ?empty l"
    by (auto simp: plan_ok_def plan_wants_def groups_ok_def groups_want_def)
  have rs: "filters \<noteq> [] \<Longrightarrow> ?rs = shared_requests (leftoverGroups ?q) @ scopedRequests ?q"
    by (simp add: generateLogRequestForTopicsAndFiltersCombinations_def Let_def)
  have p_ok: "plan_ok ?p"
    using fold_plan_filter[OF empty(1) assms(3), of "sample_log 0 [] 0" topic0s] by (simp add: sample_log_def)
  have q_ok: "plan_ok ?q" using fold_plan_unmentioned[OF p_ok assms(2)] by blast
  then have g_ok: "groups_ok (leftoverGroups ?q)" by (simp add: plan_ok_def)
  show well: "\<forall>r \<in> set ?rs. asks_well r"
  proof (cases "filters = []")
    case True
    then show ?thesis
      using assms by (simp add: generateLogRequestForTopicsAndFiltersCombinations_def asks_well_def well_formed_request_def)
  next
    case False
    then show ?thesis using rs q_ok shared_requests_want(2)[OF g_ok] by (auto simp: plan_ok_def)
  qed
  show "(\<exists>r \<in> set ?rs. wants r l) \<longleftrightarrow> wanted scope topic0s filters l"
  proof (cases "topics l = []")
    case True
    have "\<forall>r \<in> set ?rs. \<not> wants r l"
      using True well by (auto simp: asks_well_def wants_def request_matches_def positions_match_nth)
    then show ?thesis using True by (auto simp: wanted_def)
  next
    case tl: False
    show ?thesis
    proof (cases "filters = []")
      case True
      then show ?thesis
        using one_of_wants[OF tl] tl
        by (auto simp: generateLogRequestForTopicsAndFiltersCombinations_def wanted_def)
    next
      case False
      have p: "mentioned ?p = map ef_topic0 filters"
        "plan_wants ?p l \<longleftrightarrow> (\<exists>fl \<in> set filters. ef_topic0 fl \<in> set topic0s \<and> filter_wants fl l)"
        using fold_plan_filter[OF empty(1) assms(3) tl, of topic0s] empty(2) by simp_all
      have hd_of: "filter_wants fl l \<Longrightarrow> hd (topics l) = ef_topic0 fl" for fl by (cases fl) auto
      have "(\<exists>r \<in> set ?rs. wants r l) \<longleftrightarrow> plan_wants ?q l"
        using rs[OF False] shared_requests_want(1)[OF g_ok tl] by (auto simp: plan_wants_def)
      also have "\<dots> \<longleftrightarrow> plan_wants ?p l \<or> (in_scope scope (address l) \<and> hd (topics l) \<in> set topic0s - set (mentioned ?p))"
        using fold_plan_unmentioned[OF p_ok assms(2)] by blast
      also have "\<dots> \<longleftrightarrow> wanted scope topic0s filters l"
        unfolding p wanted_def using tl hd_of by (auto simp: image_iff) 
      finally show ?thesis .
    qed
  qed
qed

subsection \<open>Merging the answers\<close>

lemma strict_sorted_unique:
  fixes k :: "'a \<Rightarrow> 'k::linorder"
  assumes "sorted_wrt (\<lambda>a b. k a < k b) xs" "sorted_wrt (\<lambda>a b. k a < k b) ys" "set xs = set ys"
  shows "xs = ys"
  using assms
proof (induction xs arbitrary: ys)
  case Nil
  then show ?case by simp
next
  case (Cons x xs)
  then obtain y zs where ys: "ys = y # zs" by (cases ys) auto
  have "x = y"
    using Cons.prems unfolding ys by (metis insert_iff less_asym list.simps(15) sorted_wrt.simps(2))
  moreover have "x \<notin> set xs" "y \<notin> set zs" using Cons.prems unfolding ys by auto
  ultimately have "set xs = set zs" using Cons.prems(3) unfolding ys by (simp add: insert_eq_iff)
  then show ?case using Cons.IH[of zs] Cons.prems ys \<open>x = y\<close> by simp
qed

text \<open>A chain's logs: in order, each at its own position, each with its own (block hash, log index).\<close>

definition chain_logs :: "'a log_event list \<Rightarrow> bool" where
  "chain_logs chain \<longleftrightarrow> sorted_wrt (\<lambda>a b. chain_position a < chain_position b) chain \<and>
     (\<forall>a \<in> set chain. \<forall>b \<in> set chain. blockHash a = blockHash b \<longrightarrow> logIndex a = logIndex b \<longrightarrow> a = b)"

lemma chain_position_injective:
  "chain_logs chain \<Longrightarrow> a \<in> set chain \<Longrightarrow> b \<in> set chain \<Longrightarrow> chain_position a = chain_position b \<Longrightarrow> a = b"
  unfolding chain_logs_def
  by (metis distinct_map inj_onD strict_sorted_map_distinct)

lemma drop_repeats_sorted:
  assumes "chain_logs chain" "set ls \<subseteq> set chain" "sorted (map chain_position ls)"
    and "case prev of None \<Rightarrow> True | Some a \<Rightarrow> a \<in> set chain \<and> (\<forall>l \<in> set ls. chain_position a \<le> chain_position l)"
  shows "sorted_wrt (\<lambda>a b. chain_position a < chain_position b) (drop_repeats prev ls)
    \<and> set (drop_repeats prev ls) = set ls - (case prev of None \<Rightarrow> {} | Some a \<Rightarrow> {a})"
  using assms
proof (induction ls arbitrary: prev)
  case Nil
  then show ?case by (cases prev) simp_all
next
  case (Cons l ls)
  have same: "l = a" if "prev = Some a" "blockHash l = blockHash a" "logIndex l = logIndex a" for a
    using that Cons.prems unfolding chain_logs_def by auto
  have rest: "sorted_wrt (\<lambda>a b. chain_position a < chain_position b) (drop_repeats (Some l) ls)
      \<and> set (drop_repeats (Some l) ls) = set ls - {l}"
    using Cons.IH[of "Some l"] Cons.prems by auto
  have above: "\<forall>m \<in> set ls - {l}. chain_position l < chain_position m"
  proof
    fix m assume m: "m \<in> set ls - {l}"
    then have "chain_position l \<le> chain_position m" "chain_position l \<noteq> chain_position m"
      using Cons.prems chain_position_injective[OF Cons.prems(1), of l m] by auto
    then show "chain_position l < chain_position m" by simp
  qed
  show ?case
  proof (cases "\<exists>a. prev = Some a \<and> blockHash l = blockHash a \<and> logIndex l = logIndex a")
    case True
    then have "prev = Some l" using same by blast
    then show ?thesis using rest by auto
  next
    case False
    then have eq: "drop_repeats prev (l # ls) = l # drop_repeats (Some l) ls" by (auto split: option.splits)
    have prev: "a \<noteq> l \<and> a \<notin> set ls" if a: "prev = Some a" for a
    proof -
      have ne: "a \<noteq> l" using False a by auto
      have "chain_position a \<le> chain_position l" "a \<in> set chain" using Cons.prems(4) a by simp_all
      moreover have "chain_position a \<noteq> chain_position l"
        using ne chain_position_injective[OF Cons.prems(1), of a l] Cons.prems(2) \<open>a \<in> set chain\<close> by auto
      ultimately have "chain_position a < chain_position l" by simp
      then show ?thesis using ne Cons.prems(3) by fastforce
    qed
    show ?thesis unfolding eq using rest above prev by (cases prev) auto
  qed
qed

lemma merged_answers:
  assumes "chain_logs chain" "set ls \<subseteq> set chain" "set ls = {l \<in> set chain. P l}"
  shows "drop_repeats None (sort_key chain_position ls) = filter P chain"
proof (rule strict_sorted_unique[where k = chain_position])
  have "sorted_wrt (\<lambda>a b. chain_position a < chain_position b) (drop_repeats None (sort_key chain_position ls))
    \<and> set (drop_repeats None (sort_key chain_position ls)) = set (sort_key chain_position ls) - {}"
    using drop_repeats_sorted[of chain "sort_key chain_position ls" None] assms by simp
  then show "sorted_wrt (\<lambda>a b. chain_position a < chain_position b) (drop_repeats None (sort_key chain_position ls))"
    and "set (drop_repeats None (sort_key chain_position ls)) = set (filter P chain)"
    using assms by auto
  show "sorted_wrt (\<lambda>a b. chain_position a < chain_position b) (filter P chain)"
    using assms(1) by (simp add: chain_logs_def sorted_wrt_filter)
qed

subsection \<open>A window is fetched exactly\<close>

text \<open>A node that answers every well-formed request with the chain's matching logs, beside pending ones.\<close>

definition honest_node :: "('e, 'a) log_provider \<Rightarrow> 'a log_event list \<Rightarrow> bool" where
  "honest_node provider chain \<longleftrightarrow>
     (\<forall>patterns scope w. well_formed_request patterns scope \<longrightarrow>
       (\<exists>ls. provider patterns scope w = Inr ls \<and>
          included ls = filter (\<lambda>l. request_matches patterns scope l \<and> in_window w l) chain))"

lemma honest_request:
  assumes "honest_node provider chain" "asks_well r"
  shows "getLogs_request provider (lr_contractAddresses r) (Some (lr_topics r)) w =
    Inr (filter (\<lambda>l. wants r l \<and> in_window w l) chain)"
  using assms unfolding honest_node_def asks_well_def getLogs_request_def wants_def by fastforce

lemma honest_requests:
  assumes "honest_node provider chain" "\<forall>r \<in> set rs. asks_well r"
  shows "traverse (\<lambda>r. getLogs_request provider (lr_contractAddresses r) (Some (lr_topics r)) w) rs =
    Inr (map (\<lambda>r. filter (\<lambda>l. wants r l \<and> in_window w l) chain) rs)"
  using assms(2) by (induction rs) (simp_all add: honest_request[OF assms(1)])

text \<open>
  C23. On a node that answers each request with the chain's matching logs, the logs of a window come
  back exactly: those the topics and the argument filters of the source want, in the order of the
  chain, each once, whatever filters overlap and however the requests are interleaved.
\<close>

theorem filtered_fetch_is_exact:
  fixes chain :: "'a log_event list"
  assumes "honest_node provider chain" and "chain_logs chain"
    and "topic0s \<noteq> []" "well_formed_scope scope" "\<forall>fl \<in> set filters. well_formed_filter fl"
    and "let requests = generateLogRequestForTopicsAndFiltersCombinations scope topic0s filters
      in settles (request_answer provider requests w) (length requests) schedule"
  shows "getLogsWithVariousFilters provider scope (Some topic0s) (Some filters) w schedule =
    Inr (filter (\<lambda>l. wanted scope topic0s filters l \<and> in_window w l) chain)"
proof -
  let ?rs = "generateLogRequestForTopicsAndFiltersCombinations scope topic0s filters"
  let ?answers = "map (\<lambda>r. filter (\<lambda>l. wants r l \<and> in_window w l) chain) ?rs"
  have requests: "\<forall>r \<in> set ?rs. asks_well r"
    and asked: "\<And>l :: 'a log_event. (\<exists>r \<in> set ?rs. wants r l) \<longleftrightarrow> wanted scope topic0s filters l"
    using requests_ask_for_the_wanted[OF assms(3-5)] by blast+
  show ?thesis
  proof (cases "length ?rs = 1")
    case True
    then obtain r where r: "?rs = [r]" by (cases ?rs) auto
    then show ?thesis
      using requests honest_request[OF assms(1), of r] asked
      by (simp add: getLogsWithVariousFilters_def Let_def)
  next
    case False
    have "issueRequestsBounded provider ?rs w schedule = Inr ?answers"
      by (simp only: settled_pool_is_sequential[OF assms(6)[unfolded Let_def]] honest_requests[OF assms(1) requests])
    moreover have "set (concat ?answers) = {l \<in> set chain. wanted scope topic0s filters l \<and> in_window w l}"
      by (auto simp: asked[symmetric])
    then have "drop_repeats None (sort_key chain_position (concat ?answers)) =
        filter (\<lambda>l. wanted scope topic0s filters l \<and> in_window w l) chain"
      by (intro merged_answers[OF assms(2)]) auto
    ultimately show ?thesis
      using False by (simp add: getLogsWithVariousFilters_def Let_def)
  qed
qed

text \<open>
  Two filters for the same topic overlap on the first log, a second topic is named by no filter:
  three requests, settled_requests in reverse.
\<close>

definition sample_chain :: "unit log_event list" where
  "sample_chain =
     [(sample_log 1 ''h1'' 0)\<lparr>topics := [''0xa'', ''0x1'']\<rparr>, (sample_log 1 ''h1'' 1)\<lparr>topics := [''0xa'', ''0x2'']\<rparr>,
      (sample_log 2 ''h2'' 0)\<lparr>topics := [''0xb'']\<rparr>, (sample_log 5 ''h5'' 0)\<lparr>topics := [''0xb'']\<rparr>]"

definition overlapping_filters :: "extra_filter list" where
  "overlapping_filters = [MatchFilter ''0xa'' None [ExactTopic ''0x1'', AnyTopic], MatchFilter ''0xa'' None [OneOfTopics [''0x1'', ''0x3'']]]"

definition sample_node :: "(string, unit) log_provider" where
  "sample_node patterns scope w =
     Inr (PendingLog # map IncludedLog (filter (\<lambda>l. request_matches patterns scope l \<and> in_window w l) sample_chain))"

lemma included_map [simp]: "included (map IncludedLog ls) = ls"
  by (induction ls) simp_all

lemma sample_node_honest: "honest_node sample_node sample_chain"
  by (simp add: honest_node_def sample_node_def)

lemmas request_eval = generateLogRequestForTopicsAndFiltersCombinations_def plan_filter_def plan_unmentioned_def
  push_leftover_def shared_requests_def addressScopeKey_def withoutTrailingWildcards_def overlapping_filters_def
  run_pool_def start_pool_def settle_def take_next_def request_answer_def getLogs_request_def settles_def
  MAX_CONCURRENT_LOG_REQUESTS_def sample_node_def

lemma filtered_fetch_is_exact_witness:
  "getLogsWithVariousFilters sample_node None (Some [''0xa'', ''0xb'']) (Some overlapping_filters)
      \<lparr>bw_fromBlock = 0, bw_toBlock = 2\<rparr> [2, 1, 0] =
    Inr [(sample_log 1 ''h1'' 0)\<lparr>topics := [''0xa'', ''0x1'']\<rparr>, (sample_log 2 ''h2'' 0)\<lparr>topics := [''0xb'']\<rparr>]"
proof -
  have chain: "chain_logs sample_chain"
    by (simp add: chain_logs_def sample_chain_def chain_position_def less_prod_def')
  have settled_requests: "let requests = generateLogRequestForTopicsAndFiltersCombinations None [''0xa'', ''0xb''] overlapping_filters
      in settles (request_answer sample_node requests \<lparr>bw_fromBlock = 0, bw_toBlock = 2\<rparr>) (length requests) [2, 1, 0]"
    by (simp add: request_eval Let_def)
  have "\<forall>fl \<in> set overlapping_filters. well_formed_filter fl"
    by (simp add: overlapping_filters_def well_formed_scope_def)
  then have "getLogsWithVariousFilters sample_node None (Some [''0xa'', ''0xb'']) (Some overlapping_filters)
      \<lparr>bw_fromBlock = 0, bw_toBlock = 2\<rparr> [2, 1, 0] =
    Inr (filter (\<lambda>l. wanted None [''0xa'', ''0xb''] overlapping_filters l \<and> in_window \<lparr>bw_fromBlock = 0, bw_toBlock = 2\<rparr> l) sample_chain)"
    using settled_requests by (intro filtered_fetch_is_exact[OF sample_node_honest chain]) (simp_all add: well_formed_scope_def)
  then show ?thesis
    by (simp add: sample_chain_def wanted_def in_window_def in_scope_def overlapping_filters_def sample_log_def)
qed

end
