(* ===== verification/Range_Fetcher.thy ===== *)
theory Range_Fetcher
  imports Event_Ranges Log_Requests
begin

section \<open>Fetching a range whose size the node decides\<close>

text \<open>
  \<open>packages/core/src/internal/engine/RangeLogFetcher.ts\<close>: one call fetches logs from a block on, over
  as many blocks as the node was found to accept, retries a refused window with a smaller one and
  learns from every answer. The request of a window is the port \<open>rf_fetch\<close>, a function on the state of
  the node. The regular expressions that read numbers out of the prose of an error are the fields of
  \<open>text_reader\<close>; what is made of the numbers is modelled.
\<close>

subsection \<open>Reading an error\<close>

text \<open>The fields of an error's \<open>data\<close>: \<open>None\<close> is a member that is absent or of another type.\<close>

datatype rpc_data = NoData | TextData string | ObjectData "string option" "jsnum option" "string option"

record rpc_error =
  re_code :: "int option"
  re_data :: rpc_data
  re_message :: "string option"

record text_reader =
  tr_blockCaps :: "(string \<Rightarrow> jsnum option) list"
  tr_resultCaps :: "(string \<Rightarrow> jsnum option) list"
  tr_prose :: "string \<Rightarrow> int option"
  tr_archiveGate :: "string \<Rightarrow> bool"

definition mentions :: "string \<Rightarrow> string \<Rightarrow> bool" where
  "mentions needle text = list_ex (\<lambda>i. take (length needle) (drop i text) = needle) [0..<Suc (length text)]"

fun data_text :: "rpc_data \<Rightarrow> string option" where
  "data_text (TextData t) = Some t"
| "data_text d = None"

fun data_message :: "rpc_data \<Rightarrow> string option" where
  "data_message (ObjectData to limit message) = message"
| "data_message d = None"

fun somes :: "'a option list \<Rightarrow> 'a list" where
  "somes [] = []"
| "somes (None # xs) = somes xs"
| "somes (Some x # xs) = x # somes xs"

definition error_texts :: "rpc_error \<Rightarrow> string list" where
  "error_texts e = somes [data_text (re_data e), data_message (re_data e), re_message e]"

definition lower_of :: "int option \<Rightarrow> int option \<Rightarrow> int option" where
  "lower_of lowest cap =
     (case (lowest, cap) of
        (_, None) \<Rightarrow> lowest
      | (None, Some c) \<Rightarrow> Some c
      | (Some l, Some c) \<Rightarrow> if c < l then Some c else Some l)"

definition MAX_PLAUSIBLE_CAP :: int where
  "MAX_PLAUSIBLE_CAP = 10000000"

definition plausibleBlockCap :: "jsnum \<Rightarrow> int option" where
  "plausibleBlockCap v =
     (case v of Whole n \<Rightarrow> if n < 1 \<or> n > MAX_PLAUSIBLE_CAP then None else Some n | NotWhole \<Rightarrow> None)"

definition plausibleResultCap :: "jsnum \<Rightarrow> int option" where
  "plausibleResultCap v =
     (case v of Whole n \<Rightarrow> if n < 1 \<or> n > MAX_PLAUSIBLE_CAP then None else Some n | NotWhole \<Rightarrow> None)"

definition statedBlockCapFromText :: "text_reader \<Rightarrow> string \<Rightarrow> int option" where
  "statedBlockCapFromText R text =
     fold (\<lambda>pattern lowest. lower_of lowest (Option.bind (pattern text) plausibleBlockCap)) (tr_blockCaps R) None"

definition statedBlockCapFromError :: "text_reader \<Rightarrow> rpc_error \<Rightarrow> int option" where
  "statedBlockCapFromError R e =
     fold (\<lambda>text lowest. lower_of lowest (statedBlockCapFromText R text)) (error_texts e) None"

fun reportedResultCapFromStructuredData :: "rpc_data \<Rightarrow> int option" where
  "reportedResultCapFromStructuredData (ObjectData (Some to) (Some limit) message) = plausibleResultCap limit"
| "reportedResultCapFromStructuredData d = None"

definition reportedResultCapFromText :: "text_reader \<Rightarrow> string \<Rightarrow> int option" where
  "reportedResultCapFromText R text =
     fold (\<lambda>pattern lowest. lower_of lowest (Option.bind (pattern text) plausibleResultCap)) (tr_resultCaps R) None"

definition reportedResultCapFromError :: "text_reader \<Rightarrow> rpc_error \<Rightarrow> int option" where
  "reportedResultCapFromError R e =
     fold (\<lambda>text lowest. lower_of lowest (reportedResultCapFromText R text)) (error_texts e)
       (reportedResultCapFromStructuredData (re_data e))"

definition lower_char :: "char \<Rightarrow> char" where
  "lower_char c = (if 65 \<le> (of_char c :: nat) \<and> (of_char c :: nat) \<le> 90 then char_of ((of_char c :: nat) + 32) else c)"

definition looksLikeArchiveRefusal :: "text_reader \<Rightarrow> string \<Rightarrow> bool" where
  "looksLikeArchiveRefusal R text =
     (let lowered = map lower_char text in mentions ''archive'' lowered \<and> tr_archiveGate R lowered)"

definition archiveRefusalFromError :: "text_reader \<Rightarrow> rpc_error \<Rightarrow> string option" where
  "archiveRefusalFromError R e = find (looksLikeArchiveRefusal R) (error_texts e)"

definition hex_value :: "char \<Rightarrow> int option" where
  "hex_value c =
     (let n = int (of_char c) in
      if 48 \<le> n \<and> n \<le> 57 then Some (n - 48)
      else if 97 \<le> n \<and> n \<le> 102 then Some (n - 87)
      else if 65 \<le> n \<and> n \<le> 70 then Some (n - 55) else None)"

definition strip_0x :: "string \<Rightarrow> string" where
  "strip_0x s = (if map lower_char (take 2 s) = ''0x'' then drop 2 s else s)"

text \<open>\<open>parseInt(s, 16)\<close> on a string that starts with neither white space nor a sign.\<close>

definition parseInt16 :: "string \<Rightarrow> int option" where
  "parseInt16 s =
     (let digits = takeWhile (\<lambda>c. hex_value c \<noteq> None) (strip_0x s)
      in if digits = [] then None else Some (fold (\<lambda>c n. 16 * n + the (hex_value c)) digits 0))"

fun suggestedToBlockFromStructuredData :: "rpc_data \<Rightarrow> int option" where
  "suggestedToBlockFromStructuredData (ObjectData (Some to) (Some limit) message) = parseInt16 (strip_0x to)"
| "suggestedToBlockFromStructuredData d = None"

definition looksLikeRangeHint :: "string \<Rightarrow> bool" where
  "looksLikeRangeHint text \<longleftrightarrow> mentions ''results'' text \<or> mentions ''block range'' text"

fun first_some :: "('a \<Rightarrow> 'b option) \<Rightarrow> 'a list \<Rightarrow> 'b option" where
  "first_some f [] = None"
| "first_some f (x # xs) = (case f x of None \<Rightarrow> first_some f xs | Some y \<Rightarrow> Some y)"

definition getNewToBlockFromError :: "text_reader \<Rightarrow> rpc_error \<Rightarrow> int option" where
  "getNewToBlockFromError R e =
     (if re_code e \<notin> {Some (-32005), Some (-32602), Some (-32000)} then None
      else
        (let needsAHint = (re_code e \<noteq> Some (-32005)) in
         case suggestedToBlockFromStructuredData (re_data e) of
           Some to \<Rightarrow> Some to
         | None \<Rightarrow>
             first_some (\<lambda>text. if needsAHint \<and> \<not> looksLikeRangeHint text then None else tr_prose R text)
               (somes [data_text (re_data e), re_message e])))"

definition saysTooWide :: "rpc_error \<Rightarrow> bool" where
  "saysTooWide e \<longleftrightarrow> re_code e = Some (-32603) \<and>
     (case data_message (re_data e) of None \<Rightarrow> False
      | Some m \<Rightarrow> m \<noteq> [] \<and> (mentions ''block range is too wide'' m \<or> mentions ''block range too large'' m))"

subsection \<open>What a fetcher has learned\<close>

record fetch_config =
  numBlocksToFetchAtStart :: int
  maxBlocksPerFetch :: int
  percentageToReach :: int
  maxEventsPerFetch :: int
  numRetry :: int

record learned_range =
  lr_ceiling :: "int option"
  lr_safeSpan :: "int option"
  lr_nextSize :: int

record provided_learned_range =
  plr_ceiling :: "jsnum option"
  plr_safeSpan :: "jsnum option"
  plr_nextSize :: "jsnum option"

record ('l, 's) range_fetcher =
  rf_config :: fetch_config
  rf_topics :: "string list option"
  rf_ranges :: topic_block_ranges
  rf_reader :: text_reader
  rf_fetch :: "string list option \<Rightarrow> block_window \<Rightarrow> 's \<Rightarrow> (rpc_error, 'l list) result \<times> 's"

record 's range_state =
  numBlocksToFetch :: int
  foundNumBlockToHigh :: "int option"
  safeNumBlock :: "int option"
  lowestReportedResultCap :: "int option"
  rs_node :: 's

definition configuredSpan :: "jsnum option \<Rightarrow> int option" where
  "configuredSpan v =
     (case v of Some (Whole n) \<Rightarrow> if n < 1 then None else Some n | _ \<Rightarrow> None)"

definition lowerBlockCeilingTo :: "fetch_config \<Rightarrow> int option \<Rightarrow> 's range_state \<Rightarrow> 's range_state" where
  "lowerBlockCeilingTo cfg cap s =
     (case cap of
        None \<Rightarrow> s
      | Some c \<Rightarrow>
          if c < 1 then s
          else
            (let ceiling = min (case foundNumBlockToHigh s of None \<Rightarrow> maxBlocksPerFetch cfg | Some f \<Rightarrow> f) c in
             s\<lparr>foundNumBlockToHigh := Some ceiling,
               safeNumBlock := (case safeNumBlock s of None \<Rightarrow> None | Some v \<Rightarrow> if v \<ge> ceiling then None else Some v)\<rparr>))"

definition recordReportedResultCap :: "int option \<Rightarrow> 's range_state \<Rightarrow> 's range_state" where
  "recordReportedResultCap cap s =
     (case cap of
        None \<Rightarrow> s
      | Some c \<Rightarrow>
          if (case lowestReportedResultCap s of None \<Rightarrow> False | Some l \<Rightarrow> c \<ge> l) then s
          else s\<lparr>lowestReportedResultCap := Some c\<rparr>)"

definition seedLearnedRange :: "fetch_config \<Rightarrow> provided_learned_range option \<Rightarrow> 's range_state \<Rightarrow> 's range_state" where
  "seedLearnedRange cfg seed s =
     (case seed of
        None \<Rightarrow> s
      | Some p \<Rightarrow>
          (let s1 = lowerBlockCeilingTo cfg (configuredSpan (plr_ceiling p)) s;
               s2 = (case configuredSpan (plr_safeSpan p) of
                       None \<Rightarrow> s1
                     | Some v \<Rightarrow>
                         if (case foundNumBlockToHigh s1 of None \<Rightarrow> True | Some f \<Rightarrow> v < f)
                         then s1\<lparr>safeNumBlock := Some (min v (maxBlocksPerFetch cfg))\<rparr> else s1)
           in case configuredSpan (plr_nextSize p) of
                None \<Rightarrow> s2
              | Some v \<Rightarrow> s2\<lparr>numBlocksToFetch := min v (maxBlocksPerFetch cfg)\<rparr>))"

definition new_range_state :: "fetch_config \<Rightarrow> provided_learned_range option \<Rightarrow> 's \<Rightarrow> 's range_state" where
  "new_range_state cfg seed node =
     seedLearnedRange cfg seed
       \<lparr>numBlocksToFetch = min (numBlocksToFetchAtStart cfg) (maxBlocksPerFetch cfg), foundNumBlockToHigh = None,
        safeNumBlock = None, lowestReportedResultCap = None, rs_node = node\<rparr>"

definition learnedRange :: "'s range_state \<Rightarrow> learned_range" where
  "learnedRange s =
     \<lparr>lr_ceiling = foundNumBlockToHigh s, lr_safeSpan = safeNumBlock s, lr_nextSize = numBlocksToFetch s\<rparr>"

subsection \<open>One call\<close>

text \<open>A learned number counts when it is there and not zero, as JavaScript's truth value has it.\<close>

definition truthy :: "int option \<Rightarrow> bool" where
  "truthy v \<longleftrightarrow> v \<noteq> None \<and> v \<noteq> Some 0"

definition below_ceiling :: "int \<Rightarrow> int option \<Rightarrow> int" where
  "below_ceiling found safe =
     (if truthy safe then max 1 (min (the safe + (found - the safe) div 2) (found - 1)) else max 1 (found - 1))"

definition size_after_refusal :: "('l, 's) range_fetcher \<Rightarrow> rpc_error \<Rightarrow> int \<Rightarrow> int \<Rightarrow> 's range_state \<Rightarrow> int \<times> 's range_state" where
  "size_after_refusal F e fromBlock toBlock s =
     (let toBlockClue = getNewToBlockFromError (rf_reader F) e in
      if truthy toBlockClue then
        (let total = the toBlockClue - fromBlock + 1 in
         (if total > 1 then (total * percentageToReach (rf_config F)) div 100 else numBlocksToFetch s, s))
      else
        (let fetched = toBlock - fromBlock in
         (if fetched > 1 then fetched div 2 else 1,
          if saysTooWide e then lowerBlockCeilingTo (rf_config F) (Some fetched) s else s)))"

definition learn_from_refusal :: "('l, 's) range_fetcher \<Rightarrow> rpc_error \<Rightarrow> int \<Rightarrow> int \<Rightarrow> 's range_state \<Rightarrow> 's range_state" where
  "learn_from_refusal F e fromBlock toBlock s =
     (let s1 = lowerBlockCeilingTo (rf_config F) (statedBlockCapFromError (rf_reader F) e) s;
          (size, s2) = size_after_refusal F e fromBlock toBlock s1;
          s3 = s2\<lparr>numBlocksToFetch := size\<rparr>
      in if truthy (foundNumBlockToHigh s3) \<and> the (foundNumBlockToHigh s3) < numBlocksToFetch s3
         then s3\<lparr>numBlocksToFetch := below_ceiling (the (foundNumBlockToHigh s3)) (safeNumBlock s3)\<rparr> else s3)"

definition learn_from_answer :: "('l, 's) range_fetcher \<Rightarrow> 'l list \<Rightarrow> int \<Rightarrow> int \<Rightarrow> 's range_state \<Rightarrow> 's range_state" where
  "learn_from_answer F ls fromBlock toBlock s =
     (let cfg = rf_config F;
          targetNumberOfLog = max 1 ((maxEventsPerFetch cfg * percentageToReach cfg) div 100);
          fetched = toBlock - fromBlock + 1;
          safe = max (case safeNumBlock s of None \<Rightarrow> 0 | Some v \<Rightarrow> v) fetched;
          s1 = s\<lparr>safeNumBlock := Some safe\<rparr>
      in if truthy (foundNumBlockToHigh s1)
         then s1\<lparr>numBlocksToFetch := below_ceiling (the (foundNumBlockToHigh s1)) (safeNumBlock s1)\<rparr>
         else if ls = [] then s1\<lparr>numBlocksToFetch := maxBlocksPerFetch cfg\<rparr>
         else s1\<lparr>numBlocksToFetch :=
                min (maxBlocksPerFetch cfg) (max 1 ((targetNumberOfLog * fetched) div int (length ls)))\<rparr>)"

datatype fetch_failure = ArchiveRefused int int string | NodeFailure rpc_error

definition request_window :: "('l, 's) range_fetcher \<Rightarrow> int \<Rightarrow> int \<Rightarrow> 's \<Rightarrow> (rpc_error, 'l list) result \<times> 's" where
  "request_window F fromBlock toBlock node =
     (let narrowed = topicsThatCanOccurIn (rf_topics F) (rf_ranges F) fromBlock toBlock in
      if narrowed = Some [] then (Inr [], node)
      else rf_fetch F (case narrowed of None \<Rightarrow> rf_topics F | Some ts \<Rightarrow> Some ts)
             \<lparr>bw_fromBlock = fromBlock, bw_toBlock = toBlock\<rparr> node)"

function getLogs :: "('l, 's) range_fetcher \<Rightarrow> int \<Rightarrow> int \<Rightarrow> int \<Rightarrow> 's range_state
    \<Rightarrow> (fetch_failure, 'l list \<times> int) result \<times> 's range_state" where
  "getLogs F fromBlock requestedTo retry s =
     (let toBlock = min requestedTo (fromBlock + numBlocksToFetch s - 1);
          (answer, node) = request_window F fromBlock toBlock (rs_node s);
          s0 = s\<lparr>rs_node := node\<rparr>
      in case answer of
           Inr ls \<Rightarrow> (Inr (ls, toBlock), learn_from_answer F ls fromBlock toBlock s0)
         | Inl e \<Rightarrow>
             (case archiveRefusalFromError (rf_reader F) e of
                Some text \<Rightarrow> (Inl (ArchiveRefused fromBlock toBlock text), s0)
              | None \<Rightarrow>
                  (let s1 = recordReportedResultCap (reportedResultCapFromError (rf_reader F) e) s0 in
                   if retry \<le> 0 then (Inl (NodeFailure e), s1)
                   else
                     (let s2 = learn_from_refusal F e fromBlock toBlock s1 in
                      case getLogs F fromBlock (fromBlock + numBlocksToFetch s2 - 1) (retry - 1) s2 of
                        (Inl failure, s3) \<Rightarrow> (Inl failure, s3)
                      | (Inr (ls, toBlockUsed), s3) \<Rightarrow>
                          (Inr (ls, toBlockUsed), learn_from_answer F ls fromBlock toBlockUsed s3)))))"
  by pat_completeness auto

termination
  by (relation "measure (\<lambda>(F, fromBlock, requestedTo, retry, s). nat retry)") auto

declare getLogs.simps [simp del]

subsection \<open>The learned numbers stay in bounds\<close>

definition config_ok :: "fetch_config \<Rightarrow> bool" where
  "config_ok cfg \<longleftrightarrow> 1 \<le> numBlocksToFetchAtStart cfg \<and> 1 \<le> maxBlocksPerFetch cfg \<and>
     50 \<le> percentageToReach cfg \<and> percentageToReach cfg \<le> 100"

definition range_ok :: "fetch_config \<Rightarrow> 's range_state \<Rightarrow> bool" where
  "range_ok cfg s \<longleftrightarrow>
     1 \<le> numBlocksToFetch s \<and> numBlocksToFetch s \<le> maxBlocksPerFetch cfg \<and>
     (case foundNumBlockToHigh s of None \<Rightarrow> True | Some f \<Rightarrow> 1 \<le> f \<and> f \<le> maxBlocksPerFetch cfg) \<and>
     (case safeNumBlock s of None \<Rightarrow> True | Some v \<Rightarrow> 1 \<le> v \<and> v \<le> maxBlocksPerFetch cfg)"

lemma below_ceiling_bounds:
  assumes "1 \<le> f"
  shows "1 \<le> below_ceiling f safe" "below_ceiling f safe \<le> f"
  using assms by (auto simp: below_ceiling_def)

lemma range_ok_node [simp]: "range_ok cfg (s\<lparr>rs_node := n\<rparr>) = range_ok cfg s"
  by (simp add: range_ok_def)

lemma recordReportedResultCap_keeps [simp]:
  "range_ok cfg (recordReportedResultCap c s) = range_ok cfg s"
  "numBlocksToFetch (recordReportedResultCap c s) = numBlocksToFetch s"
  "rs_node (recordReportedResultCap c s) = rs_node s"
  by (auto simp: recordReportedResultCap_def range_ok_def split: option.splits)

lemma lowerBlockCeilingTo_keeps [simp]:
  "numBlocksToFetch (lowerBlockCeilingTo cfg c s) = numBlocksToFetch s"
  "rs_node (lowerBlockCeilingTo cfg c s) = rs_node s"
  "lowestReportedResultCap (lowerBlockCeilingTo cfg c s) = lowestReportedResultCap s"
  by (auto simp: lowerBlockCeilingTo_def Let_def split: option.splits)

lemma lowerBlockCeilingTo_ok:
  assumes "range_ok cfg s" "1 \<le> maxBlocksPerFetch cfg"
  shows "range_ok cfg (lowerBlockCeilingTo cfg c s)"
proof (cases c)
  case None
  then show ?thesis using assms by (simp add: lowerBlockCeilingTo_def)
next
  case (Some k)
  then show ?thesis
    using assms
    by (cases "foundNumBlockToHigh s"; cases "safeNumBlock s") (auto simp: lowerBlockCeilingTo_def range_ok_def Let_def)
qed

lemma configuredSpan_positive: "configuredSpan v = Some n \<Longrightarrow> 1 \<le> n"
  by (auto simp: configuredSpan_def split: option.splits jsnum.splits if_splits)

lemma range_ok_updates:
  assumes "range_ok cfg s" "1 \<le> v" "1 \<le> maxBlocksPerFetch cfg"
  shows "range_ok cfg (s\<lparr>safeNumBlock := Some (min v (maxBlocksPerFetch cfg))\<rparr>)"
    and "range_ok cfg (s\<lparr>numBlocksToFetch := min v (maxBlocksPerFetch cfg)\<rparr>)"
  using assms by (simp_all add: range_ok_def)

lemma seedLearnedRange_ok:
  assumes "range_ok cfg s" "1 \<le> maxBlocksPerFetch cfg"
  shows "range_ok cfg (seedLearnedRange cfg seed s)"
proof (cases seed)
  case None
  then show ?thesis using assms by (simp add: seedLearnedRange_def)
next
  case (Some p)
  let ?s1 = "lowerBlockCeilingTo cfg (configuredSpan (plr_ceiling p)) s"
  let ?s2 = "(case configuredSpan (plr_safeSpan p) of
      None \<Rightarrow> ?s1
    | Some v \<Rightarrow>
        if (case foundNumBlockToHigh ?s1 of None \<Rightarrow> True | Some f \<Rightarrow> v < f)
        then ?s1\<lparr>safeNumBlock := Some (min v (maxBlocksPerFetch cfg))\<rparr> else ?s1)"
  have s1: "range_ok cfg ?s1" using assms by (rule lowerBlockCeilingTo_ok)
  have s2: "range_ok cfg ?s2"
  proof (cases "configuredSpan (plr_safeSpan p)")
    case None
    then show ?thesis using s1 by simp
  next
    case (Some v)
    then show ?thesis
      using s1 range_ok_updates(1)[OF s1 configuredSpan_positive[OF Some] assms(2)] by simp
  qed
  have "seedLearnedRange cfg seed s =
      (case configuredSpan (plr_nextSize p) of None \<Rightarrow> ?s2
       | Some v \<Rightarrow> ?s2\<lparr>numBlocksToFetch := min v (maxBlocksPerFetch cfg)\<rparr>)"
    by (simp add: seedLearnedRange_def Some Let_def)
  then show ?thesis
    using s2 range_ok_updates(2)[OF s2 _ assms(2)] configuredSpan_positive
    by (cases "configuredSpan (plr_nextSize p)") simp_all
qed

lemma new_range_state_ok:
  assumes "config_ok cfg"
  shows "range_ok cfg (new_range_state cfg seed node)"
  unfolding new_range_state_def
  using assms by (intro seedLearnedRange_ok) (simp_all add: range_ok_def config_ok_def)

lemma percent_bounds:
  fixes t x :: int
  assumes "t * 50 \<le> x" "x \<le> t * 100" "2 \<le> t"
  shows "1 \<le> x div 100 \<and> x div 100 \<le> t"
  using assms by linarith

lemma learn_from_refusal_bounds:
  assumes ok: "range_ok cfg s" and cfg: "config_ok cfg" "cfg = rf_config F"
    and span: "fromBlock \<le> toBlock" "toBlock - fromBlock + 1 \<le> maxBlocksPerFetch cfg"
    and clue: "\<forall>c. getNewToBlockFromError (rf_reader F) e = Some c \<longrightarrow> fromBlock < c \<and> c \<le> toBlock"
  shows "range_ok cfg (learn_from_refusal F e fromBlock toBlock s)"
    and "numBlocksToFetch (learn_from_refusal F e fromBlock toBlock s) \<le> toBlock - fromBlock + 1"
    and "rs_node (learn_from_refusal F e fromBlock toBlock s) = rs_node s"
    and "getNewToBlockFromError (rf_reader F) e = None \<Longrightarrow>
      numBlocksToFetch (learn_from_refusal F e fromBlock toBlock s) \<le> max 1 ((toBlock - fromBlock) div 2)"
proof -
  let ?s1 = "lowerBlockCeilingTo cfg (statedBlockCapFromError (rf_reader F) e) s"
  obtain size s2 where size: "size_after_refusal F e fromBlock toBlock ?s1 = (size, s2)" by fastforce
  have m: "1 \<le> maxBlocksPerFetch cfg" using cfg by (simp add: config_ok_def)
  have s2: "range_ok cfg s2" "rs_node s2 = rs_node s"
    using size lowerBlockCeilingTo_ok[OF ok m] lowerBlockCeilingTo_ok[OF lowerBlockCeilingTo_ok[OF ok m] m] cfg(2)
    by (auto simp: size_after_refusal_def Let_def split: if_splits)
  have halved: "1 \<le> size \<and> size \<le> max 1 ((toBlock - fromBlock) div 2)"
    if "\<not> truthy (getNewToBlockFromError (rf_reader F) e)"
    using size span that by (auto simp: size_after_refusal_def Let_def split: if_splits)
  have bounds: "1 \<le> size \<and> size \<le> toBlock - fromBlock + 1"
  proof (cases "truthy (getNewToBlockFromError (rf_reader F) e)")
    case False
    then show ?thesis using halved span by auto
  next
    case True
    then obtain c where c: "getNewToBlockFromError (rf_reader F) e = Some c" by (auto simp: truthy_def)
    let ?total = "c - fromBlock + 1"
    have total: "2 \<le> ?total" "?total \<le> toBlock - fromBlock + 1" using clue c by auto
    have "?total * 50 \<le> ?total * percentageToReach cfg" "?total * percentageToReach cfg \<le> ?total * 100"
      using cfg total unfolding config_ok_def by (intro mult_left_mono; linarith)+
    then have "1 \<le> (?total * percentageToReach cfg) div 100 \<and> (?total * percentageToReach cfg) div 100 \<le> ?total"
      using total(1) by (intro percent_bounds)
    then show ?thesis using size True c total cfg(2) by (auto simp: size_after_refusal_def Let_def)
  qed
  let ?s3 = "s2\<lparr>numBlocksToFetch := size\<rparr>"
  have learned: "learn_from_refusal F e fromBlock toBlock s =
      (if truthy (foundNumBlockToHigh ?s3) \<and> the (foundNumBlockToHigh ?s3) < size
       then ?s3\<lparr>numBlocksToFetch := below_ceiling (the (foundNumBlockToHigh ?s3)) (safeNumBlock ?s3)\<rparr> else ?s3)"
    using size cfg(2) by (simp add: learn_from_refusal_def Let_def)
  have found: "1 \<le> the (foundNumBlockToHigh s2) \<and> the (foundNumBlockToHigh s2) \<le> maxBlocksPerFetch cfg"
    if "truthy (foundNumBlockToHigh s2)"
    using s2 that by (auto simp: range_ok_def truthy_def split: option.splits)
  have size_le: "numBlocksToFetch (learn_from_refusal F e fromBlock toBlock s) \<le> size"
    using learned found below_ceiling_bounds(2)[of "the (foundNumBlockToHigh s2)" "safeNumBlock s2"] by auto
  have one: "1 \<le> numBlocksToFetch (learn_from_refusal F e fromBlock toBlock s)"
    using learned found below_ceiling_bounds(1)[of "the (foundNumBlockToHigh s2)" "safeNumBlock s2"] bounds by auto
  have rest: "foundNumBlockToHigh (learn_from_refusal F e fromBlock toBlock s) = foundNumBlockToHigh s2"
    "safeNumBlock (learn_from_refusal F e fromBlock toBlock s) = safeNumBlock s2"
    "rs_node (learn_from_refusal F e fromBlock toBlock s) = rs_node s2"
    using learned by auto
  show "numBlocksToFetch (learn_from_refusal F e fromBlock toBlock s) \<le> toBlock - fromBlock + 1"
    using size_le bounds by simp
  show "range_ok cfg (learn_from_refusal F e fromBlock toBlock s)"
    using s2(1) one size_le bounds span unfolding range_ok_def rest by auto
  show "rs_node (learn_from_refusal F e fromBlock toBlock s) = rs_node s" using rest s2(2) by simp
  show "numBlocksToFetch (learn_from_refusal F e fromBlock toBlock s) \<le> max 1 ((toBlock - fromBlock) div 2)"
    if "getNewToBlockFromError (rf_reader F) e = None"
    using halved size_le that by (simp add: truthy_def)
qed

lemma learn_from_answer_bounds:
  assumes "range_ok cfg s" "config_ok cfg" "cfg = rf_config F"
    and "fromBlock \<le> toBlock" "toBlock - fromBlock + 1 \<le> maxBlocksPerFetch cfg"
  shows "range_ok cfg (learn_from_answer F ls fromBlock toBlock s)"
    and "rs_node (learn_from_answer F ls fromBlock toBlock s) = rs_node s"
    and "lowestReportedResultCap (learn_from_answer F ls fromBlock toBlock s) = lowestReportedResultCap s"
proof -
  show "rs_node (learn_from_answer F ls fromBlock toBlock s) = rs_node s"
    "lowestReportedResultCap (learn_from_answer F ls fromBlock toBlock s) = lowestReportedResultCap s"
    by (simp_all add: learn_from_answer_def Let_def)
  have m: "1 \<le> maxBlocksPerFetch cfg" using assms by (simp add: config_ok_def)
  have below: "1 \<le> f \<Longrightarrow> f \<le> maxBlocksPerFetch cfg \<Longrightarrow>
      1 \<le> below_ceiling f safe \<and> below_ceiling f safe \<le> maxBlocksPerFetch cfg" for f safe
    using below_ceiling_bounds[of f safe] by linarith
  show "range_ok cfg (learn_from_answer F ls fromBlock toBlock s)"
    using assms m below
    by (cases "foundNumBlockToHigh s"; cases "safeNumBlock s")
      (auto simp: learn_from_answer_def Let_def range_ok_def truthy_def)
qed

subsection \<open>What one call asks for, and what it returns\<close>

text \<open>The same fetcher with a record of the windows the node was asked for.\<close>

definition with_windows :: "('l, 's) range_fetcher \<Rightarrow> ('l, 's \<times> block_window list) range_fetcher" where
  "with_windows F =
     \<lparr>rf_config = rf_config F, rf_topics = rf_topics F, rf_ranges = rf_ranges F, rf_reader = rf_reader F,
      rf_fetch = (\<lambda>ts w (n, ws). let (r, n') = rf_fetch F ts w n in (r, (n', ws @ [w])))\<rparr>"

lemma request_window_traced:
  assumes "request_window (with_windows F) fromBlock toBlock n = (r, n')"
  shows "\<exists>new. snd n' = snd n @ new \<and> set new \<subseteq> {\<lparr>bw_fromBlock = fromBlock, bw_toBlock = toBlock\<rparr>} \<and> length new \<le> 1"
  using assms by (cases n) (auto simp: request_window_def with_windows_def Let_def split: if_splits prod.splits)

lemma request_window_cases:
  assumes "request_window F fromBlock toBlock n = (r, n')"
  shows "(r = Inr [] \<and> n' = n) \<or> (\<exists>ts. rf_fetch F ts \<lparr>bw_fromBlock = fromBlock, bw_toBlock = toBlock\<rparr> n = (r, n'))"
  using assms by (auto simp: request_window_def Let_def split: if_splits)

text \<open>
  The clues of a node are usable when they lie inside the window that was refused and allow more
  than its first block.
\<close>

definition usable_clues :: "('l, 's) range_fetcher \<Rightarrow> bool" where
  "usable_clues F \<longleftrightarrow> (\<forall>ts w n e n' c. rf_fetch F ts w n = (Inl e, n') \<longrightarrow>
     getNewToBlockFromError (rf_reader F) e = Some c \<longrightarrow> bw_fromBlock w < c \<and> c \<le> bw_toBlock w)"

lemma usable_clue:
  assumes "usable_clues F" "request_window F fromBlock toBlock n = (Inl e, n')"
  shows "\<forall>c. getNewToBlockFromError (rf_reader F) e = Some c \<longrightarrow> fromBlock < c \<and> c \<le> toBlock"
proof -
  obtain ts where "rf_fetch F ts \<lparr>bw_fromBlock = fromBlock, bw_toBlock = toBlock\<rparr> n = (Inl e, n')"
    using request_window_cases[OF assms(2)] by auto
  then show ?thesis using assms(1) unfolding usable_clues_def by fastforce
qed

lemma usable_clues_traced: "usable_clues F \<Longrightarrow> usable_clues (with_windows F)"
  unfolding usable_clues_def with_windows_def by (clarsimp simp: Let_def split: prod.splits) blast

text \<open>The one step of a call, with its outcome as an alternative.\<close>

lemma getLogs_step:
  assumes "getLogs F fromBlock requestedTo retry s = (r, s')"
  obtains (answered) ls n' where
      "request_window F fromBlock (min requestedTo (fromBlock + numBlocksToFetch s - 1)) (rs_node s) = (Inr ls, n')"
      "r = Inr (ls, min requestedTo (fromBlock + numBlocksToFetch s - 1))"
      "s' = learn_from_answer F ls fromBlock (min requestedTo (fromBlock + numBlocksToFetch s - 1)) (s\<lparr>rs_node := n'\<rparr>)"
  | (archive) e n' why where
      "request_window F fromBlock (min requestedTo (fromBlock + numBlocksToFetch s - 1)) (rs_node s) = (Inl e, n')"
      "archiveRefusalFromError (rf_reader F) e = Some why"
      "r = Inl (ArchiveRefused fromBlock (min requestedTo (fromBlock + numBlocksToFetch s - 1)) why)"
      "s' = s\<lparr>rs_node := n'\<rparr>"
  | (gave_up) e n' where
      "request_window F fromBlock (min requestedTo (fromBlock + numBlocksToFetch s - 1)) (rs_node s) = (Inl e, n')"
      "retry \<le> 0" "r = Inl (NodeFailure e)"
      "s' = recordReportedResultCap (reportedResultCapFromError (rf_reader F) e) (s\<lparr>rs_node := n'\<rparr>)"
  | (retried) e n' s2 r2 s3 where
      "request_window F fromBlock (min requestedTo (fromBlock + numBlocksToFetch s - 1)) (rs_node s) = (Inl e, n')"
      "archiveRefusalFromError (rf_reader F) e = None" "0 < retry"
      "s2 = learn_from_refusal F e fromBlock (min requestedTo (fromBlock + numBlocksToFetch s - 1))
        (recordReportedResultCap (reportedResultCapFromError (rf_reader F) e) (s\<lparr>rs_node := n'\<rparr>))"
      "getLogs F fromBlock (fromBlock + numBlocksToFetch s2 - 1) (retry - 1) s2 = (r2, s3)" "r = r2"
      "s' = (case r2 of Inl failure \<Rightarrow> s3 | Inr (ls, toBlockUsed) \<Rightarrow> learn_from_answer F ls fromBlock toBlockUsed s3)"
  using assms
  by (subst (asm) getLogs.simps)
    (auto simp: Let_def split: prod.splits sum.splits option.splits if_splits)

definition windows_from :: "fetch_config \<Rightarrow> int \<Rightarrow> int \<Rightarrow> block_window list \<Rightarrow> bool" where
  "windows_from cfg fromBlock upper ws \<longleftrightarrow>
     (\<forall>w \<in> set ws. bw_fromBlock w = fromBlock \<and> fromBlock \<le> bw_toBlock w \<and> bw_toBlock w \<le> upper \<and>
        bw_toBlock w - fromBlock + 1 \<le> maxBlocksPerFetch cfg) \<and>
     sorted_wrt (\<lambda>a b. bw_toBlock b \<le> bw_toBlock a) ws"

lemma windows_from_Nil [simp]: "windows_from cfg fromBlock upper []"
  by (simp add: windows_from_def)

lemma windows_from_one:
  assumes "set ws \<subseteq> {\<lparr>bw_fromBlock = fromBlock, bw_toBlock = toBlock\<rparr>}" "length ws \<le> 1"
    and "fromBlock \<le> toBlock" "toBlock - fromBlock + 1 \<le> maxBlocksPerFetch cfg"
  shows "windows_from cfg fromBlock toBlock ws"
  using assms by (cases ws) (auto simp: windows_from_def)

lemma windows_from_mono:
  "windows_from cfg fromBlock upper ws \<Longrightarrow> upper \<le> upper2 \<Longrightarrow> windows_from cfg fromBlock upper2 ws"
  by (auto simp: windows_from_def)

lemma windows_from_append:
  assumes "set ws \<subseteq> {\<lparr>bw_fromBlock = fromBlock, bw_toBlock = toBlock\<rparr>}" "length ws \<le> 1"
    and "fromBlock \<le> toBlock" "toBlock - fromBlock + 1 \<le> maxBlocksPerFetch cfg"
    and "windows_from cfg fromBlock toBlock us"
  shows "windows_from cfg fromBlock toBlock (ws @ us)"
  using assms by (cases ws) (auto simp: windows_from_def)

lemma retry_window:
  assumes clues: "usable_clues F" and cfg: "config_ok (rf_config F)"
    and ok: "range_ok (rf_config F) s" and ord: "fromBlock \<le> requestedTo"
  defines "toBlock \<equiv> min requestedTo (fromBlock + numBlocksToFetch s - 1)"
  shows "fromBlock \<le> toBlock" "toBlock - fromBlock + 1 \<le> maxBlocksPerFetch (rf_config F)"
    and "\<And>e n'. request_window F fromBlock toBlock (rs_node s) = (Inl e, n') \<Longrightarrow>
      let s2 = learn_from_refusal F e fromBlock toBlock
          (recordReportedResultCap (reportedResultCapFromError (rf_reader F) e) (s\<lparr>rs_node := n'\<rparr>))
      in range_ok (rf_config F) s2 \<and> rs_node s2 = n' \<and> fromBlock \<le> fromBlock + numBlocksToFetch s2 - 1
        \<and> fromBlock + numBlocksToFetch s2 - 1 \<le> toBlock
        \<and> (getNewToBlockFromError (rf_reader F) e = None \<longrightarrow> numBlocksToFetch s2 \<le> max 1 ((toBlock - fromBlock) div 2))"
proof -
  show span: "fromBlock \<le> toBlock" "toBlock - fromBlock + 1 \<le> maxBlocksPerFetch (rf_config F)"
    using ok ord by (auto simp: range_ok_def toBlock_def)
  fix e n' assume req: "request_window F fromBlock toBlock (rs_node s) = (Inl e, n')"
  let ?s1 = "recordReportedResultCap (reportedResultCapFromError (rf_reader F) e) (s\<lparr>rs_node := n'\<rparr>)"
  have ok1: "range_ok (rf_config F) ?s1" using ok by simp
  note learned = learn_from_refusal_bounds[OF ok1 cfg refl span usable_clue[OF clues req]]
  show "let s2 = learn_from_refusal F e fromBlock toBlock ?s1
      in range_ok (rf_config F) s2 \<and> rs_node s2 = n' \<and> fromBlock \<le> fromBlock + numBlocksToFetch s2 - 1
        \<and> fromBlock + numBlocksToFetch s2 - 1 \<le> toBlock
        \<and> (getNewToBlockFromError (rf_reader F) e = None \<longrightarrow> numBlocksToFetch s2 \<le> max 1 ((toBlock - fromBlock) div 2))"
    using learned by (auto simp: Let_def range_ok_def)
qed

lemma getLogs_ok:
  assumes clues: "usable_clues F" and cfg: "config_ok (rf_config F)"
    and "range_ok (rf_config F) s" "fromBlock \<le> requestedTo" "getLogs F fromBlock requestedTo retry s = (r, s')"
  shows "range_ok (rf_config F) s' \<and> (\<forall>ls toBlockUsed. r = Inr (ls, toBlockUsed) \<longrightarrow>
      fromBlock \<le> toBlockUsed \<and> toBlockUsed \<le> min requestedTo (fromBlock + numBlocksToFetch s - 1))"
  using assms(3-5)
proof (induction "nat retry" arbitrary: requestedTo retry s r s' rule: less_induct)
  case less
  note window = retry_window[OF clues cfg less.prems(1,2)]
  from less.prems(3) show ?case
  proof (cases rule: getLogs_step)
    case (answered ls n')
    have "range_ok (rf_config F) (s\<lparr>rs_node := n'\<rparr>)" using less.prems(1) by simp
    from learn_from_answer_bounds(1)[OF this cfg refl window(1,2)]
    show ?thesis using answered(2,3) window(1) by simp
  next
    case (retried e n' s2 r2 s3)
    have next_to: "range_ok (rf_config F) s2" "fromBlock \<le> fromBlock + numBlocksToFetch s2 - 1"
      "fromBlock + numBlocksToFetch s2 - 1 \<le> min requestedTo (fromBlock + numBlocksToFetch s - 1)"
      using window(3)[OF retried(1)] retried(4) by (auto simp: Let_def)
    have "nat (retry - 1) < nat retry" using retried(3) by simp
    note ih = less.hyps[OF this next_to(1,2) retried(5)]
    show ?thesis
    proof (cases r2)
      case (Inl failure)
      then show ?thesis using ih retried(6,7) by simp
    next
      case (Inr v)
      obtain ls used where v: "v = (ls, used)" by fastforce
      have used: "fromBlock \<le> used" "used \<le> min requestedTo (fromBlock + numBlocksToFetch s - 1)"
        using ih Inr v next_to(3) by auto
      then have "used - fromBlock + 1 \<le> maxBlocksPerFetch (rf_config F)" using window(2) by linarith
      then show ?thesis
        using learn_from_answer_bounds(1)[OF _ cfg refl used(1), of s3 ls] ih used retried(6,7) Inr v by simp
    qed
  qed (use less.prems(1) in simp_all)
qed

lemma getLogs_windows:
  assumes clues: "usable_clues F" and cfg: "config_ok (rf_config F)"
    and "range_ok (rf_config F) s" "fromBlock \<le> requestedTo"
    and "getLogs (with_windows F) fromBlock requestedTo retry s = (r, s')"
  shows "\<exists>new. snd (rs_node s') = snd (rs_node s) @ new \<and> length new \<le> Suc (nat retry) \<and>
      windows_from (rf_config F) fromBlock (min requestedTo (fromBlock + numBlocksToFetch s - 1)) new"
  using assms(3-5)
proof (induction "nat retry" arbitrary: requestedTo retry s r s' rule: less_induct)
  case less
  let ?F = "with_windows F" and ?cfg = "rf_config F"
  let ?to = "min requestedTo (fromBlock + numBlocksToFetch s - 1)"
  have F: "rf_config ?F = ?cfg" by (simp add: with_windows_def)
  note window = retry_window[OF usable_clues_traced[OF clues], unfolded F, OF cfg less.prems(1,2)]
  have traced: "\<exists>new. snd n' = snd (rs_node s) @ new \<and> length new \<le> 1 \<and>
      set new \<subseteq> {\<lparr>bw_fromBlock = fromBlock, bw_toBlock = ?to\<rparr>}"
    if "request_window ?F fromBlock ?to (rs_node s) = (a, n')" for a n'
    using request_window_traced[OF that] by blast
  have one: "\<exists>new. snd n' = snd (rs_node s) @ new \<and> length new \<le> Suc (nat retry) \<and> windows_from ?cfg fromBlock ?to new"
    if req: "request_window ?F fromBlock ?to (rs_node s) = (a, n')" for a n'
  proof -
    obtain new where new: "snd n' = snd (rs_node s) @ new" "length new \<le> 1"
      "set new \<subseteq> {\<lparr>bw_fromBlock = fromBlock, bw_toBlock = ?to\<rparr>}"
      using traced[OF req] by blast
    then have "windows_from ?cfg fromBlock ?to new" using windows_from_one[OF new(3,2) window(1,2)] by simp
    then show ?thesis using new(1,2) by (intro exI[of _ new]) auto
  qed
  from less.prems(3) show ?case
  proof (cases rule: getLogs_step)
    case (answered ls n')
    have "rs_node s' = n'" unfolding answered(3) by (simp add: learn_from_answer_def Let_def)
    then show ?thesis using one[OF answered(1)] by simp
  next
    case (archive e n' why)
    then show ?thesis using one[OF archive(1)] by simp
  next
    case (gave_up e n')
    then show ?thesis using one[OF gave_up(1)] by simp
  next
    case (retried e n' s2 r2 s3)
    have next_to: "range_ok ?cfg s2" "rs_node s2 = n'" "fromBlock \<le> fromBlock + numBlocksToFetch s2 - 1"
      "fromBlock + numBlocksToFetch s2 - 1 \<le> ?to"
      using window(3)[OF retried(1)] retried(4) by (auto simp: Let_def)
    have fewer: "nat (retry - 1) < nat retry" "Suc (nat (retry - 1)) = nat retry" using retried(3) by auto
    obtain new1 where new1: "snd n' = snd (rs_node s) @ new1" "length new1 \<le> 1"
      "set new1 \<subseteq> {\<lparr>bw_fromBlock = fromBlock, bw_toBlock = ?to\<rparr>}"
      using traced[OF retried(1)] by blast
    obtain new2 where new2: "snd (rs_node s3) = snd (rs_node s2) @ new2" "length new2 \<le> nat retry"
      "windows_from ?cfg fromBlock (fromBlock + numBlocksToFetch s2 - 1) new2"
      using less.hyps[OF fewer(1) next_to(1,3) retried(5)] fewer(2) by (metis min.idem)
    have "rs_node s' = rs_node s3" using retried(7) by (auto simp: learn_from_answer_def Let_def split: sum.splits)
    moreover have "snd (rs_node s3) = snd (rs_node s) @ (new1 @ new2) \<and> length (new1 @ new2) \<le> Suc (nat retry) \<and>
        windows_from ?cfg fromBlock ?to (new1 @ new2)"
      using new1 new2 next_to(2) windows_from_append[OF new1(3,2) window(1,2) windows_from_mono[OF new2(3) next_to(4)]] by auto
    ultimately show ?thesis by simp
  qed
qed

text \<open>
  C28. However a node refuses, one call asks for at most one window more than it has retries; every
  window starts at the block asked for, ends inside the range asked for, spans at least one block
  and at most the configured maximum, and none is longer than the one before. An answer covers a
  non-empty part of the range, and what was learned stays between one block and that maximum. The
  share of a range to reach must be at least half, and the clues a node gives must lie inside the
  window they refuse, behind its first block.
\<close>

theorem requests_stay_bounded:
  assumes "usable_clues F" "config_ok (rf_config F)"
    and "range_ok (rf_config F) s" "fromBlock \<le> requestedTo"
    and "getLogs (with_windows F) fromBlock requestedTo retry s = (r, s')"
  shows "range_ok (rf_config F) s' \<and>
    (\<exists>asked. snd (rs_node s') = snd (rs_node s) @ asked \<and> length asked \<le> Suc (nat retry) \<and>
      windows_from (rf_config F) fromBlock requestedTo asked) \<and>
    (\<forall>ls toBlockUsed. r = Inr (ls, toBlockUsed) \<longrightarrow> fromBlock \<le> toBlockUsed \<and> toBlockUsed \<le> requestedTo)"
proof -
  have F: "rf_config (with_windows F) = rf_config F" by (simp add: with_windows_def)
  obtain asked where "snd (rs_node s') = snd (rs_node s) @ asked" "length asked \<le> Suc (nat retry)"
    "windows_from (rf_config F) fromBlock (min requestedTo (fromBlock + numBlocksToFetch s - 1)) asked"
    using getLogs_windows[OF assms] by blast
  then show ?thesis
    using getLogs_ok[OF usable_clues_traced[OF assms(1)], unfolded F, OF assms(2-5)] windows_from_mono by auto
qed

text \<open>A node that serves every window of at most \<open>K\<close> blocks, and refuses without a clue.\<close>

definition serves_up_to :: "('l, 's) range_fetcher \<Rightarrow> int \<Rightarrow> bool" where
  "serves_up_to F K \<longleftrightarrow> 1 \<le> K \<and> (\<forall>ts w n e n'. rf_fetch F ts w n = (Inl e, n') \<longrightarrow>
     K < bw_toBlock w - bw_fromBlock w + 1 \<and> archiveRefusalFromError (rf_reader F) e = None \<and>
     getNewToBlockFromError (rf_reader F) e = None)"

lemma serves_usable: "serves_up_to F K \<Longrightarrow> usable_clues F"
  by (auto simp: serves_up_to_def usable_clues_def)

text \<open>A node that refuses every window of more than eight blocks, without a clue.\<close>

definition no_reader :: text_reader where
  "no_reader = \<lparr>tr_blockCaps = [], tr_resultCaps = [], tr_prose = (\<lambda>t. None), tr_archiveGate = (\<lambda>t. False)\<rparr>"

definition narrow_node :: "(int, unit) range_fetcher" where
  "narrow_node =
     \<lparr>rf_config = \<lparr>numBlocksToFetchAtStart = 50, maxBlocksPerFetch = 1000, percentageToReach = 80,
        maxEventsPerFetch = 100, numRetry = 3\<rparr>,
      rf_topics = None, rf_ranges = [], rf_reader = no_reader,
      rf_fetch = (\<lambda>ts w n. if bw_toBlock w - bw_fromBlock w + 1 \<le> 8 then (Inr [bw_toBlock w], n)
        else (Inl \<lparr>re_code = Some (-32000), re_data = NoData, re_message = Some ''too large''\<rparr>, n))\<rparr>"

lemma narrow_node_serves: "serves_up_to narrow_node 8"
  by (auto simp: serves_up_to_def narrow_node_def no_reader_def archiveRefusalFromError_def getNewToBlockFromError_def
      error_texts_def looksLikeArchiveRefusal_def mentions_def looksLikeRangeHint_def split: if_splits)

definition narrow_start :: "(unit \<times> block_window list) range_state" where
  "narrow_start = new_range_state (rf_config narrow_node) None ((), [])"

lemmas fetch_eval = narrow_node_def no_reader_def with_windows_def new_range_state_def seedLearnedRange_def
  request_window_def topicsThatCanOccurIn_def learn_from_refusal_def learn_from_answer_def size_after_refusal_def
  archiveRefusalFromError_def error_texts_def looksLikeArchiveRefusal_def mentions_def looksLikeRangeHint_def
  getNewToBlockFromError_def recordReportedResultCap_def reportedResultCapFromError_def reportedResultCapFromText_def
  statedBlockCapFromError_def statedBlockCapFromText_def lower_of_def lowerBlockCeilingTo_def truthy_def
  saysTooWide_def below_ceiling_def

lemma requests_stay_bounded_witness:
  "\<exists>s'. getLogs (with_windows narrow_node) 10 100 3 narrow_start = (Inr ([14], 14), s') \<and>
     range_ok (rf_config narrow_node) s' \<and> windows_from (rf_config narrow_node) 10 100 (snd (rs_node s')) \<and>
     length (snd (rs_node s')) = 4"
proof -
  obtain s' where run: "getLogs (with_windows narrow_node) 10 100 3 narrow_start = (Inr ([14], 14), s')"
    and four: "length (snd (rs_node s')) = 4"
    by (simp add: getLogs.simps narrow_start_def fetch_eval Let_def)
  have cfg: "config_ok (rf_config narrow_node)" by (simp add: narrow_node_def config_ok_def)
  have empty: "snd (rs_node narrow_start) = []"
    by (simp add: narrow_start_def new_range_state_def seedLearnedRange_def)
  have "range_ok (rf_config narrow_node) narrow_start"
    unfolding narrow_start_def by (rule new_range_state_ok[OF cfg])
  then show ?thesis
    using requests_stay_bounded[OF serves_usable[OF narrow_node_serves] cfg _ _ run] run four empty by auto
qed

subsection \<open>Answers come from the node, and halving reaches one\<close>

lemma getLogs_answer:
  assumes "getLogs F fromBlock requestedTo retry s = (Inr (ls, toBlockUsed), s')"
  shows "\<exists>n n'. request_window F fromBlock toBlockUsed n = (Inr ls, n')"
  using assms
proof (induction "nat retry" arbitrary: requestedTo retry s s' rule: less_induct)
  case less
  from less.prems show ?case
  proof (cases rule: getLogs_step)
    case (retried e n' s2 r2 s3)
    have "nat (retry - 1) < nat retry" using retried(3) by simp
    then show ?thesis using less.hyps retried(5,6) by blast
  qed auto
qed

lemma learn_from_answer_cap [simp]:
  "lowestReportedResultCap (learn_from_answer F ls f t s) = lowestReportedResultCap s"
  by (simp add: learn_from_answer_def Let_def)

lemma learn_from_refusal_cap [simp]:
  "lowestReportedResultCap (learn_from_refusal F e f t s) = lowestReportedResultCap s"
  by (auto simp: learn_from_refusal_def size_after_refusal_def Let_def split: prod.splits if_splits)

definition reports_at_most :: "('l, 's) range_fetcher \<Rightarrow> int \<Rightarrow> bool" where
  "reports_at_most F cap \<longleftrightarrow> (\<forall>ts w n e n' c. rf_fetch F ts w n = (Inl e, n') \<longrightarrow>
     reportedResultCapFromError (rf_reader F) e = Some c \<longrightarrow> c \<le> cap)"

definition cap_known :: "int \<Rightarrow> 's range_state \<Rightarrow> bool" where
  "cap_known cap s \<longleftrightarrow> (case lowestReportedResultCap s of None \<Rightarrow> True | Some c \<Rightarrow> c \<le> cap)"

lemma getLogs_cap:
  assumes "reports_at_most F cap" "cap_known cap s" "getLogs F fromBlock requestedTo retry s = (r, s')"
  shows "cap_known cap s'"
  using assms(2,3)
proof (induction "nat retry" arbitrary: requestedTo retry s r s' rule: less_induct)
  case less
  have recorded: "cap_known cap (recordReportedResultCap (reportedResultCapFromError (rf_reader F) e) (s\<lparr>rs_node := n'\<rparr>))"
    if req: "request_window F fromBlock t (rs_node s) = (Inl e, n')" for e n' t
  proof -
    have "c \<le> cap" if "reportedResultCapFromError (rf_reader F) e = Some c" for c
      using request_window_cases[OF req] assms(1) that unfolding reports_at_most_def by blast
    then show ?thesis
      using less.prems(1) unfolding cap_known_def
      by (auto simp: recordReportedResultCap_def split: option.splits)
  qed
  from less.prems(2) show ?case
  proof (cases rule: getLogs_step)
    case (retried e n' s2 r2 s3)
    have "cap_known cap s2" using recorded[OF retried(1)] retried(4) by (simp add: cap_known_def)
    moreover have "nat (retry - 1) < nat retry" using retried(3) by simp
    ultimately have "cap_known cap s3" using less.hyps retried(5) by blast
    then show ?thesis using retried(7) by (auto simp: cap_known_def split: sum.splits)
  qed (use less.prems(1) recorded in \<open>auto simp: cap_known_def\<close>)
qed

lemma getLogs_halving:
  assumes serves: "serves_up_to F K" and cfg: "config_ok (rf_config F)"
    and "range_ok (rf_config F) s" "fromBlock \<le> requestedTo"
    and "min (requestedTo - fromBlock + 1) (numBlocksToFetch s) \<le> K * 2 ^ nat retry"
  shows "\<exists>ls toBlockUsed s'. getLogs F fromBlock requestedTo retry s = (Inr (ls, toBlockUsed), s')"
  using assms(3-5)
proof (induction "nat retry" arbitrary: requestedTo retry s rule: less_induct)
  case less
  let ?to = "min requestedTo (fromBlock + numBlocksToFetch s - 1)"
  note window = retry_window[OF serves_usable[OF serves] cfg less.prems(1,2)]
  have refused: "K < ?to - fromBlock + 1 \<and> archiveRefusalFromError (rf_reader F) e = None \<and>
      getNewToBlockFromError (rf_reader F) e = None"
    if "request_window F fromBlock ?to (rs_node s) = (Inl e, n')" for e n'
    using request_window_cases[OF that] serves unfolding serves_up_to_def by fastforce
  obtain r s' where run: "getLogs F fromBlock requestedTo retry s = (r, s')" by fastforce
  then show ?case
  proof (cases rule: getLogs_step)
    case (answered ls n')
    then show ?thesis using run by blast
  next
    case (archive e n' why)
    then show ?thesis using refused by fastforce
  next
    case (gave_up e n')
    then show ?thesis using refused[OF gave_up(1)] less.prems(3) by (simp add: min_def split: if_splits)
  next
    case (retried e n' s2 r2 s3)
    have next_to: "range_ok (rf_config F) s2" "fromBlock \<le> fromBlock + numBlocksToFetch s2 - 1"
      "numBlocksToFetch s2 \<le> max 1 ((?to - fromBlock) div 2)"
      using window(3)[OF retried(1)] retried(4) refused[OF retried(1)] by (auto simp: Let_def)
    obtain m where m: "nat retry = Suc m" "nat (retry - 1) = m" using retried(3) by (cases "nat retry") auto
    have "?to - fromBlock + 1 \<le> 2 * (K * 2 ^ m)" using less.prems(3) m(1) by (auto simp: min_def split: if_splits)
    then have "(?to - fromBlock) div 2 \<le> K * 2 ^ m" by linarith
    moreover have "1 \<le> K * 2 ^ m"
      using serves mult_mono[of 1 K 1 "2 ^ m"] by (simp add: serves_up_to_def)
    ultimately have "numBlocksToFetch s2 \<le> K * 2 ^ nat (retry - 1)" using next_to(3) m(2) by simp
    then obtain ls used s4 where
      "getLogs F fromBlock (fromBlock + numBlocksToFetch s2 - 1) (retry - 1) s2 = (Inr (ls, used), s4)"
      using less.hyps[of "retry - 1" s2] next_to(1,2) m by fastforce
    then show ?thesis using run retried(5,6) by auto
  qed
qed

text \<open>
  When the clue is the very block the range starts at, the size is left as it was: the retry ends
  that many blocks further on, whatever the caller asked for as the last block.
\<close>

lemma one_block_clue_keeps_the_size:
  assumes "getNewToBlockFromError (rf_reader F) e = Some fromBlock" "fromBlock \<noteq> 0"
    and "statedBlockCapFromError (rf_reader F) e = None" "foundNumBlockToHigh s = None"
  shows "learn_from_refusal F e fromBlock toBlock s = s"
  using assms by (simp add: learn_from_refusal_def size_after_refusal_def truthy_def lowerBlockCeilingTo_def Let_def)

end
