(* ===== verification/Log_Fetcher.thy ===== *)
theory Log_Fetcher
  imports Range_Fetcher Receivers
begin

section \<open>The fetching side of a stream\<close>

text \<open>
  \<open>packages/core/src/logFetcher.ts\<close> with \<open>internal/utils/retry.ts\<close>: ask the receiver where the next
  batch starts, fetch a range that is not silently short, send it, and follow the receiver when it
  expects another block. The node and the receiver are reached through the ports of \<open>log_fetcher\<close>,
  functions on the state of the world, which may fail; a port's failure says whether it may be
  tried again.
\<close>

subsection \<open>Retrying\<close>

record 'w retry_policy =
  rp_attempts :: int
  rp_initialDelayMs :: int
  rp_factor :: int
  rp_maxDelayMs :: int
  rp_wait :: "int \<Rightarrow> 'w \<Rightarrow> 'w"

definition resolveRetryPolicy :: "int option \<Rightarrow> int option \<Rightarrow> int option \<Rightarrow> int option \<Rightarrow> (int \<Rightarrow> 'w \<Rightarrow> 'w) \<Rightarrow> 'w retry_policy" where
  "resolveRetryPolicy attempts initialDelay factor maxDelay wait =
     \<lparr>rp_attempts = (case attempts of None \<Rightarrow> 4 | Some n \<Rightarrow> n),
      rp_initialDelayMs = (case initialDelay of None \<Rightarrow> 500 | Some n \<Rightarrow> n),
      rp_factor = (case factor of None \<Rightarrow> 2 | Some n \<Rightarrow> n),
      rp_maxDelayMs = (case maxDelay of None \<Rightarrow> 10000 | Some n \<Rightarrow> n), rp_wait = wait\<rparr>"

function retry_from :: "int \<Rightarrow> int \<Rightarrow> int \<Rightarrow> ('e \<Rightarrow> bool) \<Rightarrow> (int \<Rightarrow> 's \<Rightarrow> 's) \<Rightarrow> ('s \<Rightarrow> ('e, 'v) result \<times> 's) \<Rightarrow> int \<Rightarrow> int \<Rightarrow> 's
    \<Rightarrow> ('e, 'v) result \<times> 's" where
  "retry_from attempts factor maxDelay retryable wait operation attempt delay s =
     (case operation s of
        (Inr v, s') \<Rightarrow> (Inr v, s')
      | (Inl e, s') \<Rightarrow>
          if attempt \<ge> attempts \<or> \<not> retryable e then (Inl e, s')
          else retry_from attempts factor maxDelay retryable wait operation (attempt + 1) (min (delay * factor) maxDelay) (wait delay s'))"
  by pat_completeness auto

termination
  by (relation "measure (\<lambda>(attempts, factor, maxDelay, retryable, wait, operation, attempt, delay, s). nat (attempts - attempt))") auto

declare retry_from.simps [simp del]

definition withRetries :: "'w retry_policy \<Rightarrow> ('e \<Rightarrow> bool) \<Rightarrow> (int \<Rightarrow> 's \<Rightarrow> 's) \<Rightarrow> ('s \<Rightarrow> ('e, 'v) result \<times> 's) \<Rightarrow> 's
    \<Rightarrow> ('e, 'v) result \<times> 's" where
  "withRetries policy retryable wait operation s =
     retry_from (rp_attempts policy) (rp_factor policy) (rp_maxDelayMs policy) retryable wait operation 1 (rp_initialDelayMs policy) s"

lemma retry_from_rule:
  assumes "retry_from attempts factor maxDelay retryable wait operation attempt delay s = (r, s')" "I s"
    and step: "\<And>s r s'. I s \<Longrightarrow> operation s = (r, s') \<Longrightarrow> I s' \<and> (\<forall>v. r = Inr v \<longrightarrow> Q v s') \<and> (\<forall>e. r = Inl e \<longrightarrow> E e)"
    and waits: "\<And>d s. I s \<Longrightarrow> I (wait d s)"
  shows "I s' \<and> (\<forall>v. r = Inr v \<longrightarrow> Q v s') \<and> (\<forall>e. r = Inl e \<longrightarrow> E e)"
  using assms(1,2)
proof (induction "nat (attempts - attempt)" arbitrary: attempt delay s rule: less_induct)
  case less
  obtain r1 s1 where op: "operation s = (r1, s1)" by fastforce
  note st = step[OF less.prems(2) op]
  show ?case
  proof (cases r1)
    case (Inr v)
    then show ?thesis using less.prems(1) op st by (simp add: retry_from.simps)
  next
    case (Inl e)
    show ?thesis
    proof (cases "attempt \<ge> attempts \<or> \<not> retryable e")
      case True
      then show ?thesis using less.prems(1) op st Inl by (simp add: retry_from.simps[of _ _ _ _ _ _ attempt])
    next
      case False
      then have "retry_from attempts factor maxDelay retryable wait operation (attempt + 1) (min (delay * factor) maxDelay) (wait delay s1) = (r, s')"
        using less.prems(1) op Inl by (simp add: retry_from.simps[of _ _ _ _ _ _ attempt])
      moreover have "nat (attempts - (attempt + 1)) < nat (attempts - attempt)" using False by simp
      moreover have "I (wait delay s1)" using st waits by blast
      ultimately show ?thesis using less.hyps by blast
    qed
  qed
qed

subsection \<open>The fetcher and its ports\<close>

record 'x port_error =
  pe_retryable :: "bool option"
  pe_detail :: 'x

datatype suspect_source = Configured | Reported | Default

datatype 'x fetcher_error =
    PortFailed "'x port_error"
  | FetchFailed fetch_failure
  | NoFetchProgress int int
  | SuspectedTruncation int nat suspect_source
  | UnexpectedChain string string
  | ForeignReceiver
  | BatchUnfit engine_error

fun isRetryable :: "'x fetcher_error \<Rightarrow> bool" where
  "isRetryable (PortFailed p) = (pe_retryable p \<noteq> Some False)"
| "isRetryable (FetchFailed (NodeFailure e)) = True"
| "isRetryable e = False"

record expected_answer =
  xa_context :: "wire_context option"
  xa_expectedFromBlock :: int

datatype ingestion_response =
    Accepted (rs_applied: nat) (rs_retracted: nat) (rs_expected: int) (rs_reorg: "reorg_detection option")
  | Expecting int

record ('l, 'a, 'w, 'x) log_fetcher =
  lf_range :: "('l, 'w) range_fetcher"
  lf_parse :: "'l \<Rightarrow> 'a log_event"
  lf_context :: wire_context
  lf_chainId :: string
  lf_policy :: "'w retry_policy"
  lf_configuredSuspectResultCount :: "int option"
  lf_defaultSuspectResultCount :: int
  lf_maxCorrectionsPerCycle :: int
  lf_getBlockNumber :: "'w \<Rightarrow> ('x port_error, int) result \<times> 'w"
  lf_getChainId :: "'w \<Rightarrow> ('x port_error, string) result \<times> 'w"
  lf_expectedFromBlock :: "wire_context \<Rightarrow> 'w \<Rightarrow> ('x port_error, expected_answer) result \<times> 'w"
  lf_send :: "'a wire_batch \<Rightarrow> 'w \<Rightarrow> ('x port_error, ingestion_response) result \<times> 'w"

record 'w fetcher_state =
  fs_range :: "'w range_state"
  fs_expectedFromBlockHint :: "int option"

definition resolve_default_suspect :: "int option \<Rightarrow> int option \<Rightarrow> int" where
  "resolve_default_suspect configured maxEvents =
     (case configured of Some n \<Rightarrow> n | None \<Rightarrow> (case maxEvents of Some n \<Rightarrow> n | None \<Rightarrow> 10000))"

definition suspectResultCount :: "('l, 'a, 'w, 'x) log_fetcher \<Rightarrow> 'w fetcher_state \<Rightarrow> int \<times> suspect_source" where
  "suspectResultCount L s =
     (case lf_configuredSuspectResultCount L of
        Some n \<Rightarrow> (n, Configured)
      | None \<Rightarrow>
          (case lowestReportedResultCap (fs_range s) of
             Some n \<Rightarrow> (n, Reported)
           | None \<Rightarrow> (lf_defaultSuspectResultCount L, Default)))"

definition on_world :: "('w \<Rightarrow> ('x port_error, 'v) result \<times> 'w) \<Rightarrow> 'w fetcher_state \<Rightarrow> ('x fetcher_error, 'v) result \<times> 'w fetcher_state" where
  "on_world port s =
     (let (r, w) = port (rs_node (fs_range s))
      in (case r of Inl p \<Rightarrow> Inl (PortFailed p) | Inr v \<Rightarrow> Inr v, s\<lparr>fs_range := (fs_range s)\<lparr>rs_node := w\<rparr>\<rparr>))"

definition waiting :: "('l, 'a, 'w, 'x) log_fetcher \<Rightarrow> int \<Rightarrow> 'w fetcher_state \<Rightarrow> 'w fetcher_state" where
  "waiting L ms s = s\<lparr>fs_range := (fs_range s)\<lparr>rs_node := rp_wait (lf_policy L) ms (rs_node (fs_range s))\<rparr>\<rparr>"

definition retrying :: "('l, 'a, 'w, 'x) log_fetcher \<Rightarrow> ('w fetcher_state \<Rightarrow> ('x fetcher_error, 'v) result \<times> 'w fetcher_state)
    \<Rightarrow> 'w fetcher_state \<Rightarrow> ('x fetcher_error, 'v) result \<times> 'w fetcher_state" where
  "retrying L operation s = withRetries (lf_policy L) isRetryable (waiting L) operation s"

definition getLogEvents :: "('l, 'a, 'w, 'x) log_fetcher \<Rightarrow> int \<Rightarrow> int \<Rightarrow> 'w fetcher_state
    \<Rightarrow> ('x fetcher_error, 'a log_event list \<times> int) result \<times> 'w fetcher_state" where
  "getLogEvents L fromBlock toBlock s =
     (let (r, range) = getLogs (lf_range L) fromBlock toBlock (numRetry (rf_config (lf_range L))) (fs_range s)
      in (case r of Inl f \<Rightarrow> Inl (FetchFailed f) | Inr (ls, toBlockUsed) \<Rightarrow> Inr (map (lf_parse L) ls, toBlockUsed),
          s\<lparr>fs_range := range\<rparr>))"

text \<open>
  The loop asks again for half of what a suspect answer covered. Nothing in it bounds what the
  answers cover, so it is a partial function.
\<close>

partial_function (option) fetchCompleteRange :: "('l, 'a, 'w, 'x) log_fetcher \<Rightarrow> int \<Rightarrow> int \<Rightarrow> 'w fetcher_state
    \<Rightarrow> (('x fetcher_error, 'a log_event list \<times> int) result \<times> 'w fetcher_state) option" where
  "fetchCompleteRange L fromBlock requestedToBlock s =
     (case retrying L (getLogEvents L fromBlock requestedToBlock) s of
        (Inl e, s') \<Rightarrow> Some (Inl e, s')
      | (Inr (evs, toBlockUsed), s') \<Rightarrow>
          if toBlockUsed < fromBlock then Some (Inl (NoFetchProgress fromBlock toBlockUsed), s')
          else if int (length evs) < fst (suspectResultCount L s') then Some (Inr (evs, toBlockUsed), s')
          else if toBlockUsed \<le> fromBlock
          then Some (Inl (SuspectedTruncation fromBlock (length evs) (snd (suspectResultCount L s'))), s')
          else fetchCompleteRange L fromBlock (fromBlock + (toBlockUsed - fromBlock) div 2) s')"

definition askWhereToStart :: "('l, 'a, 'w, 'x) log_fetcher \<Rightarrow> 'w fetcher_state \<Rightarrow> ('x fetcher_error, int) result \<times> 'w fetcher_state" where
  "askWhereToStart L s =
     (case retrying L (on_world (lf_expectedFromBlock L (lf_context L))) s of
        (Inl e, s') \<Rightarrow> (Inl e, s')
      | (Inr answer, s') \<Rightarrow>
          if xa_context answer \<noteq> None \<and> \<not> sameWireContext (xa_context answer) (Some (lf_context L))
          then (Inl ForeignReceiver, s')
          else (Inr (xa_expectedFromBlock answer), s'\<lparr>fs_expectedFromBlockHint := Some (xa_expectedFromBlock answer)\<rparr>))"

definition assertChain :: "('l, 'a, 'w, 'x) log_fetcher \<Rightarrow> 'w fetcher_state \<Rightarrow> ('x fetcher_error, unit) result \<times> 'w fetcher_state" where
  "assertChain L s =
     (case retrying L (on_world (lf_getChainId L)) s of
        (Inl e, s') \<Rightarrow> (Inl e, s')
      | (Inr chainId, s') \<Rightarrow>
          (if chainId \<noteq> lf_chainId L then Inl (UnexpectedChain (lf_chainId L) chainId) else Inr (), s'))"

definition push :: "('l, 'a, 'w, 'x) log_fetcher \<Rightarrow> 'a wire_batch \<Rightarrow> 'w fetcher_state
    \<Rightarrow> ('x fetcher_error, ingestion_response) result \<times> 'w fetcher_state" where
  "push L batch s =
     (case retrying L (on_world (lf_send L batch)) s of
        (Inl e, s') \<Rightarrow> (Inl e, s'\<lparr>fs_expectedFromBlockHint := None\<rparr>)
      | (Inr response, s') \<Rightarrow> (Inr response, s'))"

definition batch_of :: "('l, 'a, 'w, 'x) log_fetcher \<Rightarrow> int \<Rightarrow> int \<Rightarrow> int \<Rightarrow> 'a log_event list \<Rightarrow> 'a wire_batch" where
  "batch_of L fromBlock toBlock latest evs =
     \<lparr>wb_context = Some (lf_context L), wb_fromBlock = Whole fromBlock, wb_toBlock = Whole toBlock,
      wb_latestBlock = Whole latest, wb_logs = Some evs\<rparr>"

text \<open>A fetched range becomes a batch once it is known to be fit for the receiver and from the right chain.\<close>

definition prepare_batch :: "('l, 'a, 'w, 'x) log_fetcher \<Rightarrow> int \<Rightarrow> int \<Rightarrow> int \<Rightarrow> 'a log_event list \<Rightarrow> 'w fetcher_state
    \<Rightarrow> ('x fetcher_error, 'a wire_batch) result \<times> 'w fetcher_state" where
  "prepare_batch L fromBlock toBlock latest evs s =
     (case assertLogsCarryTimestamps evs of
        Inl e \<Rightarrow> (Inl (BatchUnfit e), s)
      | Inr _ \<Rightarrow>
          (case assertChain L s of
             (Inl e, s') \<Rightarrow> (Inl e, s')
           | (Inr _, s') \<Rightarrow>
               (case assertWellFormed (batch_of L fromBlock toBlock latest evs) of
                  Inl e \<Rightarrow> (Inl (BatchUnfit e), s')
                | Inr _ \<Rightarrow> (Inr (batch_of L fromBlock toBlock latest evs), s'))))"

datatype cycle_outcome =
    Pushed int int int nat nat nat int "reorg_detection option" int
  | UpToDate int int
  | Yielded int int int

function push_loop :: "('l, 'a, 'w, 'x) log_fetcher \<Rightarrow> int \<Rightarrow> int \<Rightarrow> int \<Rightarrow> 'w fetcher_state
    \<Rightarrow> (('x fetcher_error, cycle_outcome) result \<times> 'w fetcher_state) option" where
  "push_loop L latest fromBlock corrections s =
     (if fromBlock > latest then Some (Inr (UpToDate fromBlock latest), s)
      else
        (case fetchCompleteRange L fromBlock latest s of
           None \<Rightarrow> None
         | Some (Inl e, s1) \<Rightarrow> Some (Inl e, s1)
         | Some (Inr (evs, toBlock), s1) \<Rightarrow>
             (case prepare_batch L fromBlock toBlock latest evs s1 of
                (Inl e, s2) \<Rightarrow> Some (Inl e, s2)
              | (Inr batch, s2) \<Rightarrow>
                  (case push L batch s2 of
                     (Inl e, s3) \<Rightarrow> Some (Inl e, s3)
                   | (Inr (Accepted applied retracted expected r), s3) \<Rightarrow>
                       Some (Inr (Pushed fromBlock toBlock latest (length evs) applied retracted expected r corrections),
                             s3\<lparr>fs_expectedFromBlockHint := Some expected\<rparr>)
                   | (Inr (Expecting expected), s3) \<Rightarrow>
                       (let s4 = s3\<lparr>fs_expectedFromBlockHint := Some expected\<rparr> in
                        if corrections + 1 > lf_maxCorrectionsPerCycle L
                        then Some (Inr (Yielded expected latest (corrections + 1)), s4)
                        else push_loop L latest expected (corrections + 1) s4)))))"
  by pat_completeness auto

termination
  by (relation "measure (\<lambda>(L, latest, fromBlock, corrections, s). nat (lf_maxCorrectionsPerCycle L - corrections))") auto

declare push_loop.simps [simp del]

definition fetchAndPush :: "('l, 'a, 'w, 'x) log_fetcher \<Rightarrow> 'w fetcher_state
    \<Rightarrow> (('x fetcher_error, cycle_outcome) result \<times> 'w fetcher_state) option" where
  "fetchAndPush L s =
     (case (case fs_expectedFromBlockHint s of Some hint \<Rightarrow> (Inr hint, s) | None \<Rightarrow> askWhereToStart L s) of
        (Inl e, s1) \<Rightarrow> Some (Inl e, s1)
      | (Inr fromBlock, s1) \<Rightarrow>
          (case retrying L (on_world (lf_getBlockNumber L)) s1 of
             (Inl e, s2) \<Rightarrow> Some (Inl e, s2)
           | (Inr latest, s2) \<Rightarrow> push_loop L latest fromBlock 0 s2))"

subsection \<open>Every call keeps the learned numbers in bounds\<close>


definition state_ok :: "('l, 'a, 'w, 'x) log_fetcher \<Rightarrow> 'w fetcher_state \<Rightarrow> bool" where
  "state_ok L s \<longleftrightarrow> range_ok (rf_config (lf_range L)) (fs_range s)"

lemma waiting_ok [simp]: "state_ok L (waiting L ms s) = state_ok L s"
  by (simp add: state_ok_def waiting_def)

lemma hint_ok [simp]: "state_ok L (s\<lparr>fs_expectedFromBlockHint := h\<rparr>) = state_ok L s"
  by (simp add: state_ok_def)

lemma on_world_ok: "on_world port s = (r, s') \<Longrightarrow> state_ok L s' = state_ok L s"
  by (auto simp: on_world_def state_ok_def Let_def split: prod.splits)

lemma retrying_rule:
  assumes "retrying L operation s = (r, s')" "I s"
    and "\<And>s r s'. I s \<Longrightarrow> operation s = (r, s') \<Longrightarrow> I s' \<and> (\<forall>v. r = Inr v \<longrightarrow> Q v s') \<and> (\<forall>e. r = Inl e \<longrightarrow> E e)"
    and "\<And>d s. I s \<Longrightarrow> I (waiting L d s)"
  shows "I s' \<and> (\<forall>v. r = Inr v \<longrightarrow> Q v s') \<and> (\<forall>e. r = Inl e \<longrightarrow> E e)"
  by (rule retry_from_rule[where I = I and Q = Q and E = E, OF assms(1)[unfolded retrying_def withRetries_def] assms(2)])
    (rule assms(3,4); assumption)+

lemma retrying_world_ok:
  assumes "retrying L (on_world port) s = (r, s')" "state_ok L s"
  shows "state_ok L s'"
  using retrying_rule[where I = "state_ok L" and Q = "\<lambda>v s. True" and E = "\<lambda>e. True", OF assms] on_world_ok by fastforce




text \<open>A node with one log in every block that silently returns at most three.\<close>

definition capped_node :: "(int, unit) range_fetcher" where
  "capped_node =
     \<lparr>rf_config = \<lparr>numBlocksToFetchAtStart = 50, maxBlocksPerFetch = 1000, percentageToReach = 80,
        maxEventsPerFetch = 100, numRetry = 3\<rparr>,
      rf_topics = None, rf_ranges = [], rf_reader = no_reader,
      rf_fetch = (\<lambda>ts w n. (Inr (take 3 [bw_fromBlock w..bw_toBlock w]), n))\<rparr>"

definition capped_fetcher :: "(int, unit, unit, unit) log_fetcher" where
  "capped_fetcher =
     \<lparr>lf_range = capped_node, lf_parse = (\<lambda>n. sample_log n ''h'' 0),
      lf_context = \<lparr>wire_source = [], wire_config = ''c''\<rparr>, lf_chainId = ''1'',
      lf_policy = resolveRetryPolicy None None None None (\<lambda>ms w. w),
      lf_configuredSuspectResultCount = Some 3, lf_defaultSuspectResultCount = 10000, lf_maxCorrectionsPerCycle = 2,
      lf_getBlockNumber = (\<lambda>w. (Inr 13, w)), lf_getChainId = (\<lambda>w. (Inr ''1'', w)),
      lf_expectedFromBlock = (\<lambda>c w. (Inr \<lparr>xa_context = Some c, xa_expectedFromBlock = 10\<rparr>, w)),
      lf_send = (\<lambda>b w. (Inr (Accepted 2 0 12 None), w))\<rparr>"

definition capped_start :: "unit fetcher_state" where
  "capped_start = \<lparr>fs_range = new_range_state (rf_config capped_node) None (), fs_expectedFromBlockHint = None\<rparr>"

lemmas cycle_eval = fetchCompleteRange.simps retrying_def withRetries_def retry_from.simps getLogEvents_def getLogs.simps
  capped_fetcher_def capped_node_def capped_start_def no_reader_def new_range_state_def seedLearnedRange_def
  request_window_def topicsThatCanOccurIn_def learn_from_answer_def truthy_def suspectResultCount_def
  resolveRetryPolicy_def upto.simps

lemma capped_fetch: "\<exists>s'. fetchCompleteRange capped_fetcher 10 13 capped_start =
    Some (Inr ([sample_log 10 ''h'' 0, sample_log 11 ''h'' 0], 11), s')"
  by (simp add: cycle_eval Let_def)



subsection \<open>A pushed range is complete\<close>

text \<open>
  What a node holds in a window, as the requests for it would return it when nothing is cut off, and
  a node that either answers completely or cuts its answer off at no fewer than \<open>cap\<close> logs.
\<close>

definition window_logs :: "('l, 'a, 'w, 'x) log_fetcher \<Rightarrow> (string list option \<Rightarrow> block_window \<Rightarrow> 'l list) \<Rightarrow> int \<Rightarrow> int \<Rightarrow> 'a log_event list" where
  "window_logs L held fromBlock toBlock =
     (let narrowed = topicsThatCanOccurIn (rf_topics (lf_range L)) (rf_ranges (lf_range L)) fromBlock toBlock in
      if narrowed = Some [] then []
      else map (lf_parse L) (held (case narrowed of None \<Rightarrow> rf_topics (lf_range L) | Some ts \<Rightarrow> Some ts)
             \<lparr>bw_fromBlock = fromBlock, bw_toBlock = toBlock\<rparr>))"

definition cuts_off_at :: "('l, 'w) range_fetcher \<Rightarrow> (string list option \<Rightarrow> block_window \<Rightarrow> 'l list) \<Rightarrow> int \<Rightarrow> bool" where
  "cuts_off_at F held cap \<longleftrightarrow> (\<forall>ts w n ls n'. rf_fetch F ts w n = (Inr ls, n') \<longrightarrow> ls = held ts w \<or> cap \<le> int (length ls))"

definition suspects :: "('l, 'a, 'w, 'x) log_fetcher \<Rightarrow> int \<Rightarrow> 'w fetcher_state \<Rightarrow> bool" where
  "suspects L cap s \<longleftrightarrow>
     (case lf_configuredSuspectResultCount L of
        Some n \<Rightarrow> n \<le> cap
      | None \<Rightarrow> lf_defaultSuspectResultCount L \<le> cap \<and> reports_at_most (lf_range L) cap \<and> cap_known cap (fs_range s))"

lemma suspects_count: "suspects L cap s \<Longrightarrow> fst (suspectResultCount L s) \<le> cap"
  by (auto simp: suspects_def suspectResultCount_def cap_known_def split: option.splits)

lemma suspects_waiting: "suspects L cap (waiting L ms s) = suspects L cap s"
  by (simp add: suspects_def waiting_def cap_known_def split: option.split)

lemma getLogEvents_answer:
  assumes "suspects L cap s" "getLogEvents L fromBlock toBlock s = (r, s')" "cuts_off_at (lf_range L) held cap" "0 < cap"
  shows "suspects L cap s' \<and> (\<forall>v. r = Inr v \<longrightarrow> fst v = window_logs L held fromBlock (snd v) \<or> cap \<le> int (length (fst v)))"
proof -
  obtain r1 range where run: "getLogs (lf_range L) fromBlock toBlock (numRetry (rf_config (lf_range L))) (fs_range s) = (r1, range)"
    by fastforce
  have s': "s' = s\<lparr>fs_range := range\<rparr>" using assms(2) run by (simp add: getLogEvents_def)
  have "suspects L cap s'"
    using assms(1) getLogs_cap[OF _ _ run] unfolding s' by (auto simp: suspects_def split: option.splits)
  moreover have "evs = window_logs L held fromBlock used \<or> cap \<le> int (length evs)" if ev: "r = Inr (evs, used)" for evs used
  proof -
    obtain ls where ls: "r1 = Inr (ls, used)" "evs = map (lf_parse L) ls"
      using assms(2) run ev by (auto simp: getLogEvents_def split: sum.splits)
    obtain n n' where req: "request_window (lf_range L) fromBlock used n = (Inr ls, n')"
      using getLogs_answer run ls(1) by blast
    show ?thesis
    proof (cases "topicsThatCanOccurIn (rf_topics (lf_range L)) (rf_ranges (lf_range L)) fromBlock used = Some []")
      case True
      then show ?thesis using req ls(2) by (simp add: request_window_def window_logs_def)
    next
      case False
      let ?ts = "case topicsThatCanOccurIn (rf_topics (lf_range L)) (rf_ranges (lf_range L)) fromBlock used of
          None \<Rightarrow> rf_topics (lf_range L) | Some ts \<Rightarrow> Some ts"
      let ?w = "\<lparr>bw_fromBlock = fromBlock, bw_toBlock = used\<rparr>"
      have "rf_fetch (lf_range L) ?ts ?w n = (Inr ls, n')" using req False by (simp add: request_window_def Let_def)
      then have "ls = held ?ts ?w \<or> cap \<le> int (length ls)" using assms(3) unfolding cuts_off_at_def by blast
      then show ?thesis using ls(2) False by (auto simp: window_logs_def Let_def)
    qed
  qed
  ultimately show ?thesis by (auto simp: split_paired_all)
qed

text \<open>
  C18. No range is pushed that may be short. When the node cuts an answer off only at \<open>cap\<close> logs or
  more, reports no larger cap than that, and the suspect count configured or defaulted to does not
  exceed it, every range returned for pushing holds exactly the logs the node has in it for the
  topics that can occur there, however many refusals, retries and halvings came before.
\<close>

theorem pushed_ranges_are_complete:
  fixes L :: "('l, 'a, 'w, 'x) log_fetcher"
  assumes "cuts_off_at (lf_range L) held cap" "0 < cap" "suspects L cap s"
    and "fetchCompleteRange L fromBlock requestedToBlock s = Some (Inr (evs, toBlock), s')"
  shows "evs = window_logs L held fromBlock toBlock"
proof -
  define complete where "complete = (\<lambda>(L :: ('l, 'a, 'w, 'x) log_fetcher) fromBlock (requestedToBlock :: int) s (out :: ('x fetcher_error, 'a log_event list \<times> int) result \<times> 'w fetcher_state).
    cuts_off_at (lf_range L) held cap \<longrightarrow> suspects L cap s \<longrightarrow>
    (\<forall>evs toBlock. fst out = Inr (evs, toBlock) \<longrightarrow> evs = window_logs L held fromBlock toBlock))"
  have "complete L fromBlock requestedToBlock s (Inr (evs, toBlock), s')"
    using assms(4)
  proof (rule fetchCompleteRange.raw_induct[where P = complete, rotated])
    fix f :: "('l, 'a, 'w, 'x) log_fetcher \<Rightarrow> int \<Rightarrow> int \<Rightarrow> 'w fetcher_state
      \<Rightarrow> (('x fetcher_error, 'a log_event list \<times> int) result \<times> 'w fetcher_state) option"
    fix L :: "('l, 'a, 'w, 'x) log_fetcher" and fromBlock requestedToBlock s out
    assume ih: "\<And>L fromBlock requestedToBlock s out. f L fromBlock requestedToBlock s = Some out \<Longrightarrow>
        complete L fromBlock requestedToBlock s out"
      and body: "(case retrying L (getLogEvents L fromBlock requestedToBlock) s of
        (Inl e, s') \<Rightarrow> Some (Inl e, s')
      | (Inr (evs, toBlockUsed), s') \<Rightarrow>
          if toBlockUsed < fromBlock then Some (Inl (NoFetchProgress fromBlock toBlockUsed), s')
          else if int (length evs) < fst (suspectResultCount L s') then Some (Inr (evs, toBlockUsed), s')
          else if toBlockUsed \<le> fromBlock
          then Some (Inl (SuspectedTruncation fromBlock (length evs) (snd (suspectResultCount L s'))), s')
          else f L fromBlock (fromBlock + (toBlockUsed - fromBlock) div 2) s') = Some out"
    show "complete L fromBlock requestedToBlock s out"
      unfolding complete_def
    proof (intro impI)
      assume cuts: "cuts_off_at (lf_range L) held cap" and sus: "suspects L cap s"
      obtain r1 s1 where run: "retrying L (getLogEvents L fromBlock requestedToBlock) s = (r1, s1)" by fastforce
      have answer: "suspects L cap s1 \<and>
          (\<forall>v. r1 = Inr v \<longrightarrow> fst v = window_logs L held fromBlock (snd v) \<or> cap \<le> int (length (fst v)))"
        using retrying_rule[where I = "suspects L cap" and E = "\<lambda>e. True"
            and Q = "\<lambda>v s. fst v = window_logs L held fromBlock (snd v) \<or> cap \<le> int (length (fst v))", OF run sus]
          getLogEvents_answer[OF _ _ cuts assms(2)] suspects_waiting
        by metis
      have count: "fst (suspectResultCount L s1) \<le> cap" using suspects_count answer by blast
      show "\<forall>evs toBlock. fst out = Inr (evs, toBlock) \<longrightarrow> evs = window_logs L held fromBlock toBlock"
      proof (cases r1)
        case (Inl e)
        then show ?thesis using body run by auto
      next
        case (Inr v)
        obtain evs used where v: "v = (evs, used)" by fastforce
        show ?thesis
        proof (cases "\<not> used < fromBlock \<and> \<not> int (length evs) < fst (suspectResultCount L s1) \<and> \<not> used \<le> fromBlock")
          case True
          then have "f L fromBlock (fromBlock + (used - fromBlock) div 2) s1 = Some out" using body run Inr v by simp
          then show ?thesis using ih answer cuts unfolding complete_def by blast
        next
          case False
          then have "out = (if used < fromBlock then (Inl (NoFetchProgress fromBlock used), s1)
              else if int (length evs) < fst (suspectResultCount L s1) then (Inr (evs, used), s1)
              else (Inl (SuspectedTruncation fromBlock (length evs) (snd (suspectResultCount L s1))), s1))"
            using body by (simp add: run Inr v split: if_splits)
          then show ?thesis using answer count Inr v by (auto split: if_splits)
        qed
      qed
    qed
  qed
  then show ?thesis using assms(1,3) by (simp add: complete_def)
qed

lemma pushed_ranges_are_complete_witness:
  "\<exists>s'. fetchCompleteRange capped_fetcher 10 13 capped_start =
       Some (Inr ([sample_log 10 ''h'' 0, sample_log 11 ''h'' 0], 11), s') \<and>
     [sample_log 10 ''h'' 0, sample_log 11 ''h'' 0] =
       window_logs capped_fetcher (\<lambda>ts w. [bw_fromBlock w..bw_toBlock w]) 10 11"
proof -
  obtain s' where run: "fetchCompleteRange capped_fetcher 10 13 capped_start =
      Some (Inr ([sample_log 10 ''h'' 0, sample_log 11 ''h'' 0], 11), s')" using capped_fetch by blast
  have "cuts_off_at (lf_range capped_fetcher) (\<lambda>ts w. [bw_fromBlock w..bw_toBlock w]) 3"
    by (auto simp: cuts_off_at_def capped_fetcher_def capped_node_def)
  moreover have "suspects capped_fetcher 3 capped_start" by (simp add: suspects_def capped_fetcher_def)
  ultimately show ?thesis using pushed_ranges_are_complete[OF _ _ _ run] run by auto
qed

end
