(* ===== verification/Stream_Reader.thy ===== *)
theory Stream_Reader
  imports Emission_Store Stream_Replay
begin

section \<open>Reading a stored stream back\<close>

text \<open>
  \<open>packages/server/src/streamReader.ts\<close>: the stored emissions of one stream from a block on, in
  whole, in chunks of a budgeted size for a rebuild, and as the cursor its writer resumes from. The
  statements select rows of one stream from a block on, ordered by position.
\<close>

subsection \<open>The reads\<close>

definition readStoredStream :: "emission_db \<Rightarrow> stream_key \<Rightarrow> int \<Rightarrow> unit log_event list" where
  "readStoredStream db k fromBlock =
     map storedLogOf (sort_key er_seq (filter (\<lambda>r. er_blockNumber r \<ge> fromBlock) (rows_of k db)))"

datatype stored_stream_read =
    StreamAbsent
  | DoesNotReachBack int
  | StoredStream "unit log_event list" "unit last_sync"

definition storedEmissionStream :: "emission_db \<Rightarrow> string \<Rightarrow> string \<Rightarrow> int \<Rightarrow> stored_stream_read" where
  "storedEmissionStream db indexer stream fromBlock =
     (case readStreamCoverage db (indexer, stream) of
        None \<Rightarrow> StreamAbsent
      | Some coverage \<Rightarrow>
          if sc_startBlock coverage > fromBlock then DoesNotReachBack (sc_startBlock coverage)
          else StoredStream (readStoredStream db (indexer, stream) fromBlock)
            \<lparr>context_id = \<lparr>ctx_source = sc_source coverage, ctx_config = sc_config coverage, ctx_processor = []\<rparr>,
             latestBlock = sc_latestBlock coverage, lastFromBlock = sc_lastFromBlock coverage,
             lastToBlock = sc_lastToBlock coverage, unconfirmedBlocks = []\<rparr>)"

record replay_chunk_query =
  rq_stream :: string
  rq_fromBlock :: int
  rq_foldedThrough :: int
  rq_maxEmissions :: nat

record replay_chunk =
  rc_eventStream :: "unit log_event list"
  rc_lastFromBlock :: int
  rc_lastToBlock :: int
  rc_latestBlock :: int
  rc_truncated :: bool
  rc_highWater :: int

datatype replay_read = ReplayAbsent | ReplayStartsAt int | ReplayChunk replay_chunk

definition probeBlocks :: "emission_db \<Rightarrow> stream_key \<Rightarrow> int \<Rightarrow> nat \<Rightarrow> int list" where
  "probeBlocks db k fromBlock limit =
     map er_blockNumber (take limit
       (sort_key er_blockNumber (sort_key er_seq (filter (\<lambda>r. er_blockNumber r \<ge> fromBlock) (rows_of k db)))))"

definition readRange :: "emission_db \<Rightarrow> stream_key \<Rightarrow> int \<Rightarrow> int \<Rightarrow> unit log_event list" where
  "readRange db k fromBlock toBlock =
     (if toBlock < fromBlock then []
      else map storedLogOf (sort_key er_seq
             (filter (\<lambda>r. er_blockNumber r \<ge> fromBlock \<and> er_blockNumber r \<le> toBlock) (rows_of k db))))"

definition readChunk :: "emission_db \<Rightarrow> string \<Rightarrow> replay_chunk_query \<Rightarrow> replay_read" where
  "readChunk db indexer q =
     (let k = (indexer, rq_stream q); fromBlock = rq_fromBlock q; maxEmissions = rq_maxEmissions q in
      case readStreamCoverage db k of
        None \<Rightarrow> ReplayAbsent
      | Some coverage \<Rightarrow>
          if sc_startBlock coverage > fromBlock then ReplayStartsAt (sc_startBlock coverage)
          else
            (let probe = probeBlocks db k fromBlock (maxEmissions + 1);
                 floor = max (rq_foldedThrough q + 1) fromBlock;
                 budgetCut = (if length probe > maxEmissions then probe ! maxEmissions - 1 else sc_lastToBlock coverage);
                 to = min (sc_lastToBlock coverage) (max budgetCut floor)
             in ReplayChunk
                  \<lparr>rc_eventStream = readRange db k fromBlock to, rc_lastFromBlock = fromBlock, rc_lastToBlock = to,
                   rc_latestBlock = sc_latestBlock coverage, rc_truncated = (to < sc_lastToBlock coverage),
                   rc_highWater = readStreamHighWaterMark db k\<rparr>))"

record stream_cursor_read =
  cr_latestBlock :: int
  cr_lastFromBlock :: int
  cr_lastToBlock :: int
  cr_tail :: "unit log_event list"

definition readStreamCursor :: "emission_db \<Rightarrow> string \<Rightarrow> string \<Rightarrow> int \<Rightarrow> stream_cursor_read option" where
  "readStreamCursor db indexer stream finality =
     (case readStreamCoverage db (indexer, stream) of
        None \<Rightarrow> None
      | Some coverage \<Rightarrow>
          Some \<lparr>cr_latestBlock = sc_latestBlock coverage, cr_lastFromBlock = sc_lastFromBlock coverage,
            cr_lastToBlock = sc_lastToBlock coverage,
            cr_tail = readStoredStream db (indexer, stream) (max 0 (sc_lastToBlock coverage - finality))\<rparr>)"

subsection \<open>What the rows of a stream read as\<close>

lemma storedLogOf_feed: "storedLogOf r = feedEntryOf r"
  by (simp add: storedLogOf_def feedEntryOf_def)

lemma held_sorted:
  assumes "holds_stream rows es"
  shows "sort_key er_seq (filter P rows) = filter P rows"
proof (rule sort_key_sorted_id)
  have "sorted (map er_seq rows)"
    using assms unfolding holds_stream_def sorted_iff_nth_mono by simp
  then show "sorted (map er_seq (filter P rows))" by (rule sorted_filter)
qed

lemma held_filter:
  assumes "holds_stream rows es"
  shows "map storedLogOf (filter (\<lambda>r. P (er_blockNumber r)) rows) = filter (\<lambda>e. P (blockNumber e)) (map raw_log es)"
proof -
  have "map storedLogOf (filter (\<lambda>r. P (er_blockNumber r)) rows) =
      filter (\<lambda>e. P (blockNumber e)) (map storedLogOf rows)"
    by (intro map_filter_same) (simp add: storedLogOf_feed)
  also have "map storedLogOf rows = map raw_log es"
    using holds_stream_entries[OF assms] by (simp add: storedLogOf_feed[abs_def])
  finally show ?thesis .
qed

lemma readStoredStream_held:
  assumes "holds_stream (rows_of k db) es"
  shows "readStoredStream db k fromBlock = filter (\<lambda>e. fromBlock \<le> blockNumber e) (map raw_log es)"
  unfolding readStoredStream_def held_sorted[OF assms] by (rule held_filter[OF assms])

lemma readRange_held:
  assumes "holds_stream (rows_of k db) es"
  shows "readRange db k fromBlock toBlock =
    filter (\<lambda>e. fromBlock \<le> blockNumber e \<and> blockNumber e \<le> toBlock) (map raw_log es)"
proof (cases "toBlock < fromBlock")
  case True
  then have "\<not> (fromBlock \<le> n \<and> n \<le> toBlock)" for n by linarith
  then show ?thesis using True by (simp add: readRange_def)
next
  case False
  then show ?thesis
    unfolding readRange_def held_sorted[OF assms]
    using held_filter[OF assms, of "\<lambda>n. fromBlock \<le> n \<and> n \<le> toBlock"] by simp
qed

text \<open>Cutting a sorted list of numbers below its entry at \<open>n\<close> leaves at most \<open>n\<close> of them.\<close>

lemma below_nth_short:
  fixes xs :: "int list"
  assumes "sorted xs" "n < length xs"
  shows "length (filter (\<lambda>x. x \<le> xs ! n - 1) xs) \<le> n"
proof -
  have "filter (\<lambda>x. x \<le> xs ! n - 1) (drop n xs) = []"
  proof (rule filter_False, rule ballI)
    fix x assume "x \<in> set (drop n xs)"
    then obtain i where "i < length xs - n" "x = xs ! (n + i)" using assms(2) by (auto simp: in_set_conv_nth)
    moreover from this have "xs ! n \<le> xs ! (n + i)" by (intro sorted_nth_mono[OF assms(1)]) auto
    ultimately show "\<not> x \<le> xs ! n - 1" by simp
  qed
  then have "length (filter (\<lambda>x. x \<le> xs ! n - 1) xs) = length (filter (\<lambda>x. x \<le> xs ! n - 1) (take n xs))"
    by (metis append.right_neutral append_take_drop_id filter_append)
  also have "\<dots> \<le> length (take n xs)" by (rule length_filter_le)
  finally show ?thesis by simp
qed

definition numbers_from :: "int \<Rightarrow> 'a log_event list \<Rightarrow> int list" where
  "numbers_from fromBlock es = sort (map blockNumber (filter (\<lambda>e. fromBlock \<le> blockNumber e) es))"

lemma length_filter_imp:
  "(\<And>x. P x \<Longrightarrow> Q x) \<Longrightarrow> length (filter P xs) \<le> length (filter Q xs)"
  by (induction xs) auto

lemma length_numbers_upto:
  "length (filter (\<lambda>e. f \<le> blockNumber e \<and> blockNumber e \<le> t) (map raw_log es)) =
    length (filter (\<lambda>n. n \<le> t) (numbers_from f es))"
proof -
  have "filter (\<lambda>n. n \<le> t) (numbers_from f es) =
      sort (filter (\<lambda>n. n \<le> t) (map blockNumber (filter (\<lambda>e. f \<le> blockNumber e) es)))"
    unfolding numbers_from_def by (rule filter_sort)
  then show ?thesis by (simp add: filter_map comp_def conj_commute)
qed

lemma probed_numbers:
  assumes "holds_stream (rows_of k db) es"
  shows "probeBlocks db k fromBlock limit = take limit (numbers_from fromBlock es)"
proof -
  let ?rows = "filter (\<lambda>r. er_blockNumber r \<ge> fromBlock) (rows_of k db)"
  have entries: "map blockNumber (map storedLogOf ?rows) = map blockNumber (filter (\<lambda>e. fromBlock \<le> blockNumber e) (map raw_log es))"
    using held_filter[OF assms(1), of "\<lambda>n. fromBlock \<le> n"] by simp
  have "blockNumber \<circ> storedLogOf = er_blockNumber" by (simp add: storedLogOf_feed fun_eq_iff)
  then have "map blockNumber (map storedLogOf ?rows) = map er_blockNumber ?rows" by simp
  moreover have "map blockNumber (filter (\<lambda>e. fromBlock \<le> blockNumber e) (map raw_log es)) =
      map blockNumber (filter (\<lambda>e. fromBlock \<le> blockNumber e) es)"
    by (simp add: filter_map comp_def)
  ultimately have rows: "map er_blockNumber ?rows = map blockNumber (filter (\<lambda>e. fromBlock \<le> blockNumber e) es)"
    using entries by (simp only:)
  have "map er_blockNumber (sort_key er_blockNumber ?rows) = sort (map er_blockNumber ?rows)"
    by (rule map_sort_key[where k' = "\<lambda>x. x"]) simp
  then show ?thesis
    unfolding probeBlocks_def held_sorted[OF assms(1)] numbers_from_def rows[symmetric] by (simp add: take_map[symmetric])
qed

lemma read_chunk_facts:
  assumes "holds_stream (rows_of (indexer, rq_stream q) db) es"
    and "readStreamCoverage db (indexer, rq_stream q) = Some coverage"
    and "sc_startBlock coverage \<le> rq_fromBlock q"
  shows "\<exists>c. readChunk db indexer q = ReplayChunk c \<and>
    rc_eventStream c = filter (\<lambda>e. rq_fromBlock q \<le> blockNumber e \<and> blockNumber e \<le> rc_lastToBlock c) (map raw_log es) \<and>
    rc_lastToBlock c \<le> sc_lastToBlock coverage \<and>
    (rc_lastToBlock c = sc_lastToBlock coverage \<or> rq_foldedThrough q < rc_lastToBlock c) \<and>
    (length (rc_eventStream c) \<le> rq_maxEmissions q \<or> rc_lastToBlock c \<le> max (rq_foldedThrough q + 1) (rq_fromBlock q)) \<and>
    (rc_truncated c \<longleftrightarrow> rc_lastToBlock c < sc_lastToBlock coverage) \<and>
    rc_highWater c = int (length es) \<and>
    rc_lastFromBlock c = rq_fromBlock q \<and> rc_latestBlock c = sc_latestBlock coverage"
proof -
  let ?from = "rq_fromBlock q" and ?n = "rq_maxEmissions q" and ?k = "(indexer, rq_stream q)"
  let ?floor = "max (rq_foldedThrough q + 1) ?from"
  let ?ns = "numbers_from ?from es"
  let ?cut = "if length ?ns > ?n then ?ns ! ?n - 1 else sc_lastToBlock coverage"
  let ?to = "min (sc_lastToBlock coverage) (max ?cut ?floor)"
  let ?c = "\<lparr>rc_eventStream = readRange db ?k ?from ?to, rc_lastFromBlock = ?from, rc_lastToBlock = ?to,
    rc_latestBlock = sc_latestBlock coverage, rc_truncated = (?to < sc_lastToBlock coverage),
    rc_highWater = readStreamHighWaterMark db ?k\<rparr>"
  have probe: "probeBlocks db ?k ?from (?n + 1) = take (?n + 1) ?ns" by (rule probed_numbers[OF assms(1)])
  have chunk: "readChunk db indexer q = ReplayChunk ?c"
    unfolding readChunk_def Let_def assms(2) option.case probe using assms(3) by simp
  have evs: "readRange db ?k ?from ?to = filter (\<lambda>e. ?from \<le> blockNumber e \<and> blockNumber e \<le> ?to) (map raw_log es)"
    by (rule readRange_held[OF assms(1)])
  have budget: "length (readRange db ?k ?from ?to) \<le> ?n \<or> ?to \<le> ?floor"
  proof (cases "?cut \<le> ?floor")
    case True
    then show ?thesis by auto
  next
    case False
    have upper: "?to \<le> ?cut" using False by auto
    have "length (readRange db ?k ?from ?to) = length (filter (\<lambda>n. n \<le> ?to) ?ns)"
      unfolding evs by (rule length_numbers_upto)
    also have "\<dots> \<le> ?n"
    proof (cases "length ?ns > ?n")
      case True
      have "length (filter (\<lambda>n. n \<le> ?to) ?ns) \<le> length (filter (\<lambda>n. n \<le> ?ns ! ?n - 1) ?ns)"
        using upper True by (intro length_filter_imp) auto
      also have "\<dots> \<le> ?n" by (rule below_nth_short[OF _ True]) (simp add: numbers_from_def)
      finally show ?thesis .
    next
      case False
      then show ?thesis using length_filter_le[of "\<lambda>n. n \<le> ?to" ?ns] by linarith
    qed
    finally show ?thesis ..
  qed
  have high: "readStreamHighWaterMark db ?k = int (length es)"
    using high_water_numbered[OF assms(1)] holds_stream_length[OF assms(1)]
    by (simp add: readStreamHighWaterMark_def high_water_def)
  show ?thesis
  proof (intro exI conjI)
    show "readChunk db indexer q = ReplayChunk ?c" by (rule chunk)
    show "rc_eventStream ?c = filter (\<lambda>e. ?from \<le> blockNumber e \<and> blockNumber e \<le> rc_lastToBlock ?c) (map raw_log es)"
      using evs by (simp only: replay_chunk.simps)
    show "length (rc_eventStream ?c) \<le> ?n \<or> rc_lastToBlock ?c \<le> ?floor"
      using budget by (simp only: replay_chunk.simps)
    show "rc_lastToBlock ?c = sc_lastToBlock coverage \<or> rq_foldedThrough q < rc_lastToBlock ?c"
      unfolding replay_chunk.simps by linarith
  qed (simp_all add: high)
qed

text \<open>
  A rebuild that reads a stored stream in chunks advances, misses nothing and keeps to its
  budget. For a stream that reaches back far enough, a chunk holds exactly the stream's emissions
  from the block asked for through the block it names, in the order of the stream, so it never cuts a
  block; it goes beyond the block folded last unless it reaches the end of the coverage; it holds no
  more emissions than the budget, unless the blocks up to the next one to fold alone exceed it; and
  it calls itself truncated exactly when the coverage goes further.
\<close>

theorem chunks_advance_within_budget:
  assumes "holds_stream (rows_of (indexer, rq_stream q) db) es"
    and "readStreamCoverage db (indexer, rq_stream q) = Some coverage"
    and "sc_startBlock coverage \<le> rq_fromBlock q"
  shows "\<exists>c. readChunk db indexer q = ReplayChunk c \<and>
    rc_eventStream c = filter (\<lambda>e. rq_fromBlock q \<le> blockNumber e \<and> blockNumber e \<le> rc_lastToBlock c) (map raw_log es) \<and>
    rc_lastToBlock c \<le> sc_lastToBlock coverage \<and>
    (rc_lastToBlock c = sc_lastToBlock coverage \<or> rq_foldedThrough q < rc_lastToBlock c) \<and>
    (length (rc_eventStream c) \<le> rq_maxEmissions q \<or> rc_lastToBlock c \<le> max (rq_foldedThrough q + 1) (rq_fromBlock q)) \<and>
    (rc_truncated c \<longleftrightarrow> rc_lastToBlock c < sc_lastToBlock coverage) \<and>
    rc_highWater c = int (length es)"
  using read_chunk_facts[OF assms] by blast

definition chunk_sample :: "unit emission_append" where
  "chunk_sample =
     \<lparr>ea_key = (''main'', ''s''),
      ea_coverage = \<lparr>sc_source = [], sc_config = ''c'', sc_latestBlock = 9, sc_lastFromBlock = 0, sc_lastToBlock = 8\<rparr>,
      ea_emissions = [sample_log 3 ''a'' 0, sample_log 4 ''b'' 0, sample_log 4 ''b'' 1, sample_log 6 ''c'' 0]\<rparr>"

lemma chunks_advance_within_budget_witness:
  "\<exists>c. readChunk (appendEmissions chunk_sample empty_db) ''main''
       \<lparr>rq_stream = ''s'', rq_fromBlock = 0, rq_foldedThrough = -1, rq_maxEmissions = 2\<rparr> = ReplayChunk c \<and>
     rc_lastToBlock c = 3 \<and> rc_eventStream c = [sample_log 3 ''a'' 0] \<and> rc_truncated c"
proof -
  let ?db = "appendEmissions chunk_sample empty_db"
  let ?q = "\<lparr>rq_stream = ''s'', rq_fromBlock = 0, rq_foldedThrough = -1, rq_maxEmissions = 2\<rparr>"
  have held: "holds_stream (rows_of (''main'', rq_stream ?q) ?db) (ea_emissions chunk_sample)"
    using append_holds[OF empty_holds, of "(''main'', ''s'')" chunk_sample] by (simp add: chunk_sample_def)
  obtain coverage where cov: "readStreamCoverage ?db (''main'', rq_stream ?q) = Some coverage"
    "sc_lastToBlock coverage = 8" "sc_startBlock coverage \<le> rq_fromBlock ?q"
    by (simp add: readStreamCoverage_def appendEmissions_def coverageUpsertOf_def chunk_sample_def empty_db_def Let_def)
  obtain c where c: "readChunk ?db ''main'' ?q = ReplayChunk c"
    "rc_eventStream c = filter (\<lambda>e. 0 \<le> blockNumber e \<and> blockNumber e \<le> rc_lastToBlock c) (map raw_log (ea_emissions chunk_sample))"
    "rc_truncated c \<longleftrightarrow> rc_lastToBlock c < 8"
    using chunks_advance_within_budget[OF held cov(1,3)] cov(2) by auto
  have probe: "probeBlocks ?db (''main'', rq_stream ?q) (rq_fromBlock ?q) (rq_maxEmissions ?q + 1) = [3, 4, 4]"
    unfolding probed_numbers[OF held] by (simp add: numbers_from_def chunk_sample_def)
  have "rc_lastToBlock c = 3"
    using c(1) cov(2,3) unfolding readChunk_def Let_def cov(1) option.case probe by auto
  then show ?thesis
    using c by (simp add: chunk_sample_def raw_log_def sample_log_def)
qed

end
