(* ===== verification/Stream_Writer.thy ===== *)
theory Stream_Writer
  imports Stream_Reader Receivers
begin

section \<open>The writer of a stream\<close>

text \<open>
  \<open>packages/core/src/stream/writer.ts\<close>: the receiver that appends to a stored stream and keeps no
  cursor of its own. Before every batch it re-reads where the stream ends and re-derives the window
  of unconfirmed blocks from the stored tail. Its logs are what a table keeps of a log, without the
  part a decoder attaches.
\<close>

subsection \<open>The writer\<close>

record stream_delta =
  de_stream :: string
  de_eventStream :: "unit log_event list"
  de_lastSync :: "unit last_sync"

record ('x, 'd, 'r, 'v) stream_writer =
  sw_context :: wire_context
  sw_streamDigest :: string
  sw_sourceHashes :: "source_hash_entry list"
  sw_defaultFromBlock :: int
  sw_finality :: int
  sw_readStreamCursor :: "string \<Rightarrow> int \<Rightarrow> 'd \<Rightarrow> ('x, stream_cursor_read option) result"
  sw_appendEmissions :: "unit emission_write \<Rightarrow> 'd \<Rightarrow> ('x, 'd) result"
  sw_recordReorg :: "(reorg_detection \<Rightarrow> 'r \<Rightarrow> 'r option) option"
  sw_deliver :: "(stream_delta \<Rightarrow> 'v \<Rightarrow> ('x, 'v) result) option"

record ('d, 'r, 'v) writer_state =
  ws_stream :: 'd
  ws_reorgs :: 'r
  ws_delivered :: 'v

definition lastSyncOf :: "('x, 'd, 'r, 'v) stream_writer \<Rightarrow> stream_cursor_read option \<Rightarrow> unit last_sync" where
  "lastSyncOf W stored =
     (let ctx = \<lparr>ctx_source = wire_source (sw_context W), ctx_config = wire_config (sw_context W), ctx_processor = []\<rparr> in
      case stored of
        None \<Rightarrow> \<lparr>context_id = ctx, latestBlock = 0, lastFromBlock = 0, lastToBlock = 0, unconfirmedBlocks = []\<rparr>
      | Some c \<Rightarrow>
          \<lparr>context_id = ctx, latestBlock = cr_latestBlock c, lastFromBlock = cr_lastFromBlock c,
           lastToBlock = cr_lastToBlock c,
           unconfirmedBlocks = windowOfStoredStream (cr_tail c) (cr_lastToBlock c) (sw_finality W)\<rparr>)"

definition read_cursor :: "('x, 'd, 'r, 'v) stream_writer \<Rightarrow> ('d, 'r, 'v) writer_state
    \<Rightarrow> ('x receive_error, stream_cursor_read option) result" where
  "read_cursor W s =
     (case sw_readStreamCursor W (sw_streamDigest W) (sw_finality W) (ws_stream s) of
        Inl x \<Rightarrow> Inl (StoreFailed x)
      | Inr stored \<Rightarrow> Inr stored)"

definition writer_expectedFromBlock :: "('x, 'd, 'r, 'v) stream_writer \<Rightarrow> ('d, 'r, 'v) writer_state
    \<Rightarrow> ('x receive_error, int) result" where
  "writer_expectedFromBlock W s =
     and_then (read_cursor W s) (\<lambda>stored.
       Inr (getFromBlock (lastSyncOf W stored) (sw_defaultFromBlock W) (sw_finality W)))"

definition writer_storeStream :: "('x, 'd, 'r, 'v) stream_writer \<Rightarrow> stream_cursor_read option \<Rightarrow> unit log_event list
    \<Rightarrow> unit last_sync \<Rightarrow> ('d, 'r, 'v) writer_state \<Rightarrow> ('x receive_error, ('d, 'r, 'v) writer_state) result" where
  "writer_storeStream W stored emissions newSync s =
     (if (case stored of None \<Rightarrow> False | Some c \<Rightarrow> lastFromBlock newSync > cr_lastToBlock c + 1)
      then Inl (Engine (StreamHole (cr_lastToBlock (the stored)) (lastFromBlock newSync)))
      else
        (case sw_appendEmissions W
                (coverage_write (sw_streamDigest W) (sw_sourceHashes W) (wire_config (sw_context W)) emissions newSync)
                (ws_stream s) of
           Inl x \<Rightarrow> Inl (StoreFailed x)
         | Inr d \<Rightarrow> Inr (s\<lparr>ws_stream := d\<rparr>)))"

definition writer_deliver :: "('x, 'd, 'r, 'v) stream_writer \<Rightarrow> stream_delta \<Rightarrow> ('d, 'r, 'v) writer_state
    \<Rightarrow> ('x receive_error, ('d, 'r, 'v) writer_state) result" where
  "writer_deliver W delta s =
     (case sw_deliver W of
        None \<Rightarrow> Inr s
      | Some deliver \<Rightarrow>
          (case deliver delta (ws_delivered s) of
             Inl x \<Rightarrow> Inl (ProcessFailed x)
           | Inr v \<Rightarrow> Inr (s\<lparr>ws_delivered := v\<rparr>)))"

definition writer_append :: "('x, 'd, 'r, 'v) stream_writer \<Rightarrow> stream_cursor_read option \<Rightarrow> unit generated
    \<Rightarrow> ('d, 'r, 'v) writer_state \<Rightarrow> ('x receive_error, unit ingestion_result) result \<times> ('d, 'r, 'v) writer_state" where
  "writer_append W stored g s =
     (case writer_storeStream W stored (eventStream g) (newLastSync g) s of
        Inl e \<Rightarrow> (Inl e, s)
      | Inr s1 \<Rightarrow>
          (let s2 = s1\<lparr>ws_reorgs := noteReorg (sw_recordReorg W) (reorg g) (ws_reorgs s1)\<rparr> in
           case writer_deliver W \<lparr>de_stream = sw_streamDigest W, de_eventStream = eventStream g,
                  de_lastSync = newLastSync g\<rparr> s2 of
             Inl e \<Rightarrow> (Inl e, s2)
           | Inr s3 \<Rightarrow> (Inr (ingestion_answer (sw_defaultFromBlock W) (sw_finality W) g), s3)))"

definition writer_receive :: "('x, 'd, 'r, 'v) stream_writer \<Rightarrow> unit wire_batch \<Rightarrow> ('d, 'r, 'v) writer_state
    \<Rightarrow> ('x receive_error, unit ingestion_result) result \<times> ('d, 'r, 'v) writer_state" where
  "writer_receive W batch s =
     (if \<not> sameWireContext (Some (sw_context W)) (wb_context batch) then (Inl (Engine WireContextMismatch), s)
      else
        (case assertWellFormed batch of
           Inl e \<Rightarrow> (Inl (Engine e), s)
         | Inr es \<Rightarrow>
             (case read_cursor W s of
                Inl e \<Rightarrow> (Inl e, s)
              | Inr stored \<Rightarrow>
                  (case generateStreamToAppend (lastSyncOf W stored) (sw_defaultFromBlock W) es
                          (batch_args batch (sw_finality W)) of
                     Inl e \<Rightarrow> (Inl (Engine e), s)
                   | Inr g \<Rightarrow> writer_append W stored g s))))"

subsection \<open>Proper streams, as runs of one block each\<close>

text \<open>
  A stored stream read as runs: each run applies a block that is not live or takes back one that
  is. \<open>live_after\<close> is what the runs leave, by block hash.
\<close>

definition uniform :: "'a stream_group \<Rightarrow> bool" where
  "uniform g \<longleftrightarrow> events g \<noteq> [] \<and>
     (\<forall>e \<in> set (events g). blockNumber e = number g \<and> blockHash e = hash g \<and> removed e = group_removed g)"

definition live_step :: "'a stream_group \<Rightarrow> (string \<rightharpoonup> 'a event_block) \<Rightarrow> (string \<rightharpoonup> 'a event_block)" where
  "live_step g live = (if group_removed g then live(hash g := None) else live(hash g \<mapsto> block_of_group g))"

definition live_after :: "(string \<rightharpoonup> 'a event_block) \<Rightarrow> 'a stream_group list \<Rightarrow> (string \<rightharpoonup> 'a event_block)" where
  "live_after live gs = fold live_step gs live"

fun proper_runs :: "(string \<Rightarrow> int) \<Rightarrow> (string \<rightharpoonup> 'a event_block) \<Rightarrow> 'a stream_group list \<Rightarrow> bool" where
  "proper_runs height live [] = True"
| "proper_runs height live (g # gs) =
     (uniform g \<and> number g = height (hash g) \<and> (group_removed g \<longleftrightarrow> live (hash g) \<noteq> None) \<and>
      proper_runs height (live_step g live) gs)"

lemma live_after_simps [simp]:
  "live_after live [] = live" "live_after live (g # gs) = live_after (live_step g live) gs"
  "live_after live (gs @ hs) = live_after (live_after live gs) hs"
  by (simp_all add: live_after_def)

lemma proper_runs_append:
  "proper_runs height live (gs @ hs) \<longleftrightarrow> proper_runs height live gs \<and> proper_runs height (live_after live gs) hs"
  by (induction gs arbitrary: live) auto

lemma live_step_other: "hash g \<noteq> h \<Longrightarrow> live_step g live h = live h"
  by (simp add: live_step_def)

lemma live_step_same:
  "live_step g live (hash g) = (if group_removed g then None else Some (block_of_group g))"
  by (simp add: live_step_def)

lemma runs_from_uniform:
  assumes "hash c = hash g" "group_removed c = group_removed g"
    and "\<forall>e \<in> set es. blockHash e = hash g \<and> removed e = group_removed g"
  shows "runs_from c (es @ rest) = runs_from (c\<lparr>events := events c @ es\<rparr>) rest"
  using assms
proof (induction es arbitrary: c)
  case Nil
  then show ?case by simp
next
  case (Cons e es)
  then show ?case using Cons.IH[of "c\<lparr>events := events c @ [e]\<rparr>"] by simp
qed

lemma runs_from_new:
  assumes "uniform g" "hash c \<noteq> hash g \<or> group_removed c \<noteq> group_removed g"
  shows "runs_from c (events g @ rest) = c # runs_from g rest"
proof -
  obtain e es where ev: "events g = e # es" using assms(1) by (cases "events g") (auto simp: uniform_def)
  have e: "blockHash e = hash g" "removed e = group_removed g" "blockNumber e = number g"
    and es: "\<forall>x \<in> set es. blockHash x = hash g \<and> removed x = group_removed g"
    using assms(1) ev by (auto simp: uniform_def)
  have "runs_from c (events g @ rest) = c # runs_from (open_group e) (es @ rest)"
    using assms(2) ev e by auto
  also have "runs_from (open_group e) (es @ rest) = runs_from ((open_group e)\<lparr>events := events (open_group e) @ es\<rparr>) rest"
    using e es by (intro runs_from_uniform[of _ g]) (simp_all add: open_group_def)
  also have "(open_group e)\<lparr>events := events (open_group e) @ es\<rparr> = g"
    using e ev by (cases g) (simp add: open_group_def)
  finally show ?thesis .
qed

lemma runs_from_proper:
  assumes "proper_runs height (live_step c live) gs"
  shows "runs_from c (concat (map events gs)) = c # gs"
  using assms
proof (induction gs arbitrary: c live)
  case Nil
  then show ?case by simp
next
  case (Cons g gs)
  have "hash c \<noteq> hash g \<or> group_removed c \<noteq> group_removed g"
    using Cons.prems live_step_same[of c live] by (cases "hash c = hash g") (auto split: if_splits)
  then have "runs_from c (events g @ concat (map events gs)) = c # runs_from g (concat (map events gs))"
    using Cons.prems by (intro runs_from_new) auto
  then show ?case using Cons.IH[of g "live_step c live"] Cons.prems by simp
qed

lemma groups_of_proper:
  assumes "proper_runs height live gs"
  shows "groupStreamPerBlock (concat (map events gs)) = gs"
proof (cases gs)
  case Nil
  then show ?thesis by simp
next
  case (Cons g hs)
  obtain e es where ev: "events g = e # es" using assms Cons by (cases "events g") (auto simp: uniform_def)
  have u: "uniform g" using assms Cons by simp
  then have e: "blockHash e = hash g" "removed e = group_removed g" "blockNumber e = number g"
    and es: "\<forall>x \<in> set es. blockHash x = hash g \<and> removed x = group_removed g"
    using ev by (auto simp: uniform_def)
  have "groupStreamPerBlock (concat (map events gs)) = runs_from (open_group e) (es @ concat (map events hs))"
    using Cons ev by simp
  also have "\<dots> = runs_from ((open_group e)\<lparr>events := events (open_group e) @ es\<rparr>) (concat (map events hs))"
    using e es by (intro runs_from_uniform[of _ g]) (simp_all add: open_group_def)
  also have "(open_group e)\<lparr>events := events (open_group e) @ es\<rparr> = g"
    using e ev by (cases g) (simp add: open_group_def)
  finally show ?thesis using runs_from_proper[of height g live hs] assms Cons by simp
qed

subsection \<open>The window of a proper stream\<close>

lemma window_walk_proper:
  assumes "proper_runs height live gs"
  shows "window_walk live order gs = (live_after live gs, order @ map hash (filter (\<lambda>g. \<not> group_removed g) gs))"
  using assms by (induction gs arbitrary: live order) (auto simp: live_step_def)

lemma live_after_applied:
  assumes "live_after live gs h = Some b"
  shows "live h = Some b \<or> (\<exists>g \<in> set gs. \<not> group_removed g \<and> hash g = h \<and> b = block_of_group g)"
  using assms
proof (induction gs arbitrary: live)
  case Nil
  then show ?case by simp
next
  case (Cons g gs)
  then consider "live_step g live h = Some b" | "\<exists>g \<in> set gs. \<not> group_removed g \<and> hash g = h \<and> b = block_of_group g" by fastforce
  then show ?case
    by cases (auto simp: live_step_def split: if_splits)
qed

definition live_ok :: "(string \<Rightarrow> int) \<Rightarrow> (string \<rightharpoonup> 'a event_block) \<Rightarrow> bool" where
  "live_ok height live \<longleftrightarrow> (\<forall>h b. live h = Some b \<longrightarrow> hash b = h \<and> number b = height h \<and> block_wf b)"

lemma block_of_group_simps [simp]:
  "number (block_of_group g) = number g" "hash (block_of_group g) = hash g" "events (block_of_group g) = events g"
  by (simp_all add: block_of_group_def)

lemma live_okD:
  "live_ok height live \<Longrightarrow> live h = Some b \<Longrightarrow> hash b = h \<and> number b = height h \<and> block_wf b"
  unfolding live_ok_def by blast

lemma live_ok_step:
  assumes "live_ok height live" "uniform g" "number g = height (hash g)"
  shows "live_ok height (live_step g live)"
proof -
  have "\<not> group_removed g \<Longrightarrow> block_wf (block_of_group g)" using assms(2) by (simp add: uniform_def block_wf_def)
  then show ?thesis using assms(1,3) by (auto simp: live_ok_def live_step_def)
qed

lemma live_ok_after:
  "proper_runs height live gs \<Longrightarrow> live_ok height live \<Longrightarrow> live_ok height (live_after live gs)"
  by (induction gs arbitrary: live) (simp_all add: live_ok_step)

lemma kept_blocks_distinct:
  assumes "live_ok height live"
  shows "distinct (kept_blocks live p kept hs)"
proof (induction hs arbitrary: kept)
  case Nil
  then show ?case by simp
next
  case (Cons h hs)
  have "b \<notin> set (kept_blocks live p (h # kept) hs)" if "live h = Some b" for b
    using that assms unfolding kept_blocks_set live_ok_def by auto
  then show ?case using Cons by (auto split: option.splits)
qed

definition one_per_height :: "(string \<rightharpoonup> 'a event_block) \<Rightarrow> bool" where
  "one_per_height live \<longleftrightarrow> (\<forall>b \<in> ran live. \<forall>c \<in> ran live. number b = number c \<longrightarrow> b = c)"

lemma window_of_proper:
  assumes "proper_runs height Map.empty gs" "one_per_height (live_after Map.empty gs)"
  shows "ascending (windowOfStoredStream (concat (map events gs)) c f) \<and>
    set (windowOfStoredStream (concat (map events gs)) c f) = {b \<in> ran (live_after Map.empty gs). c - number b \<le> f}"
proof -
  let ?live = "live_after Map.empty gs"
  let ?order = "map hash (filter (\<lambda>g. \<not> group_removed g) gs)"
  let ?kept = "kept_blocks ?live (\<lambda>b. c - number b \<le> f) [] ?order"
  have ok: "live_ok height ?live" using live_ok_after[OF assms(1)] by (simp add: live_ok_def)
  have win: "windowOfStoredStream (concat (map events gs)) c f = sort_key number ?kept"
    unfolding windowOfStoredStream_def groups_of_proper[OF assms(1)] window_walk_proper[OF assms(1)] by simp
  have mem: "set ?kept = {b \<in> ran ?live. c - number b \<le> f}"
    unfolding kept_blocks_set using live_after_applied[of Map.empty gs] by (fastforce simp: ran_def)
  have "inj_on number (set ?kept)"
    using assms(2) unfolding mem one_per_height_def inj_on_def by blast
  then have "distinct (map number (sort_key number ?kept))"
    using kept_blocks_distinct[OF ok] by (simp add: distinct_map)
  then have "ascending (sort_key number ?kept)" by (intro sorted_distinct_strict sorted_sort_key)
  then show ?thesis unfolding win using mem by simp
qed

definition live_from :: "(string \<Rightarrow> int) \<Rightarrow> int \<Rightarrow> (string \<rightharpoonup> 'a event_block) \<Rightarrow> (string \<rightharpoonup> 'a event_block)" where
  "live_from height lo live = (\<lambda>h. if lo \<le> height h then live h else None)"

lemma live_from_step:
  assumes "number g = height (hash g)"
  shows "live_from height lo (live_step g live) =
    (if lo \<le> number g then live_step g (live_from height lo live) else live_from height lo live)"
  using assms by (auto simp: live_from_def live_step_def)

lemma proper_filter:
  assumes "proper_runs height live gs"
  shows "proper_runs height (live_from height lo live) (filter (\<lambda>g. lo \<le> number g) gs)
    \<and> live_after (live_from height lo live) (filter (\<lambda>g. lo \<le> number g) gs) = live_from height lo (live_after live gs)"
  using assms
proof (induction gs arbitrary: live)
  case Nil
  then show ?case by simp
next
  case (Cons g gs)
  have step: "live_from height lo (live_step g live) =
      (if lo \<le> number g then live_step g (live_from height lo live) else live_from height lo live)"
    using Cons.prems by (intro live_from_step) simp
  show ?case
    using Cons.IH[of "live_step g live"] Cons.prems step by (auto simp: live_from_def[of height lo live])
qed

lemma filter_runs:
  assumes "\<forall>g \<in> set gs. uniform g"
  shows "filter (\<lambda>e. lo \<le> blockNumber e) (concat (map events gs)) = concat (map events (filter (\<lambda>g. lo \<le> number g) gs))"
  using assms
proof (induction gs)
  case Nil
  then show ?case by simp
next
  case (Cons g gs)
  have "filter (\<lambda>e. lo \<le> blockNumber e) (events g) = (if lo \<le> number g then events g else [])"
    using Cons.prems by (auto simp: uniform_def intro: filter_True filter_False)
  then show ?case using Cons by simp
qed

lemma proper_uniform: "proper_runs height live gs \<Longrightarrow> \<forall>g \<in> set gs. uniform g"
  by (induction gs arbitrary: live) auto

lemma window_of_tail:
  assumes "proper_runs height Map.empty gs" "one_per_height (live_after Map.empty gs)"
  shows "ascending (windowOfStoredStream (filter (\<lambda>e. lo \<le> blockNumber e) (concat (map events gs))) c f) \<and>
    set (windowOfStoredStream (filter (\<lambda>e. lo \<le> blockNumber e) (concat (map events gs))) c f) =
      {b \<in> ran (live_after Map.empty gs). lo \<le> number b \<and> c - number b \<le> f}"
proof -
  let ?live = "live_after Map.empty gs"
  have empty: "live_from height lo Map.empty = Map.empty" by (simp add: live_from_def)
  note tail = proper_filter[OF assms(1), of lo, unfolded empty]
  have ok: "live_ok height ?live" using live_ok_after[OF assms(1)] by (simp add: live_ok_def)
  have ran: "ran (live_from height lo ?live) = {b \<in> ran ?live. lo \<le> number b}"
    using ok by (auto simp: ran_def live_from_def live_ok_def split: if_splits)
  have one: "one_per_height (live_after Map.empty (filter (\<lambda>g. lo \<le> number g) gs))"
    using assms(2) tail ran unfolding one_per_height_def by auto
  show ?thesis
    using window_of_proper[OF conjunct1[OF tail] one, of c f] tail ran
    unfolding filter_runs[OF proper_uniform[OF assms(1)]] by auto
qed


subsection \<open>What a stream needs of the window\<close>

lemma ascending_split:
  assumes "ascending w"
  shows "w = filter (\<lambda>b. number b < n) w @ filter (\<lambda>b. n \<le> number b) w"
  using assms
proof (induction w)
  case Nil
  then show ?case by simp
next
  case (Cons b w)
  show ?case
  proof (cases "number b < n")
    case True
    then show ?thesis using Cons by simp
  next
    case False
    then have "\<forall>c \<in> set w. n \<le> number c" using Cons.prems by fastforce
    then have "filter (\<lambda>b. number b < n) w = []" "filter (\<lambda>b. n \<le> number b) w = w"
      by (auto simp: filter_empty_conv)
    then show ?thesis using False by simp
  qed
qed

lemma ascending_unique:
  assumes "ascending xs" "ascending ys" "set xs = set ys"
  shows "xs = ys"
proof -
  have strict: "sorted (map number zs) \<and> distinct (map number zs)" if "ascending zs" for zs :: "'b event_block list"
    using that by (induction zs) (auto simp: less_imp_le)
  have "map number xs = map number ys"
    using strict[OF assms(1)] strict[OF assms(2)] assms(3) by (intro sorted_distinct_set_unique) simp_all
  moreover have "inj_on number (set xs \<union> set ys)" using strict[OF assms(1)] assms(3) by (simp add: distinct_map)
  ultimately show ?thesis by (rule map_inj_on)
qed

lemma window_below_survives:
  assumes "ascending (unconfirmedBlocks s)"
  shows "survivors s es args = filter (\<lambda>b. number b < newLastFromBlock args) (unconfirmedBlocks s) @
      takeWhile (settled (newBlockHashPerNumber (groupLogsPerBlock es)) (newLastFromBlock args) (newLastToBlock args))
        (filter (\<lambda>b. newLastFromBlock args \<le> number b) (unconfirmedBlocks s))"
    "reverted s es args =
      dropWhile (settled (newBlockHashPerNumber (groupLogsPerBlock es)) (newLastFromBlock args) (newLastToBlock args))
        (filter (\<lambda>b. newLastFromBlock args \<le> number b) (unconfirmedBlocks s))"
proof -
  let ?ok = "settled (newBlockHashPerNumber (groupLogsPerBlock es)) (newLastFromBlock args) (newLastToBlock args)"
  let ?low = "filter (\<lambda>b. number b < newLastFromBlock args) (unconfirmedBlocks s)"
  let ?high = "filter (\<lambda>b. newLastFromBlock args \<le> number b) (unconfirmedBlocks s)"
  have w: "unconfirmedBlocks s = ?low @ ?high" by (rule ascending_split[OF assms(1)])
  have ok: "\<And>b. b \<in> set ?low \<Longrightarrow> ?ok b" by (simp add: settled_def)
  have "takeWhile ?ok (?low @ ?high) = ?low @ takeWhile ?ok ?high" by (rule takeWhile_append2) (rule ok)
  then show "survivors s es args = ?low @ takeWhile ?ok ?high" unfolding survivors_def w[symmetric] .
  have "dropWhile ?ok (?low @ ?high) = dropWhile ?ok ?high" by (rule dropWhile_append2) (rule ok)
  then show "reverted s es args = dropWhile ?ok ?high" unfolding reverted_def w[symmetric] .
qed

text \<open>
  Two cursors that agree on where to resume and on the window from there on give the same stream for
  a fetched range, whatever else their windows hold.
\<close>

lemma generate_window:
  assumes gen: "generateStreamToAppend s d es args = Inr g"
    and asc: "ascending (unconfirmedBlocks s)" "ascending (unconfirmedBlocks s')"
    and same: "latestBlock s' = latestBlock s" "lastToBlock s' = lastToBlock s"
    and win: "filter (\<lambda>b. newLastFromBlock args \<le> number b) (unconfirmedBlocks s') =
      filter (\<lambda>b. newLastFromBlock args \<le> number b) (unconfirmedBlocks s)"
    and wf: "fetch_wf (newLastFromBlock args) (newLastToBlock args) es"
  obtains g' where "generateStreamToAppend s' d es args = Inr g'" "eventStream g' = eventStream g" "reorg g' = reorg g"
    "latestBlock (newLastSync g') = latestBlock (newLastSync g)" "lastFromBlock (newLastSync g') = lastFromBlock (newLastSync g)"
    "lastToBlock (newLastSync g') = lastToBlock (newLastSync g)"
proof -
  let ?ok = "settled (newBlockHashPerNumber (groupLogsPerBlock es)) (newLastFromBlock args) (newLastToBlock args)"
  note sv = window_below_survives(1)[OF asc(1), of es args] window_below_survives(1)[OF asc(2), of es args]
  have rev: "reverted s' es args = reverted s es args"
    unfolding window_below_survives(2)[OF asc(1)] window_below_survives(2)[OF asc(2)] win by simp
  have high: "newLastFromBlock args \<le> number b" if "b \<in> set (groupLogsPerBlock es)" for b
  proof -
    have "key_of b \<in> live_keys es" unfolding groups_wf(2)[OF wf, symmetric] using that by (rule imageI)
    then show ?thesis using live_keys_range[OF wf] by force
  qed
  have "admitted s' es args = admitted s es args"
    unfolding admitted_def new_blocks_def sv win
  proof (rule filter_cong[OF refl])
    fix b assume "b \<in> set (groupLogsPerBlock es)"
    then have "(number b, hash b) \<notin> (\<lambda>r. (number r, hash r)) ` set (filter (\<lambda>b. number b < newLastFromBlock args) w)" for w :: "'a event_block list"
      using high[of b] by auto
    then show "(events b \<noteq> [] \<and> windowKeyOf (number b) (hash b) \<notin> set (map (\<lambda>r. windowKeyOf (number r) (hash r))
          (filter (\<lambda>b. number b < newLastFromBlock args) (unconfirmedBlocks s') @
           takeWhile ?ok (filter (\<lambda>b. newLastFromBlock args \<le> number b) (unconfirmedBlocks s))))) =
      (events b \<noteq> [] \<and> windowKeyOf (number b) (hash b) \<notin> set (map (\<lambda>r. windowKeyOf (number r) (hash r))
          (filter (\<lambda>b. number b < newLastFromBlock args) (unconfirmedBlocks s) @
           takeWhile ?ok (filter (\<lambda>b. newLastFromBlock args \<le> number b) (unconfirmedBlocks s)))))"
      unfolding windowKeyOf_def map_append set_append set_map image_Un Un_iff by blast
  qed
  moreover have "getFromBlock s' d f = getFromBlock s d f" for f using same by (simp add: getFromBlock_def)
  ultimately show thesis
    using that gen rev unfolding generate_closed by (auto split: if_splits)
qed

subsection \<open>The runs of a generated stream\<close>

definition retraction_run :: "'a event_block \<Rightarrow> 'a stream_group" where
  "retraction_run b = \<lparr>number = number b, hash = hash b, events = map (\<lambda>e. e\<lparr>removed := True\<rparr>) (events b), group_removed = True\<rparr>"

definition block_run :: "'a event_block \<Rightarrow> 'a stream_group" where
  "block_run b = \<lparr>number = number b, hash = hash b, events = events b, group_removed = False\<rparr>"

lemma run_simps [simp]:
  "number (retraction_run b) = number b" "hash (retraction_run b) = hash b" "group_removed (retraction_run b)"
  "events (retraction_run b) = map (\<lambda>e. e\<lparr>removed := True\<rparr>) (events b)"
  "number (block_run b) = number b" "hash (block_run b) = hash b" "\<not> group_removed (block_run b)"
  "events (block_run b) = events b" "block_of_group (block_run b) = b"
  by (simp_all add: retraction_run_def block_run_def block_of_group_def)

lemma live_step_runs [simp]:
  "live_step (retraction_run b) live = live(hash b := None)" "live_step (block_run b) live = live(hash b \<mapsto> b)"
  by (simp_all add: live_step_def)

lemma uniform_runs: "block_wf b \<Longrightarrow> uniform (retraction_run b)" "block_wf b \<Longrightarrow> uniform (block_run b)"
  by (auto simp: uniform_def block_wf_def)

lemma retractions_as_runs: "retractions_of bs = concat (map events (map retraction_run bs))"
  by (simp add: retractions_of_def comp_def)

lemma blocks_as_runs: "concat (map events bs) = concat (map events (map block_run bs))"
  by (simp add: comp_def)

lemma distinct_hash_head: "distinct (map hash (b # bs)) \<Longrightarrow> c \<in> set bs \<Longrightarrow> hash c \<noteq> hash b"
  by (metis distinct.simps(2) image_eqI list.set_map list.simps(9))

lemma proper_retractions:
  assumes "distinct (map hash bs)" "\<forall>b \<in> set bs. block_wf b \<and> number b = height (hash b) \<and> live (hash b) \<noteq> None"
  shows "proper_runs height live (map retraction_run bs)"
    and "live_after live (map retraction_run bs) h = (if h \<in> hash ` set bs then None else live h)"
  using assms
proof (induction bs arbitrary: live)
  case Nil
  { case 1 then show ?case by simp }
  { case 2 then show ?case by simp }
next
  case (Cons b bs)
  have rest: "\<forall>c \<in> set bs. block_wf c \<and> number c = height (hash c) \<and> (live(hash b := None)) (hash c) \<noteq> None"
    if "distinct (map hash (b # bs))" "\<forall>c \<in> set (b # bs). block_wf c \<and> number c = height (hash c) \<and> live (hash c) \<noteq> None" for live :: "string \<rightharpoonup> 'a event_block"
    using that(2) distinct_hash_head[OF that(1)] by simp
  { case 1
    then show ?case using Cons.IH(1)[of "live(hash b := None)", OF _ rest[OF 1]] uniform_runs(1)[of b] by (simp add: fun_upd_def) }
  { case 2
    then show ?case using Cons.IH(2)[of "live(hash b := None)", OF _ rest[OF 2]] by (auto simp: fun_upd_def) }
qed

lemma proper_blocks:
  assumes "distinct (map hash bs)" "\<forall>b \<in> set bs. block_wf b \<and> number b = height (hash b) \<and> live (hash b) = None"
  shows "proper_runs height live (map block_run bs)"
    and "b \<in> set bs \<Longrightarrow> live_after live (map block_run bs) (hash b) = Some b"
    and "h \<notin> hash ` set bs \<Longrightarrow> live_after live (map block_run bs) h = live h"
  using assms
proof (induction bs arbitrary: live b h)
  case Nil
  { case 1 then show ?case by simp }
  { case 2 then show ?case by simp }
  { case 3 then show ?case by simp }
next
  case (Cons c bs)
  have rest: "\<forall>b \<in> set bs. block_wf b \<and> number b = height (hash b) \<and> (live(hash c \<mapsto> c)) (hash b) = None"
    if "distinct (map hash (c # bs))" "\<forall>b \<in> set (c # bs). block_wf b \<and> number b = height (hash b) \<and> live (hash b) = None" for live :: "string \<rightharpoonup> 'a event_block"
    using that(2) distinct_hash_head[OF that(1)] by simp
  { case 1
    then show ?case using Cons.IH(1)[of "live(hash c \<mapsto> c)", OF _ rest[OF 1]] uniform_runs(2)[of c] by (simp add: fun_upd_def) }
  { case 2
    have at: "live_step (block_run c) live (hash c) = Some c" by simp
    show ?case
    proof (cases "b = c")
      case True
      then show ?thesis using 2 Cons.IH(3)[of "hash c" "live(hash c \<mapsto> c)", OF _ _ rest[OF 2(2,3)]] at by (simp add: fun_upd_def)
    next
      case False
      then show ?thesis using 2 Cons.IH(2)[of b "live(hash c \<mapsto> c)", OF _ _ rest[OF 2(2,3)]] by (simp add: fun_upd_def)
    qed }
  { case 3
    then show ?case using Cons.IH(3)[of h "live(hash c \<mapsto> c)", OF _ _ rest[OF 3(2,3)]] by (simp add: fun_upd_def) }
qed

lemma ledger_of_runs:
  assumes "proper_runs height live gs" "live_ok height live"
  shows "key_of ` ran (live_after live gs) = ledger_after (key_of ` ran live) (concat (map events gs))"
  using assms
proof (induction gs arbitrary: live)
  case Nil
  then show ?case by (simp add: ledger_after_def)
next
  case (Cons g gs)
  let ?L = "key_of ` ran live"
  have u: "uniform g" and at: "number g = height (hash g)" and dir: "group_removed g \<longleftrightarrow> live (hash g) \<noteq> None"
    using Cons.prems by simp_all
  have keys: "event_key ` set (events g) = {key_of g}"
    using u unfolding uniform_def by (cases "events g") auto
  have key: "key_of b = key_of g \<longleftrightarrow> h = hash g" if "live h = Some b" for h b
    using that Cons.prems(2) at unfolding live_ok_def by auto
  have "key_of ` ran (live_step g live) = ledger_after ?L (events g)"
  proof (cases "group_removed g")
    case True
    then have "\<forall>e \<in> set (events g). removed e" using u by (simp add: uniform_def)
    then have "ledger_after ?L (events g) = ?L - {key_of g}" by (simp add: ledger_after_removed keys)
    moreover have "key_of ` ran (live_step g live) = ?L - {key_of g}"
    proof (rule set_eqI)
      fix k
      have "k \<in> key_of ` ran (live_step g live) \<longleftrightarrow> (\<exists>h b. h \<noteq> hash g \<and> live h = Some b \<and> k = key_of b)"
        using True by (auto simp: ran_def live_step_def)
      also have "\<dots> \<longleftrightarrow> (\<exists>h b. live h = Some b \<and> k = key_of b \<and> k \<noteq> key_of g)"
      proof -
        have "(h \<noteq> hash g \<and> live h = Some b \<and> k = key_of b) \<longleftrightarrow> (live h = Some b \<and> k = key_of b \<and> k \<noteq> key_of g)" for h b
          using key[of h b] by (cases "live h = Some b") auto
        then show ?thesis by (simp only:)
      qed
      also have "\<dots> \<longleftrightarrow> k \<in> ?L - {key_of g}" by (auto simp: ran_def)
      finally show "k \<in> key_of ` ran (live_step g live) \<longleftrightarrow> k \<in> ?L - {key_of g}" .
    qed
    ultimately show ?thesis by simp
  next
    case False
    then have "\<forall>e \<in> set (events g). \<not> removed e" using u by (simp add: uniform_def)
    then have "ledger_after ?L (events g) = ?L \<union> {key_of g}" by (simp add: ledger_after_applied keys)
    moreover have "ran (live_step g live) = insert (block_of_group g) (ran live)"
      using False dir by (simp add: live_step_def)
    ultimately show ?thesis by simp
  qed
  then show ?case
    using Cons.IH[of "live_step g live"] Cons.prems live_ok_step[OF Cons.prems(2) u at] by (simp add: ledger_after_append)
qed

subsection \<open>A cursor that follows its stream\<close>

text \<open>
  A cursor and the runs of the stream emitted so far: the stream is proper, its live blocks are one
  branch, and the window of the cursor holds them as they were emitted.
\<close>

definition follows :: "(string \<Rightarrow> int) \<Rightarrow> int \<Rightarrow> int \<Rightarrow> 'a last_sync \<Rightarrow> 'a stream_group list \<Rightarrow> bool" where
  "follows height d f s gs \<longleftrightarrow>
     proper_runs height Map.empty gs \<and> cursor_inv d f (key_of ` ran (live_after Map.empty gs)) s \<and>
     single_branch (key_of ` ran (live_after Map.empty gs)) \<and>
     (\<forall>b \<in> set (unconfirmedBlocks s). live_after Map.empty gs (hash b) = Some b) \<and>
     (\<forall>g \<in> set gs. \<forall>e \<in> set (events g). length (topics e) \<le> 4)"

lemma followsD:
  assumes "follows height d f s gs"
  shows "proper_runs height Map.empty gs" "cursor_inv d f (key_of ` ran (live_after Map.empty gs)) s"
    "single_branch (key_of ` ran (live_after Map.empty gs))"
    "b \<in> set (unconfirmedBlocks s) \<Longrightarrow> live_after Map.empty gs (hash b) = Some b"
    "g \<in> set gs \<Longrightarrow> e \<in> set (events g) \<Longrightarrow> length (topics e) \<le> 4"
    "live_ok height (live_after Map.empty gs)"
  using assms live_ok_after[of height Map.empty gs] by (auto simp: follows_def live_ok_def[of height Map.empty])

lemma add_to_group_events:
  "\<forall>g \<in> set gs. set (events g) \<subseteq> S \<Longrightarrow> e \<in> S \<Longrightarrow> \<forall>g \<in> set (add_to_group e gs). set (events g) \<subseteq> S"
  by (induction gs) auto

lemma group_fold_events:
  "\<forall>g \<in> set gs. set (events g) \<subseteq> S \<Longrightarrow> set es \<subseteq> S \<Longrightarrow> \<forall>g \<in> set (group_fold gs es). set (events g) \<subseteq> S"
proof (induction es arbitrary: gs)
  case Nil
  then show ?case by simp
next
  case (Cons e es)
  have e: "e \<in> S" and es: "set es \<subseteq> S" using Cons.prems(2) by simp_all
  show ?case
  proof (cases "removed e")
    case True
    then show ?thesis unfolding foldl.simps if_P[OF True] by (intro Cons.IH Cons.prems(1) es)
  next
    case False
    then show ?thesis
      unfolding foldl.simps if_not_P[OF False] by (intro Cons.IH add_to_group_events Cons.prems(1) e es)
  qed
qed

lemma groups_events: "g \<in> set (groupLogsPerBlock es) \<Longrightarrow> set (events g) \<subseteq> set es"
  using group_fold_events[of "[]" "set es" es] unfolding groupLogsPerBlock_def by simp

lemma window_hashes:
  assumes "ascending w" "\<And>b. b \<in> set w \<Longrightarrow> live (hash b) = Some b"
  shows "distinct (map hash w)"
proof -
  have "distinct w" using assms(1) by (induction w) auto
  moreover have "inj_on hash (set w)" 
  proof (rule inj_onI)
    fix b c assume bc: "b \<in> set w" "c \<in> set w" "hash b = hash c"
    have "Some b = live (hash b)" by (rule assms(2)[OF bc(1), symmetric])
    also have "\<dots> = live (hash c)" by (rule arg_cong[OF bc(3)])
    also have "\<dots> = Some c" by (rule assms(2)[OF bc(2)])
    finally show "b = c" by (rule option.inject[THEN iffD1])
  qed
  ultimately show ?thesis by (simp add: distinct_map)
qed

text \<open>What a range adds to a stream that a cursor follows.\<close>

definition runs_added :: "'a last_sync \<Rightarrow> 'a log_event list \<Rightarrow> range_args \<Rightarrow> 'a stream_group list" where
  "runs_added s es args = map retraction_run (reverted s es args) @ map block_run (admitted s es args)"

lemma runs_added_stream:
  "generateStreamToAppend s d es args = Inr g \<Longrightarrow> eventStream g = concat (map events (runs_added s es args))"
  unfolding generate_accepts(2) runs_added_def retractions_as_runs blocks_as_runs[of "admitted s es args"] by simp

lemma runs_added_proper:
  assumes fol: "follows height d (finality_depth args) s gs"
    and gen: "generateStreamToAppend s d es args = Inr g"
    and wf: "fetch_wf (newLastFromBlock args) (newLastToBlock args) es"
    and heights: "\<forall>e \<in> set es. blockNumber e = height (blockHash e)"
  defines "live \<equiv> live_after Map.empty gs"
  shows "proper_runs height live (runs_added s es args)"
    and "b \<in> set (admitted s es args) \<Longrightarrow> live_after live (runs_added s es args) (hash b) = Some b"
    and "b \<in> set (survivors s es args) \<Longrightarrow> live_after live (runs_added s es args) (hash b) = Some b"
proof -
  let ?rev = "reverted s es args" and ?adm = "admitted s es args" and ?sur = "survivors s es args"
  note w = survivors_reverted[of s es args]
  note inv = followsD(2)[OF fol, folded live_def]
  have own: "live (hash b) = Some b" if "b \<in> set (unconfirmedBlocks s)" for b
    unfolding live_def by (rule followsD(4)[OF fol that])
  have ok: "live_ok height live" unfolding live_def by (rule followsD(6)[OF fol])
  have asc: "ascending (unconfirmedBlocks s)" and bwf: "\<forall>b \<in> set (unconfirmedBlocks s). block_wf b"
    using inv by (simp_all add: cursor_inv_def)
  have hashes: "distinct (map hash (?sur @ ?rev))" using window_hashes[OF asc own] w by simp
  have at: "number b = height (hash b)" if "b \<in> set (unconfirmedBlocks s)" for b
    by (rule live_okD[OF ok own[OF that], THEN conjunct2, THEN conjunct1])
  have rev_ok: "\<forall>b \<in> set ?rev. block_wf b \<and> number b = height (hash b) \<and> live (hash b) \<noteq> None"
    using w bwf own at by auto
  have dist_rev: "distinct (map hash ?rev)" using hashes by simp
  note retr = proper_retractions[OF dist_rev rev_ok]
  let ?live1 = "live_after live (map retraction_run ?rev)"
  have dist_adm: "distinct (map hash ?adm)"
    using groups_distinct_hash[of es] unfolding admitted_def new_blocks_def by (rule distinct_map_filter)
  have adm_key: "key_of b \<in> live_keys es - key_of ` set ?sur" if "b \<in> set ?adm" for b
    unfolding admitted_keys[OF wf, symmetric] using that by (rule imageI)
  have adm_at: "number b = height (hash b)" if "b \<in> set ?adm" for b
    using adm_key[OF that] heights by (auto simp: live_keys_def)
  have fresh: "?live1 (hash b) = None" if b: "b \<in> set ?adm" for b
  proof (rule ccontr)
    assume "?live1 (hash b) \<noteq> None"
    then obtain c where c: "live (hash b) = Some c" "hash b \<notin> hash ` set ?rev"
      unfolding retr(2) by (auto split: if_splits)
    then have "hash c = hash b" "number c = height (hash b)" using live_okD[OF ok c(1)] by blast+
    then have key: "key_of c = key_of b" using adm_at[OF b] by simp
    have "key_of c \<in> key_of ` ran live" using c(1) by (intro imageI ranI)
    then have "key_of b \<in> key_of ` ran live" unfolding key .
    moreover have "getFromBlock s d (finality_depth args) \<le> fst (key_of b)"
      using adm_key[OF b] live_keys_range[OF wf] generate_accepts(1)[OF gen] by fastforce
    ultimately have "key_of b \<in> key_of ` set (unconfirmedBlocks s)" using inv unfolding cursor_inv_def by blast
    then obtain c' where c': "key_of b = key_of c'" "c' \<in> set (unconfirmedBlocks s)" by (rule imageE)
    have "c' \<notin> set ?rev" using c(2) c'(1) by auto
    then have "c' \<in> set ?sur" using w c'(2) by simp
    then have "key_of b \<in> key_of ` set ?sur" unfolding c'(1) by (rule imageI)
    then show False using adm_key[OF b] by simp
  qed
  have adm_ok: "\<forall>b \<in> set ?adm. block_wf b \<and> number b = height (hash b) \<and> ?live1 (hash b) = None"
    using admitted_wf[OF wf] adm_at fresh by blast
  show "proper_runs height live (runs_added s es args)"
    unfolding runs_added_def proper_runs_append using retr(1) proper_blocks(1)[OF dist_adm adm_ok] by blast
  show "live_after live (runs_added s es args) (hash b) = Some b" if "b \<in> set ?adm"
    unfolding runs_added_def using proper_blocks(2)[OF dist_adm adm_ok that] by simp
  show "live_after live (runs_added s es args) (hash b) = Some b" if b: "b \<in> set ?sur"
  proof -
    have "hash b \<notin> hash ` set ?rev" using hashes b by auto
    then have one: "?live1 (hash b) = Some b" unfolding retr(2) using own[of b] w b by simp
    then have "hash b \<notin> hash ` set ?adm" using fresh by force
    then show ?thesis unfolding runs_added_def using proper_blocks(3)[OF dist_adm adm_ok] one by simp
  qed
qed

text \<open>A fetched range as an honest sender describes it: a hash names one height, and an EVM log has at most four topics.\<close>

definition honest_logs :: "(string \<Rightarrow> int) \<Rightarrow> 'a log_event list \<Rightarrow> bool" where
  "honest_logs height es \<longleftrightarrow>
     (\<forall>e \<in> set es. blockNumber e = height (blockHash e) \<and> length (topics e) \<le> 4) \<and>
     (\<forall>e \<in> set es. \<forall>e' \<in> set es. blockNumber e = blockNumber e' \<longrightarrow> blockHash e = blockHash e')"

lemma honest_fetch:
  assumes "honest_logs height es" "\<forall>e \<in> set es. from \<le> blockNumber e \<and> blockNumber e \<le> to"
  shows "fetch_wf from to es"
  using assms unfolding honest_logs_def fetch_wf_def by metis

lemma window_topics:
  assumes "follows height d f s gs" "b \<in> set (unconfirmedBlocks s)" "e \<in> set (events b)"
  shows "length (topics e) \<le> 4"
proof -
  obtain g where "g \<in> set gs" "b = block_of_group g"
    using live_after_applied[OF followsD(4)[OF assms(1,2)]] by auto
  then show ?thesis using followsD(5)[OF assms(1)] assms(3) by simp
qed

lemma runs_added_topics:
  assumes "follows height d f s gs" "honest_logs height es" "g \<in> set (runs_added s es args)" "e \<in> set (events g)"
  shows "length (topics e) \<le> 4"
proof -
  consider b where "b \<in> set (reverted s es args)" "g = retraction_run b" | b where "b \<in> set (admitted s es args)" "g = block_run b"
    using assms(3) unfolding runs_added_def by auto
  then show ?thesis
  proof cases
    case 1
    then obtain x where "x \<in> set (events b)" "e = x\<lparr>removed := True\<rparr>" using assms(4) by auto
    moreover have "b \<in> set (unconfirmedBlocks s)" using 1(1) survivors_reverted[of s es args] by simp
    ultimately show ?thesis using window_topics[OF assms(1)] by simp
  next
    case 2
    have "b \<in> set (groupLogsPerBlock es)" using 2(1) by (simp add: admitted_def new_blocks_def)
    then have "e \<in> set es" using groups_events assms(4) 2(2) by auto
    then show ?thesis using assms(2) by (simp add: honest_logs_def)
  qed
qed

lemma follows_fresh: "follows height d f (fresh_last_sync ctx) []"
  using cursor_inv_fresh[of d f ctx] by (simp add: follows_def single_branch_def) (simp add: fresh_last_sync_def)

lemma follows_step:
  assumes fol: "follows height d (finality_depth args) s gs"
    and gen: "generateStreamToAppend s d es args = Inr g"
    and wf: "fetch_wf (newLastFromBlock args) (newLastToBlock args) es" and hon: "honest_logs height es"
    and bounds: "0 \<le> d" "0 \<le> finality_depth args" "newLastFromBlock args \<le> newLastToBlock args"
      "newLastToBlock args \<le> newLatestBlock args" "latestBlock s \<le> newLatestBlock args"
  shows "follows height d (finality_depth args) (newLastSync g) (gs @ runs_added s es args)"
proof -
  let ?live = "live_after Map.empty gs"
  have heights: "\<forall>e \<in> set es. blockNumber e = height (blockHash e)" using hon unfolding honest_logs_def by blast
  note added = runs_added_proper[OF fol gen wf heights]
  have ledger: "key_of ` ran (live_after ?live (runs_added s es args)) = ledger_after (key_of ` ran ?live) (eventStream g)"
    unfolding runs_added_stream[OF gen] by (rule ledger_of_runs[OF added(1) followsD(6)[OF fol]])
  have "b \<in> set (survivors s es args) \<or> b \<in> set (admitted s es args)" if "b \<in> set (unconfirmedBlocks (newLastSync g))" for b
    using that unfolding generate_accepts(3)[OF gen] by auto
  then have own: "live_after ?live (runs_added s es args) (hash b) = Some b" if "b \<in> set (unconfirmedBlocks (newLastSync g))" for b
    using that added(2,3) by blast
  have topics: "\<forall>g \<in> set (gs @ runs_added s es args). \<forall>e \<in> set (events g). length (topics e) \<le> 4"
    using followsD(5)[OF fol] runs_added_topics[OF fol hon] by auto
  show ?thesis
    unfolding follows_def live_after_simps(3) proper_runs_append ledger
  proof (intro conjI)
    show "\<forall>b \<in> set (unconfirmedBlocks (newLastSync g)). live_after ?live (runs_added s es args) (hash b) = Some b"
      using own by blast
  qed (rule followsD(1)[OF fol] added(1) cursor_inv_kept[OF gen followsD(2)[OF fol] wf bounds]
      single_branch_kept[OF gen followsD(2)[OF fol] wf followsD(3)[OF fol]] topics)+
qed

subsection \<open>The window of the table\<close>

lemma follows_one_per_height:
  assumes "follows height d f s gs"
  shows "one_per_height (live_after Map.empty gs)"
  unfolding one_per_height_def
proof (intro ballI impI)
  let ?live = "live_after Map.empty gs"
  fix b c assume bc: "b \<in> ran ?live" "c \<in> ran ?live" "number b = number c"
  obtain h where h: "?live h = Some b" using bc(1) by (auto simp: ran_def)
  obtain i where i: "?live i = Some c" using bc(2) by (auto simp: ran_def)
  have kb: "(number b, hash b) \<in> key_of ` ran ?live" by (rule imageI[OF bc(1)])
  have kc: "(number b, hash c) \<in> key_of ` ran ?live" unfolding bc(3) by (rule imageI[OF bc(2)])
  have "hash b = hash c" using followsD(3)[OF assms] kb kc unfolding single_branch_def by blast
  moreover have "hash b = h" "hash c = i"
    using live_okD[OF followsD(6)[OF assms] h] live_okD[OF followsD(6)[OF assms] i] by blast+
  ultimately have "h = i" by simp
  then show "b = c" using h i by simp
qed

text \<open>From the block to resume at on, the window of the stored tail is the window of the cursor.\<close>

lemma table_window:
  assumes fol: "follows height d f s gs" and "lo \<le> n" "c - n \<le> f" "getFromBlock s d f \<le> n"
  defines "w \<equiv> windowOfStoredStream (filter (\<lambda>e. lo \<le> blockNumber e) (concat (map events gs))) c f"
  shows "ascending w" "filter (\<lambda>b. n \<le> number b) w = filter (\<lambda>b. n \<le> number b) (unconfirmedBlocks s)"
proof -
  let ?live = "live_after Map.empty gs"
  note win = window_of_tail[OF followsD(1)[OF fol] follows_one_per_height[OF fol], of lo c f, folded w_def]
  show asc: "ascending w" using win by (rule conjunct1)
  have asc': "ascending (unconfirmedBlocks s)" using followsD(2)[OF fol] by (simp add: cursor_inv_def)
  have mem: "b \<in> set (unconfirmedBlocks s)" if b: "b \<in> ran ?live" "n \<le> number b" for b
  proof -
    have "key_of b \<in> key_of ` ran ?live" using b(1) by (rule imageI)
    moreover have "getFromBlock s d f \<le> fst (key_of b)" using assms(4) b(2) by simp
    ultimately have "key_of b \<in> key_of ` set (unconfirmedBlocks s)"
      using followsD(2)[OF fol] unfolding cursor_inv_def by blast
    then obtain b' where b': "key_of b = key_of b'" "b' \<in> set (unconfirmedBlocks s)" by (rule imageE)
    obtain h where h: "?live h = Some b" using b(1) by (auto simp: ran_def)
    have "hash b = h" using live_okD[OF followsD(6)[OF fol] h] by blast
    then have "?live (hash b') = Some b" using h b'(1) by simp
    then have "b' = b" using followsD(4)[OF fol b'(2)] by simp
    then show ?thesis using b'(2) by simp
  qed
  have live_block: "b \<in> ran ?live" if "b \<in> set (unconfirmedBlocks s)" for b
    using followsD(4)[OF fol that] by (rule ranI)
  have "b \<in> set w \<longleftrightarrow> b \<in> set (unconfirmedBlocks s)" if "n \<le> number b" for b
    using win mem[OF _ that] live_block[of b] that assms(2,3) by auto
  then have "set (filter (\<lambda>b. n \<le> number b) w) = set (filter (\<lambda>b. n \<le> number b) (unconfirmedBlocks s))" by auto
  then show "filter (\<lambda>b. n \<le> number b) w = filter (\<lambda>b. n \<le> number b) (unconfirmedBlocks s)"
    by (intro ascending_unique sorted_wrt_filter asc asc')
qed

subsection \<open>The writer and the receiver that keeps its cursor\<close>

record stream_setup =
  su_context :: wire_context
  su_digest :: string
  su_hashes :: "source_hash_entry list"
  su_from :: int
  su_finality :: int
  su_indexer :: string

text \<open>The writer over the server's table, with nothing to deliver to, over a database that never fails.\<close>

definition table_writer :: "stream_setup \<Rightarrow> (unit, emission_db, unit, unit) stream_writer" where
  "table_writer U =
     \<lparr>sw_context = su_context U, sw_streamDigest = su_digest U, sw_sourceHashes = su_hashes U,
      sw_defaultFromBlock = su_from U, sw_finality = su_finality U,
      sw_readStreamCursor = (\<lambda>stream finality db. Inr (readStreamCursor db (su_indexer U) stream finality)),
      sw_appendEmissions = emissionAppenderFor (\<lambda>_. None) (su_indexer U),
      sw_recordReorg = None, sw_deliver = None\<rparr>"

text \<open>The folding receiver of the same source, whose processor keeps the cursor it is handed and nothing else.\<close>

definition cursor_keeper :: "stream_setup \<Rightarrow> (unit, unit, unit last_sync option, unit, unit, unit) stream_builder" where
  "cursor_keeper U =
     \<lparr>sb_context = su_context U, sb_streamDigest = su_digest U, sb_sourceHashes = su_hashes U,
      sb_defaultFromBlock = su_from U, sb_finality = su_finality U, sb_processorIdentity = [],
      sb_load = (\<lambda>p. (p, p)), sb_process = (\<lambda>es ls p. (Some ls, None)), sb_clear = (\<lambda>p. None),
      sb_appendEmissions = None, sb_recordReorg = None, sb_resolveGeneration = None\<rparr>"

fun answers :: "('b \<Rightarrow> 's \<Rightarrow> 'r \<times> 's) \<Rightarrow> 'b list \<Rightarrow> 's \<Rightarrow> 'r list" where
  "answers f [] s = []"
| "answers f (b # bs) s = fst (f b s) # answers f bs (snd (f b s))"

text \<open>An answer without the cursor in it, whose window the writer derives anew.\<close>

definition outcome :: "('x receive_error, 'a ingestion_result) result
    \<Rightarrow> ('x receive_error, 'a log_event list \<times> nat \<times> nat \<times> int \<times> reorg_detection option) result" where
  "outcome r = and_then r (\<lambda>a. Inr (ir_emissions a, ir_applied a, ir_retracted a, ir_expectedFromBlock a, ir_reorg a))"

abbreviation setup_key :: "stream_setup \<Rightarrow> stream_key" where
  "setup_key U \<equiv> (su_indexer U, su_digest U)"

definition keeper_context :: "stream_setup \<Rightarrow> context_identifier" where
  "keeper_context U =
     \<lparr>ctx_source = wire_source (su_context U), ctx_config = wire_config (su_context U), ctx_processor = []\<rparr>"

lemma own_context_keeper [simp]: "own_context (cursor_keeper U) = keeper_context U"
  by (simp add: own_context_def cursor_keeper_def keeper_context_def)

text \<open>What relates the table to the cursor that was kept.\<close>

definition cursor_stored :: "stream_setup \<Rightarrow> emission_db \<Rightarrow> unit last_sync option \<Rightarrow> unit last_sync \<Rightarrow> bool" where
  "cursor_stored U db kept s \<longleftrightarrow>
     (case readStreamCoverage db (setup_key U) of
        None \<Rightarrow> kept = None \<and> s = fresh_last_sync (keeper_context U)
      | Some c \<Rightarrow> kept = Some s \<and> context_id s = keeper_context U \<and>
          sc_latestBlock c = latestBlock s \<and> sc_lastFromBlock c = lastFromBlock s \<and> sc_lastToBlock c = lastToBlock s \<and>
          su_from U \<le> lastToBlock s)"

definition same_stream :: "(string \<Rightarrow> int) \<Rightarrow> stream_setup \<Rightarrow> emission_db \<Rightarrow> unit last_sync option \<Rightarrow> unit last_sync
    \<Rightarrow> unit stream_group list \<Rightarrow> bool" where
  "same_stream height U db kept s gs \<longleftrightarrow>
     cursor_stored U db kept s \<and> follows height (su_from U) (su_finality U) s gs \<and>
     holds_stream (rows_of (setup_key U) db) (concat (map events gs)) \<and> lastToBlock s \<le> latestBlock s \<and> 0 \<le> lastToBlock s"

lemma verdict_same: "verdictOn hashes hashes digestOf lastTo removal = Valid"
proof -
  have "filter (\<lambda>e. digestOf e \<notin> digestOf ` set hashes) hashes = []" by (simp add: filter_empty_conv)
  then show ?thesis by (simp add: verdictOn_def Let_def)
qed

lemma own_cursor_read:
  assumes "sb_load B = (\<lambda>p. (p, p))" "sb_resolveGeneration B = None"
    and "kept = None \<and> c = fresh_last_sync (own_context B) \<or> kept = Some c \<and> cursor_is_ours B c"
  shows "currentLastSync B \<lparr>ig_processor = kept, ig_stream = d, ig_container = k, ig_reorgs = r\<rparr> =
    (Inr c, \<lparr>ig_processor = kept, ig_stream = d, ig_container = k, ig_reorgs = r\<rparr>)"
  using assms by (auto simp: currentLastSync_def resolve_generation_def)

lemma keeper_cursor:
  assumes "cursor_stored U db kept s" "\<not> isWholeSourceContext (wire_source (su_context U))"
  shows "currentLastSync (cursor_keeper U) \<lparr>ig_processor = kept, ig_stream = (), ig_container = (), ig_reorgs = ()\<rparr> =
    (Inr s, \<lparr>ig_processor = kept, ig_stream = (), ig_container = (), ig_reorgs = ()\<rparr>)"
proof (rule own_cursor_read)
  have "cursor_is_ours (cursor_keeper U) c" if "context_id c = keeper_context U" for c
    using that assms(2)
    by (simp add: cursor_is_ours_def keeper_context_def cursor_keeper_def stateMatches_def sourceInvalidationOf_def
        Let_def verdict_same)
  then show "kept = None \<and> s = fresh_last_sync (own_context (cursor_keeper U)) \<or>
      kept = Some s \<and> cursor_is_ours (cursor_keeper U) s"
    using assms(1) by (auto simp: cursor_stored_def split: option.splits)
qed (simp_all add: cursor_keeper_def)

lemma raw_log_id: "length (topics e) \<le> 4 \<Longrightarrow> raw_log e = e" for e :: "unit log_event"
  by (simp add: raw_log_def)

lemma follows_raw:
  assumes "follows height d f s gs"
  shows "map raw_log (concat (map events gs)) = concat (map events gs)"
proof (rule map_idI)
  fix e assume "e \<in> set (concat (map events gs))"
  then obtain g where "g \<in> set gs" "e \<in> set (events g)" by auto
  then show "raw_log e = e" by (intro raw_log_id followsD(5)[OF assms])
qed

definition table_sync :: "stream_setup \<Rightarrow> emission_db \<Rightarrow> unit last_sync" where
  "table_sync U db =
     lastSyncOf (table_writer U)
       (readStreamCursor db (su_indexer U) (su_digest U) (su_finality U))"

lemma lastSyncOf_table:
  "lastSyncOf (table_writer U) (readStreamCursor db (su_indexer U) (su_digest U) (su_finality U)) = table_sync U db"
  by (simp add: table_sync_def lastSyncOf_def table_writer_def cong: option.case_cong)

text \<open>The cursor a writer reads from the table resumes where the kept one does, with the same window from there on.\<close>

lemma stored_cursor:
  assumes same: "same_stream height U db kept s gs" and nonneg: "0 \<le> su_from U" "0 \<le> su_finality U"
    and n: "getFromBlock s (su_from U) (su_finality U) \<le> n"
  defines "s' \<equiv> table_sync U db"
  shows "latestBlock s' = latestBlock s" "lastToBlock s' = lastToBlock s" "ascending (unconfirmedBlocks s')"
    "filter (\<lambda>b. n \<le> number b) (unconfirmedBlocks s') = filter (\<lambda>b. n \<le> number b) (unconfirmedBlocks s)"
proof -
  have st: "cursor_stored U db kept s" and fol: "follows height (su_from U) (su_finality U) s gs"
    and held: "holds_stream (rows_of (setup_key U) db) (concat (map events gs))"
    and tip: "lastToBlock s \<le> latestBlock s" "0 \<le> lastToBlock s"
    using same by (simp_all add: same_stream_def)
  have "((latestBlock s' = latestBlock s \<and> lastToBlock s' = lastToBlock s) \<and> ascending (unconfirmedBlocks s')) \<and>
      filter (\<lambda>b. n \<le> number b) (unconfirmedBlocks s') = filter (\<lambda>b. n \<le> number b) (unconfirmedBlocks s)"
  proof (cases "readStreamCoverage db (setup_key U)")
    case None
    then have "s = fresh_last_sync (keeper_context U)" using st by (simp add: cursor_stored_def)
    then show ?thesis
      using None by (simp add: s'_def table_sync_def table_writer_def lastSyncOf_def readStreamCursor_def fresh_last_sync_def Let_def)
  next
    case (Some c)
    then have cov: "sc_latestBlock c = latestBlock s" "sc_lastToBlock c = lastToBlock s"
      using st by (simp_all add: cursor_stored_def)
    let ?lo = "max 0 (lastToBlock s - su_finality U)"
    have tail: "readStoredStream db (setup_key U) ?lo = filter (\<lambda>e. ?lo \<le> blockNumber e) (concat (map events gs))"
      unfolding readStoredStream_held[OF held] follows_raw[OF fol] by (rule refl)
    have low: "?lo \<le> n" "lastToBlock s - n \<le> su_finality U"
      using n tip nonneg by (auto simp: getFromBlock_def split: if_splits)
    have eq: "latestBlock s' = latestBlock s" "lastToBlock s' = lastToBlock s"
      "unconfirmedBlocks s' = windowOfStoredStream (filter (\<lambda>e. ?lo \<le> blockNumber e) (concat (map events gs)))
         (lastToBlock s) (su_finality U)"
      unfolding s'_def table_sync_def lastSyncOf_def readStreamCursor_def Some cov option.case Let_def tail
      by (simp_all add: table_writer_def cov)
    show ?thesis
      using table_window[OF fol low n] unfolding eq by blast
  qed
  then show "latestBlock s' = latestBlock s" "lastToBlock s' = lastToBlock s" "ascending (unconfirmedBlocks s')"
    "filter (\<lambda>b. n \<le> number b) (unconfirmedBlocks s') = filter (\<lambda>b. n \<le> number b) (unconfirmedBlocks s)" by blast+
qed

abbreviation keeper_state :: "unit last_sync option \<Rightarrow> (unit last_sync option, unit, unit, unit) ingestion" where
  "keeper_state kept \<equiv> \<lparr>ig_processor = kept, ig_stream = (), ig_container = (), ig_reorgs = ()\<rparr>"

abbreviation table_state :: "emission_db \<Rightarrow> (emission_db, unit, unit) writer_state" where
  "table_state db \<equiv> \<lparr>ws_stream = db, ws_reorgs = (), ws_delivered = ()\<rparr>"

lemma keeper_folds:
  assumes "cursor_stored U db kept s" "\<not> isWholeSourceContext (wire_source (su_context U))"
    and "sameWireContext (Some (su_context U)) (wb_context b)" "assertWellFormed b = Inr es"
  shows "receive (cursor_keeper U) b (keeper_state kept) =
    (case generateStreamToAppend s (su_from U) es (batch_args b (su_finality U)) of
       Inl e \<Rightarrow> (Inl (Engine e), keeper_state kept)
     | Inr g \<Rightarrow> (Inr (ingestion_answer (su_from U) (su_finality U) g), keeper_state (Some (newLastSync g))))"
  using assms(3,4) unfolding receive_def keeper_cursor[OF assms(1,2)]
  by (simp add: cursor_keeper_def fold_delta_def storeStream_def noteReorg_def split: sum.splits)

lemma writer_appends:
  assumes "sameWireContext (Some (su_context U)) (wb_context b)" "assertWellFormed b = Inr es"
  shows "writer_receive (table_writer U) b (table_state db) =
    (case generateStreamToAppend (table_sync U db) (su_from U) es (batch_args b (su_finality U)) of
       Inl e \<Rightarrow> (Inl (Engine e), table_state db)
     | Inr g \<Rightarrow> writer_append (table_writer U) (readStreamCursor db (su_indexer U) (su_digest U) (su_finality U)) g
         (table_state db))"
proof -
  have "read_cursor (table_writer U) (table_state db) = Inr (readStreamCursor db (su_indexer U) (su_digest U) (su_finality U))"
    by (simp add: read_cursor_def table_writer_def)
  moreover have "sw_context (table_writer U) = su_context U" "sw_defaultFromBlock (table_writer U) = su_from U"
    "sw_finality (table_writer U) = su_finality U" by (simp_all add: table_writer_def)
  ultimately show ?thesis using assms by (simp add: writer_receive_def lastSyncOf_table cong: sum.case_cong)
qed

definition table_append :: "stream_setup \<Rightarrow> 'a generated \<Rightarrow> 'a emission_append" where
  "table_append U g =
     \<lparr>ea_key = setup_key U,
      ea_coverage = \<lparr>sc_source = su_hashes U, sc_config = wire_config (su_context U), sc_latestBlock = latestBlock (newLastSync g),
        sc_lastFromBlock = lastFromBlock (newLastSync g), sc_lastToBlock = lastToBlock (newLastSync g)\<rparr>,
      ea_emissions = eventStream g\<rparr>"

lemma table_write:
  assumes "\<forall>c. stored = Some c \<longrightarrow> lastFromBlock (newLastSync g) \<le> cr_lastToBlock c + 1"
  shows "writer_append (table_writer U) stored g (table_state db) =
    (Inr (ingestion_answer (su_from U) (su_finality U) g), table_state (appendEmissions (table_append U g) db))"
  using assms
  by (auto simp: writer_append_def writer_storeStream_def table_writer_def emissionAppenderFor_def coverage_write_def
      table_append_def noteReorg_def writer_deliver_def Let_def split: option.splits)

lemma cursor_stored_append:
  assumes "context_id (newLastSync g) = keeper_context U" "su_from U \<le> lastToBlock (newLastSync g)"
    and same: "latestBlock (newLastSync g') = latestBlock (newLastSync g)" "lastFromBlock (newLastSync g') = lastFromBlock (newLastSync g)"
      "lastToBlock (newLastSync g') = lastToBlock (newLastSync g)"
  shows "cursor_stored U (appendEmissions (table_append U g') db) (Some (newLastSync g)) (newLastSync g)"
  using assms
  by (simp add: cursor_stored_def readStreamCoverage_def appendEmissions_def coverageUpsertOf_def table_append_def Let_def)

lemma answers_agree_step:
  assumes same: "same_stream height U db kept s gs" and nonneg: "0 \<le> su_from U" "0 \<le> su_finality U"
    and own: "\<not> isWholeSourceContext (wire_source (su_context U))"
    and hon: "\<forall>es. wb_logs b = Some es \<longrightarrow> honest_logs height es" and tip: "latestBlock s \<le> whole (wb_latestBlock b)"
  obtains db' kept' s' gs' where
    "snd (writer_receive (table_writer U) b (table_state db)) = table_state db'"
    "snd (receive (cursor_keeper U) b (keeper_state kept)) = keeper_state kept'"
    "outcome (fst (writer_receive (table_writer U) b (table_state db))) = outcome (fst (receive (cursor_keeper U) b (keeper_state kept)))"
    "same_stream height U db' kept' s' gs'" "latestBlock s' \<le> whole (wb_latestBlock b)"
proof (cases "sameWireContext (Some (su_context U)) (wb_context b)")
  case False
  then have "receive (cursor_keeper U) b (keeper_state kept) = (Inl (Engine WireContextMismatch), keeper_state kept)"
    "writer_receive (table_writer U) b (table_state db) = (Inl (Engine WireContextMismatch), table_state db)"
    by (simp_all add: receive_def writer_receive_def cursor_keeper_def table_writer_def)
  then show thesis using that same tip by (simp add: outcome_def)
next
  case ctx: True
  show thesis
  proof (cases "assertWellFormed b")
    case (Inl e)
    then have "receive (cursor_keeper U) b (keeper_state kept) = (Inl (Engine e), keeper_state kept)"
      "writer_receive (table_writer U) b (table_state db) = (Inl (Engine e), table_state db)"
      using ctx by (simp_all add: receive_def writer_receive_def cursor_keeper_def table_writer_def)
    then show thesis using that same tip by (simp add: outcome_def)
  next
    case (Inr es)
    let ?args = "batch_args b (su_finality U)"
    let ?stored = "readStreamCursor db (su_indexer U) (su_digest U) (su_finality U)"
    let ?s' = "table_sync U db"
    have st: "cursor_stored U db kept s" and fol: "follows height (su_from U) (finality_depth ?args) s gs"
      and held: "holds_stream (rows_of (setup_key U) db) (concat (map events gs))"
      and inside: "lastToBlock s \<le> latestBlock s" "0 \<le> lastToBlock s"
      using same by (simp_all add: same_stream_def batch_args_def)
    note keeper = keeper_folds[OF st own ctx Inr] and writer = writer_appends[OF ctx Inr, of db]
    note sc = stored_cursor[OF same nonneg]
    show thesis
    proof (cases "generateStreamToAppend s (su_from U) es ?args")
      case (Inl e)
      then have "generateStreamToAppend ?s' (su_from U) es ?args = Inl e"
        using sc(1,2)[OF order_refl] unfolding generate_closed by (auto simp: getFromBlock_def split: if_splits)
      then show thesis using that same tip Inl keeper writer by (simp add: outcome_def)
    next
      case gen: (Inr g)
      have wff: "newLastFromBlock ?args \<le> newLastToBlock ?args" "newLastToBlock ?args \<le> newLatestBlock ?args"
        "\<forall>e \<in> set es. newLastFromBlock ?args \<le> blockNumber e \<and> blockNumber e \<le> newLastToBlock ?args"
        "wb_logs b = Some es" "newLatestBlock ?args = whole (wb_latestBlock b)"
        using Inr unfolding assertWellFormed_Inr batch_args_def by auto
      have honest: "honest_logs height es" using hon wff(4) by blast
      have wf: "fetch_wf (newLastFromBlock ?args) (newLastToBlock ?args) es" by (rule honest_fetch[OF honest wff(3)])
      have start: "newLastFromBlock ?args = getFromBlock s (su_from U) (su_finality U)"
        using generate_accepts(1)[OF gen] by (simp add: batch_args_def)
      note sc' = sc[OF eq_refl[OF start[symmetric]]]
      have asc: "ascending (unconfirmedBlocks s)" using followsD(2)[OF fol] by (simp add: cursor_inv_def)
      obtain g' where g': "generateStreamToAppend ?s' (su_from U) es ?args = Inr g'" "eventStream g' = eventStream g"
        "reorg g' = reorg g" "latestBlock (newLastSync g') = latestBlock (newLastSync g)"
        "lastFromBlock (newLastSync g') = lastFromBlock (newLastSync g)" "lastToBlock (newLastSync g') = lastToBlock (newLastSync g)"
        by (rule generate_window[OF gen asc sc'(3,1,2,4) wf])
      have d: "su_from U \<le> newLastFromBlock ?args" unfolding start by (rule getFromBlock_ge_default)
      have "lastFromBlock (newLastSync g') \<le> cr_lastToBlock c + 1" if c: "?stored = Some c" for c
      proof -
        obtain cov where cov: "readStreamCoverage db (setup_key U) = Some cov" "cr_lastToBlock c = sc_lastToBlock cov"
          using c by (auto simp: readStreamCursor_def split: option.splits)
        then have "cr_lastToBlock c = lastToBlock s" "su_from U \<le> lastToBlock s"
          using st by (simp_all add: cursor_stored_def)
        then show ?thesis
          unfolding g'(5) generate_accepts(5)[OF gen] start using inside by (auto simp: getFromBlock_def)
      qed
      then have written: "writer_append (table_writer U) ?stored g' (table_state db) =
          (Inr (ingestion_answer (su_from U) (su_finality U) g'), table_state (appendEmissions (table_append U g') db))"
        by (intro table_write) blast
      have ctx_id: "context_id (newLastSync g) = keeper_context U"
        using st unfolding generate_accepts(7)[OF gen] by (auto simp: cursor_stored_def fresh_last_sync_def split: option.splits)
      have "cursor_stored U (appendEmissions (table_append U g') db) (Some (newLastSync g)) (newLastSync g)"
        using ctx_id d wff(1) by (intro cursor_stored_append g'(4-6)) (simp_all add: generate_accepts(4)[OF gen])
      moreover have "follows height (su_from U) (finality_depth ?args) (newLastSync g) (gs @ runs_added s es ?args)"
        by (rule follows_step[OF fol gen wf honest]) (use nonneg wff tip in \<open>simp_all add: batch_args_def\<close>)
      moreover have "holds_stream (rows_of (setup_key U) (appendEmissions (table_append U g') db))
          (concat (map events (gs @ runs_added s es ?args)))"
        using append_holds[OF held, of "table_append U g'"] runs_added_stream[OF gen] g'(2) by (simp add: table_append_def)
      ultimately have "same_stream height U (appendEmissions (table_append U g') db) (Some (newLastSync g)) (newLastSync g)
          (gs @ runs_added s es ?args)"
        using wff nonneg d unfolding same_stream_def generate_accepts(4,6)[OF gen] by (simp add: batch_args_def)
      moreover have "latestBlock (newLastSync g) \<le> whole (wb_latestBlock b)" unfolding generate_accepts(6)[OF gen] wff(5) by simp
      moreover have "outcome (Inr (ingestion_answer (su_from U) (su_finality U) g') :: (unit receive_error, unit ingestion_result) result) =
          outcome (Inr (ingestion_answer (su_from U) (su_finality U) g))"
        using g' by (simp add: outcome_def ingestion_answer_def getFromBlock_def)
      ultimately show thesis
        using that[of "appendEmissions (table_append U g') db" "Some (newLastSync g)" "newLastSync g" "gs @ runs_added s es ?args"]
          gen g'(1) keeper writer written by simp
    qed
  qed
qed

definition tips_advance :: "'a wire_batch list \<Rightarrow> bool" where
  "tips_advance batches \<longleftrightarrow> sorted (map (\<lambda>b. whole (wb_latestBlock b)) batches)"

lemma answers_agree:
  assumes "same_stream height U db kept s gs" "0 \<le> su_from U" "0 \<le> su_finality U"
    and "\<not> isWholeSourceContext (wire_source (su_context U))"
    and "\<forall>b \<in> set batches. \<forall>es. wb_logs b = Some es \<longrightarrow> honest_logs height es"
    and "tips_advance batches" "\<forall>b \<in> set batches. latestBlock s \<le> whole (wb_latestBlock b)"
  shows "map outcome (answers (writer_receive (table_writer U)) batches (table_state db)) =
    map outcome (answers (receive (cursor_keeper U)) batches (keeper_state kept))"
  using assms(1,5-7)
proof (induction batches arbitrary: db kept s gs)
  case Nil
  then show ?case by simp
next
  case (Cons b batches)
  have hon: "\<forall>es. wb_logs b = Some es \<longrightarrow> honest_logs height es" and tip: "latestBlock s \<le> whole (wb_latestBlock b)"
    using Cons.prems by simp_all
  show ?case
  proof (rule answers_agree_step[OF Cons.prems(1) assms(2-4) hon tip], goal_cases)
    case (1 db' kept' s' gs')
    have "\<forall>c \<in> set batches. latestBlock s' \<le> whole (wb_latestBlock c)"
      using 1(5) Cons.prems(3) by (auto simp: tips_advance_def)
    moreover have "tips_advance batches" using Cons.prems(3) by (simp add: tips_advance_def)
    ultimately show ?case using Cons.IH[OF 1(4)] Cons.prems(2) 1(1-3) by simp
  qed
qed

text \<open>
  C14. A writer needs no cursor of its own. A writer that keeps nothing between batches, and before each
  one derives where it stands and the window of unconfirmed blocks from the rows its table holds, gives
  for any list of batches, those it refuses included, the same emissions, the same counts of applied
  and retracted logs, the same reorgs, the same refusals and the same next block as the receiver of the
  same source that keeps its cursor, as long as the logs are of one chain at a time, a hash names one
  height and the tip does not go back.
\<close>

theorem stored_stream_is_cursor_enough:
  assumes "0 \<le> su_from U" "0 \<le> su_finality U" "\<not> isWholeSourceContext (wire_source (su_context U))"
    and "\<forall>b \<in> set batches. \<forall>es. wb_logs b = Some es \<longrightarrow> honest_logs height es"
    and "tips_advance batches" "\<forall>b \<in> set batches. 0 \<le> whole (wb_latestBlock b)"
  shows "map outcome (answers (writer_receive (table_writer U)) batches
      \<lparr>ws_stream = empty_db, ws_reorgs = (), ws_delivered = ()\<rparr>) =
    map outcome (answers (receive (cursor_keeper U)) batches
      \<lparr>ig_processor = None, ig_stream = (), ig_container = (), ig_reorgs = ()\<rparr>)"
proof (rule answers_agree[OF _ assms(1-5)])
  show "same_stream height U empty_db None (fresh_last_sync (keeper_context U)) []"
  proof -
    have "cursor_stored U empty_db None (fresh_last_sync (keeper_context U))"
      by (simp add: cursor_stored_def readStreamCoverage_def empty_db_def)
    moreover have "holds_stream (rows_of (setup_key U) empty_db) (concat (map events ([] :: unit stream_group list)))"
      using empty_holds by simp
    ultimately show ?thesis unfolding same_stream_def using follows_fresh by (simp add: fresh_last_sync_def)
  qed
  show "\<forall>b \<in> set batches. latestBlock (fresh_last_sync (keeper_context U)) \<le> whole (wb_latestBlock b)"
    using assms(6) by (simp add: fresh_last_sync_def)
qed

definition sample_setup :: stream_setup where
  "sample_setup =
     \<lparr>su_context = \<lparr>wire_source = [entry 0 ''h'' ''sh''], wire_config = ''c''\<rparr>, su_digest = ''s'', su_hashes = [],
      su_from = 0, su_finality = 3, su_indexer = ''main''\<rparr>"

definition reorg_batch :: "unit wire_batch" where
  "reorg_batch =
     \<lparr>wb_context = Some \<lparr>wire_source = [entry 0 ''h'' ''sh''], wire_config = ''c''\<rparr>, wb_fromBlock = Whole 2,
      wb_toBlock = Whole 7, wb_latestBlock = Whole 7, wb_logs = Some [sample_log 3 ''a3'' 0, sample_log 4 ''b4'' 0]\<rparr>"

definition sample_height :: "string \<Rightarrow> int" where
  "sample_height h = (if h = ''a3'' then 3 else 4)"

theorem stored_stream_is_cursor_enough_witness:
  "map outcome (answers (writer_receive (table_writer sample_setup)) [sample_batch, reorg_batch]
      \<lparr>ws_stream = empty_db, ws_reorgs = (), ws_delivered = ()\<rparr>) =
    [Inr ([sample_log 3 ''a3'' 0, sample_log 4 ''a4'' 0], 2, 0, 2, None),
     Inr ([(sample_log 4 ''a4'' 0)\<lparr>removed := True\<rparr>, sample_log 4 ''b4'' 0], 1, 1, 4,
       Some \<lparr>rd_cause = Contradiction, rd_blockNumber = 4, rd_blockHash = ''a4''\<rparr>)]"
proof -
  have "map outcome (answers (writer_receive (table_writer sample_setup)) [sample_batch, reorg_batch]
      \<lparr>ws_stream = empty_db, ws_reorgs = (), ws_delivered = ()\<rparr>) =
    map outcome (answers (receive (cursor_keeper sample_setup)) [sample_batch, reorg_batch]
      \<lparr>ig_processor = None, ig_stream = (), ig_container = (), ig_reorgs = ()\<rparr>)"
  proof (rule stored_stream_is_cursor_enough[where height = sample_height])
    show "\<forall>b \<in> set [sample_batch, reorg_batch]. \<forall>es. wb_logs b = Some es \<longrightarrow> honest_logs sample_height es"
      by (simp add: sample_batch_def reorg_batch_def honest_logs_def sample_height_def) (simp add: sample_log_def)
  qed (simp_all add: sample_setup_def tips_advance_def sample_batch_def reorg_batch_def entry_def)
  also have "\<dots> = [Inr ([sample_log 3 ''a3'' 0, sample_log 4 ''a4'' 0], 2, 0, 2, None),
     Inr ([(sample_log 4 ''a4'' 0)\<lparr>removed := True\<rparr>, sample_log 4 ''b4'' 0], 1, 1, 4,
       Some \<lparr>rd_cause = Contradiction, rd_blockNumber = 4, rd_blockHash = ''a4''\<rparr>)]"
    by (simp add: receive_eval cursor_keeper_def sample_setup_def reorg_batch_def cursor_is_ours_def stateMatches_def
        sourceInvalidationOf_def verdictOn_def noteReorg_def ingestion_answer_def outcome_def)
  finally show ?thesis .
qed

end
