(* ===== verification/Generation_Registry.thy ===== *)
theory Generation_Registry
  imports Prelude "HOL-Library.Word" "HOL-Library.Char_ord" "HOL-Library.List_Lexorder" "HOL-Library.Multiset"
begin

section \<open>The registry of generations\<close>

text \<open>
  \<open>packages/core/src/generation/registry.ts\<close>: the folds an indexer keeps, three slots that say what
  they are for, and the streams it holds on to. The registry decides on a snapshot and hands the
  decision to a port as one write, so an operation here is a plan (a function of the snapshot) and a
  commit. What a plan resolves besides its write is read off the snapshot the port decided from, as the
  closures of the source leave it behind.
\<close>

subsection \<open>Generations, slots and writes\<close>

record generation_id =
  gi_stream :: string
  gi_processor :: string

record generation_record = generation_id +
  gr_createdAt :: int

datatype slot_name = CanonicalSlot | SuccessorSlot | PredecessorSlot

definition SLOT_NAMES :: "slot_name list" where
  "SLOT_NAMES = [CanonicalSlot, SuccessorSlot, PredecessorSlot]"

type_synonym generation_slots = "slot_name \<rightharpoonup> generation_id"

text \<open>A slot that is not mentioned stays, one set to nothing is cleared.\<close>

type_synonym slot_assignment = "slot_name \<rightharpoonup> generation_id option"

record generation_caps =
  gc_maxGenerations :: jsnum
  gc_maxStreams :: jsnum

record registry_bounds =
  rb_maxGenerations :: int
  rb_maxStreams :: int

record registry_state =
  rs_generations :: "generation_record list"
  rs_slots :: generation_slots
  rs_keptStreams :: "string list"

record registry_write =
  rw_remove :: "generation_id list"
  rw_put :: "generation_record option"
  rw_bundle :: "8 word list option"
  rw_slots :: slot_assignment
  rw_keepStream :: "string option"
  rw_forgetStreams :: "string list"

datatype cap_name = MaxGenerations | MaxStreams

datatype 'x registry_error =
    InvalidStreamDigest
  | InvalidProcessorIdentity
  | EmptyBundle
  | InvalidCap cap_name
  | CapReached cap_name int generation_id "generation_id list" "string list"
  | UnknownGeneration generation_id
  | UnknownStream string
  | GenerationIsCanonical generation_id
  | PortFailed 'x

definition sameGeneration :: "'y generation_id_scheme \<Rightarrow> 'z generation_id_scheme \<Rightarrow> bool" where
  "sameGeneration a b \<longleftrightarrow> gi_stream a = gi_stream b \<and> gi_processor a = gi_processor b"

definition identityOf :: "'z generation_id_scheme \<Rightarrow> generation_id" where
  "identityOf g = \<lparr>gi_stream = gi_stream g, gi_processor = gi_processor g\<rparr>"

definition slotHolding :: "generation_slots \<Rightarrow> 'z generation_id_scheme \<Rightarrow> slot_name option" where
  "slotHolding slots g =
     find (\<lambda>name. case slots name of None \<Rightarrow> False | Some held \<Rightarrow> sameGeneration held g) SLOT_NAMES"

definition unslottedGenerations :: "generation_record list \<Rightarrow> generation_slots \<Rightarrow> generation_record list" where
  "unslottedGenerations gs slots = filter (\<lambda>r. slotHolding slots r = None) gs"

record displacement_runtime =
  dr_heldHere :: "generation_record \<Rightarrow> bool"
  dr_unheldIsCollectable :: bool

definition displacedBySuccessor :: "'z generation_id_scheme \<Rightarrow> generation_record list \<Rightarrow> generation_slots
    \<Rightarrow> displacement_runtime \<Rightarrow> generation_record list" where
  "displacedBySuccessor arriving gs slots runtime =
     (let holding = slotHolding slots arriving in
      if slots CanonicalSlot = None \<or> holding = Some CanonicalSlot \<or> holding = Some SuccessorSlot then []
      else sort_key (\<lambda>r. - gr_createdAt r)
        (filter (\<lambda>r. if sameGeneration r arriving then False
           else (case slotHolding slots r of
                   Some slot \<Rightarrow> slot = SuccessorSlot
                 | None \<Rightarrow> dr_unheldIsCollectable runtime \<or> dr_heldHere runtime r)) gs))"

text \<open>Sorting by a comparison function, stable as \<open>Array.prototype.sort\<close>.\<close>

fun insert_by :: "('a \<Rightarrow> 'a \<Rightarrow> int) \<Rightarrow> 'a \<Rightarrow> 'a list \<Rightarrow> 'a list" where
  "insert_by cmp x [] = [x]"
| "insert_by cmp x (y # ys) = (if cmp x y \<le> 0 then x # y # ys else y # insert_by cmp x ys)"

definition sort_by :: "('a \<Rightarrow> 'a \<Rightarrow> int) \<Rightarrow> 'a list \<Rightarrow> 'a list" where
  "sort_by cmp xs = foldr (insert_by cmp) xs []"

text \<open>\<open>localeCompare\<close> belongs to the host's collation, so it is an argument.\<close>

definition byAge :: "(string \<Rightarrow> string \<Rightarrow> int) \<Rightarrow> generation_record \<Rightarrow> generation_record \<Rightarrow> int" where
  "byAge collate a b =
     (let age = gr_createdAt a - gr_createdAt b; stream = collate (gi_stream a) (gi_stream b)
      in if age \<noteq> 0 then age else if stream \<noteq> 0 then stream else collate (gi_processor a) (gi_processor b))"

definition fetcherOf :: "(string \<Rightarrow> string \<Rightarrow> int) \<Rightarrow> generation_record list \<Rightarrow> string \<Rightarrow> generation_record option" where
  "fetcherOf collate gs stream =
     (case sort_by (byAge collate) (filter (\<lambda>r. gi_stream r = stream) gs) of [] \<Rightarrow> None | r # _ \<Rightarrow> Some r)"

definition clearSlotsNaming :: "generation_slots \<Rightarrow> generation_record list \<Rightarrow> slot_assignment" where
  "clearSlotsNaming slots removed_ones = (\<lambda>name.
     case slots name of
       None \<Rightarrow> None
     | Some held \<Rightarrow> if \<exists>g \<in> set removed_ones. sameGeneration g held then Some None else None)"

definition find_generation :: "generation_record list \<Rightarrow> generation_id \<Rightarrow> generation_record option" where
  "find_generation gs g = find (\<lambda>r. sameGeneration r g) gs"

definition resolveSlots :: "registry_state \<Rightarrow> slot_name \<rightharpoonup> generation_record" where
  "resolveSlots s = (\<lambda>name. case rs_slots s name of None \<Rightarrow> None | Some g \<Rightarrow> find_generation (rs_generations s) g)"

definition assertIdentity :: "'z generation_id_scheme \<Rightarrow> ('x registry_error, generation_id) result" where
  "assertIdentity g =
     (if gi_stream g = [] then Inl InvalidStreamDigest
      else if gi_processor g = [] then Inl InvalidProcessorIdentity else Inr (identityOf g))"

definition assertBundle :: "8 word list option \<Rightarrow> ('x registry_error, 8 word list option) result" where
  "assertBundle bundle = (if bundle = Some [] then Inl EmptyBundle else Inr bundle)"

fun at_least_one :: "jsnum \<Rightarrow> bool" where
  "at_least_one (Whole n) = (1 \<le> n)"
| "at_least_one NotWhole = False"

definition assertCaps :: "generation_caps \<Rightarrow> ('x registry_error, registry_bounds) result" where
  "assertCaps caps =
     (if \<not> at_least_one (gc_maxGenerations caps) then Inl (InvalidCap MaxGenerations)
      else if \<not> at_least_one (gc_maxStreams caps) then Inl (InvalidCap MaxStreams)
      else Inr \<lparr>rb_maxGenerations = whole (gc_maxGenerations caps), rb_maxStreams = whole (gc_maxStreams caps)\<rparr>)"

definition deletable :: "registry_state \<Rightarrow> generation_id list \<times> string list" where
  "deletable s =
     (let canonical = rs_slots s CanonicalSlot in
      (map identityOf (filter (\<lambda>r. case canonical of None \<Rightarrow> True | Some c \<Rightarrow> \<not> sameGeneration r c) (rs_generations s)),
       sort (filter (\<lambda>d. case canonical of None \<Rightarrow> True | Some c \<Rightarrow> gi_stream c \<noteq> d)
         (remdups (map gi_stream (rs_generations s))))))"

subsection \<open>Plans\<close>

definition blank_write :: registry_write where
  "blank_write =
     \<lparr>rw_remove = [], rw_put = None, rw_bundle = None, rw_slots = Map.empty, rw_keepStream = None, rw_forgetStreams = []\<rparr>"

definition create_found :: "generation_record \<Rightarrow> slot_name option \<Rightarrow> registry_state \<Rightarrow> registry_write" where
  "create_found found into s =
     (let keeping = blank_write\<lparr>rw_keepStream := Some (gi_stream found)\<rparr>; holding = slotHolding (rs_slots s) found in
      if rs_slots s CanonicalSlot = None then keeping\<lparr>rw_slots := [CanonicalSlot \<mapsto> Some (identityOf found)]\<rparr>
      else if into = Some SuccessorSlot \<and> holding = Some PredecessorSlot
      then keeping\<lparr>rw_slots := [SuccessorSlot \<mapsto> Some (identityOf found), PredecessorSlot \<mapsto> None]\<rparr>
      else
        (case into of
           None \<Rightarrow> keeping
         | Some slot \<Rightarrow> if holding \<noteq> None then keeping else keeping\<lparr>rw_slots := [slot \<mapsto> Some (identityOf found)]\<rparr>))"

definition newest_creation :: "generation_record list \<Rightarrow> int" where
  "newest_creation gs = foldl (\<lambda>high r. max high (gr_createdAt r)) 0 gs"

definition create_new :: "int \<Rightarrow> generation_id \<Rightarrow> slot_name option \<Rightarrow> 8 word list option \<Rightarrow> registry_state
    \<Rightarrow> generation_record \<times> registry_write" where
  "create_new now wanted into bundle s =
     (let record = \<lparr>gi_stream = gi_stream wanted, gi_processor = gi_processor wanted,
            gr_createdAt = max now (newest_creation (rs_generations s) + 1)\<rparr>;
          slots = (if rs_slots s CanonicalSlot = None then [CanonicalSlot \<mapsto> Some wanted]
                   else (case into of None \<Rightarrow> Map.empty | Some slot \<Rightarrow> [slot \<mapsto> Some wanted]))
      in (record, \<lparr>rw_remove = [], rw_put = Some record, rw_bundle = bundle, rw_slots = slots,
                   rw_keepStream = Some (gi_stream wanted), rw_forgetStreams = []\<rparr>))"

definition create_plan :: "registry_bounds \<Rightarrow> int \<Rightarrow> generation_id \<Rightarrow> slot_name option \<Rightarrow> 8 word list option \<Rightarrow> registry_state
    \<Rightarrow> ('x registry_error, generation_record \<times> registry_write) result" where
  "create_plan bounds now wanted into bundle s =
     (case find_generation (rs_generations s) wanted of
        Some found \<Rightarrow> Inr (found, create_found found into s)
      | None \<Rightarrow>
          (let (candidates, candidateStreams) = deletable s; streams = set (map gi_stream (rs_generations s)) in
           if int (length (rs_generations s)) + 1 > rb_maxGenerations bounds
           then Inl (CapReached MaxGenerations (rb_maxGenerations bounds) wanted candidates candidateStreams)
           else if gi_stream wanted \<notin> streams \<and> int (card streams) + 1 > rb_maxStreams bounds
           then Inl (CapReached MaxStreams (rb_maxStreams bounds) wanted candidates candidateStreams)
           else Inr (create_new now wanted into bundle s)))"

definition move_plan :: "generation_id \<Rightarrow> bool \<Rightarrow> registry_state
    \<Rightarrow> ('x registry_error, generation_record \<times> registry_write option) result" where
  "move_plan wanted assignPredecessor s =
     (case find_generation (rs_generations s) wanted of
        None \<Rightarrow> Inl (UnknownGeneration wanted)
      | Some found \<Rightarrow>
          (case rs_slots s CanonicalSlot of
             Some movedOff \<Rightarrow>
               if sameGeneration movedOff found then Inr (found, None)
               else
                 (let slots = [CanonicalSlot \<mapsto> Some (identityOf found)];
                      slots = (if assignPredecessor then slots(PredecessorSlot \<mapsto> Some (identityOf movedOff)) else slots);
                      slots = (if slotHolding (rs_slots s) found = Some SuccessorSlot then slots(SuccessorSlot \<mapsto> None) else slots)
                  in Inr (found, Some (blank_write\<lparr>rw_slots := slots\<rparr>)))
           | None \<Rightarrow>
               (let slots = [CanonicalSlot \<mapsto> Some (identityOf found)];
                    slots = (if slotHolding (rs_slots s) found = Some SuccessorSlot then slots(SuccessorSlot \<mapsto> None) else slots)
                in Inr (found, Some (blank_write\<lparr>rw_slots := slots\<rparr>)))))"

definition delete_plan :: "generation_id \<Rightarrow> bool \<Rightarrow> registry_state
    \<Rightarrow> ('x registry_error, (generation_record \<times> string option) \<times> registry_write) result" where
  "delete_plan wanted reapStream s =
     (case find_generation (rs_generations s) wanted of
        None \<Rightarrow> Inl (UnknownGeneration wanted)
      | Some found \<Rightarrow>
          if (case rs_slots s CanonicalSlot of None \<Rightarrow> False | Some c \<Rightarrow> sameGeneration found c)
          then Inl (GenerationIsCanonical wanted)
          else
            (let reaped = (if reapStream \<and> length (filter (\<lambda>r. gi_stream r = gi_stream found) (rs_generations s)) = 1
                           then Some (gi_stream found) else None)
             in Inr ((found, reaped),
                  blank_write\<lparr>rw_remove := [identityOf found],
                    rw_forgetStreams := (case reaped of None \<Rightarrow> [] | Some d \<Rightarrow> [d]),
                    rw_slots := clearSlotsNaming (rs_slots s) [found]\<rparr>)))"

definition deleteStream_plan :: "(string \<Rightarrow> string \<Rightarrow> int) \<Rightarrow> string \<Rightarrow> registry_state
    \<Rightarrow> ('x registry_error, generation_record list \<times> registry_write) result" where
  "deleteStream_plan collate digest s =
     (let folders = sort_by (byAge collate) (filter (\<lambda>r. gi_stream r = digest) (rs_generations s)) in
      if folders = [] \<and> digest \<notin> set (rs_keptStreams s) then Inl (UnknownStream digest)
      else
        (case rs_slots s CanonicalSlot of
           Some c \<Rightarrow>
             if gi_stream c = digest then Inl (GenerationIsCanonical c)
             else Inr (folders, blank_write\<lparr>rw_remove := map identityOf folders, rw_forgetStreams := [digest],
                    rw_slots := clearSlotsNaming (rs_slots s) folders\<rparr>)
         | None \<Rightarrow> Inr (folders, blank_write\<lparr>rw_remove := map identityOf folders, rw_forgetStreams := [digest],
                    rw_slots := clearSlotsNaming (rs_slots s) folders\<rparr>)))"

subsection \<open>What a commit writes\<close>

text \<open>\<open>GenerationRegistryWrite\<close> as its documentation reads: removals first, then the record, the streams and the slots.\<close>

definition put_record :: "generation_record \<Rightarrow> generation_record list \<Rightarrow> generation_record list" where
  "put_record r gs =
     (if \<exists>x \<in> set gs. sameGeneration x r then map (\<lambda>x. if sameGeneration x r then r else x) gs else gs @ [r])"

definition remove_records :: "generation_id list \<Rightarrow> generation_record list \<Rightarrow> generation_record list" where
  "remove_records ids gs = filter (\<lambda>r. \<not> (\<exists>g \<in> set ids. sameGeneration r g)) gs"

definition assign_slots :: "slot_assignment \<Rightarrow> generation_slots \<Rightarrow> generation_slots" where
  "assign_slots a slots = (\<lambda>name. case a name of None \<Rightarrow> slots name | Some v \<Rightarrow> v)"

definition keep_streams :: "registry_write \<Rightarrow> string list \<Rightarrow> string list" where
  "keep_streams w kept =
     filter (\<lambda>d. d \<notin> set (rw_forgetStreams w))
       (case rw_keepStream w of None \<Rightarrow> kept | Some d \<Rightarrow> if d \<in> set kept then kept else kept @ [d])"

definition apply_write :: "registry_write \<Rightarrow> registry_state \<Rightarrow> registry_state" where
  "apply_write w s =
     (let kept = remove_records (rw_remove w) (rs_generations s) in
      \<lparr>rs_generations = (case rw_put w of None \<Rightarrow> kept | Some r \<Rightarrow> put_record r kept),
       rs_slots = assign_slots (rw_slots w) (rs_slots s),
       rs_keptStreams = keep_streams w (rs_keptStreams s)\<rparr>)"

fun apply_planned :: "registry_write option \<Rightarrow> registry_state \<Rightarrow> registry_state" where
  "apply_planned None s = s"
| "apply_planned (Some w) s = apply_write w s"

subsection \<open>The registry over a port\<close>

type_synonym 'x plan = "registry_state \<Rightarrow> ('x registry_error, registry_write option) result"

text \<open>A commit answers the snapshot its plan last decided from.\<close>

record ('x, 'p) generation_port =
  gp_read :: "'p \<Rightarrow> ('x, registry_state) result"
  gp_commit :: "'x plan \<Rightarrow> 'p \<Rightarrow> ('x registry_error, registry_state) result \<times> 'p"
  gp_listStreamDigests :: "'p \<Rightarrow> ('x, string list) result"
  gp_dropStreamSubtree :: "string \<Rightarrow> 'p \<Rightarrow> ('x, nat) result \<times> 'p"
  gp_dropState :: "generation_id \<Rightarrow> 'p \<Rightarrow> ('x, unit) result \<times> 'p"
  gp_readStateCursor :: "generation_id \<Rightarrow> 'p \<Rightarrow> ('x, int option) result"
  gp_readBundle :: "generation_id \<Rightarrow> 'p \<Rightarrow> ('x, 8 word list option) result"

definition from_port :: "('x, 'a) result \<Rightarrow> ('x registry_error, 'a) result" where
  "from_port r = (case r of Inl x \<Rightarrow> Inl (PortFailed x) | Inr a \<Rightarrow> Inr a)"

fun sweep :: "('x, 'p) generation_port \<Rightarrow> string set \<Rightarrow> string list \<Rightarrow> string list \<Rightarrow> 'p
    \<Rightarrow> ('x registry_error, string list) result \<times> 'p" where
  "sweep P known [] swept p = (Inr swept, p)"
| "sweep P known (digest # digests) swept p =
     (if digest \<in> known then sweep P known digests swept p
      else
        (case gp_dropStreamSubtree P digest p of
           (Inl x, p') \<Rightarrow> (Inl (PortFailed x), p')
         | (Inr _, p') \<Rightarrow> sweep P known digests (swept @ [digest]) p'))"

definition openGenerationRegistry :: "('x, 'p) generation_port \<Rightarrow> generation_caps \<Rightarrow> 'p
    \<Rightarrow> ('x registry_error, registry_bounds \<times> string list) result \<times> 'p" where
  "openGenerationRegistry P caps p =
     (case assertCaps caps of
        Inl e \<Rightarrow> (Inl e, p)
      | Inr bounds \<Rightarrow>
          (case gp_read P p of
             Inl x \<Rightarrow> (Inl (PortFailed x), p)
           | Inr opening \<Rightarrow>
               (case gp_listStreamDigests P p of
                  Inl x \<Rightarrow> (Inl (PortFailed x), p)
                | Inr digests \<Rightarrow>
                    (case sweep P (set (map gi_stream (rs_generations opening)) \<union> set (rs_keptStreams opening)) digests [] p of
                       (Inl e, p') \<Rightarrow> (Inl e, p')
                     | (Inr swept, p') \<Rightarrow> (Inr (bounds, swept), p')))))"

definition planned :: "('x registry_error, 'r \<times> registry_write) result \<Rightarrow> ('x registry_error, registry_write option) result" where
  "planned r = and_then r (\<lambda>(_, w). Inr (Some w))"

definition create :: "('x, 'p) generation_port \<Rightarrow> registry_bounds \<Rightarrow> int \<Rightarrow> generation_id \<Rightarrow> slot_name option
    \<Rightarrow> 8 word list option \<Rightarrow> 'p \<Rightarrow> ('x registry_error, generation_record) result \<times> 'p" where
  "create P bounds now g slot octets p =
     (case assertIdentity g of
        Inl e \<Rightarrow> (Inl e, p)
      | Inr wanted \<Rightarrow>
          (case assertBundle octets of
             Inl e \<Rightarrow> (Inl e, p)
           | Inr bundle \<Rightarrow>
               (let decide = create_plan bounds now wanted slot bundle;
                    (r, p') = gp_commit P (\<lambda>s. planned (decide s)) p
                in (and_then r (\<lambda>s. and_then (decide s) (\<lambda>(record, _). Inr record)), p'))))"

definition moveCanonicalTo :: "('x, 'p) generation_port \<Rightarrow> generation_id \<Rightarrow> bool \<Rightarrow> 'p
    \<Rightarrow> ('x registry_error, generation_record) result \<times> 'p" where
  "moveCanonicalTo P g assignPredecessor p =
     (case assertIdentity g of
        Inl e \<Rightarrow> (Inl e, p)
      | Inr wanted \<Rightarrow>
          (let decide = move_plan wanted assignPredecessor;
               (r, p') = gp_commit P (\<lambda>s. and_then (decide s) (\<lambda>(_, w). Inr w)) p
           in (and_then r (\<lambda>s. and_then (decide s) (\<lambda>(record, _). Inr record)), p')))"

record generation_deletion =
  gd_generation :: generation_record
  gd_reaped :: "string option"
  gd_records :: "nat option"

definition deleteGeneration :: "('x, 'p) generation_port \<Rightarrow> generation_id \<Rightarrow> bool \<Rightarrow> 'p
    \<Rightarrow> ('x registry_error, generation_deletion) result \<times> 'p" where
  "deleteGeneration P g reapStream p =
     (case assertIdentity g of
        Inl e \<Rightarrow> (Inl e, p)
      | Inr wanted \<Rightarrow>
          (let decide = delete_plan wanted reapStream; (r, p1) = gp_commit P (\<lambda>s. planned (decide s)) p in
           case and_then r decide of
             Inl e \<Rightarrow> (Inl e, p1)
           | Inr ((found, reaped), _) \<Rightarrow>
               (case gp_dropState P (identityOf found) p1 of
                  (Inl x, p2) \<Rightarrow> (Inl (PortFailed x), p2)
                | (Inr _, p2) \<Rightarrow>
                    (case reaped of
                       None \<Rightarrow> (Inr \<lparr>gd_generation = found, gd_reaped = None, gd_records = None\<rparr>, p2)
                     | Some digest \<Rightarrow>
                         (case gp_dropStreamSubtree P digest p2 of
                            (Inl x, p3) \<Rightarrow> (Inl (PortFailed x), p3)
                          | (Inr n, p3) \<Rightarrow>
                              (Inr \<lparr>gd_generation = found, gd_reaped = Some digest, gd_records = Some n\<rparr>, p3))))))"

fun drop_states :: "('x, 'p) generation_port \<Rightarrow> generation_record list \<Rightarrow> 'p \<Rightarrow> ('x registry_error, unit) result \<times> 'p" where
  "drop_states P [] p = (Inr (), p)"
| "drop_states P (r # rs) p =
     (case gp_dropState P (identityOf r) p of (Inl x, p') \<Rightarrow> (Inl (PortFailed x), p') | (Inr _, p') \<Rightarrow> drop_states P rs p')"

definition deleteStream :: "('x, 'p) generation_port \<Rightarrow> (string \<Rightarrow> string \<Rightarrow> int) \<Rightarrow> string \<Rightarrow> 'p
    \<Rightarrow> ('x registry_error, generation_record list \<times> nat) result \<times> 'p" where
  "deleteStream P collate digest p =
     (let decide = deleteStream_plan collate digest; (r, p1) = gp_commit P (\<lambda>s. planned (decide s)) p in
      case and_then r decide of
        Inl e \<Rightarrow> (Inl e, p1)
      | Inr (folders, _) \<Rightarrow>
          (case drop_states P folders p1 of
             (Inl e, p2) \<Rightarrow> (Inl e, p2)
           | (Inr _, p2) \<Rightarrow>
               (case gp_dropStreamSubtree P digest p2 of
                  (Inl x, p3) \<Rightarrow> (Inl (PortFailed x), p3)
                | (Inr n, p3) \<Rightarrow> (Inr (folders, n), p3))))"

definition list_generations :: "('x, 'p) generation_port \<Rightarrow> (string \<Rightarrow> string \<Rightarrow> int) \<Rightarrow> 'p
    \<Rightarrow> ('x registry_error, generation_record list) result" where
  "list_generations P collate p = from_port (and_then (gp_read P p) (\<lambda>s. Inr (sort_by (byAge collate) (rs_generations s))))"

definition registry_streams :: "('x, 'p) generation_port \<Rightarrow> 'p \<Rightarrow> ('x registry_error, string list) result" where
  "registry_streams P p = from_port (and_then (gp_read P p) (\<lambda>s. Inr (sort (remdups (map gi_stream (rs_generations s))))))"

definition registry_keptStreams :: "('x, 'p) generation_port \<Rightarrow> 'p \<Rightarrow> ('x registry_error, string list) result" where
  "registry_keptStreams P p = from_port (and_then (gp_read P p) (\<lambda>s. Inr (sort (rs_keptStreams s))))"

definition registry_slots :: "('x, 'p) generation_port \<Rightarrow> 'p \<Rightarrow> ('x registry_error, slot_name \<rightharpoonup> generation_record) result" where
  "registry_slots P p = from_port (and_then (gp_read P p) (\<lambda>s. Inr (resolveSlots s)))"

definition registry_canonical :: "('x, 'p) generation_port \<Rightarrow> 'p \<Rightarrow> ('x registry_error, generation_record option) result" where
  "registry_canonical P p = from_port (and_then (gp_read P p) (\<lambda>s. Inr (resolveSlots s CanonicalSlot)))"

definition registry_fetcherOf :: "('x, 'p) generation_port \<Rightarrow> (string \<Rightarrow> string \<Rightarrow> int) \<Rightarrow> string \<Rightarrow> 'p
    \<Rightarrow> ('x registry_error, generation_record option) result" where
  "registry_fetcherOf P collate stream p =
     from_port (and_then (gp_read P p) (\<lambda>s. Inr (fetcherOf collate (rs_generations s) stream)))"

definition registry_readStateCursor :: "('x, 'p) generation_port \<Rightarrow> generation_id \<Rightarrow> 'p
    \<Rightarrow> ('x registry_error, int option) result" where
  "registry_readStateCursor P g p = and_then (assertIdentity g) (\<lambda>wanted. from_port (gp_readStateCursor P wanted p))"

definition registry_bundleOf :: "('x, 'p) generation_port \<Rightarrow> generation_id \<Rightarrow> 'p
    \<Rightarrow> ('x registry_error, 8 word list option) result" where
  "registry_bundleOf P g p = and_then (assertIdentity g) (\<lambda>wanted. from_port (gp_readBundle P wanted p))"

subsection \<open>Well-formed registries\<close>

definition registry_wf :: "registry_bounds \<Rightarrow> registry_state \<Rightarrow> bool" where
  "registry_wf bounds s \<longleftrightarrow>
     distinct (map identityOf (rs_generations s)) \<and> distinct (map gr_createdAt (rs_generations s)) \<and>
     (\<forall>name g. rs_slots s name = Some g \<longrightarrow> g \<in> identityOf ` set (rs_generations s)) \<and>
     (\<forall>name name' g. rs_slots s name = Some g \<longrightarrow> rs_slots s name' = Some g \<longrightarrow> name = name') \<and>
     (rs_generations s \<noteq> [] \<longrightarrow> rs_slots s CanonicalSlot \<noteq> None) \<and>
     gi_stream ` set (rs_generations s) \<subseteq> set (rs_keptStreams s) \<and>
     int (length (rs_generations s)) \<le> rb_maxGenerations bounds \<and>
     int (card (gi_stream ` set (rs_generations s))) \<le> rb_maxStreams bounds"

text \<open>Two snapshots that list the same, each in its own order.\<close>

definition registry_same :: "registry_state \<Rightarrow> registry_state \<Rightarrow> bool" where
  "registry_same s t \<longleftrightarrow>
     mset (rs_generations s) = mset (rs_generations t) \<and> rs_slots s = rs_slots t \<and>
     set (rs_keptStreams s) = set (rs_keptStreams t)"

lemma sameGeneration_iff: "sameGeneration a b \<longleftrightarrow> identityOf a = identityOf b"
  by (simp add: sameGeneration_def identityOf_def)

lemma identityOf_id [simp]: "identityOf g = g" for g :: generation_id
  by (cases g) (simp add: identityOf_def)

lemma identityOf_simps [simp]:
  "gi_stream (identityOf g) = gi_stream g" "gi_processor (identityOf g) = gi_processor g" "identityOf (identityOf g) = identityOf g"
  by (simp_all add: identityOf_def)

lemma identityOf_make [simp]:
  "identityOf \<lparr>gi_stream = a, gi_processor = b, gr_createdAt = t\<rparr> = \<lparr>gi_stream = a, gi_processor = b\<rparr>"
  by (simp add: identityOf_def)

lemma identityOf_stream: "identityOf a = identityOf b \<Longrightarrow> gi_stream a = gi_stream b"
  by (simp add: identityOf_def)

lemma all_slots: "(\<forall>name. Q name) \<longleftrightarrow> Q CanonicalSlot \<and> Q SuccessorSlot \<and> Q PredecessorSlot"
  by (metis slot_name.exhaust)

lemma slotHolding_None: "slotHolding slots g = None \<longleftrightarrow> (\<forall>name. slots name \<noteq> Some (identityOf g))"
  by (auto simp: slotHolding_def SLOT_NAMES_def sameGeneration_iff all_slots split: option.splits)

lemma slotHolding_Some: "slotHolding slots g = Some name \<Longrightarrow> slots name = Some (identityOf g)"
  by (auto simp: slotHolding_def SLOT_NAMES_def sameGeneration_iff split: option.splits if_splits)

lemma slotHolding_iff:
  assumes "\<forall>name name' g. slots name = Some g \<longrightarrow> slots name' = Some g \<longrightarrow> name = name'"
  shows "slotHolding slots g = Some name \<longleftrightarrow> slots name = Some (identityOf g)"
proof
  assume at: "slots name = Some (identityOf g)"
  then obtain name' where "slotHolding slots g = Some name'" using slotHolding_None[of slots g] by fastforce
  then show "slotHolding slots g = Some name" using slotHolding_Some[of slots g name'] at assms by blast
qed (rule slotHolding_Some)

lemma find_generation_Some:
  "find_generation gs g = Some r \<Longrightarrow> r \<in> set gs \<and> identityOf r = g"
  by (auto simp: find_generation_def find_Some_iff sameGeneration_iff)

lemma find_generation_None: "find_generation gs g = None \<longleftrightarrow> g \<notin> identityOf ` set gs"
  by (auto simp: find_generation_def find_None_iff sameGeneration_iff)

lemma newest_from:
  "n \<le> foldl (\<lambda>high r. max high (gr_createdAt r)) n gs \<and>
    (\<forall>r \<in> set gs. gr_createdAt r \<le> foldl (\<lambda>high r. max high (gr_createdAt r)) n gs)"
proof (induction gs arbitrary: n)
  case Nil
  then show ?case by simp
next
  case (Cons x gs)
  from Cons.IH[of "max n (gr_createdAt x)"] show ?case by simp
qed

lemma newest_creation_ge: "r \<in> set gs \<Longrightarrow> gr_createdAt r \<le> newest_creation gs"
  using newest_from[where n = 0 and gs = gs] unfolding newest_creation_def by blast

lemma registry_wfD:
  assumes "registry_wf bounds s"
  shows "distinct (map identityOf (rs_generations s))" "distinct (map gr_createdAt (rs_generations s))"
    "rs_slots s name = Some g \<Longrightarrow> g \<in> identityOf ` set (rs_generations s)"
    "rs_slots s name = Some g \<Longrightarrow> rs_slots s name' = Some g \<Longrightarrow> name = name'"
    "rs_generations s \<noteq> [] \<Longrightarrow> rs_slots s CanonicalSlot \<noteq> None"
    "gi_stream ` set (rs_generations s) \<subseteq> set (rs_keptStreams s)"
    "int (length (rs_generations s)) \<le> rb_maxGenerations bounds"
    "int (card (gi_stream ` set (rs_generations s))) \<le> rb_maxStreams bounds"
  using assms unfolding registry_wf_def by blast+

lemma wf_slotHolding:
  "registry_wf bounds s \<Longrightarrow> slotHolding (rs_slots s) g = Some name \<longleftrightarrow> rs_slots s name = Some (identityOf g)"
  by (rule slotHolding_iff) (auto dest: registry_wfD(4))

lemma registry_same_refl [simp]: "registry_same s s"
  by (simp add: registry_same_def)

lemma registry_same_sym: "registry_same s t \<Longrightarrow> registry_same t s"
  by (simp add: registry_same_def)

lemma registry_same_trans: "registry_same s t \<Longrightarrow> registry_same t u \<Longrightarrow> registry_same s u"
  by (simp add: registry_same_def)

lemma registry_wf_same: 
  assumes "registry_same s t" "registry_wf bounds s" shows "registry_wf bounds t"
proof -
  have m: "mset (rs_generations s) = mset (rs_generations t)" and sl: "rs_slots s = rs_slots t"
    and k: "set (rs_keptStreams s) = set (rs_keptStreams t)" using assms(1) by (simp_all add: registry_same_def)
  have maps: "mset (map f (rs_generations s)) = mset (map f (rs_generations t))" for f :: "generation_record \<Rightarrow> 'b"
    using m by simp
  have "distinct (map identityOf (rs_generations s)) = distinct (map identityOf (rs_generations t))"
    "distinct (map gr_createdAt (rs_generations s)) = distinct (map gr_createdAt (rs_generations t))"
    by (rule mset_eq_imp_distinct_iff[OF maps])+
  moreover have "set (rs_generations s) = set (rs_generations t)" using m by (rule mset_eq_setD)
  moreover have "length (rs_generations s) = length (rs_generations t)" using m by (rule mset_eq_length)
  moreover have "rs_generations s = [] \<longleftrightarrow> rs_generations t = []" using calculation(4) by (cases "rs_generations s"; cases "rs_generations t") auto
  ultimately show ?thesis
    using assms(2) unfolding registry_wf_def sl k by metis
qed

subsection \<open>Every plan keeps the registry well formed\<close>

lemma blank_write_simps [simp]:
  "rw_remove blank_write = []" "rw_put blank_write = None" "rw_slots blank_write = Map.empty"
  "rw_keepStream blank_write = None" "rw_forgetStreams blank_write = []"
  by (simp_all add: blank_write_def)

lemma keep_streams_set:
  "set (keep_streams w kept) =
    (set kept \<union> (case rw_keepStream w of None \<Rightarrow> {} | Some d \<Rightarrow> {d})) - set (rw_forgetStreams w)"
  by (auto simp: keep_streams_def split: option.splits)

lemma assign_slots_None [simp]: "assign_slots Map.empty slots = slots"
  by (simp add: assign_slots_def)

lemma assign_slots_upd: "assign_slots (a(name \<mapsto> v)) slots = (assign_slots a slots)(name := v)"
  by (auto simp: assign_slots_def)

lemma remove_records_Nil [simp]: "remove_records [] gs = gs"
  by (simp add: remove_records_def)

text \<open>A write that touches the slots and keeps a stream.\<close>

lemma slots_write_wf:
  assumes "registry_wf bounds s" "rw_remove w = []" "rw_put w = None" "rw_forgetStreams w = []"
    and "\<And>name g. assign_slots (rw_slots w) (rs_slots s) name = Some g \<Longrightarrow> g \<in> identityOf ` set (rs_generations s)"
    and "\<And>name name' g. assign_slots (rw_slots w) (rs_slots s) name = Some g \<Longrightarrow>
      assign_slots (rw_slots w) (rs_slots s) name' = Some g \<Longrightarrow> name = name'"
    and "rs_generations s \<noteq> [] \<Longrightarrow> assign_slots (rw_slots w) (rs_slots s) CanonicalSlot \<noteq> None"
  shows "registry_wf bounds (apply_write w s)"
proof -
  have "set (rs_keptStreams s) \<subseteq> set (keep_streams w (rs_keptStreams s))" by (auto simp: keep_streams_set assms(4))
  then have "gi_stream ` set (rs_generations s) \<subseteq> set (keep_streams w (rs_keptStreams s))"
    using registry_wfD(6)[OF assms(1)] by (rule subset_trans[rotated])
  then show ?thesis
    unfolding registry_wf_def apply_write_def Let_def assms(2,3) registry_state.simps option.case remove_records_Nil
    using registry_wfD(1,2,7,8)[OF assms(1)] assms(5-7) by blast
qed

lemma slots_inj_upd:
  assumes "\<And>name name' g. slots name = Some g \<Longrightarrow> slots name' = Some g \<Longrightarrow> name = name'"
    and "\<And>name. slots name \<noteq> Some g"
  shows "(slots(at \<mapsto> g)) name = Some h \<Longrightarrow> (slots(at \<mapsto> g)) name' = Some h \<Longrightarrow> name = name'"
  using assms(1)[of name h name'] assms(2) by (auto split: if_splits)

lemma slots_inj_clear:
  assumes "\<And>name name' g. slots name = Some g \<Longrightarrow> slots name' = Some g \<Longrightarrow> name = name'"
  shows "(slots(at := None)) name = Some h \<Longrightarrow> (slots(at := None)) name' = Some h \<Longrightarrow> name = name'"
  using assms[of name h name'] by (auto split: if_splits)

lemma create_found_wf:
  assumes wf: "registry_wf bounds s" and found: "find_generation (rs_generations s) wanted = Some found"
  shows "registry_wf bounds (apply_write (create_found found into s) s)"
proof -
  have at: "found \<in> set (rs_generations s)" using find_generation_Some[OF found] by blast
  then have can: "rs_slots s CanonicalSlot \<noteq> None" using registry_wfD(5)[OF wf] by force
  have held: "identityOf found \<in> identityOf ` set (rs_generations s)" using at by (rule imageI)
  have inj: "\<And>name name' g. rs_slots s name = Some g \<Longrightarrow> rs_slots s name' = Some g \<Longrightarrow> name = name'"
    by (rule registry_wfD(4)[OF wf])
  let ?k = "blank_write\<lparr>rw_keepStream := Some (gi_stream found)\<rparr>"
  consider (stay) "create_found found into s = ?k"
    | (rearm) "rs_slots s PredecessorSlot = Some (identityOf found)"
        "create_found found into s = ?k\<lparr>rw_slots := [SuccessorSlot \<mapsto> Some (identityOf found), PredecessorSlot \<mapsto> None]\<rparr>"
    | (assign) slot where "\<And>name. rs_slots s name \<noteq> Some (identityOf found)"
        "create_found found into s = ?k\<lparr>rw_slots := [slot \<mapsto> Some (identityOf found)]\<rparr>"
  proof (cases into)
    case None
    then show thesis using stay can by (simp add: create_found_def Let_def)
  next
    case (Some slot)
    consider "slot = SuccessorSlot" "slotHolding (rs_slots s) found = Some PredecessorSlot"
      | "slotHolding (rs_slots s) found = None"
      | "slotHolding (rs_slots s) found \<noteq> None" "\<not> (slot = SuccessorSlot \<and> slotHolding (rs_slots s) found = Some PredecessorSlot)"
      by blast
    then show thesis
    proof cases
      case 1
      then show thesis using rearm Some can slotHolding_Some[OF 1(2)] by (simp add: create_found_def Let_def)
    next
      case 2
      then show thesis using assign[of slot] Some can slotHolding_None[of "rs_slots s" found] by (simp add: create_found_def Let_def)
    next
      case 3
      then show thesis using stay Some can by (auto simp: create_found_def Let_def)
    qed
  qed
  then show ?thesis
  proof cases
    case stay
    show ?thesis unfolding stay
      by (rule slots_write_wf[OF wf]) (use registry_wfD(3,5)[OF wf] inj in \<open>simp_all\<close>)
  next
    case rearm
    have clear: "((rs_slots s)(PredecessorSlot := None)) name \<noteq> Some (identityOf found)" for name
      using inj[OF rearm(1), of name] by auto
    have slots: "assign_slots [SuccessorSlot \<mapsto> Some (identityOf found), PredecessorSlot \<mapsto> None] (rs_slots s) =
        (rs_slots s)(PredecessorSlot := None, SuccessorSlot \<mapsto> identityOf found)"
      by (simp add: assign_slots_upd fun_upd_twist)
    show ?thesis unfolding rearm(2)
    proof (rule slots_write_wf[OF wf], goal_cases)
      case (4 name g)
      then show ?case using registry_wfD(3)[OF wf, of name g] held by (auto simp: slots split: if_splits)
    next
      case (5 name name' g)
      show ?case
        by (rule slots_inj_upd[of "(rs_slots s)(PredecessorSlot := None)", OF slots_inj_clear[OF inj] clear])
          (use 5 in \<open>simp_all add: slots\<close>)
    next
      case 6
      then show ?case using can by (simp add: slots)
    qed simp_all
  next
    case (assign slot)
    have slots: "assign_slots [slot \<mapsto> Some (identityOf found)] (rs_slots s) = (rs_slots s)(slot \<mapsto> identityOf found)"
      by (simp add: assign_slots_upd)
    show ?thesis unfolding assign(2)
    proof (rule slots_write_wf[OF wf], goal_cases)
      case (4 name g)
      then show ?case using registry_wfD(3)[OF wf, of name g] held by (auto simp: slots split: if_splits)
    next
      case (5 name name' g)
      show ?case by (rule slots_inj_upd[of "rs_slots s", OF inj assign(1)]) (use 5 in \<open>simp_all add: slots\<close>)
    next
      case 6
      then show ?case using can by (simp add: slots)
    qed simp_all
  qed
qed

lemma create_new_wf:
  assumes wf: "registry_wf bounds s" and new: "wanted \<notin> identityOf ` set (rs_generations s)"
    and caps: "int (length (rs_generations s)) + 1 \<le> rb_maxGenerations bounds"
      "gi_stream wanted \<notin> gi_stream ` set (rs_generations s) \<longrightarrow>
         int (card (gi_stream ` set (rs_generations s))) + 1 \<le> rb_maxStreams bounds"
    and make: "create_new now wanted into bundle s = (r, w)"
  shows "registry_wf bounds (apply_write w s)"
proof -
  let ?gs = "rs_generations s"
  have r: "identityOf r = wanted" "gi_stream r = gi_stream wanted"
    "gr_createdAt r = max now (newest_creation ?gs + 1)"
    using make by (auto simp: create_new_def Let_def)
  have w: "rw_remove w = []" "rw_put w = Some r" "rw_keepStream w = Some (gi_stream wanted)" "rw_forgetStreams w = []"
    "rw_slots w = (if rs_slots s CanonicalSlot = None then [CanonicalSlot \<mapsto> Some wanted]
       else (case into of None \<Rightarrow> Map.empty | Some slot \<Rightarrow> [slot \<mapsto> Some wanted]))"
    using make by (auto simp: create_new_def Let_def)
  have "\<not> (\<exists>x \<in> set ?gs. sameGeneration x r)" using new by (auto simp: sameGeneration_iff r)
  then have gens: "rs_generations (apply_write w s) = ?gs @ [r]"
    by (simp add: apply_write_def w put_record_def)
  have unheld: "rs_slots s name \<noteq> Some wanted" for name using registry_wfD(3)[OF wf] new by blast
  have empty: "rs_slots s name = None" if "rs_slots s CanonicalSlot = None" for name
  proof -
    have "?gs = []" using registry_wfD(5)[OF wf] that by blast
    then show ?thesis using registry_wfD(3)[OF wf, of name] by (cases "rs_slots s name") auto
  qed
  obtain slots where slots: "rs_slots (apply_write w s) = slots" by blast
  consider "slots = rs_slots s" "rs_slots s CanonicalSlot \<noteq> None"
    | slot where "slots = (rs_slots s)(slot \<mapsto> wanted)" "rs_slots s CanonicalSlot \<noteq> None \<or> slot = CanonicalSlot"
    using slots by (auto simp: apply_write_def w assign_slots_upd split: if_splits option.splits)
  then have sl: "(\<forall>name g. slots name = Some g \<longrightarrow> g \<in> insert wanted (identityOf ` set ?gs)) \<and>
      (\<forall>name name' g. slots name = Some g \<longrightarrow> slots name' = Some g \<longrightarrow> name = name') \<and> slots CanonicalSlot \<noteq> None"
  proof cases
    case 1
    then show ?thesis using registry_wfD(3,4)[OF wf] by blast
  next
    case (2 slot)
    have "\<forall>name name' g. slots name = Some g \<longrightarrow> slots name' = Some g \<longrightarrow> name = name'"
    proof (intro allI impI)
      fix name name' g assume two: "slots name = Some g" "slots name' = Some g"
      have inj: "\<And>name name' g. rs_slots s name = Some g \<Longrightarrow> rs_slots s name' = Some g \<Longrightarrow> name = name'"
        by (rule registry_wfD(4)[OF wf])
      show "name = name'"
        by (rule slots_inj_upd[of "rs_slots s", OF inj unheld]) (use two 2(1) in \<open>simp_all\<close>)
    qed
    moreover have "g \<in> insert wanted (identityOf ` set ?gs)" if "slots name = Some g" for name g
      using that registry_wfD(3)[OF wf, of name g] unfolding 2(1) by (cases "name = slot") simp_all
    moreover have "slots CanonicalSlot \<noteq> None" using 2(2) unfolding 2(1) by auto
    ultimately show ?thesis by blast
  qed
  have "gr_createdAt r \<notin> gr_createdAt ` set ?gs" 
  proof
    assume "gr_createdAt r \<in> gr_createdAt ` set ?gs"
    then obtain x where "x \<in> set ?gs" "gr_createdAt x = gr_createdAt r" by auto
    then show False using newest_creation_ge[of x ?gs] by (simp add: r)
  qed
  moreover have "card (insert (gi_stream wanted) (gi_stream ` set ?gs)) \<le>
      card (gi_stream ` set ?gs) + (if gi_stream wanted \<in> gi_stream ` set ?gs then 0 else 1)"
    by (simp add: insert_absorb)
  then have "int (card (insert (gi_stream wanted) (gi_stream ` set ?gs))) \<le> rb_maxStreams bounds"
    using caps(2) registry_wfD(8)[OF wf] by (auto split: if_splits)
  moreover have "gi_stream ` set ?gs \<subseteq> set (rs_keptStreams (apply_write w s))" "gi_stream wanted \<in> set (rs_keptStreams (apply_write w s))"
    using registry_wfD(6)[OF wf] by (auto simp: apply_write_def keep_streams_set w)
  ultimately show ?thesis
    unfolding registry_wf_def gens slots
    using sl registry_wfD(1,2)[OF wf] new caps(1) by (simp add: r)
qed

lemma create_plan_wf:
  assumes "registry_wf bounds s" "create_plan bounds now wanted into bundle s = Inr (r, w)"
  shows "registry_wf bounds (apply_write w s)"
proof (cases "find_generation (rs_generations s) wanted")
  case (Some found)
  then show ?thesis using create_found_wf[OF assms(1) Some] assms(2) by (auto simp: create_plan_def)
next
  case None
  have "create_new now wanted into bundle s = (r, w) \<and> \<not> int (length (rs_generations s)) + 1 > rb_maxGenerations bounds \<and>
      \<not> (gi_stream wanted \<notin> set (map gi_stream (rs_generations s)) \<and>
         int (card (set (map gi_stream (rs_generations s)))) + 1 > rb_maxStreams bounds)"
    using assms(2) None by (auto simp: create_plan_def Let_def split: if_splits prod.splits)
  then show ?thesis
    using create_new_wf[OF assms(1), of wanted now into "bundle" r w] None by (auto simp: find_generation_None not_less)
qed

lemma move_plan_wf:
  assumes wf: "registry_wf bounds s" and plan: "move_plan wanted assignPredecessor s = Inr (r, w)"
    and safe: "assignPredecessor \<or> rs_slots s PredecessorSlot \<noteq> Some wanted"
  shows "registry_wf bounds (apply_planned w s)"
proof -
  obtain found where found: "find_generation (rs_generations s) wanted = Some found"
    using plan by (auto simp: move_plan_def split: option.splits)
  have at: "found \<in> set (rs_generations s)" "identityOf found = wanted" using find_generation_Some[OF found] by blast+
  then obtain can where can: "rs_slots s CanonicalSlot = Some can" using registry_wfD(5)[OF wf] by force
  note inj = registry_wfD(4)[OF wf]
  note named_held = registry_wfD(3)[OF wf]
  show ?thesis
  proof (cases "sameGeneration can found")
    case True
    then show ?thesis using plan found can wf by (simp add: move_plan_def)
  next
    case False
    then have off: "can \<noteq> wanted" using at(2) by (auto simp: sameGeneration_iff)
    let ?in = "slotHolding (rs_slots s) found = Some SuccessorSlot"
    define slots where "slots = (let a = (rs_slots s)(CanonicalSlot \<mapsto> wanted);
        b = (if assignPredecessor then a(PredecessorSlot \<mapsto> can) else a)
        in if ?in then b(SuccessorSlot := None) else b)"
    have w: "w = Some (blank_write\<lparr>rw_slots :=
        (let a = [CanonicalSlot \<mapsto> Some wanted]; b = (if assignPredecessor then a(PredecessorSlot \<mapsto> Some can) else a)
         in if ?in then b(SuccessorSlot \<mapsto> None) else b)\<rparr>)"
      using plan found can False at(2) by (auto simp: move_plan_def Let_def)
    have eq: "assign_slots (rw_slots (the w)) (rs_slots s) = slots"
      unfolding w slots_def by (simp add: Let_def assign_slots_upd)
    have suc: "rs_slots s SuccessorSlot \<noteq> Some wanted" if "\<not> ?in"
      using that wf_slotHolding[OF wf, of found SuccessorSlot] at(2) by simp
    have canpos: "rs_slots s SuccessorSlot \<noteq> Some can" "rs_slots s PredecessorSlot \<noteq> Some can"
      using inj[OF can] by auto
    have ps: "slots CanonicalSlot = Some wanted"
      "slots PredecessorSlot = (if assignPredecessor then Some can else rs_slots s PredecessorSlot)"
      "slots SuccessorSlot = (if ?in then None else rs_slots s SuccessorSlot)"
      by (simp_all add: slots_def Let_def)
    have three: "g \<in> identityOf ` set (rs_generations s) \<and> slots name' \<noteq> Some g \<or> name = name'"
      if "slots name = Some g" for name name' g
    proof -
      have sp: "rs_slots s SuccessorSlot = Some g \<Longrightarrow> rs_slots s PredecessorSlot \<noteq> Some g" using inj by blast
      have "slots name' \<noteq> Some g \<or> name = name'"
        using that ps suc canpos safe off sp by (cases name; cases name') (auto split: if_splits)
      moreover have "g \<in> identityOf ` set (rs_generations s)"
        using that ps named_held[of name g] named_held[OF can] at by (cases name) (auto split: if_splits)
      ultimately show ?thesis by blast
    qed
    have "g \<in> identityOf ` set (rs_generations s)" if "slots name = Some g" for name g
      using that ps named_held[of name g] named_held[OF can] at by (cases name) (auto split: if_splits)
    moreover have "name = name'" if "slots name = Some g" "slots name' = Some g" for name name' g
      using three[OF that(1), of name'] that(2) by blast
    moreover have "w = Some (the w)" "rw_remove (the w) = []" "rw_put (the w) = None" "rw_forgetStreams (the w) = []"
      unfolding w by simp_all
    ultimately show ?thesis
      using slots_write_wf[OF wf, of "the w"] eq ps(1) by (metis apply_planned.simps(2) option.distinct(1))
  qed
qed

lemma clear_naming: 
  "assign_slots (clearSlotsNaming slots gone) slots name =
    (case slots name of None \<Rightarrow> None | Some g \<Rightarrow> if g \<in> identityOf ` set gone then None else Some g)"
  by (auto simp: assign_slots_def clearSlotsNaming_def sameGeneration_iff image_iff split: option.splits)

text \<open>Removing generations none of which is canonical.\<close>

lemma removal_wf:
  assumes wf: "registry_wf bounds s" and sub: "set gone \<subseteq> set (rs_generations s)"
    and can: "\<And>g. rs_slots s CanonicalSlot = Some g \<Longrightarrow> g \<notin> identityOf ` set gone"
    and w: "rw_remove w = map identityOf gone" "rw_put w = None" "rw_keepStream w = None"
      "rw_slots w = clearSlotsNaming (rs_slots s) gone"
    and forgotten: "\<And>d. d \<in> set (rw_forgetStreams w) \<Longrightarrow> \<forall>r \<in> set (rs_generations s). gi_stream r = d \<longrightarrow> r \<in> set gone"
  shows "registry_wf bounds (apply_write w s)"
proof -
  let ?gs = "rs_generations s" and ?left = "remove_records (map identityOf gone) (rs_generations s)"
  note inj = registry_wfD(4)[OF wf]
  note named_held = registry_wfD(3)[OF wf]
  have left: "set ?left = {r \<in> set ?gs. identityOf r \<notin> identityOf ` set gone}"
    by (auto simp: remove_records_def sameGeneration_iff)
  have slots: "assign_slots (clearSlotsNaming (rs_slots s) gone) (rs_slots s) name = Some g \<longleftrightarrow>
      rs_slots s name = Some g \<and> g \<notin> identityOf ` set gone" for name g
    unfolding clear_naming by (auto split: option.splits)
  have kept: "gi_stream ` set ?left \<subseteq> set (keep_streams w (rs_keptStreams s))"
  proof (rule image_subsetI)
    fix r assume r: "r \<in> set ?left"
    then have "r \<in> set ?gs" "r \<notin> set gone" unfolding left by auto
    then have "gi_stream r \<notin> set (rw_forgetStreams w)" using forgotten by blast
    moreover have "gi_stream r \<in> set (rs_keptStreams s)" using registry_wfD(6)[OF wf] \<open>r \<in> set ?gs\<close> by blast
    ultimately show "gi_stream r \<in> set (keep_streams w (rs_keptStreams s))" by (simp add: keep_streams_set)
  qed
  have "set ?left \<subseteq> set ?gs" unfolding left by blast
  then have card: "card (gi_stream ` set ?left) \<le> card (gi_stream ` set ?gs)" by (intro card_mono image_mono) auto
  have dist: "distinct (map f ?gs) \<Longrightarrow> distinct (map f ?left)" for f :: "generation_record \<Rightarrow> 'b"
    unfolding remove_records_def by (rule distinct_map_filter)
  have len: "length ?left \<le> length ?gs" unfolding remove_records_def by (rule length_filter_le)
  have named: "g \<in> identityOf ` set ?left" if "rs_slots s name = Some g" "g \<notin> identityOf ` set gone" for name g
    using named_held[OF that(1)] that(2) unfolding left by auto
  have canonical: "assign_slots (clearSlotsNaming (rs_slots s) gone) (rs_slots s) CanonicalSlot \<noteq> None" if "?left \<noteq> []"
  proof -
    have "?gs \<noteq> []" using that by (auto simp: remove_records_def)
    then obtain g where "rs_slots s CanonicalSlot = Some g" using registry_wfD(5)[OF wf] by blast
    then show ?thesis using can[of g] by (simp add: clear_naming)
  qed
  have "registry_wf bounds \<lparr>rs_generations = ?left, rs_slots = assign_slots (clearSlotsNaming (rs_slots s) gone) (rs_slots s),
      rs_keptStreams = keep_streams w (rs_keptStreams s)\<rparr>"
    unfolding registry_wf_def registry_state.simps slots
    using dist[OF registry_wfD(1)[OF wf]] dist[OF registry_wfD(2)[OF wf]] named inj canonical kept
      registry_wfD(7,8)[OF wf] len card by (auto simp: slots)
  then show ?thesis by (simp add: apply_write_def w)
qed

lemma delete_plan_wf:
  assumes wf: "registry_wf bounds s" and plan: "delete_plan wanted reapStream s = Inr ((found, reaped), w)"
  shows "registry_wf bounds (apply_write w s)"
proof -
  have f: "find_generation (rs_generations s) wanted = Some found"
    "\<not> (case rs_slots s CanonicalSlot of None \<Rightarrow> False | Some c \<Rightarrow> sameGeneration found c)"
    "reaped = (if reapStream \<and> length (filter (\<lambda>r. gi_stream r = gi_stream found) (rs_generations s)) = 1
       then Some (gi_stream found) else None)"
    "w = blank_write\<lparr>rw_remove := [identityOf found],
       rw_forgetStreams := (case reaped of None \<Rightarrow> [] | Some d \<Rightarrow> [d]),
       rw_slots := clearSlotsNaming (rs_slots s) [found]\<rparr>"
    using plan by (auto simp: delete_plan_def Let_def split: option.splits if_splits)
  have at: "found \<in> set (rs_generations s)" using find_generation_Some[OF f(1)] by blast
  have alone: "r = found" if "reaped = Some d" "r \<in> set (rs_generations s)" "gi_stream r = d" for r d
  proof -
    have d: "d = gi_stream found" and one: "length (filter (\<lambda>r. gi_stream r = gi_stream found) (rs_generations s)) = 1"
      using that(1) f(3) by (auto split: if_splits)
    then obtain x where x: "filter (\<lambda>r. gi_stream r = gi_stream found) (rs_generations s) = [x]"
      by (auto simp: length_Suc_conv)
    have "r \<in> set (filter (\<lambda>r. gi_stream r = gi_stream found) (rs_generations s))"
      "found \<in> set (filter (\<lambda>r. gi_stream r = gi_stream found) (rs_generations s))" using that d at by simp_all
    then show ?thesis unfolding x by simp
  qed
  show ?thesis
  proof (rule removal_wf[OF wf, where gone = "[found]"])
    show "set [found] \<subseteq> set (rs_generations s)" using at by simp
    show "g \<notin> identityOf ` set [found]" if "rs_slots s CanonicalSlot = Some g" for g
      using f(2) that by (simp add: sameGeneration_iff)
    show "\<forall>r \<in> set (rs_generations s). gi_stream r = d \<longrightarrow> r \<in> set [found]" if "d \<in> set (rw_forgetStreams w)" for d
      using that alone by (auto simp: f(4) split: option.splits)
  qed (simp_all add: f(4))
qed

lemma set_insert_by: "set (insert_by cmp x xs) = insert x (set xs)"
  by (induction xs) auto

lemma set_sort_by [simp]: "set (sort_by cmp xs) = set xs"
  by (induction xs) (simp_all add: sort_by_def set_insert_by)

lemma deleteStream_plan_wf:
  assumes wf: "registry_wf bounds s" and plan: "deleteStream_plan collate digest s = Inr (folders, w)"
  shows "registry_wf bounds (apply_write w s)"
proof -
  have f: "set folders = {r \<in> set (rs_generations s). gi_stream r = digest}"
    "w = blank_write\<lparr>rw_remove := map identityOf folders, rw_forgetStreams := [digest],
       rw_slots := clearSlotsNaming (rs_slots s) folders\<rparr>"
    "\<And>c. rs_slots s CanonicalSlot = Some c \<Longrightarrow> gi_stream c \<noteq> digest"
    using plan by (auto simp: deleteStream_plan_def Let_def split: option.splits if_splits)
  show ?thesis
  proof (rule removal_wf[OF wf, where gone = folders])
    show "g \<notin> identityOf ` set folders" if "rs_slots s CanonicalSlot = Some g" for g
      using f(1) f(3)[OF that] by auto
  qed (use f in auto)
qed

lemma delete_plan_reaps:
  assumes "delete_plan wanted reapStream s = Inr ((found, Some digest), w)"
  shows "digest \<notin> gi_stream ` set (rs_generations (apply_write w s))"
proof
  assume "digest \<in> gi_stream ` set (rs_generations (apply_write w s))"
  then obtain r where r: "r \<in> set (rs_generations (apply_write w s))" "gi_stream r = digest" by auto
  have f: "find_generation (rs_generations s) wanted = Some found" "digest = gi_stream found"
    "length (filter (\<lambda>r. gi_stream r = gi_stream found) (rs_generations s)) = 1" "rw_remove w = [identityOf found]" "rw_put w = None"
    using assms by (auto simp: delete_plan_def Let_def split: option.splits if_splits)
  have "r \<in> set (rs_generations s)" "identityOf r \<noteq> identityOf found"
    using r(1) f(4,5) by (auto simp: apply_write_def remove_records_def sameGeneration_iff)
  moreover obtain x where x: "filter (\<lambda>r. gi_stream r = gi_stream found) (rs_generations s) = [x]"
    using f(3) by (auto simp: length_Suc_conv)
  ultimately have "r \<in> set [x]" "found \<in> set [x]"
    using find_generation_Some[OF f(1)] r(2) f(2) unfolding x[symmetric] by simp_all
  then show False using \<open>identityOf r \<noteq> identityOf found\<close> by simp
qed

lemma deleteStream_plan_reaps:
  assumes "deleteStream_plan collate digest s = Inr (folders, w)"
  shows "digest \<notin> gi_stream ` set (rs_generations (apply_write w s))"
  using assms
  by (auto simp: deleteStream_plan_def Let_def apply_write_def remove_records_def sameGeneration_iff image_iff
      split: option.splits if_splits)

definition names_no_predecessor :: "registry_write \<Rightarrow> bool" where
  "names_no_predecessor w \<longleftrightarrow> (\<forall>g. rw_slots w PredecessorSlot \<noteq> Some (Some g))"

lemma create_plan_predecessor:
  "create_plan bounds now wanted into bundle s = Inr (r, w) \<Longrightarrow> into \<noteq> Some PredecessorSlot \<Longrightarrow> names_no_predecessor w"
  by (auto simp: create_plan_def create_found_def create_new_def names_no_predecessor_def Let_def
      split: option.splits if_splits prod.splits)

lemma move_plan_predecessor:
  "move_plan wanted False s = Inr (r, Some w) \<Longrightarrow> names_no_predecessor w"
  by (auto simp: move_plan_def names_no_predecessor_def Let_def split: option.splits if_splits)

lemma delete_plan_predecessor:
  "delete_plan wanted reapStream s = Inr (x, w) \<Longrightarrow> names_no_predecessor w"
  "deleteStream_plan collate digest s = Inr (y, w) \<Longrightarrow> names_no_predecessor w"
  by (auto simp: delete_plan_def deleteStream_plan_def names_no_predecessor_def clearSlotsNaming_def Let_def
      split: option.splits if_splits)

text \<open>
  The invariant of a registry: well formed, and without a predecessor where the runtime keeps none.
\<close>

definition registry_inv :: "bool \<Rightarrow> registry_bounds \<Rightarrow> registry_state \<Rightarrow> bool" where
  "registry_inv keeps bounds s \<longleftrightarrow> registry_wf bounds s \<and> (keeps \<or> rs_slots s PredecessorSlot = None)"

lemma registry_inv_same: "registry_same s t \<Longrightarrow> registry_inv keeps bounds s \<Longrightarrow> registry_inv keeps bounds t"
  unfolding registry_inv_def using registry_wf_same by (auto simp: registry_same_def)

lemma apply_write_slots: "rs_slots (apply_write w s) = assign_slots (rw_slots w) (rs_slots s)"
  by (simp add: apply_write_def Let_def)

lemma no_predecessor_kept:
  "names_no_predecessor w \<Longrightarrow> rs_slots s PredecessorSlot = None \<Longrightarrow> rs_slots (apply_write w s) PredecessorSlot = None"
  by (cases "rw_slots w PredecessorSlot") (auto simp: names_no_predecessor_def apply_write_slots assign_slots_def)

lemma create_plan_inv:
  "registry_inv keeps bounds s \<Longrightarrow> create_plan bounds now wanted into bundle s = Inr (r, w) \<Longrightarrow>
    keeps \<or> into \<noteq> Some PredecessorSlot \<Longrightarrow> registry_inv keeps bounds (apply_write w s)"
  unfolding registry_inv_def using create_plan_wf create_plan_predecessor no_predecessor_kept by metis

lemma move_plan_inv:
  assumes "registry_inv keeps bounds s" "move_plan wanted keeps s = Inr (r, w)"
  shows "registry_inv keeps bounds (apply_planned w s)"
proof -
  have "registry_wf bounds (apply_planned w s)"
    using assms by (intro move_plan_wf[of bounds s wanted keeps r w]) (auto simp: registry_inv_def)
  moreover have "rs_slots (apply_planned w s) PredecessorSlot = None" if "\<not> keeps"
    using assms that by (cases w) (auto simp: registry_inv_def intro: no_predecessor_kept dest: move_plan_predecessor)
  ultimately show ?thesis by (cases keeps) (simp_all add: registry_inv_def)
qed

lemma delete_plan_inv:
  "registry_inv keeps bounds s \<Longrightarrow> delete_plan wanted reapStream s = Inr ((found, reaped), w) \<Longrightarrow> registry_inv keeps bounds (apply_write w s)"
  "registry_inv keeps bounds s \<Longrightarrow> deleteStream_plan collate digest s = Inr (folders, w) \<Longrightarrow> registry_inv keeps bounds (apply_write w s)"
  unfolding registry_inv_def using delete_plan_wf deleteStream_plan_wf delete_plan_predecessor no_predecessor_kept by metis+

subsection \<open>The interface of a port\<close>

text \<open>
  What the registry asks of a port, with \<open>state_of\<close> the snapshot its storage holds: a commit runs its
  plan on that snapshot and writes the decision whole or nothing, and the bytes a port drops are not
  part of the snapshot, except that a stream dropped may no longer be listed as kept.
\<close>

locale registry_port =
  fixes P :: "('x, 'p) generation_port" and state_of :: "'p \<Rightarrow> registry_state"
  assumes read_law: "gp_read P p = Inr s \<Longrightarrow> registry_same s (state_of p)"
    and commit_done: "gp_commit P plan p = (Inr s, p') \<Longrightarrow>
      registry_same s (state_of p) \<and> (\<exists>w. plan s = Inr w \<and> registry_same (state_of p') (apply_planned w s))"
    and commit_refused: "gp_commit P plan p = (Inl e, p') \<Longrightarrow>
      registry_same (state_of p') (state_of p) \<and>
      ((\<exists>x. e = PortFailed x) \<or> (\<exists>s. registry_same s (state_of p) \<and> plan s = Inl e))"
    and state_law: "gp_dropState P g p = (dropped, p') \<Longrightarrow> registry_same (state_of p') (state_of p)"
    and stream_law: "gp_dropStreamSubtree P digest p = (counted, p') \<Longrightarrow>
      rs_generations (state_of p') = rs_generations (state_of p) \<and> rs_slots (state_of p') = rs_slots (state_of p) \<and>
      set (rs_keptStreams (state_of p)) - {digest} \<subseteq> set (rs_keptStreams (state_of p')) \<and>
      set (rs_keptStreams (state_of p')) \<subseteq> set (rs_keptStreams (state_of p))"
begin

lemma dropped_stream_inv:
  assumes "registry_inv keeps bounds (state_of p)" "gp_dropStreamSubtree P digest p = (r, p')"
    and "digest \<notin> gi_stream ` set (rs_generations (state_of p))"
  shows "registry_inv keeps bounds (state_of p')"
proof -
  have "gi_stream ` set (rs_generations (state_of p)) \<subseteq> set (rs_keptStreams (state_of p'))"
    using assms(1,3) stream_law[OF assms(2)] unfolding registry_inv_def registry_wf_def by blast
  then show ?thesis using assms(1) stream_law[OF assms(2)] unfolding registry_inv_def registry_wf_def by simp
qed

lemma commit_inv:
  assumes "registry_inv keeps bounds (state_of p)" "gp_commit P plan p = (r, p')"
    and "\<And>s w. registry_inv keeps bounds s \<Longrightarrow> registry_same s (state_of p) \<Longrightarrow> plan s = Inr w \<Longrightarrow> registry_inv keeps bounds (apply_planned w s)"
  shows "registry_inv keeps bounds (state_of p')"
proof (cases r)
  case (Inl e)
  then have "registry_same (state_of p) (state_of p')"
    using commit_refused[of plan p e p'] assms(2) by (simp add: registry_same_sym)
  then show ?thesis using assms(1) by (rule registry_inv_same)
next
  case (Inr s)
  then obtain w where w: "registry_same s (state_of p)" "plan s = Inr w" "registry_same (state_of p') (apply_planned w s)"
    using commit_done[of plan p s p'] assms(2) by auto
  have "registry_inv keeps bounds s" using registry_same_sym[OF w(1)] assms(1) by (rule registry_inv_same)
  from assms(3)[OF this w(1,2)] show ?thesis by (rule registry_inv_same[OF registry_same_sym[OF w(3)]])
qed

lemma planned_commit:
  assumes "gp_commit P (\<lambda>s. planned (decide s)) p = (Inr s, p')" "decide s = Inr (x, w)"
  shows "registry_same (state_of p') (apply_write w s)"
  using commit_done[OF assms(1)] assms(2) by (simp add: planned_def)

lemma same_generations: "registry_same s t \<Longrightarrow> set (rs_generations s) = set (rs_generations t)"
  unfolding registry_same_def by (blast dest: mset_eq_setD)

lemma create_keeps:
  assumes "registry_inv keeps bounds (state_of p)" "create P bounds now g slot octets p = (r, p')"
    and names: "keeps \<or> slot \<noteq> Some PredecessorSlot"
  shows "registry_inv keeps bounds (state_of p')"
proof (cases "assertIdentity g :: ('x registry_error, generation_id) result")
  case (Inl e)
  then show ?thesis using assms by (simp add: create_def)
next
  case wanted: (Inr wanted)
  show ?thesis
  proof (cases "assertBundle octets :: ('x registry_error, 8 word list option) result")
    case (Inl e)
    then show ?thesis using assms wanted by (simp add: create_def)
  next
    case (Inr b)
    obtain r0 where "gp_commit P (\<lambda>s. planned (create_plan bounds now wanted slot b s)) p = (r0, p')"
      using assms(2) wanted Inr by (auto simp: create_def Let_def split: prod.splits)
    then show ?thesis
      by (rule commit_inv[OF assms(1)]) (auto simp: planned_def names intro: create_plan_inv[OF _ _ names])
  qed
qed

lemma moveCanonicalTo_keeps:
  assumes "registry_inv keeps bounds (state_of p)" "moveCanonicalTo P g keeps p = (r, p')"
  shows "registry_inv keeps bounds (state_of p')"
proof (cases "assertIdentity g :: ('x registry_error, generation_id) result")
  case (Inl e)
  then show ?thesis using assms by (simp add: moveCanonicalTo_def)
next
  case (Inr wanted)
  obtain r0 where "gp_commit P (\<lambda>s. and_then (move_plan wanted keeps s) (\<lambda>(_, w). Inr w)) p = (r0, p')"
    using assms(2) Inr by (auto simp: moveCanonicalTo_def Let_def split: prod.splits)
  then show ?thesis
    by (rule commit_inv[OF assms(1)]) (auto dest: move_plan_inv)
qed

lemma drop_states_keep:
  "drop_states P rs p = (r, p') \<Longrightarrow> registry_same (state_of p') (state_of p)"
proof (induction rs arbitrary: p)
  case Nil
  then show ?case by simp
next
  case (Cons x rs)
  obtain d q where d: "gp_dropState P (identityOf x) p = (d, q)" by fastforce
  have q: "registry_same (state_of q) (state_of p)" by (rule state_law[OF d])
  show ?case
  proof (cases d)
    case (Inl e)
    then show ?thesis using Cons.prems d q by simp
  next
    case (Inr u)
    then have "registry_same (state_of p') (state_of q)" using Cons.prems d by (intro Cons.IH) simp
    then show ?thesis using q by (rule registry_same_trans)
  qed
qed

lemma deleteGeneration_keeps:
  assumes "registry_inv keeps bounds (state_of p)" "deleteGeneration P g reaps p = (r, p')"
  shows "registry_inv keeps bounds (state_of p')"
proof (cases "assertIdentity g :: ('x registry_error, generation_id) result")
  case (Inl e)
  then show ?thesis using assms by (simp add: deleteGeneration_def)
next
  case (Inr wanted)
  obtain r0 p1 where commit: "gp_commit P (\<lambda>s. planned (delete_plan wanted reaps s)) p = (r0, p1)" by fastforce
  have wf1: "registry_inv keeps bounds (state_of p1)"
    using commit by (rule commit_inv[OF assms(1)]) (auto simp: planned_def dest: delete_plan_inv(1))
  show ?thesis
  proof (cases "and_then r0 (delete_plan wanted reaps)")
    case (Inl e)
    then show ?thesis using assms(2) \<open>assertIdentity g = Inr wanted\<close> commit wf1 by (simp add: deleteGeneration_def)
  next
    case decided: (Inr d)
    then obtain s found reaped w where s: "r0 = Inr s" "delete_plan wanted reaps s = (Inr ((found, reaped), w) :: ('x registry_error, _) result)"
      "d = ((found, reaped), w)"
      by (cases d) auto
    obtain dr p2 where dr: "gp_dropState P (identityOf found) p1 = (dr, p2)" by fastforce
    have same2: "registry_same (state_of p2) (state_of p1)" by (rule state_law[OF dr])
    have wf2: "registry_inv keeps bounds (state_of p2)" using registry_same_sym[OF same2] wf1 by (rule registry_inv_same)
    have step: "r0 = Inr s \<Longrightarrow> deleteGeneration P g reaps p =
        (case dr of Inl x \<Rightarrow> (Inl (PortFailed x), p2)
         | Inr _ \<Rightarrow> (case reaped of
             None \<Rightarrow> (Inr \<lparr>gd_generation = found, gd_reaped = None, gd_records = None\<rparr>, p2)
           | Some digest \<Rightarrow> (case gp_dropStreamSubtree P digest p2 of
               (Inl x, p3) \<Rightarrow> (Inl (PortFailed x), p3)
             | (Inr n, p3) \<Rightarrow> (Inr \<lparr>gd_generation = found, gd_reaped = Some digest, gd_records = Some n\<rparr>, p3))))"
      using \<open>assertIdentity g = Inr wanted\<close> commit s(2) dr
      by (simp add: deleteGeneration_def Let_def split: sum.splits)
    show ?thesis
    proof (cases "p' = p2")
      case True
      then show ?thesis using wf2 by simp
    next
      case False
      then obtain digest n where dig: "reaped = Some digest" "gp_dropStreamSubtree P digest p2 = (n, p')"
        using step[OF s(1)] assms(2) by (cases "gp_dropStreamSubtree P (the reaped) p2") (auto split: sum.splits option.splits prod.splits)
      have "gp_commit P (\<lambda>s. planned (delete_plan wanted reaps s)) p = (Inr s, p1)" using commit s(1) by simp
      then have "registry_same (state_of p1) (apply_write w s)" using s(2) by (rule planned_commit)
      then have "set (rs_generations (state_of p2)) = set (rs_generations (apply_write w s))"
        using same_generations[OF same2] same_generations by blast
      then show ?thesis using delete_plan_reaps[of wanted reaps s found digest w] s(2) dig(1)
        by (intro dropped_stream_inv[OF wf2 dig(2)]) simp
    qed
  qed
qed

lemma deleteStream_keeps:
  assumes "registry_inv keeps bounds (state_of p)" "deleteStream P collate digest p = (r, p')"
  shows "registry_inv keeps bounds (state_of p')"
proof -
  obtain r0 p1 where commit: "gp_commit P (\<lambda>s. planned (deleteStream_plan collate digest s)) p = (r0, p1)" by fastforce
  have wf1: "registry_inv keeps bounds (state_of p1)"
    using commit by (rule commit_inv[OF assms(1)]) (auto simp: planned_def dest: delete_plan_inv(2))
  show ?thesis
  proof (cases "and_then r0 (deleteStream_plan collate digest)")
    case (Inl e)
    then show ?thesis using assms(2) commit wf1 by (simp add: deleteStream_def)
  next
    case decided: (Inr d)
    then obtain s folders w where s: "r0 = Inr s"
      "deleteStream_plan collate digest s = (Inr (folders, w) :: ('x registry_error, _) result)" "d = (folders, w)"
      by (cases d) auto
    obtain dr p2 where dr: "drop_states P folders p1 = (dr, p2)" by fastforce
    have same2: "registry_same (state_of p2) (state_of p1)" by (rule drop_states_keep[OF dr])
    have wf2: "registry_inv keeps bounds (state_of p2)" using registry_same_sym[OF same2] wf1 by (rule registry_inv_same)
    have "gp_commit P (\<lambda>s. planned (deleteStream_plan collate digest s)) p = (Inr s, p1)" using commit s(1) by simp
    then have "registry_same (state_of p1) (apply_write w s)" using s(2) by (rule planned_commit)
    then have "set (rs_generations (state_of p2)) = set (rs_generations (apply_write w s))"
      using same_generations[OF same2] same_generations by blast
    then have gone: "digest \<notin> gi_stream ` set (rs_generations (state_of p2))" using deleteStream_plan_reaps[OF s(2)] by simp
    obtain n p3 where n: "gp_dropStreamSubtree P digest p2 = (n, p3)" by fastforce
    have "p' = p2 \<or> p' = p3"
      using assms(2) commit s dr n by (auto simp: deleteStream_def Let_def split: sum.splits)
    then show ?thesis using wf2 dropped_stream_inv[OF wf2 n gone] by blast
  qed
qed

lemma sweep_keeps:
  assumes "registry_inv keeps bounds (state_of p)" "gi_stream ` set (rs_generations (state_of p)) \<subseteq> known"
    and "sweep P known digests swept p = (r, p')"
  shows "registry_inv keeps bounds (state_of p') \<and> rs_generations (state_of p') = rs_generations (state_of p) \<and>
    rs_slots (state_of p') = rs_slots (state_of p)"
  using assms
proof (induction digests arbitrary: swept p)
  case Nil
  then show ?case by simp
next
  case (Cons digest digests)
  show ?case
  proof (cases "digest \<in> known")
    case True
    then show ?thesis using Cons.IH[of p swept] Cons.prems by simp
  next
    case False
    obtain n q where n: "gp_dropStreamSubtree P digest p = (n, q)" by fastforce
    have wf: "registry_inv keeps bounds (state_of q)"
      by (rule dropped_stream_inv[OF Cons.prems(1) n]) (use False Cons.prems(2) in blast)
    have same: "rs_generations (state_of q) = rs_generations (state_of p)" "rs_slots (state_of q) = rs_slots (state_of p)"
      using stream_law[OF n] by blast+
    show ?thesis
    proof (cases n)
      case (Inl x)
      then show ?thesis using Cons.prems(3) False n wf same by simp
    next
      case (Inr k)
      then show ?thesis using Cons.IH[OF wf, of "swept @ [digest]"] Cons.prems(2,3) False n same by simp
    qed
  qed
qed

end

subsection \<open>A life of a registry\<close>

datatype registry_op =
    CreateOp int generation_id "slot_name option" "8 word list option"
  | MoveOp generation_id bool
  | DeleteOp generation_id bool
  | DeleteStreamOp string

fun run_op :: "('x, 'p) generation_port \<Rightarrow> registry_bounds \<Rightarrow> (string \<Rightarrow> string \<Rightarrow> int) \<Rightarrow> registry_op \<Rightarrow> 'p \<Rightarrow> 'p" where
  "run_op P bounds collate (CreateOp now g slot octets) p = snd (create P bounds now g slot octets p)"
| "run_op P bounds collate (MoveOp g assigns) p = snd (moveCanonicalTo P g assigns p)"
| "run_op P bounds collate (DeleteOp g reaps) p = snd (deleteGeneration P g reaps p)"
| "run_op P bounds collate (DeleteStreamOp digest) p = snd (deleteStream P collate digest p)"

definition run_ops :: "('x, 'p) generation_port \<Rightarrow> registry_bounds \<Rightarrow> (string \<Rightarrow> string \<Rightarrow> int) \<Rightarrow> registry_op list \<Rightarrow> 'p \<Rightarrow> 'p" where
  "run_ops P bounds collate ops p = fold (run_op P bounds collate) ops p"

text \<open>
  A receiving container keeps a predecessor at every move of the pointer; the container of a browser
  keeps none, and nothing it does names that slot.
\<close>

fun op_of_runtime :: "bool \<Rightarrow> registry_op \<Rightarrow> bool" where
  "op_of_runtime keeps (MoveOp g assigns) = (assigns = keeps)"
| "op_of_runtime keeps (CreateOp now g slot octets) = (keeps \<or> slot \<noteq> Some PredecessorSlot)"
| "op_of_runtime keeps _ = True"

context registry_port
begin

lemma run_op_inv:
  assumes "registry_inv keeps bounds (state_of p)" "op_of_runtime keeps op"
  shows "registry_inv keeps bounds (state_of (run_op P bounds collate op p))"
proof (cases op)
  case (CreateOp now g slot octets)
  then show ?thesis
    using create_keeps[OF assms(1), of now g slot octets, OF surjective_pairing] assms(2) by simp
next
  case (MoveOp g assigns)
  then show ?thesis using moveCanonicalTo_keeps[OF assms(1), of g, OF surjective_pairing] assms(2) by simp
next
  case (DeleteOp g reaps)
  then show ?thesis using deleteGeneration_keeps[OF assms(1), of g reaps, OF surjective_pairing] by simp
next
  case (DeleteStreamOp digest)
  then show ?thesis using deleteStream_keeps[OF assms(1), of collate digest, OF surjective_pairing] by simp
qed

lemma run_ops_inv:
  assumes "registry_inv keeps bounds (state_of p)" "\<forall>op \<in> set ops. op_of_runtime keeps op"
  shows "registry_inv keeps bounds (state_of (run_ops P bounds collate ops p))"
  unfolding run_ops_def using assms
proof (induction ops arbitrary: p)
  case Nil
  then show ?case by simp
next
  case (Cons op ops)
  then show ?case using run_op_inv[OF Cons.prems(1), of op collate] by simp
qed

end

end
