(* ===== verification/Generation_Ports.thy ===== *)
theory Generation_Ports
  imports Generation_Registry Emission_Store
begin

section \<open>Where a registry is kept\<close>

text \<open>
  The two ports of a server: \<open>packages/core/src/generation/memory.ts\<close>, which keeps everything in maps,
  and \<open>packages/server/src/generations.ts\<close>, which keeps it in three tables and guards every write by a
  revision. Both are shown to be what the registry asks of a port, and the second to be one commit at
  a time however many writers share the database.
\<close>

subsection \<open>The port in memory\<close>

text \<open>
  A \<open>Map\<close> keeps the order its keys were first set in. The key of an entry is computed from its record,
  so it is not kept beside it; it joins the two parts of an identity with a character no digest
  contains, and is the pair here. What lies outside, the states of the folds, is the last component.
\<close>

record 'd memory_registry =
  mr_generations :: "(generation_record \<times> 8 word list option) list"
  mr_streams :: "string list"
  mr_slots :: generation_slots
  mr_outside :: 'd

record ('x, 'd) memory_options =
  mo_dropState :: "(generation_id \<Rightarrow> 'd \<Rightarrow> ('x, 'd) result) option"
  mo_readStateCursor :: "(generation_id \<Rightarrow> 'd \<Rightarrow> ('x, int option) result) option"

definition keyOf :: "'z generation_id_scheme \<Rightarrow> string \<times> string" where
  "keyOf g = (gi_stream g, gi_processor g)"

definition map_delete :: "string \<times> string \<Rightarrow> (generation_record \<times> 'b) list \<Rightarrow> (generation_record \<times> 'b) list" where
  "map_delete k es = filter (\<lambda>(r, _). keyOf r \<noteq> k) es"

definition map_set :: "generation_record \<Rightarrow> 'b \<Rightarrow> (generation_record \<times> 'b) list \<Rightarrow> (generation_record \<times> 'b) list" where
  "map_set r b es =
     (if \<exists>(x, _) \<in> set es. keyOf x = keyOf r
      then map (\<lambda>(x, c). if keyOf x = keyOf r then (r, b) else (x, c)) es else es @ [(r, b)])"

definition map_get :: "string \<times> string \<Rightarrow> (generation_record \<times> 'b) list \<Rightarrow> 'b option" where
  "map_get k es = map_option snd (find (\<lambda>(r, _). keyOf r = k) es)"

definition snapshot :: "'d memory_registry \<Rightarrow> registry_state" where
  "snapshot m =
     \<lparr>rs_generations = map fst (mr_generations m), rs_slots = mr_slots m, rs_keptStreams = mr_streams m\<rparr>"

definition add_stream :: "string \<Rightarrow> string list \<Rightarrow> string list" where
  "add_stream d ds = (if d \<in> set ds then ds else ds @ [d])"

definition memory_write :: "registry_write \<Rightarrow> 'd memory_registry \<Rightarrow> 'd memory_registry" where
  "memory_write w m =
     (let kept = fold (\<lambda>g. map_delete (keyOf g)) (rw_remove w) (mr_generations m);
          generations = (case rw_put w of None \<Rightarrow> kept | Some r \<Rightarrow> map_set r (rw_bundle w) kept);
          streams = (case rw_keepStream w of None \<Rightarrow> mr_streams m | Some d \<Rightarrow> add_stream d (mr_streams m));
          streams = fold (\<lambda>d. filter (\<lambda>x. x \<noteq> d)) (rw_forgetStreams w) streams;
          slots = foldl (\<lambda>slots name. case rw_slots w name of None \<Rightarrow> slots | Some v \<Rightarrow> slots(name := v))
            (mr_slots m) SLOT_NAMES
      in m\<lparr>mr_generations := generations, mr_streams := streams, mr_slots := slots\<rparr>)"

definition memory_commit :: "'x plan \<Rightarrow> 'd memory_registry
    \<Rightarrow> ('x registry_error, registry_state) result \<times> 'd memory_registry" where
  "memory_commit plan m =
     (case plan (snapshot m) of
        Inl e \<Rightarrow> (Inl e, m)
      | Inr None \<Rightarrow> (Inr (snapshot m), m)
      | Inr (Some w) \<Rightarrow> (Inr (snapshot m), memory_write w m))"

definition createMemoryGenerationRegistryPort :: "('x, 'd) memory_options \<Rightarrow> ('x, 'd memory_registry) generation_port" where
  "createMemoryGenerationRegistryPort options =
     \<lparr>gp_read = (\<lambda>m. Inr (snapshot m)),
      gp_commit = memory_commit,
      gp_listStreamDigests = (\<lambda>m. Inr (sort (mr_streams m))),
      gp_dropStreamSubtree = (\<lambda>digest m.
        (Inr (if digest \<in> set (mr_streams m) then 1 else 0), m\<lparr>mr_streams := filter (\<lambda>d. d \<noteq> digest) (mr_streams m)\<rparr>)),
      gp_dropState = (\<lambda>g m. case mo_dropState options of
          None \<Rightarrow> (Inr (), m)
        | Some drop_it \<Rightarrow> (case drop_it g (mr_outside m) of Inl x \<Rightarrow> (Inl x, m) | Inr d \<Rightarrow> (Inr (), m\<lparr>mr_outside := d\<rparr>))),
      gp_readStateCursor = (\<lambda>g m. case mo_readStateCursor options of
          None \<Rightarrow> Inr None | Some read_it \<Rightarrow> read_it g (mr_outside m)),
      gp_readBundle = (\<lambda>g m. Inr (case map_get (keyOf g) (mr_generations m) of None \<Rightarrow> None | Some b \<Rightarrow> b))\<rparr>"

lemma keyOf_iff: "keyOf a = keyOf b \<longleftrightarrow> sameGeneration a b"
  by (simp add: keyOf_def sameGeneration_def)

lemma deletes_removed:
  "map fst (fold (\<lambda>g. map_delete (keyOf g)) ids es) = remove_records ids (map fst es)"
proof (induction ids arbitrary: es)
  case Nil
  then show ?case by (simp add: remove_records_def)
next
  case (Cons g ids)
  have "map fst (map_delete (keyOf g) es) = filter (\<lambda>r. \<not> sameGeneration r g) (map fst es)"
    by (simp add: map_delete_def filter_map comp_def case_prod_unfold keyOf_iff)
  then show ?case using Cons[of "map_delete (keyOf g) es"] by (simp add: remove_records_def)
qed

lemma map_set_keys: "map fst (map_set r b es) = put_record r (map fst es)"
  by (auto simp: map_set_def put_record_def keyOf_iff case_prod_beta comp_def intro!: map_cong)

lemma forget_filter: "fold (\<lambda>d. filter (\<lambda>x. x \<noteq> d)) ds xs = filter (\<lambda>x. x \<notin> set ds) xs"
  by (induction ds arbitrary: xs) (auto intro: filter_cong)

lemma slot_writes:
  "foldl (\<lambda>slots name. case a name of None \<Rightarrow> slots | Some v \<Rightarrow> slots(name := v)) slots SLOT_NAMES = assign_slots a slots"
proof (rule ext)
  fix name
  show "foldl (\<lambda>slots name. case a name of None \<Rightarrow> slots | Some v \<Rightarrow> slots(name := v)) slots SLOT_NAMES name =
      assign_slots a slots name"
    by (cases name) (simp_all add: SLOT_NAMES_def assign_slots_def split: option.splits)
qed

lemma snapshot_write: "snapshot (memory_write w m) = apply_write w (snapshot m)"
  by (auto simp: snapshot_def memory_write_def apply_write_def Let_def deletes_removed map_set_keys slot_writes
      forget_filter keep_streams_def add_stream_def split: option.splits)

interpretation memory_generations: registry_port "createMemoryGenerationRegistryPort options" snapshot
  for options :: "('x, 'd) memory_options"
proof
  show "registry_same s (snapshot m)" if "gp_read (createMemoryGenerationRegistryPort options) m = Inr s" for m s
    using that by (simp add: createMemoryGenerationRegistryPort_def)
  show "registry_same s (snapshot m) \<and> (\<exists>w. plan s = Inr w \<and> registry_same (snapshot m') (apply_planned w s))"
    if "gp_commit (createMemoryGenerationRegistryPort options) plan m = (Inr s, m')" for plan m s m'
    using that by (auto simp: createMemoryGenerationRegistryPort_def memory_commit_def snapshot_write split: sum.splits option.splits)
  show "registry_same (snapshot m') (snapshot m) \<and>
      ((\<exists>x. e = PortFailed x) \<or> (\<exists>s. registry_same s (snapshot m) \<and> plan s = Inl e))"
    if "gp_commit (createMemoryGenerationRegistryPort options) plan m = (Inl e, m')" for plan m e m'
    using that by (auto simp: createMemoryGenerationRegistryPort_def memory_commit_def split: sum.splits option.splits)
  show "registry_same (snapshot m') (snapshot m)"
    if "gp_dropState (createMemoryGenerationRegistryPort options) g m = (d, m')" for g m d m'
    using that by (auto simp: createMemoryGenerationRegistryPort_def snapshot_def split: sum.splits option.splits)
  show "rs_generations (snapshot m') = rs_generations (snapshot m) \<and> rs_slots (snapshot m') = rs_slots (snapshot m) \<and>
      set (rs_keptStreams (snapshot m)) - {digest} \<subseteq> set (rs_keptStreams (snapshot m')) \<and>
      set (rs_keptStreams (snapshot m')) \<subseteq> set (rs_keptStreams (snapshot m))"
    if "gp_dropStreamSubtree (createMemoryGenerationRegistryPort options) digest m = (n, m')" for digest m n m'
    using that by (auto simp: createMemoryGenerationRegistryPort_def snapshot_def)
qed

subsection \<open>The port on the server's tables\<close>

text \<open>
  The three tables of a deployment, shared by the indexers it names. The slots of an indexer are one
  row of nullable columns with the revision every write is guarded by. A revision token is a fresh
  UUID: \<open>gdb_drawn\<close> counts the tokens the world has drawn so far and a function of the position
  yields the token.
\<close>

record slot_row =
  sr_columns :: "slot_name \<Rightarrow> string option \<times> string option"
  sr_revision :: string

record generation_row =
  gw_indexer :: string
  gw_record :: generation_record
  gw_bundle :: "8 word list option"

record 'd generation_db =
  gdb_generations :: "generation_row list"
  gdb_slots :: "string \<rightharpoonup> slot_row"
  gdb_streams :: "(string \<times> string) list"
  gdb_emissions :: emission_db
  gdb_drawn :: nat
  gdb_outside :: 'd

datatype 'x sql_error = Contention string nat | Outside 'x

definition UNWRITTEN :: string where "UNWRITTEN = []"

definition MAX_COMMIT_ATTEMPTS :: nat where "MAX_COMMIT_ATTEMPTS = 8"

definition slotsFrom :: "slot_row option \<Rightarrow> generation_slots" where
  "slotsFrom row = (\<lambda>slot.
     case row of
       None \<Rightarrow> None
     | Some r \<Rightarrow> (case sr_columns r slot of
           (Some stream, Some processor) \<Rightarrow> Some \<lparr>gi_stream = stream, gi_processor = processor\<rparr>
         | _ \<Rightarrow> None))"

definition readGuarded :: "'d generation_db \<Rightarrow> string \<Rightarrow> registry_state \<times> string" where
  "readGuarded db indexer =
     (let row = gdb_slots db indexer in
      (\<lparr>rs_generations = map gw_record (filter (\<lambda>r. gw_indexer r = indexer) (gdb_generations db)),
        rs_slots = slotsFrom row,
        rs_keptStreams = map snd (filter (\<lambda>(i, _). i = indexer) (gdb_streams db))\<rparr>,
       case row of None \<Rightarrow> UNWRITTEN | Some r \<Rightarrow> sr_revision r))"

definition writesAnything :: "registry_write option \<Rightarrow> bool" where
  "writesAnything write \<longleftrightarrow>
     (case write of
        None \<Rightarrow> False
      | Some w \<Rightarrow> rw_remove w \<noteq> [] \<or> rw_put w \<noteq> None \<or> rw_keepStream w \<noteq> None \<or> rw_forgetStreams w \<noteq> [] \<or>
          (\<exists>slot \<in> set SLOT_NAMES. rw_slots w slot \<noteq> None))"

text \<open>
  The statements of one batch, each run on what the ones before it left: the guard is re-evaluated by
  each, and only the last one changes the revision it reads.
\<close>

definition guarded :: "string \<Rightarrow> string \<Rightarrow> 'd generation_db \<Rightarrow> bool" where
  "guarded indexer revision db \<longleftrightarrow> snd (readGuarded db indexer) = revision"

definition row_of :: "string \<Rightarrow> 'z generation_id_scheme \<Rightarrow> generation_row \<Rightarrow> bool" where
  "row_of indexer g r \<longleftrightarrow> gw_indexer r = indexer \<and> sameGeneration (gw_record r) g"

definition delete_statement :: "string \<Rightarrow> string \<Rightarrow> generation_id \<Rightarrow> 'd generation_db \<Rightarrow> 'd generation_db" where
  "delete_statement indexer revision g db =
     (if guarded indexer revision db
      then db\<lparr>gdb_generations := filter (\<lambda>r. \<not> row_of indexer g r) (gdb_generations db)\<rparr> else db)"

definition put_statement :: "string \<Rightarrow> string \<Rightarrow> generation_record \<Rightarrow> 8 word list option \<Rightarrow> 'd generation_db \<Rightarrow> 'd generation_db" where
  "put_statement indexer revision record octets db =
     (if guarded indexer revision db
      then db\<lparr>gdb_generations :=
        (let row = \<lparr>gw_indexer = indexer, gw_record = record, gw_bundle = octets\<rparr>; rows = gdb_generations db in
         if \<exists>r \<in> set rows. row_of indexer record r then map (\<lambda>r. if row_of indexer record r then row else r) rows
         else rows @ [row])\<rparr> else db)"

definition keep_statement :: "string \<Rightarrow> string \<Rightarrow> string \<Rightarrow> 'd generation_db \<Rightarrow> 'd generation_db" where
  "keep_statement indexer revision digest db =
     (if guarded indexer revision db \<and> (indexer, digest) \<notin> set (gdb_streams db)
      then db\<lparr>gdb_streams := gdb_streams db @ [(indexer, digest)]\<rparr> else db)"

definition forget_statement :: "string \<Rightarrow> string \<Rightarrow> string \<Rightarrow> 'd generation_db \<Rightarrow> 'd generation_db" where
  "forget_statement indexer revision digest db =
     (if guarded indexer revision db
      then db\<lparr>gdb_streams := filter (\<lambda>x. x \<noteq> (indexer, digest)) (gdb_streams db)\<rparr> else db)"

definition columns_of :: "generation_id option option \<Rightarrow> string option \<times> string option" where
  "columns_of assigned =
     (case assigned of Some (Some g) \<Rightarrow> (Some (gi_stream g), Some (gi_processor g)) | _ \<Rightarrow> (None, None))"

definition slots_statement :: "string \<Rightarrow> string \<Rightarrow> string \<Rightarrow> slot_assignment \<Rightarrow> 'd generation_db \<Rightarrow> 'd generation_db" where
  "slots_statement indexer revision next a db =
     (case gdb_slots db indexer of
        None \<Rightarrow> db\<lparr>gdb_slots := (gdb_slots db)(indexer \<mapsto> \<lparr>sr_columns = (\<lambda>slot. columns_of (a slot)), sr_revision = next\<rparr>)\<rparr>
      | Some row \<Rightarrow>
          if sr_revision row = revision
          then db\<lparr>gdb_slots := (gdb_slots db)(indexer \<mapsto>
            \<lparr>sr_columns = (\<lambda>slot. if a slot = None then sr_columns row slot else columns_of (a slot)), sr_revision = next\<rparr>)\<rparr>
          else db)"

definition statementsFor :: "string \<Rightarrow> registry_write \<Rightarrow> string \<Rightarrow> string \<Rightarrow> 'd generation_db \<Rightarrow> 'd generation_db" where
  "statementsFor indexer w revision next db =
     (let db = fold (delete_statement indexer revision) (rw_remove w) db;
          db = (case rw_put w of None \<Rightarrow> db | Some r \<Rightarrow> put_statement indexer revision r (rw_bundle w) db);
          db = (case rw_keepStream w of None \<Rightarrow> db | Some d \<Rightarrow> keep_statement indexer revision d db);
          db = fold (forget_statement indexer revision) (rw_forgetStreams w) db
      in slots_statement indexer revision next (rw_slots w) db)"

definition draw_token :: "(nat \<Rightarrow> string) \<Rightarrow> 'd generation_db \<Rightarrow> string \<times> 'd generation_db" where
  "draw_token token db = (token (gdb_drawn db), db\<lparr>gdb_drawn := gdb_drawn db + 1\<rparr>)"

text \<open>
  The commit loop. \<open>others\<close> is what every other user of the database does between the read of an attempt
  and its batch.
\<close>

fun commit_attempts :: "(nat \<Rightarrow> string) \<Rightarrow> string \<Rightarrow> (nat \<Rightarrow> 'd generation_db \<Rightarrow> 'd generation_db) \<Rightarrow> nat
    \<Rightarrow> 'x sql_error plan \<Rightarrow> 'd generation_db \<Rightarrow> ('x sql_error registry_error, registry_state) result \<times> 'd generation_db" where
  "commit_attempts token indexer others 0 plan db = (Inl (PortFailed (Contention indexer MAX_COMMIT_ATTEMPTS)), db)"
| "commit_attempts token indexer others (Suc n) plan db =
     (let (state, revision) = readGuarded db indexer in
      case plan state of
        Inl e \<Rightarrow> (Inl e, db)
      | Inr write \<Rightarrow>
          if \<not> writesAnything write then (Inr state, db)
          else
            (let (next, drawn) = draw_token token (others n db);
                 after = statementsFor indexer (the write) revision next drawn
             in if snd (readGuarded after indexer) = next \<and> gdb_slots after indexer \<noteq> None then (Inr state, after)
                else commit_attempts token indexer others n plan after))"

definition generationRegistryPortOnSQL :: "(nat \<Rightarrow> string) \<Rightarrow> (nat \<Rightarrow> 'd generation_db \<Rightarrow> 'd generation_db) \<Rightarrow> string
    \<Rightarrow> ('x, 'd) memory_options \<Rightarrow> ('x sql_error, 'd generation_db) generation_port" where
  "generationRegistryPortOnSQL token others indexer options =
     \<lparr>gp_read = (\<lambda>db. Inr (fst (readGuarded db indexer))),
      gp_commit = commit_attempts token indexer others MAX_COMMIT_ATTEMPTS,
      gp_listStreamDigests = (\<lambda>db. Inr (sort (remdups (map (snd \<circ> er_key)
        (filter (\<lambda>r. fst (er_key r) = indexer) (ed_rows (gdb_emissions db))))))),
      gp_dropStreamSubtree = (\<lambda>digest db.
        let em = gdb_emissions db; k = (indexer, digest) in
        (Inr (length (rows_of k em)),
         db\<lparr>gdb_emissions := \<lparr>ed_rows = filter (\<lambda>r. er_key r \<noteq> k) (ed_rows em), ed_coverage = (ed_coverage em)(k := None)\<rparr>\<rparr>)),
      gp_dropState = (\<lambda>g db. case mo_dropState options of
          None \<Rightarrow> (Inr (), db)
        | Some drop_it \<Rightarrow> (case drop_it g (gdb_outside db) of
            Inl x \<Rightarrow> (Inl (Outside x), db) | Inr d \<Rightarrow> (Inr (), db\<lparr>gdb_outside := d\<rparr>))),
      gp_readStateCursor = (\<lambda>g db. case mo_readStateCursor options of
          None \<Rightarrow> Inr None
        | Some read_it \<Rightarrow> (case read_it g (gdb_outside db) of Inl x \<Rightarrow> Inl (Outside x) | Inr c \<Rightarrow> Inr c)),
      gp_readBundle = (\<lambda>g db. Inr (case filter (row_of indexer g) (gdb_generations db) of
          [] \<Rightarrow> None | r # _ \<Rightarrow> gw_bundle r))\<rparr>"

subsection \<open>A batch writes all of a decision or nothing\<close>

lemma statement_slots [simp]:
  "gdb_slots (delete_statement i rv g db) = gdb_slots db" "gdb_slots (put_statement i rv r b db) = gdb_slots db"
  "gdb_slots (keep_statement i rv d db) = gdb_slots db" "gdb_slots (forget_statement i rv d db) = gdb_slots db"
  by (simp_all add: delete_statement_def put_statement_def keep_statement_def forget_statement_def)

lemma fold_slots [simp]:
  "gdb_slots (fold (delete_statement i rv) gs db) = gdb_slots db"
  by (induction gs arbitrary: db) simp_all

lemma fold_forget_slots [simp]: "gdb_slots (fold (forget_statement i rv) ds db) = gdb_slots db"
  by (induction ds arbitrary: db) simp_all

lemma guarded_slots: "gdb_slots db' i = gdb_slots db i \<Longrightarrow> guarded i rv db' \<longleftrightarrow> guarded i rv db"
  by (simp add: guarded_def readGuarded_def Let_def)

lemma refused_statements:
  assumes "\<not> guarded i rv db"
  shows "delete_statement i rv g db = db" "put_statement i rv r b db = db" "keep_statement i rv d db = db"
    "forget_statement i rv d db = db" "fold (delete_statement i rv) gs db = db" "fold (forget_statement i rv) ds db = db"
proof -
  show one: "delete_statement i rv g db = db" "put_statement i rv r b db = db" "keep_statement i rv d db = db"
    "forget_statement i rv d db = db" for g d
    using assms by (simp_all add: delete_statement_def put_statement_def keep_statement_def forget_statement_def)
  show "fold (delete_statement i rv) gs db = db" by (induction gs) (simp_all add: one)
  show "fold (forget_statement i rv) ds db = db" by (induction ds) (simp_all add: one)
qed

lemma batch_refused:
  assumes "gdb_slots db i = Some row" "sr_revision row \<noteq> rv"
  shows "statementsFor i w rv next db = db"
proof -
  have "\<not> guarded i rv db" using assms by (simp add: guarded_def readGuarded_def Let_def)
  note same = refused_statements[OF this]
  show ?thesis
    using assms by (simp add: statementsFor_def Let_def same slots_statement_def split: option.splits)
qed

definition listed :: "string \<Rightarrow> 'd generation_db \<Rightarrow> generation_record list" where
  "listed i db = map gw_record (filter (\<lambda>r. gw_indexer r = i) (gdb_generations db))"

definition kept_of :: "string \<Rightarrow> 'd generation_db \<Rightarrow> string list" where
  "kept_of i db = map snd (filter (\<lambda>(x, _). x = i) (gdb_streams db))"

lemma delete_listed:
  assumes "guarded i rv db"
  shows "listed i (fold (delete_statement i rv) gs db) = remove_records gs (listed i db) \<and>
    gdb_streams (fold (delete_statement i rv) gs db) = gdb_streams db"
  using assms
proof (induction gs arbitrary: db)
  case Nil
  then show ?case by simp
next
  case (Cons g gs)
  have "map gw_record (filter (\<lambda>r. gw_indexer r = i) (filter (\<lambda>r. \<not> row_of i g r) rows)) =
      filter (\<lambda>r. \<not> sameGeneration r g) (map gw_record (filter (\<lambda>r. gw_indexer r = i) rows))" for rows
    by (induction rows) (auto simp: row_of_def)
  then have "listed i (delete_statement i rv g db) = filter (\<lambda>r. \<not> sameGeneration r g) (listed i db)"
    using Cons.prems by (simp add: listed_def delete_statement_def)
  moreover have "guarded i rv (delete_statement i rv g db)" using Cons.prems guarded_slots[of "delete_statement i rv g db" i db rv] by simp
  moreover have "gdb_streams (delete_statement i rv g db) = gdb_streams db" by (simp add: delete_statement_def)
  ultimately show ?case using Cons.IH[of "delete_statement i rv g db"] by (simp add: remove_records_def)
qed

lemma put_listed:
  assumes "guarded i rv db"
  shows "listed i (put_statement i rv r b db) = put_record r (listed i db) \<and>
    gdb_streams (put_statement i rv r b db) = gdb_streams db"
proof -
  let ?row = "\<lparr>gw_indexer = i, gw_record = r, gw_bundle = b\<rparr>"
  have some: "(\<exists>x \<in> set (gdb_generations db). row_of i r x) \<longleftrightarrow> (\<exists>x \<in> set (listed i db). sameGeneration x r)"
    by (auto simp: listed_def row_of_def)
  have "map gw_record (filter (\<lambda>x. gw_indexer x = i) (map (\<lambda>x. if row_of i r x then ?row else x) rows)) =
      map (\<lambda>x. if sameGeneration x r then r else x) (map gw_record (filter (\<lambda>x. gw_indexer x = i) rows))" for rows
    by (induction rows) (auto simp: row_of_def)
  then show ?thesis
    using assms some by (auto simp: put_statement_def listed_def put_record_def Let_def)
qed

lemma keep_listed:
  assumes "guarded i rv db"
  shows "kept_of i (keep_statement i rv d db) = add_stream d (kept_of i db) \<and>
    listed i (keep_statement i rv d db) = listed i db"
proof -
  have "(i, d) \<in> set (gdb_streams db) \<longleftrightarrow> d \<in> set (kept_of i db)" by (force simp: kept_of_def)
  then show ?thesis using assms by (auto simp: keep_statement_def kept_of_def add_stream_def listed_def)
qed

lemma forget_listed:
  assumes "guarded i rv db"
  shows "kept_of i (fold (forget_statement i rv) ds db) = filter (\<lambda>d. d \<notin> set ds) (kept_of i db) \<and>
    listed i (fold (forget_statement i rv) ds db) = listed i db"
  using assms
proof (induction ds arbitrary: db)
  case Nil
  then show ?case by simp
next
  case (Cons d ds)
  have "map snd (filter (\<lambda>(x, _). x = i) (filter (\<lambda>x. x \<noteq> (i, d)) xs)) = filter (\<lambda>e. e \<noteq> d) (map snd (filter (\<lambda>(x, _). x = i) xs))" for xs
    by (induction xs) auto
  then have "kept_of i (forget_statement i rv d db) = filter (\<lambda>e. e \<noteq> d) (kept_of i db)"
    using Cons.prems by (simp add: kept_of_def forget_statement_def)
  moreover have "guarded i rv (forget_statement i rv d db)" using Cons.prems guarded_slots[of "forget_statement i rv d db" i db rv] by simp
  moreover have "listed i (forget_statement i rv d db) = listed i db" by (simp add: forget_statement_def listed_def)
  ultimately show ?case using Cons.IH[of "forget_statement i rv d db"] by (simp add: conj_commute)
qed

lemma slotsFrom_columns: "slotsFrom (Some \<lparr>sr_columns = f, sr_revision = rv\<rparr>) slot =
    (case f slot of (Some stream, Some processor) \<Rightarrow> Some \<lparr>gi_stream = stream, gi_processor = processor\<rparr> | _ \<Rightarrow> None)"
  by (simp add: slotsFrom_def)

lemma columns_back: "(case columns_of a of (Some stream, Some processor) \<Rightarrow> Some \<lparr>gi_stream = stream, gi_processor = processor\<rparr> | _ \<Rightarrow> None) =
    (case a of Some v \<Rightarrow> v | None \<Rightarrow> None)"
  by (auto simp: columns_of_def split: option.splits)

lemma slots_written:
  assumes "guarded i rv db"
  shows "\<exists>row. gdb_slots (slots_statement i rv next a db) i = Some row \<and> sr_revision row = next \<and>
    slotsFrom (Some row) = assign_slots a (slotsFrom (gdb_slots db i))"
proof (cases "gdb_slots db i")
  case None
  have "slotsFrom (Some \<lparr>sr_columns = (\<lambda>slot. columns_of (a slot)), sr_revision = next\<rparr>) = assign_slots a (slotsFrom None)"
    by (auto simp: fun_eq_iff slotsFrom_columns columns_back assign_slots_def slotsFrom_def[of None] split: option.splits)
  then show ?thesis using None by (simp add: slots_statement_def)
next
  case (Some row)
  then have "sr_revision row = rv" using assms by (simp add: guarded_def readGuarded_def Let_def)
  moreover have "slotsFrom (Some \<lparr>sr_columns = (\<lambda>slot. if a slot = None then sr_columns row slot else columns_of (a slot)),
      sr_revision = next\<rparr>) = assign_slots a (slotsFrom (Some row))"
  proof (rule ext)
    fix slot
    show "slotsFrom (Some \<lparr>sr_columns = (\<lambda>slot. if a slot = None then sr_columns row slot else columns_of (a slot)),
        sr_revision = next\<rparr>) slot = assign_slots a (slotsFrom (Some row)) slot"
      by (cases "a slot") (simp_all add: slotsFrom_columns columns_back assign_slots_def slotsFrom_def)
  qed
  ultimately show ?thesis using Some by (simp add: slots_statement_def)
qed

lemma readGuarded_listed:
  "fst (readGuarded db i) = \<lparr>rs_generations = listed i db, rs_slots = slotsFrom (gdb_slots db i), rs_keptStreams = kept_of i db\<rparr>"
  by (simp add: readGuarded_def listed_def kept_of_def Let_def)

lemma batch_applied:
  assumes "guarded i rv db"
  shows "fst (readGuarded (statementsFor i w rv next db) i) = apply_write w (fst (readGuarded db i)) \<and>
    snd (readGuarded (statementsFor i w rv next db) i) = next \<and> gdb_slots (statementsFor i w rv next db) i \<noteq> None"
proof -
  define d1 where "d1 = fold (delete_statement i rv) (rw_remove w) db"
  define d2 where "d2 = (case rw_put w of None \<Rightarrow> d1 | Some r \<Rightarrow> put_statement i rv r (rw_bundle w) d1)"
  define d3 where "d3 = (case rw_keepStream w of None \<Rightarrow> d2 | Some d \<Rightarrow> keep_statement i rv d d2)"
  define d4 where "d4 = fold (forget_statement i rv) (rw_forgetStreams w) d3"
  have run: "statementsFor i w rv next db = slots_statement i rv next (rw_slots w) d4"
    unfolding statementsFor_def Let_def d1_def[symmetric] d2_def[symmetric] d3_def[symmetric] d4_def[symmetric] by (rule refl)
  have slots: "gdb_slots d1 = gdb_slots db" "gdb_slots d2 = gdb_slots db" "gdb_slots d3 = gdb_slots db" "gdb_slots d4 = gdb_slots db"
    by (simp_all add: d1_def d2_def d3_def d4_def split: option.splits)
  have g: "guarded i rv d1" "guarded i rv d2" "guarded i rv d3" "guarded i rv d4"
    using assms guarded_slots[of d1 i db rv] guarded_slots[of d2 i db rv] guarded_slots[of d3 i db rv] guarded_slots[of d4 i db rv] slots
    by simp_all
  have l1: "listed i d1 = remove_records (rw_remove w) (listed i db)" "kept_of i d1 = kept_of i db"
    using delete_listed[OF assms, of "rw_remove w"] by (simp_all add: d1_def kept_of_def)
  have l2: "listed i d2 = (case rw_put w of None \<Rightarrow> listed i d1 | Some r \<Rightarrow> put_record r (listed i d1))" "kept_of i d2 = kept_of i d1"
    using put_listed[OF g(1)] by (auto simp: d2_def kept_of_def split: option.splits)
  have l3: "listed i d3 = listed i d2" "kept_of i d3 = (case rw_keepStream w of None \<Rightarrow> kept_of i d2 | Some d \<Rightarrow> add_stream d (kept_of i d2))"
    using keep_listed[OF g(2)] by (auto simp: d3_def split: option.splits)
  have l4: "listed i d4 = listed i d3" "kept_of i d4 = filter (\<lambda>d. d \<notin> set (rw_forgetStreams w)) (kept_of i d3)"
    using forget_listed[OF g(3)] by (simp_all add: d4_def)
  have l5: "listed i (slots_statement i rv next (rw_slots w) d4) = listed i d4" "kept_of i (slots_statement i rv next (rw_slots w) d4) = kept_of i d4"
    by (simp_all add: slots_statement_def listed_def kept_of_def split: option.splits)
  obtain row where row: "gdb_slots (slots_statement i rv next (rw_slots w) d4) i = Some row" "sr_revision row = next"
    "slotsFrom (Some row) = assign_slots (rw_slots w) (slotsFrom (gdb_slots db i))"
    using slots_written[OF g(4), where ?next = "next" and ?a = "rw_slots w"] slots(4) by auto
  have "fst (readGuarded (statementsFor i w rv next db) i) = apply_write w (fst (readGuarded db i))"
    unfolding readGuarded_listed run l5 row(1,3) l4 l3 l2 l1
    by (auto simp: apply_write_def Let_def keep_streams_def add_stream_def split: option.splits)
  then show ?thesis using row unfolding run by (simp add: readGuarded_def Let_def)
qed

text \<open>A write that says nothing changes nothing.\<close>

lemma nothing_written:
  assumes "\<not> writesAnything w"
  shows "apply_planned w s = s"
proof (cases w)
  case None
  then show ?thesis by simp
next
  case (Some v)
  then have v: "rw_remove v = []" "rw_put v = None" "rw_keepStream v = None" "rw_forgetStreams v = []"
    "\<forall>slot \<in> set SLOT_NAMES. rw_slots v slot = None"
    using assms by (auto simp: writesAnything_def)
  have "rw_slots v slot = None" for slot using v(5) by (cases slot) (simp_all add: SLOT_NAMES_def)
  then have "rw_slots v = Map.empty" by (rule ext)
  then show ?thesis using Some v by (simp add: apply_write_def keep_streams_def)
qed

lemma drawn_listed [simp]:
  "readGuarded (db\<lparr>gdb_drawn := n\<rparr>) i = readGuarded db i"
  by (simp add: readGuarded_def Let_def)

lemma alone_commits:
  assumes "readGuarded db i = (s, rv)" "plan s = Inr w"
  shows "\<exists>db'. commit_attempts token i (\<lambda>n db. db) (Suc n) plan db = (Inr s, db') \<and>
    fst (readGuarded db' i) = apply_planned w s"
proof (cases "writesAnything w")
  case False
  then show ?thesis using assms by (simp add: nothing_written)
next
  case True
  then obtain v where v: "w = Some v" by (cases w) (auto simp: writesAnything_def)
  let ?db = "db\<lparr>gdb_drawn := gdb_drawn db + 1\<rparr>"
  have "guarded i rv ?db" using assms(1) by (simp add: guarded_def)
  note done_it = batch_applied[OF this, of v "token (gdb_drawn db)"]
  show ?thesis
    using assms True v done_it by (simp add: draw_token_def Let_def)
qed

lemma plan_refused:
  "readGuarded db i = (t, rv) \<Longrightarrow> plan t = Inl e \<Longrightarrow> commit_attempts token i others (Suc n) plan db = (Inl e, db)"
  by simp

interpretation sql_generations: registry_port
    "generationRegistryPortOnSQL token (\<lambda>n db. db) indexer options" "\<lambda>db. fst (readGuarded db indexer)"
  for token :: "nat \<Rightarrow> string" and indexer :: string and options :: "('x, 'd) memory_options"
proof
  let ?P = "generationRegistryPortOnSQL token (\<lambda>n db. db) indexer options"
  have commit: "gp_commit ?P plan db = commit_attempts token indexer (\<lambda>n db. db) (Suc 7) plan db" for plan db
    by (simp add: generationRegistryPortOnSQL_def MAX_COMMIT_ATTEMPTS_def eval_nat_numeral del: commit_attempts.simps)
  show "registry_same s (fst (readGuarded db indexer))" if "gp_read ?P db = Inr s" for db s
    using that by (simp add: generationRegistryPortOnSQL_def)
  show "registry_same s (fst (readGuarded db indexer)) \<and>
      (\<exists>w. plan s = Inr w \<and> registry_same (fst (readGuarded db' indexer)) (apply_planned w s))"
    if "gp_commit ?P plan db = (Inr s, db')" for plan db s db'
  proof -
    obtain t rv where t: "readGuarded db indexer = (t, rv)" by fastforce
    show ?thesis
    proof (cases "plan t")
      case (Inl e)
      then show ?thesis using that plan_refused[where n = 7 and token = token and plan = plan, OF t Inl] unfolding commit by auto
    next
      case (Inr w)
      then show ?thesis using alone_commits[where n = 7 and token = token and plan = plan, OF t Inr] that t unfolding commit by auto
    qed
  qed
  show "registry_same (fst (readGuarded db' indexer)) (fst (readGuarded db indexer)) \<and>
      ((\<exists>x. e = PortFailed x) \<or> (\<exists>s. registry_same s (fst (readGuarded db indexer)) \<and> plan s = Inl e))"
    if "gp_commit ?P plan db = (Inl e, db')" for plan db e db'
  proof -
    obtain t rv where t: "readGuarded db indexer = (t, rv)" by fastforce
    show ?thesis
    proof (cases "plan t")
      case (Inl e)
      then show ?thesis using that t plan_refused[where n = 7 and token = token and plan = plan, OF t Inl] unfolding commit by auto
    next
      case (Inr w)
      then show ?thesis using alone_commits[where n = 7 and token = token and plan = plan, OF t Inr] that unfolding commit by auto
    qed
  qed
  show "registry_same (fst (readGuarded db' indexer)) (fst (readGuarded db indexer))"
    if "gp_dropState ?P g db = (d, db')" for g db d db'
    using that by (auto simp: generationRegistryPortOnSQL_def readGuarded_def Let_def split: sum.splits option.splits)
  show "rs_generations (fst (readGuarded db' indexer)) = rs_generations (fst (readGuarded db indexer)) \<and>
      rs_slots (fst (readGuarded db' indexer)) = rs_slots (fst (readGuarded db indexer)) \<and>
      set (rs_keptStreams (fst (readGuarded db indexer))) - {digest} \<subseteq> set (rs_keptStreams (fst (readGuarded db' indexer))) \<and>
      set (rs_keptStreams (fst (readGuarded db' indexer))) \<subseteq> set (rs_keptStreams (fst (readGuarded db indexer)))"
    if "gp_dropStreamSubtree ?P digest db = (n, db')" for digest db n db'
    using that by (auto simp: generationRegistryPortOnSQL_def readGuarded_def Let_def)
qed

subsection \<open>Many writers, one commit at a time\<close>

text \<open>
  What any other user of the database may do to an indexer's rows: leave them as they are, or commit to
  them, which stamps the row with a token drawn for the occasion. Tokens of the world are distinct.
\<close>

definition others_step :: "(nat \<Rightarrow> string) \<Rightarrow> string \<Rightarrow> 'd generation_db \<Rightarrow> 'd generation_db \<Rightarrow> bool" where
  "others_step token i db db' \<longleftrightarrow>
     gdb_drawn db \<le> gdb_drawn db' \<and> (gdb_slots db i \<noteq> None \<longrightarrow> gdb_slots db' i \<noteq> None) \<and>
     (readGuarded db' i = readGuarded db i \<and> gdb_slots db' i = gdb_slots db i \<or>
      (\<exists>k row. gdb_drawn db \<le> k \<and> k < gdb_drawn db' \<and> gdb_slots db' i = Some row \<and> sr_revision row = token k))"

definition revisions_ok :: "(nat \<Rightarrow> string) \<Rightarrow> string \<Rightarrow> 'd generation_db \<Rightarrow> bool" where
  "revisions_ok token i db \<longleftrightarrow> (\<forall>row. gdb_slots db i = Some row \<longrightarrow> (\<exists>k < gdb_drawn db. sr_revision row = token k))"

lemma others_step_refl [simp]: "others_step token i db db"
  by (simp add: others_step_def)

lemma others_step_trans:
  assumes "others_step token i a b" "others_step token i b c"
  shows "others_step token i a c"
proof -
  have le: "gdb_drawn a \<le> gdb_drawn b" "gdb_drawn b \<le> gdb_drawn c"
    "gdb_slots a i \<noteq> None \<longrightarrow> gdb_slots c i \<noteq> None"
    using assms by (auto simp: others_step_def)
  consider (kept) "readGuarded c i = readGuarded b i" "gdb_slots c i = gdb_slots b i"
    | (new) k row where "gdb_drawn b \<le> k" "k < gdb_drawn c" "gdb_slots c i = Some row" "sr_revision row = token k"
    using assms(2) by (auto simp: others_step_def)
  then show ?thesis
  proof cases
    case kept
    then consider "readGuarded c i = readGuarded a i" "gdb_slots c i = gdb_slots a i"
      | k row where "gdb_drawn a \<le> k" "k < gdb_drawn b" "gdb_slots c i = Some row" "sr_revision row = token k"
      using assms(1) by (auto simp: others_step_def)
    then show ?thesis
    proof cases
      case 1
      then show ?thesis using le by (simp add: others_step_def)
    next
      case (2 k row)
      have "k < gdb_drawn c" using 2(2) le(2) by simp
      then show ?thesis using 2(1,3,4) le unfolding others_step_def by (meson order_trans)
    qed
  next
    case new
    have "gdb_drawn a \<le> k" using new(1) le(1) by simp
    then show ?thesis using new(2-4) le unfolding others_step_def by (meson order_trans)
  qed
qed

lemma others_step_ok:
  assumes "others_step token i db db'" "revisions_ok token i db"
  shows "revisions_ok token i db'"
proof -
  have le: "gdb_drawn db \<le> gdb_drawn db'" using assms(1) by (simp add: others_step_def)
  consider "gdb_slots db' i = gdb_slots db i"
    | k row where "k < gdb_drawn db'" "gdb_slots db' i = Some row" "sr_revision row = token k"
    using assms(1) by (auto simp: others_step_def)
  then show ?thesis
  proof cases
    case 1
    have "\<exists>k < gdb_drawn db'. sr_revision row = token k" if "gdb_slots db' i = Some row" for row
      using assms(2) that le unfolding revisions_ok_def 1 by (meson order_less_le_trans)
    then show ?thesis by (simp add: revisions_ok_def)
  next
    case (2 k row)
    then show ?thesis by (auto simp: revisions_ok_def)
  qed
qed

lemma draw_step: "others_step token i db (db\<lparr>gdb_drawn := gdb_drawn db + 1\<rparr>)"
  by (simp add: others_step_def)

text \<open>One attempt: the batch is whole on what the attempt read, or another writer came first and it wrote nothing.\<close>

lemma attempt_outcome:
  fixes w :: registry_write
  assumes tok: "inj token" "\<And>k. token k \<noteq> []" and ok: "revisions_ok token i db"
    and others: "others_step token i db mid" and rd: "readGuarded db i = (s, rv)"
  defines "drawn \<equiv> mid\<lparr>gdb_drawn := gdb_drawn mid + 1\<rparr>"
  defines "after \<equiv> statementsFor i w rv (token (gdb_drawn mid)) drawn"
  shows "(snd (readGuarded after i) = token (gdb_drawn mid) \<and> gdb_slots after i \<noteq> None \<and> readGuarded mid i = (s, rv) \<and>
       fst (readGuarded after i) = apply_write w s \<and> gdb_drawn after = gdb_drawn mid + 1) \<or>
     (snd (readGuarded after i) \<noteq> token (gdb_drawn mid) \<and> after = drawn \<and> snd (readGuarded mid i) \<noteq> rv)"
proof -
  have mid_ok: "revisions_ok token i mid" by (rule others_step_ok[OF others ok])
  have drawn: "gdb_slots drawn i = gdb_slots mid i" "readGuarded drawn i = readGuarded mid i"
    by (simp_all add: drawn_def)
  consider (same) "readGuarded mid i = readGuarded db i"
    | (new) k row where "gdb_drawn db \<le> k" "k < gdb_drawn mid" "gdb_slots mid i = Some row" "sr_revision row = token k"
    using others by (auto simp: others_step_def)
  then show ?thesis
  proof cases
    case same
    then have "guarded i rv drawn" using rd drawn by (simp add: guarded_def)
    note whole_batch = batch_applied[OF this, of w "token (gdb_drawn mid)", folded after_def]
    moreover have "gdb_drawn after = gdb_drawn drawn"
    proof -
      have d: "gdb_drawn (fold (delete_statement i rv) gs db) = gdb_drawn db" for gs and db :: "'a generation_db"
        by (induction gs arbitrary: db) (simp_all add: delete_statement_def)
      have f: "gdb_drawn (fold (forget_statement i rv) ds db) = gdb_drawn db" for ds and db :: "'a generation_db"
        by (induction ds arbitrary: db) (simp_all add: forget_statement_def)
      show ?thesis
        by (simp add: after_def statementsFor_def Let_def slots_statement_def put_statement_def keep_statement_def d f
            split: option.splits)
    qed
    ultimately show ?thesis using same rd drawn by (simp add: drawn_def)
  next
    case new
    have "rv \<noteq> token k"
    proof
      assume rv: "rv = token k"
      have "rv = UNWRITTEN \<or> (\<exists>j < gdb_drawn db. rv = token j)"
        using rd ok by (auto simp: readGuarded_def revisions_ok_def Let_def split: option.splits)
      then obtain j where "j < gdb_drawn db" "rv = token j" using rv tok(2) by (auto simp: UNWRITTEN_def)
      then show False using rv new(1) tok(1) by (auto dest: injD)
    qed
    then have refused: "after = drawn"
      unfolding after_def using batch_refused[of drawn i row rv w] new(3,4) drawn(1) by simp
    have "token k \<noteq> token (gdb_drawn mid)" using tok(1) new(2) by (auto dest: injD)
    moreover have "snd (readGuarded mid i) = token k" using new(3,4) by (simp add: readGuarded_def Let_def)
    ultimately show ?thesis using refused drawn \<open>rv \<noteq> token k\<close> by simp
  qed
qed

text \<open>What a commit promises to the rest of the world: it read some moment of the table and is one step from there.\<close>

definition commits_once :: "(nat \<Rightarrow> string) \<Rightarrow> string \<Rightarrow> (registry_state \<Rightarrow> bool) \<Rightarrow> 'x sql_error plan \<Rightarrow> 'd generation_db
    \<Rightarrow> ('x sql_error registry_error, registry_state) result \<Rightarrow> 'd generation_db \<Rightarrow> bool" where
  "commits_once token i Q plan db r db' \<longleftrightarrow>
     (\<exists>mid. Q (fst (readGuarded mid i)) \<and> others_step token i db mid \<and> others_step token i mid db' \<and>
       (case r of
          Inr s \<Rightarrow> s = fst (readGuarded mid i) \<and> (\<exists>w. plan s = Inr w \<and> fst (readGuarded db' i) = apply_planned w s)
        | Inl e \<Rightarrow> readGuarded db' i = readGuarded mid i \<and>
            (plan (fst (readGuarded mid i)) = Inl e \<or> e = PortFailed (Contention i MAX_COMMIT_ATTEMPTS))))"

lemma commits_once_later:
  "others_step token i db next_db \<Longrightarrow> commits_once token i Q plan next_db r db' \<Longrightarrow> commits_once token i Q plan db r db'"
  unfolding commits_once_def using others_step_trans by blast

lemma attempt_run:
  assumes "readGuarded db i = (s, rv)" "plan s = Inr (Some v)" "writesAnything (Some v)"
  shows "commit_attempts token i others (Suc n) plan db =
    (let mid = others n db; after = statementsFor i v rv (token (gdb_drawn mid)) (mid\<lparr>gdb_drawn := gdb_drawn mid + 1\<rparr>) in
     if snd (readGuarded after i) = token (gdb_drawn mid) \<and> gdb_slots after i \<noteq> None then (Inr s, after)
     else commit_attempts token i others n plan after)"
proof -
  have "commit_attempts token i others (Suc n) plan db =
      (let (state, revision) = readGuarded db i in
      case plan state of
        Inl e \<Rightarrow> (Inl e, db)
      | Inr write \<Rightarrow>
          if \<not> writesAnything write then (Inr state, db)
          else
            (let (next, drawn) = draw_token token (others n db);
                 after = statementsFor i (the write) revision next drawn
             in if snd (readGuarded after i) = next \<and> gdb_slots after i \<noteq> None then (Inr state, after)
                else commit_attempts token i others n plan after))"
    by (rule commit_attempts.simps(2))
  also have "\<dots> = (let mid = others n db; after = statementsFor i v rv (token (gdb_drawn mid)) (mid\<lparr>gdb_drawn := gdb_drawn mid + 1\<rparr>) in
     if snd (readGuarded after i) = token (gdb_drawn mid) \<and> gdb_slots after i \<noteq> None then (Inr s, after)
     else commit_attempts token i others n plan after)"
    unfolding assms(1,2) Let_def draw_token_def split_conv sum.case option.sel using assms(3) by (simp only: simp_thms if_False)
  finally show ?thesis .
qed

lemma commit_attempts_once:
  assumes "inj token" "\<And>k. token k \<noteq> []" "revisions_ok token i db"
    and "\<And>n db. revisions_ok token i db \<Longrightarrow> others_step token i db (others n db)"
    and "\<And>n db. revisions_ok token i db \<Longrightarrow> Q (fst (readGuarded db i)) \<Longrightarrow> Q (fst (readGuarded (others n db) i))"
    and "commit_attempts token i others n plan db = (r, db')" "Q (fst (readGuarded db i))"
  shows "commits_once token i Q plan db r db'"
  using assms(3,6,7)
proof (induction n arbitrary: db)
  case 0
  then show ?case unfolding commits_once_def by (intro exI[of _ db]) auto
next
  case (Suc n)
  obtain s rv where rd: "readGuarded db i = (s, rv)" by fastforce
  show ?case
  proof (cases "plan s")
    case (Inl e)
    then have "r = Inl e" "db' = db" using Suc.prems(2) rd by simp_all
    then show ?thesis unfolding commits_once_def using rd Inl Suc.prems(3) by (intro exI[of _ db]) simp
  next
    case plan: (Inr w)
    show ?thesis
    proof (cases "writesAnything w")
      case False
      then have "r = Inr s" "db' = db" using Suc.prems(2) rd plan by simp_all
      then show ?thesis unfolding commits_once_def using rd plan False Suc.prems(3)
        by (intro exI[of _ db]) (simp add: nothing_written)
    next
      case True
      then obtain v where v: "w = Some v" by (cases w) (auto simp: writesAnything_def)
      let ?mid = "others n db"
      let ?after = "statementsFor i v rv (token (gdb_drawn ?mid)) (?mid\<lparr>gdb_drawn := gdb_drawn ?mid + 1\<rparr>)"
      have step: "others_step token i db ?mid" by (rule assms(4)[OF Suc.prems(1)])
      have q: "Q (fst (readGuarded ?mid i))" by (rule assms(5)[OF Suc.prems(1,3)])
      have run: "commit_attempts token i others (Suc n) plan db =
          (if snd (readGuarded ?after i) = token (gdb_drawn ?mid) \<and> gdb_slots ?after i \<noteq> None then (Inr s, ?after)
           else commit_attempts token i others n plan ?after)"
        unfolding attempt_run[where plan = plan, OF rd plan[unfolded v] True[unfolded v]] Let_def by (rule refl)
      from attempt_outcome[OF assms(1,2) Suc.prems(1) step rd, of v] show ?thesis
      proof (elim disjE conjE)
        assume won: "snd (readGuarded ?after i) = token (gdb_drawn ?mid)" "gdb_slots ?after i \<noteq> None"
          and mid: "readGuarded ?mid i = (s, rv)" "fst (readGuarded ?after i) = apply_write v s"
            "gdb_drawn ?after = gdb_drawn ?mid + 1"
        then obtain row where row: "gdb_slots ?after i = Some row" "sr_revision row = token (gdb_drawn ?mid)"
          by (auto simp: readGuarded_def Let_def)
        have "others_step token i ?mid ?after" unfolding others_step_def using row mid(3) by auto
        moreover have "r = Inr s" "db' = ?after" using Suc.prems(2) unfolding run using won by simp_all
        ultimately show ?thesis
          unfolding commits_once_def using step mid plan v q by (intro exI[of _ ?mid]) simp
      next
        assume lost: "snd (readGuarded ?after i) \<noteq> token (gdb_drawn ?mid)"
          and same: "?after = ?mid\<lparr>gdb_drawn := gdb_drawn ?mid + 1\<rparr>"
        have later: "others_step token i db ?after" unfolding same by (rule others_step_trans[OF step draw_step])
        have "commit_attempts token i others n plan ?after = (r, db')" using Suc.prems(2) unfolding run using lost by simp
        moreover have "Q (fst (readGuarded ?after i))" unfolding same using q by simp
        ultimately have "commits_once token i Q plan ?after r db'"
          by (rule Suc.IH[OF others_step_ok[OF later Suc.prems(1)]])
        then show ?thesis by (rule commits_once_later[OF later])
      qed
    qed
  qed
qed

lemma commit_attempts_quiet:
  assumes "inj token" "\<And>k. token k \<noteq> []" "revisions_ok token i db"
    and "\<And>n db. revisions_ok token i db \<Longrightarrow> others_step token i db (others n db)"
    and "commit_attempts token i others n plan db = (r, db')" "k < n"
    and quiet: "\<And>db. snd (readGuarded (others k db) i) = snd (readGuarded db i)"
    and plan: "\<And>s. plan s \<noteq> Inl (PortFailed (Contention i MAX_COMMIT_ATTEMPTS))"
  shows "r \<noteq> Inl (PortFailed (Contention i MAX_COMMIT_ATTEMPTS))"
  using assms(3,5,6)
proof (induction n arbitrary: db)
  case 0
  then show ?case by simp
next
  case (Suc n)
  obtain s rv where rd: "readGuarded db i = (s, rv)" by fastforce
  show ?case
  proof (cases "plan s")
    case (Inl e)
    then have "r = Inl e" using Suc.prems(2) rd by simp
    then show ?thesis using assms(8)[of s] Inl by auto
  next
    case plan: (Inr w)
    show ?thesis
    proof (cases "writesAnything w")
      case False
      then show ?thesis using Suc.prems(2) rd plan by auto
    next
      case True
      then obtain v where v: "w = Some v" by (cases w) (auto simp: writesAnything_def)
      let ?mid = "others n db"
      let ?after = "statementsFor i v rv (token (gdb_drawn ?mid)) (?mid\<lparr>gdb_drawn := gdb_drawn ?mid + 1\<rparr>)"
      have step: "others_step token i db ?mid" by (rule assms(4)[OF Suc.prems(1)])
      have run: "commit_attempts token i others (Suc n) plan db =
          (if snd (readGuarded ?after i) = token (gdb_drawn ?mid) \<and> gdb_slots ?after i \<noteq> None then (Inr s, ?after)
           else commit_attempts token i others n plan ?after)"
        unfolding attempt_run[where plan = plan, OF rd plan[unfolded v] True[unfolded v]] Let_def by (rule refl)
      from attempt_outcome[OF assms(1,2) Suc.prems(1) step rd, of v] show ?thesis
      proof (elim disjE conjE)
        assume "snd (readGuarded ?after i) = token (gdb_drawn ?mid)" "gdb_slots ?after i \<noteq> None"
        then show ?thesis using Suc.prems(2) unfolding run by auto
      next
        assume lost: "snd (readGuarded ?after i) \<noteq> token (gdb_drawn ?mid)" "snd (readGuarded ?mid i) \<noteq> rv"
          and same: "?after = ?mid\<lparr>gdb_drawn := gdb_drawn ?mid + 1\<rparr>"
        have "k \<noteq> n" using lost(2) quiet[of db] rd by auto
        then have "k < n" using Suc.prems(3) by simp
        have later: "others_step token i db ?after" unfolding same by (rule others_step_trans[OF step draw_step])
        have "commit_attempts token i others n plan ?after = (r, db')" using Suc.prems(2) unfolding run using lost(1) by simp
        from Suc.IH[OF others_step_ok[OF later Suc.prems(1)] this \<open>k < n\<close>] show ?thesis .
      qed
    qed
  qed
qed

text \<open>
  C19. Writers that share the database commit one at a time. Whatever the other writers do between the
  read and the batch of every attempt, as long as each of their commits stamps a token of its own, a
  commit of this registry decided on a state the table really had and either wrote its whole decision
  on exactly that state, or nothing at all; what it does to the others is again one step they are
  prepared for; an invariant that the others and the decision keep is kept; and it gives up after
  eight attempts only if another writer committed within every one of them.
\<close>

theorem sql_commits_are_serial:
  assumes "inj token" "\<And>k. token k \<noteq> []" "revisions_ok token indexer db"
    and "\<And>n db. revisions_ok token indexer db \<Longrightarrow> others_step token indexer db (others n db)"
    and "\<And>n db. revisions_ok token indexer db \<Longrightarrow> Q (fst (readGuarded db indexer)) \<Longrightarrow> Q (fst (readGuarded (others n db) indexer))"
    and "Q (fst (readGuarded db indexer))"
    and "\<And>s. plan s \<noteq> Inl (PortFailed (Contention indexer MAX_COMMIT_ATTEMPTS))"
    and "\<And>s w. Q s \<Longrightarrow> plan s = Inr w \<Longrightarrow> Q (apply_planned w s)"
    and "gp_commit (generationRegistryPortOnSQL token others indexer options) plan db = (r, db')"
  shows "commits_once token indexer Q plan db r db' \<and> Q (fst (readGuarded db' indexer)) \<and>
    (r = Inl (PortFailed (Contention indexer MAX_COMMIT_ATTEMPTS)) \<longrightarrow>
      (\<forall>k < MAX_COMMIT_ATTEMPTS. \<exists>db. snd (readGuarded (others k db) indexer) \<noteq> snd (readGuarded db indexer)))"
proof -
  have run: "commit_attempts token indexer others MAX_COMMIT_ATTEMPTS plan db = (r, db')"
    using assms(9) by (simp add: generationRegistryPortOnSQL_def)
  have once: "commits_once token indexer Q plan db r db'"
    by (rule commit_attempts_once[where others = others and Q = Q, OF assms(1-5) run assms(6)])
  have "Q (fst (readGuarded db' indexer))"
    using once assms(8) unfolding commits_once_def by (cases r) auto
  moreover have "\<exists>db. snd (readGuarded (others k db) indexer) \<noteq> snd (readGuarded db indexer)"
    if "r = Inl (PortFailed (Contention indexer MAX_COMMIT_ATTEMPTS))" "k < MAX_COMMIT_ATTEMPTS" for k
    using commit_attempts_quiet[where others = others, OF assms(1-4) run that(2) _ assms(7)] that(1) by blast
  ultimately show ?thesis using once by blast
qed

subsection \<open>The life of a registry on either port\<close>

definition empty_memory :: "'d \<Rightarrow> 'd memory_registry" where
  "empty_memory d = \<lparr>mr_generations = [], mr_streams = [], mr_slots = Map.empty, mr_outside = d\<rparr>"

definition empty_tables :: "'d \<Rightarrow> 'd generation_db" where
  "empty_tables d =
     \<lparr>gdb_generations = [], gdb_slots = Map.empty, gdb_streams = [], gdb_emissions = empty_db, gdb_drawn = 0, gdb_outside = d\<rparr>"

lemma assertCaps_Inr:
  "assertCaps caps = Inr bounds \<Longrightarrow> 1 \<le> rb_maxGenerations bounds \<and> 1 \<le> rb_maxStreams bounds"
  by (cases "gc_maxGenerations caps"; cases "gc_maxStreams caps") (auto simp: assertCaps_def split: if_splits)

lemma empty_registry_inv:
  assumes "assertCaps caps = Inr bounds"
  shows "registry_inv keeps bounds \<lparr>rs_generations = [], rs_slots = Map.empty, rs_keptStreams = []\<rparr>"
  using assertCaps_Inr[OF assms] by (simp add: registry_inv_def registry_wf_def)

text \<open>
  C15. Every registry that is reached is well formed. Whatever generations are created, promoted and
  deleted, in memory or on the tables, and whichever of these calls are refused or fail half way: every
  slot names a generation that is held and no generation is named by two of them; as soon as there is a
  generation one is canonical; identities and creation times are distinct; every stream a generation
  folds is kept; and neither cap is exceeded. The container that keeps no predecessor never has one.
\<close>

theorem registries_stay_well_formed:
  assumes "(assertCaps caps :: (unit registry_error, registry_bounds) result) = Inr bounds"
    and "\<forall>op \<in> set ops. op_of_runtime keeps op"
  shows "registry_inv keeps bounds
      (snapshot (run_ops (createMemoryGenerationRegistryPort options) bounds collate ops (empty_memory d))) \<and>
    registry_inv keeps bounds
      (fst (readGuarded (run_ops (generationRegistryPortOnSQL token (\<lambda>n db. db) indexer options') bounds collate ops (empty_tables d')) indexer))"
proof
  show "registry_inv keeps bounds
      (snapshot (run_ops (createMemoryGenerationRegistryPort options) bounds collate ops (empty_memory d)))"
    by (rule memory_generations.run_ops_inv[OF _ assms(2)])
      (use empty_registry_inv[OF assms(1)] in \<open>simp add: snapshot_def empty_memory_def\<close>)
  have "fst (readGuarded (empty_tables d') indexer) = \<lparr>rs_generations = [], rs_slots = Map.empty, rs_keptStreams = []\<rparr>"
    by (simp add: readGuarded_def empty_tables_def slotsFrom_def)
  then show "registry_inv keeps bounds
      (fst (readGuarded (run_ops (generationRegistryPortOnSQL token (\<lambda>n db. db) indexer options') bounds collate ops (empty_tables d')) indexer))"
    by (intro sql_generations.run_ops_inv[OF _ assms(2)]) (use empty_registry_inv[OF assms(1)] in simp)
qed

definition sample_generation :: "string \<Rightarrow> generation_id" where
  "sample_generation p = \<lparr>gi_stream = ''s'', gi_processor = p\<rparr>"

definition sample_life :: "registry_op list" where
  "sample_life =
     [CreateOp 5 (sample_generation ''p'') None None, CreateOp 5 (sample_generation ''q'') (Some SuccessorSlot) None,
      MoveOp (sample_generation ''q'') True, DeleteOp (sample_generation ''p'') False]"

lemmas registry_eval = run_ops_def create_def moveCanonicalTo_def deleteGeneration_def assertIdentity_def assertBundle_def
  create_plan_def create_found_def create_new_def move_plan_def delete_plan_def deletable_def find_generation_def
  newest_creation_def planned_def slotHolding_def SLOT_NAMES_def sameGeneration_def identityOf_def clearSlotsNaming_def
  blank_write_def Let_def

definition no_options :: "(unit, unit) memory_options" where
  "no_options = \<lparr>mo_dropState = None, mo_readStateCursor = None\<rparr>"

definition sample_caps :: generation_caps where
  "sample_caps = \<lparr>gc_maxGenerations = Whole 2, gc_maxStreams = Whole 1\<rparr>"

lemma registries_stay_well_formed_witness:
  "registry_inv True \<lparr>rb_maxGenerations = 2, rb_maxStreams = 1\<rparr>
     (snapshot (run_ops (createMemoryGenerationRegistryPort no_options) \<lparr>rb_maxGenerations = 2, rb_maxStreams = 1\<rparr>
        (\<lambda>a b. 0) sample_life (empty_memory ())))
   \<and> rs_slots (snapshot (run_ops (createMemoryGenerationRegistryPort no_options) \<lparr>rb_maxGenerations = 2, rb_maxStreams = 1\<rparr>
        (\<lambda>a b. 0) sample_life (empty_memory ()))) CanonicalSlot = Some (sample_generation ''q'')"
proof
  have caps: "(assertCaps sample_caps :: (unit registry_error, registry_bounds) result) = Inr \<lparr>rb_maxGenerations = 2, rb_maxStreams = 1\<rparr>"
    by (simp add: assertCaps_def sample_caps_def)
  have ops: "\<forall>op \<in> set sample_life. op_of_runtime True op" by (simp add: sample_life_def)
  show "registry_inv True \<lparr>rb_maxGenerations = 2, rb_maxStreams = 1\<rparr>
     (snapshot (run_ops (createMemoryGenerationRegistryPort no_options) \<lparr>rb_maxGenerations = 2, rb_maxStreams = 1\<rparr>
        (\<lambda>a b. 0) sample_life (empty_memory ())))"
    by (rule registries_stay_well_formed[OF caps ops, THEN conjunct1])
  show "rs_slots (snapshot (run_ops (createMemoryGenerationRegistryPort no_options) \<lparr>rb_maxGenerations = 2, rb_maxStreams = 1\<rparr>
        (\<lambda>a b. 0) sample_life (empty_memory ()))) CanonicalSlot = Some (sample_generation ''q'')"
    by (simp add: registry_eval sample_life_def sample_generation_def createMemoryGenerationRegistryPort_def memory_commit_def
        memory_write_def snapshot_def empty_memory_def no_options_def keyOf_def map_set_def map_delete_def add_stream_def)
qed

lemma plan_step:
  assumes "inj token" "\<And>k. token k \<noteq> []" "revisions_ok token i db"
  shows "others_step token i db (snd (commit_attempts token i (\<lambda>n db. db) n plan db))"
proof -
  have "commits_once token i (\<lambda>s. True) plan db (fst (commit_attempts token i (\<lambda>n db. db) n plan db))
      (snd (commit_attempts token i (\<lambda>n db. db) n plan db))"
    by (rule commit_attempts_once[where others = "\<lambda>n db. db", OF assms]) simp_all
  then show ?thesis unfolding commits_once_def using others_step_trans by blast
qed

lemma commit_keeps:
  assumes "inj token" "\<And>k. token k \<noteq> []" "revisions_ok token i db" "Q (fst (readGuarded db i))"
    and "\<And>s w. Q s \<Longrightarrow> plan s = Inr w \<Longrightarrow> Q (apply_planned w s)"
  shows "Q (fst (readGuarded (snd (commit_attempts token i (\<lambda>n db. db) n plan db)) i))"
proof -
  have "commits_once token i Q plan db (fst (commit_attempts token i (\<lambda>n db. db) n plan db))
      (snd (commit_attempts token i (\<lambda>n db. db) n plan db))"
    by (rule commit_attempts_once[where others = "\<lambda>n db. db", OF assms(1-3)]) (use assms(4) in simp_all)
  then show ?thesis using assms(5) unfolding commits_once_def
    by (cases "fst (commit_attempts token i (\<lambda>n db. db) n plan db)") auto
qed

definition sample_token :: "nat \<Rightarrow> string" where
  "sample_token k = replicate (k + 1) (CHR ''a'')"

definition one_at_most :: registry_bounds where
  "one_at_most = \<lparr>rb_maxGenerations = 1, rb_maxStreams = 1\<rparr>"

definition register_plan :: "string \<Rightarrow> unit sql_error plan" where
  "register_plan p s = planned (create_plan one_at_most 5 (sample_generation p) None None s)"

text \<open>Another process registers its generation while this one is deciding on its own.\<close>

definition rival :: "nat \<Rightarrow> unit generation_db \<Rightarrow> unit generation_db" where
  "rival n db = (if n = 7 then snd (commit_attempts sample_token ''main'' (\<lambda>n db. db) 1 (register_plan ''p'') db) else db)"

lemma rival_cases:
  "rival n db = db \<or> rival n db = snd (commit_attempts sample_token ''main'' (\<lambda>n db. db) 1 (register_plan ''p'') db)"
  unfolding rival_def by (cases "n = 7") (simp_all only: if_True if_False simp_thms)

lemma sql_commits_are_serial_witness:
  "length (rs_generations (fst (readGuarded (snd (gp_commit
     (generationRegistryPortOnSQL sample_token rival ''main'' (no_options)) (register_plan ''q'') (empty_tables ()))) ''main''))) \<le> 1"
proof -
  have tok: "inj sample_token" "\<And>k. sample_token k \<noteq> []" by (auto simp: sample_token_def inj_def dest: arg_cong[of _ _ length])
  have keeps: "registry_inv True one_at_most (apply_planned w s)" if "registry_inv True one_at_most s" "register_plan p s = Inr w" for p s w
    using that by (auto simp: register_plan_def planned_def dest: create_plan_inv)
  have ok: "revisions_ok sample_token ''main'' (empty_tables () :: unit generation_db)"
    by (simp add: revisions_ok_def empty_tables_def)
  have empty: "registry_inv True one_at_most (fst (readGuarded (empty_tables ()) ''main''))"
    by (simp add: readGuarded_def empty_tables_def slotsFrom_def registry_inv_def registry_wf_def one_at_most_def)
  let ?P = "generationRegistryPortOnSQL sample_token rival ''main'' no_options"
  obtain r db' where run: "gp_commit ?P (register_plan ''q'') (empty_tables ()) = (r, db')" by fastforce
  have "registry_inv True one_at_most (fst (readGuarded db' ''main''))"
  proof (rule sql_commits_are_serial[where Q = "registry_inv True one_at_most" and others = rival, OF tok ok _ _ empty _ _ run,
        THEN conjunct2, THEN conjunct1])
    show "others_step sample_token ''main'' db (rival n db)" if "revisions_ok sample_token ''main'' db" for n db
      using plan_step[OF tok that, where n = 1 and plan = "register_plan ''p''"] rival_cases[of n db] others_step_refl by metis
    show "registry_inv True one_at_most (fst (readGuarded (rival n db) ''main''))"
      if "revisions_ok sample_token ''main'' db" "registry_inv True one_at_most (fst (readGuarded db ''main''))" for n db
      using commit_keeps[where Q = "registry_inv True one_at_most", OF tok that keeps, where n = 1 and plan = "register_plan ''p''"] that(2) rival_cases[of n db]
      by metis
    show "register_plan ''q'' s \<noteq> Inl (PortFailed (Contention ''main'' MAX_COMMIT_ATTEMPTS))" for s
      by (auto simp: register_plan_def planned_def create_plan_def and_then_eq_Inl Let_def split: option.splits if_splits prod.splits)
  qed (rule keeps)
  then show ?thesis using run by (simp add: registry_inv_def registry_wf_def one_at_most_def)
qed

subsection \<open>The sweep, and what a full registry refuses\<close>

abbreviation sql_port :: "(nat \<Rightarrow> string) \<Rightarrow> string \<Rightarrow> ('x, 'd) memory_options \<Rightarrow> ('x sql_error, 'd generation_db) generation_port" where
  "sql_port token indexer options \<equiv> generationRegistryPortOnSQL token (\<lambda>n db. db) indexer options"

lemma sql_sweep:
  "\<exists>db'. sweep (sql_port token i options) known ds swept db = (Inr (swept @ filter (\<lambda>d. d \<notin> known) ds), db') \<and>
    (\<forall>k. rows_of k (gdb_emissions db') = (if fst k = i \<and> snd k \<in> set ds - known then [] else rows_of k (gdb_emissions db))) \<and>
    (\<forall>k. ed_coverage (gdb_emissions db') k = (if fst k = i \<and> snd k \<in> set ds - known then None else ed_coverage (gdb_emissions db) k)) \<and>
    (\<forall>j. readGuarded db' j = readGuarded db j)"
proof (induction ds arbitrary: swept db)
  case Nil
  then show ?case by simp
next
  case (Cons d ds)
  show ?case
  proof (cases "d \<in> known")
    case True
    then show ?thesis using Cons[of swept db] by auto
  next
    case False
    let ?em = "gdb_emissions db"
    let ?db = "db\<lparr>gdb_emissions := \<lparr>ed_rows = filter (\<lambda>r. er_key r \<noteq> (i, d)) (ed_rows ?em), ed_coverage = (ed_coverage ?em)((i, d) := None)\<rparr>\<rparr>"
    have run: "sweep (sql_port token i options) known (d # ds) swept db = sweep (sql_port token i options) known ds (swept @ [d]) ?db"
      using False by (simp add: generationRegistryPortOnSQL_def Let_def)
    have rows: "rows_of k (gdb_emissions ?db) = (if k = (i, d) then [] else rows_of k ?em)" for k
      by (auto simp: rows_of_def filter_empty_conv intro: filter_cong)
    have same: "readGuarded ?db j = readGuarded db j" for j by (simp add: readGuarded_def)
    obtain db' where db': "sweep (sql_port token i options) known ds (swept @ [d]) ?db = (Inr ((swept @ [d]) @ filter (\<lambda>d. d \<notin> known) ds), db')"
      "\<forall>k. rows_of k (gdb_emissions db') = (if fst k = i \<and> snd k \<in> set ds - known then [] else rows_of k (gdb_emissions ?db))"
      "\<forall>k. ed_coverage (gdb_emissions db') k = (if fst k = i \<and> snd k \<in> set ds - known then None else ed_coverage (gdb_emissions ?db) k)"
      "\<forall>j. readGuarded db' j = readGuarded ?db j"
      using Cons[of "swept @ [d]" ?db] by blast
    show ?thesis
    proof (intro exI[of _ db'] conjI allI)
      show "sweep (sql_port token i options) known (d # ds) swept db = (Inr (swept @ filter (\<lambda>d. d \<notin> known) (d # ds)), db')"
        unfolding run using db'(1) False by simp
      show "rows_of k (gdb_emissions db') = (if fst k = i \<and> snd k \<in> set (d # ds) - known then [] else rows_of k ?em)" for k
        using db'(2) rows[of k] False by (cases k) auto
      show "ed_coverage (gdb_emissions db') k = (if fst k = i \<and> snd k \<in> set (d # ds) - known then None else ed_coverage ?em k)" for k
        using db'(3) False by (cases k) auto
      show "readGuarded db' j = readGuarded db j" for j using db'(4) same by simp
    qed
  qed
qed

text \<open>
  C33. Opening a registry collects exactly the streams nothing claims. Of the emissions of every indexer
  in the database, the ones that are gone afterwards are those of this indexer's streams that no
  generation folds and the registry does not keep, with the record of what they covered; the registry
  itself, every kept stream and every other indexer are untouched, the streams swept are named in
  order, and every stream that still holds emissions is claimed.
\<close>

theorem opening_sweeps_unclaimed_streams:
  assumes "openGenerationRegistry (sql_port token indexer options) caps db = (Inr (bounds, swept), db')"
  defines "claimed \<equiv> gi_stream ` set (rs_generations (fst (readGuarded db indexer))) \<union> set (rs_keptStreams (fst (readGuarded db indexer)))"
  shows "(\<forall>k. rows_of k (gdb_emissions db') = (if fst k = indexer \<and> snd k \<notin> claimed then [] else rows_of k (gdb_emissions db))) \<and>
    (\<forall>k. rows_of k (gdb_emissions db') \<noteq> [] \<longrightarrow> ed_coverage (gdb_emissions db') k = ed_coverage (gdb_emissions db) k) \<and>
    set swept = {d. rows_of (indexer, d) (gdb_emissions db) \<noteq> [] \<and> d \<notin> claimed} \<and> sorted swept \<and>
    (\<forall>i. readGuarded db' i = readGuarded db i)"
proof -
  let ?ds = "sort (remdups (map (snd \<circ> er_key) (filter (\<lambda>r. fst (er_key r) = indexer) (ed_rows (gdb_emissions db)))))"
  have mem: "d \<in> set ?ds \<longleftrightarrow> rows_of (indexer, d) (gdb_emissions db) \<noteq> []" for d
    by (force simp: rows_of_def filter_empty_conv)
  obtain db1 where sw: "sweep (sql_port token indexer options) claimed ?ds [] db = (Inr ([] @ filter (\<lambda>d. d \<notin> claimed) ?ds), db1)"
    "\<forall>k. rows_of k (gdb_emissions db1) = (if fst k = indexer \<and> snd k \<in> set ?ds - claimed then [] else rows_of k (gdb_emissions db))"
    "\<forall>k. ed_coverage (gdb_emissions db1) k = (if fst k = indexer \<and> snd k \<in> set ?ds - claimed then None else ed_coverage (gdb_emissions db) k)"
    "\<forall>j. readGuarded db1 j = readGuarded db j"
    using sql_sweep[of token indexer options claimed ?ds "[]" db] by blast
  have "gp_read (sql_port token indexer options) db = Inr (fst (readGuarded db indexer))"
    "gp_listStreamDigests (sql_port token indexer options) db = Inr ?ds"
    by (simp_all add: generationRegistryPortOnSQL_def)
  then have res: "db' = db1" "swept = filter (\<lambda>d. d \<notin> claimed) ?ds"
    using assms(1) sw(1) by (auto simp: openGenerationRegistry_def claimed_def split: sum.splits)
  show ?thesis
  proof (intro conjI allI impI)
    show rows: "rows_of k (gdb_emissions db') = (if fst k = indexer \<and> snd k \<notin> claimed then [] else rows_of k (gdb_emissions db))" for k
      using sw(2) mem[of "snd k"] by (cases k) (auto simp: res(1))
    show "ed_coverage (gdb_emissions db') k = ed_coverage (gdb_emissions db) k" if "rows_of k (gdb_emissions db') \<noteq> []" for k
    proof -
      have "\<not> (fst k = indexer \<and> snd k \<in> set ?ds - claimed)" proof
        assume "fst k = indexer \<and> snd k \<in> set ?ds - claimed"
        then have "fst k = indexer \<and> snd k \<notin> claimed" by blast
        then show False using that rows[of k] by simp
      qed
      then show ?thesis using sw(3)[rule_format, of k] unfolding res(1) by (simp only: if_False)
    qed
    show "set swept = {d. rows_of (indexer, d) (gdb_emissions db) \<noteq> [] \<and> d \<notin> claimed}"
      unfolding res(2) using mem by auto
    show "sorted swept" unfolding res(2) by (rule sorted_wrt_filter) (rule sorted_sort)
    show "readGuarded db' i = readGuarded db i" for i using sw(4) by (simp add: res(1))
  qed
qed

definition stored_row :: "stream_key \<Rightarrow> emission_row" where
  "stored_row k = insertOf k 1 (sample_log 5 ''a5'' 0)"

definition tables_with_streams :: "unit generation_db" where
  "tables_with_streams = (empty_tables ())\<lparr>gdb_emissions := \<lparr>ed_rows =
     [stored_row (''main'', ''s1''), stored_row (''other'', ''s1''), stored_row (''main'', ''s2'')], ed_coverage = Map.empty\<rparr>,
     gdb_streams := [(''main'', ''s2'')]\<rparr>"

lemma sql_opens:
  fixes options :: "('x, 'd) memory_options" and db :: "'d generation_db"
  assumes "(assertCaps caps :: ('x sql_error registry_error, registry_bounds) result) = Inr bounds"
  obtains swept db' where "openGenerationRegistry (sql_port token i options) caps db = (Inr (bounds, swept), db')"
proof -
  let ?ds = "sort (remdups (map (snd \<circ> er_key) (filter (\<lambda>r. fst (er_key r) = i) (ed_rows (gdb_emissions db)))))"
  let ?claimed = "gi_stream ` set (rs_generations (fst (readGuarded db i))) \<union> set (rs_keptStreams (fst (readGuarded db i)))"
  have port: "gp_read (sql_port token i options) db = Inr (fst (readGuarded db i))"
    "gp_listStreamDigests (sql_port token i options) db = Inr ?ds"
    by (simp_all add: generationRegistryPortOnSQL_def)
  obtain db' where sw: "sweep (sql_port token i options) ?claimed ?ds [] db = (Inr ([] @ filter (\<lambda>d. d \<notin> ?claimed) ?ds), db')"
    using sql_sweep[of token i options ?claimed ?ds "[]" db] by blast
  have "openGenerationRegistry (sql_port token i options) caps db = (Inr (bounds, [] @ filter (\<lambda>d. d \<notin> ?claimed) ?ds), db')"
    using sw unfolding openGenerationRegistry_def assms port set_map sum.case by (simp only: prod.case sum.case)
  then show ?thesis by (rule that)
qed

lemma opening_sweeps_unclaimed_streams_witness:
  "\<exists>swept db'. openGenerationRegistry (sql_port sample_token ''main'' no_options) sample_caps tables_with_streams =
      (Inr (\<lparr>rb_maxGenerations = 2, rb_maxStreams = 1\<rparr>, swept), db') \<and>
    set swept = {''s1''} \<and> rows_of (''main'', ''s1'') (gdb_emissions db') = [] \<and>
    rows_of (''main'', ''s2'') (gdb_emissions db') \<noteq> [] \<and> rows_of (''other'', ''s1'') (gdb_emissions db') \<noteq> []"
proof -
  have caps: "(assertCaps sample_caps :: (unit sql_error registry_error, registry_bounds) result) = Inr \<lparr>rb_maxGenerations = 2, rb_maxStreams = 1\<rparr>"
    by (simp add: assertCaps_def sample_caps_def)
  obtain swept db' where run: "openGenerationRegistry (sql_port sample_token ''main'' no_options) sample_caps tables_with_streams =
      (Inr (\<lparr>rb_maxGenerations = 2, rb_maxStreams = 1\<rparr>, swept), db')"
    using sql_opens[OF caps, where options = no_options and db = tables_with_streams] by blast
  have read: "fst (readGuarded tables_with_streams ''main'') = \<lparr>rs_generations = [], rs_slots = Map.empty, rs_keptStreams = [''s2'']\<rparr>"
    by (simp add: readGuarded_def tables_with_streams_def empty_tables_def slotsFrom_def)
  have rows: "rows_of k (gdb_emissions tables_with_streams) =
      filter (\<lambda>r. er_key r = k) [stored_row (''main'', ''s1''), stored_row (''other'', ''s1''), stored_row (''main'', ''s2'')]" for k
    by (simp add: rows_of_def tables_with_streams_def)
  have key: "er_key (stored_row k) = k" for k by (simp add: stored_row_def insertOf_def)
  note opened = opening_sweeps_unclaimed_streams[OF run, unfolded read rows]
  have "set swept = {''s1''}" using opened by (auto simp: key split: if_splits)
  moreover have "rows_of (''main'', ''s1'') (gdb_emissions db') = []" "rows_of (''main'', ''s2'') (gdb_emissions db') \<noteq> []"
    "rows_of (''other'', ''s1'') (gdb_emissions db') \<noteq> []"
    using opened[THEN conjunct1] by (simp_all add: key)
  ultimately show ?thesis using run by blast
qed

lemma deletable_generations:
  "set (fst (deletable s)) = {g \<in> identityOf ` set (rs_generations s). \<exists>r. delete_plan g reap s = (Inr r :: ('x registry_error, _) result)}"
proof (intro set_eqI iffI)
  fix g assume "g \<in> set (fst (deletable s))"
  then obtain r where r: "r \<in> set (rs_generations s)" "g = identityOf r" "\<And>c. rs_slots s CanonicalSlot = Some c \<Longrightarrow> \<not> sameGeneration r c"
    by (cases "rs_slots s CanonicalSlot") (auto simp: deletable_def Let_def)
  then obtain f where f: "find_generation (rs_generations s) g = Some f"
    using find_generation_None by (cases "find_generation (rs_generations s) g") blast+
  have "\<not> sameGeneration f c" if "rs_slots s CanonicalSlot = Some c" for c
    using r(3)[OF that] find_generation_Some[OF f] r(2) by (simp add: sameGeneration_iff)
  then show "g \<in> {g \<in> identityOf ` set (rs_generations s). \<exists>r. delete_plan g reap s = (Inr r :: ('x registry_error, _) result)}"
    using r(1,2) f by (cases "rs_slots s CanonicalSlot") (auto simp: delete_plan_def Let_def)
next
  fix g assume "g \<in> {g \<in> identityOf ` set (rs_generations s). \<exists>r. delete_plan g reap s = (Inr r :: ('x registry_error, _) result)}"
  then obtain r d where r: "r \<in> set (rs_generations s)" "g = identityOf r" "delete_plan g reap s = (Inr d :: ('x registry_error, _) result)" by blast
  then obtain f where f: "find_generation (rs_generations s) g = Some f"
    by (auto simp: delete_plan_def split: option.splits)
  have "\<not> sameGeneration f c" if "rs_slots s CanonicalSlot = Some c" for c
    using r(3) that f by (auto simp: delete_plan_def)
  then have "\<not> sameGeneration r c" if "rs_slots s CanonicalSlot = Some c" for c
    using that find_generation_Some[OF f] r(2) by (simp add: sameGeneration_iff)
  then show "g \<in> set (fst (deletable s))"
    using r(1,2) by (cases "rs_slots s CanonicalSlot") (auto simp: deletable_def Let_def)
qed

lemma sort_by_Nil_iff [simp]: "sort_by c xs = [] \<longleftrightarrow> xs = []"
proof -
  have "insert_by c x ys \<noteq> []" for x ys by (cases ys) simp_all
  then show ?thesis by (cases xs) (simp_all add: sort_by_def)
qed

lemma deletable_streams:
  "set (snd (deletable s)) = {d \<in> gi_stream ` set (rs_generations s). \<exists>r. deleteStream_plan collate d s = (Inr r :: ('x registry_error, _) result)}"
  by (auto simp: deletable_def deleteStream_plan_def Let_def filter_empty_conv split: option.splits)

text \<open>
  C36. A new generation is refused exactly at the caps, and the refusal names what can be deleted.
  A registration is refused exactly when its generation is not held and as many generations as
  allowed are held, or its stream is new and as many streams as allowed are folded. The refusal
  lists exactly the generations a deletion accepts, whether or not it reaps their stream, and of the
  streams that generations fold exactly those whose deletion is accepted.
\<close>

theorem caps_refuse_exactly:
  assumes "registry_wf bounds s"
  shows "((\<exists>e :: 'x registry_error. create_plan bounds now wanted into octets s = Inl e) \<longleftrightarrow>
      wanted \<notin> identityOf ` set (rs_generations s) \<and>
      (int (length (rs_generations s)) = rb_maxGenerations bounds \<or>
       gi_stream wanted \<notin> gi_stream ` set (rs_generations s) \<and>
         int (card (gi_stream ` set (rs_generations s))) = rb_maxStreams bounds)) \<and>
    (\<forall>e :: 'x registry_error. create_plan bounds now wanted into octets s = Inl e \<longrightarrow>
      (\<exists>cap limit generations digests. e = CapReached cap limit wanted generations digests \<and>
        set generations = {g \<in> identityOf ` set (rs_generations s). \<exists>r. delete_plan g reap s = (Inr r :: ('x registry_error, _) result)} \<and>
        set digests = {d \<in> gi_stream ` set (rs_generations s). \<exists>r. deleteStream_plan collate d s = (Inr r :: ('x registry_error, _) result)}))"
    (is "(?refused \<longleftrightarrow> ?full) \<and> ?names")
proof (cases "find_generation (rs_generations s) wanted")
  case (Some r)
  then have "wanted \<in> identityOf ` set (rs_generations s)" using find_generation_Some[OF Some] by blast
  then show ?thesis using Some by (simp add: create_plan_def)
next
  case None
  have fit: "int (length (rs_generations s)) \<le> rb_maxGenerations bounds"
    "int (card (gi_stream ` set (rs_generations s))) \<le> rb_maxStreams bounds"
    using assms by (simp_all add: registry_wf_def)
  obtain cs ds where d: "deletable s = (cs, ds)" by fastforce
  note names = deletable_generations[of s reap, unfolded d fst_conv, where 'x = 'x]
    deletable_streams[of s collate, unfolded d snd_conv, where 'x = 'x]
  have new: "wanted \<notin> identityOf ` set (rs_generations s)" using None by (simp add: find_generation_None)
  have "create_plan bounds now wanted into octets s = (Inl e :: ('x registry_error, _) result) \<Longrightarrow>
      e = CapReached MaxGenerations (rb_maxGenerations bounds) wanted cs ds \<or> e = CapReached MaxStreams (rb_maxStreams bounds) wanted cs ds" for e
    using None d by (auto simp: create_plan_def Let_def split: if_splits)
  then have ?names using names by blast
  moreover have "?refused \<longleftrightarrow> ?full"
    using None d new fit by (auto simp: create_plan_def Let_def image_comp)
  ultimately show ?thesis by blast
qed

lemma caps_refuse_exactly_witness:
  "\<exists>generations digests. create_plan one_at_most 7 (sample_generation ''q'') None None
      \<lparr>rs_generations = [\<lparr>gi_stream = ''s'', gi_processor = ''p'', gr_createdAt = 5\<rparr>],
       rs_slots = [CanonicalSlot \<mapsto> sample_generation ''p''], rs_keptStreams = [''s'']\<rparr> =
      (Inl (CapReached MaxGenerations 1 (sample_generation ''q'') generations digests) :: (unit registry_error, _) result)
     \<and> set generations = {}"
proof -
  let ?s = "\<lparr>rs_generations = [\<lparr>gi_stream = ''s'', gi_processor = ''p'', gr_createdAt = 5\<rparr>],
       rs_slots = [CanonicalSlot \<mapsto> sample_generation ''p''], rs_keptStreams = [''s'']\<rparr>"
  have wf: "registry_wf one_at_most ?s"
    by (auto simp: registry_wf_def one_at_most_def identityOf_def sample_generation_def split: if_splits)
  note exactly = caps_refuse_exactly[OF wf, where 'x = unit and now = 7 and wanted = "sample_generation ''q''" and into = None
      and octets = None and reap = False and collate = "\<lambda>a b. 0"]
  have "\<exists>e :: unit registry_error. create_plan one_at_most 7 (sample_generation ''q'') None None ?s = Inl e"
    unfolding exactly[THEN conjunct1] by (simp add: one_at_most_def identityOf_def sample_generation_def)
  then obtain e :: "unit registry_error" where e: "create_plan one_at_most 7 (sample_generation ''q'') None None ?s = Inl e" by blast
  then obtain cap limit generations digests where names: "e = CapReached cap limit (sample_generation ''q'') generations digests"
    "set generations = {g \<in> identityOf ` set (rs_generations ?s). \<exists>r. delete_plan g False ?s = (Inr r :: (unit registry_error, _) result)}"
    using exactly[THEN conjunct2] by metis
  have "set generations = {}" unfolding names(2)
    by (auto simp: delete_plan_def find_generation_def sameGeneration_def identityOf_def sample_generation_def)
  moreover have "cap = MaxGenerations \<and> limit = 1"
    using e unfolding names(1)
    by (simp add: create_plan_def find_generation_def sameGeneration_def sample_generation_def deletable_def one_at_most_def Let_def)
  ultimately show ?thesis using e names(1) by blast
qed

end
