(* ===== verification/Generation_Rebuild.thy ===== *)
theory Generation_Rebuild
  imports Stream_Reader Invalidation Generation_Registry Entity_Processor "HOL-Library.Countable"
begin

section \<open>A generation that catches up from the stored stream\<close>

text \<open>
  \<open>packages/core/src/generation/rebuild.ts\<close>, and \<open>reparse\<close> of
  \<open>internal/decoding/LogEventFetcher.ts\<close>: a generation that shares a stream fetches nothing and folds
  what is stored, a chunk of blocks at a time, or takes what the writer of the stream just appended. Its
  only position is the cursor its processor keeps. The source of chunks and the processor are the
  constructor's arguments and stay fields of the rebuild; what decoding puts on a log is a function of
  the log. The source of chunks of the server is \<open>readChunk\<close>.
\<close>

subsection \<open>What is read\<close>

datatype read_failure = Absent | ReachesBackTo int | NotConsistent string

datatype rebuild_read = ChunkRead replay_chunk | NotRead read_failure

definition server_replay :: "string \<Rightarrow> emission_db \<Rightarrow> replay_chunk_query \<Rightarrow> ('x, rebuild_read) result" where
  "server_replay indexer db q =
     Inr (case readChunk db indexer q of
            ReplayAbsent \<Rightarrow> NotRead Absent
          | ReplayStartsAt n \<Rightarrow> NotRead (ReachesBackTo n)
          | ReplayChunk c \<Rightarrow> ChunkRead c)"

text \<open>An empty text is falsy; a list of topics never is.\<close>

fun reparse :: "(unit log_event \<Rightarrow> 'a) \<Rightarrow> 'b log_event list \<Rightarrow> 'a log_event list option" where
  "reparse decode [] = Some []"
| "reparse decode (e # es) =
     (if data e = [] \<or> address e = [] then None
      else
        (let event = \<lparr>blockNumber = blockNumber e, blockHash = blockHash e, transactionIndex = transactionIndex e,
               removed = removed e, address = address e, data = data e, topics = topics e,
               transactionHash = transactionHash e, logIndex = logIndex e, blockTimestamp = blockTimestamp e,
               decoded = decode \<lparr>blockNumber = blockNumber e, blockHash = blockHash e, transactionIndex = transactionIndex e,
                 removed = removed e, address = address e, data = data e, topics = topics e,
                 transactionHash = transactionHash e, logIndex = logIndex e, blockTimestamp = blockTimestamp e, decoded = ()\<rparr>\<rparr>
         in map_option ((#) event) (reparse decode es)))"

subsection \<open>Reports\<close>

datatype rebuild_stop =
    StreamConsumed
  | BudgetSpent
  | NothingStored
  | DoesNotReachBackTo int
  | Undecodable
  | InconsistentStream string

fun stopFor :: "read_failure \<Rightarrow> rebuild_stop" where
  "stopFor Absent = NothingStored"
| "stopFor (ReachesBackTo n) = DoesNotReachBackTo n"
| "stopFor (NotConsistent reason) = InconsistentStream reason"

definition retryCanAdvance :: "rebuild_stop \<Rightarrow> bool" where
  "retryCanAdvance stopped \<longleftrightarrow> stopped = BudgetSpent \<or> stopped = NothingStored \<or> stopped = StreamConsumed"

record rebuild_report =
  rr_generation :: generation_id
  rr_fromBlock :: int
  rr_toBlock :: "int option"
  rr_scanned :: nat
  rr_replayed :: nat
  rr_retracted :: nat
  rr_highWater :: int
  rr_complete :: bool
  rr_stopped :: rebuild_stop

datatype 'x rebuild_error =
    InvalidBudget
  | LoadFailed 'x
  | ReadFailed 'x
  | ReplayRefused engine_error
  | FoldFailed 'x

definition DEFAULT_MAX_EMISSIONS_PER_CHUNK :: nat where "DEFAULT_MAX_EMISSIONS_PER_CHUNK = 2000"

definition DEFAULT_FEED_BATCH_SIZE :: int where "DEFAULT_FEED_BATCH_SIZE = 300"

fun budgetOf :: "jsnum option \<Rightarrow> ('x rebuild_error, nat) result" where
  "budgetOf None = Inr DEFAULT_MAX_EMISSIONS_PER_CHUNK"
| "budgetOf (Some NotWhole) = Inl InvalidBudget"
| "budgetOf (Some (Whole n)) = (if n < 1 then Inl InvalidBudget else Inr (nat n))"

subsection \<open>The rebuild\<close>

record ('a, 'x, 'p, 'd) generation_rebuild =
  gb_stream :: string
  gb_finality :: int
  gb_maxEmissions :: nat
  gb_feedBatchSize :: int
  gb_defaultFromBlock :: int
  gb_context :: wire_context
  gb_processorIdentity :: string
  gb_decode :: "unit log_event \<Rightarrow> 'a"
  gb_readChunk :: "'d \<Rightarrow> replay_chunk_query \<Rightarrow> ('x, rebuild_read) result"
  gb_load :: "'p \<Rightarrow> ('x, 'a last_sync option) result \<times> 'p"
  gb_process :: "'a log_event list \<Rightarrow> 'a last_sync \<Rightarrow> 'p \<Rightarrow> 'p \<times> 'x option"

record ('x, 'd) rebuild_options =
  ro_stream :: string
  ro_finality :: int
  ro_readChunk :: "'d \<Rightarrow> replay_chunk_query \<Rightarrow> ('x, rebuild_read) result"
  ro_maxEmissions :: "jsnum option"
  ro_feedBatchSize :: "int option"
  ro_processorIdentity :: string

definition newGenerationRebuild :: "contracts_data \<Rightarrow> wire_context \<Rightarrow> (unit log_event \<Rightarrow> 'a)
    \<Rightarrow> ('p \<Rightarrow> ('x, 'a last_sync option) result \<times> 'p) \<Rightarrow> ('a log_event list \<Rightarrow> 'a last_sync \<Rightarrow> 'p \<Rightarrow> 'p \<times> 'x option)
    \<Rightarrow> ('x, 'd) rebuild_options \<Rightarrow> ('x rebuild_error, ('a, 'x, 'p, 'd) generation_rebuild) result" where
  "newGenerationRebuild contracts context decode load process options =
     and_then (budgetOf (ro_maxEmissions options)) (\<lambda>budget. Inr
       \<lparr>gb_stream = ro_stream options, gb_finality = ro_finality options, gb_maxEmissions = budget,
        gb_feedBatchSize = (case ro_feedBatchSize options of None \<Rightarrow> DEFAULT_FEED_BATCH_SIZE | Some n \<Rightarrow> n),
        gb_defaultFromBlock = defaultFromBlockOf contracts, gb_context = context,
        gb_processorIdentity = ro_processorIdentity options, gb_decode = decode,
        gb_readChunk = ro_readChunk options, gb_load = load, gb_process = process\<rparr>)"

definition rebuild_generation :: "('a, 'x, 'p, 'd) generation_rebuild \<Rightarrow> generation_id" where
  "rebuild_generation R = \<lparr>gi_stream = gb_stream R, gi_processor = gb_processorIdentity R\<rparr>"

definition rebuild_context :: "('a, 'x, 'p, 'd) generation_rebuild \<Rightarrow> context_identifier" where
  "rebuild_context R =
     \<lparr>ctx_source = wire_source (gb_context R), ctx_config = wire_config (gb_context R), ctx_processor = gb_processorIdentity R\<rparr>"

definition own_cursor :: "('a, 'x, 'p, 'd) generation_rebuild \<Rightarrow> 'a last_sync \<Rightarrow> bool" where
  "own_cursor R lastSync \<longleftrightarrow>
     gb_processorIdentity R = ctx_processor (context_id lastSync) \<and>
     stateMatches (wire_source (gb_context R)) (wire_config (gb_context R)) (lastToBlock lastSync) (context_id lastSync)"

definition checkpoint :: "('a, 'x, 'p, 'd) generation_rebuild \<Rightarrow> 'p \<Rightarrow> ('x rebuild_error, 'a last_sync) result \<times> 'p" where
  "checkpoint R p =
     (let (loaded, p') = gb_load R p in
      (case loaded of
         Inl x \<Rightarrow> Inl (LoadFailed x)
       | Inr None \<Rightarrow> Inr (fresh_last_sync (rebuild_context R))
       | Inr (Some lastSync) \<Rightarrow> Inr (if own_cursor R lastSync then lastSync else fresh_last_sync (rebuild_context R)),
       p'))"

fun deliver :: "('a log_event list \<Rightarrow> 'a last_sync \<Rightarrow> 'p \<Rightarrow> 'p \<times> 'x option) \<Rightarrow> 'a delivery_batch list \<Rightarrow> 'p \<Rightarrow> 'p \<times> 'x option" where
  "deliver process [] p = (p, None)"
| "deliver process (b # bs) p =
     (case process (batch_events b) (batch_lastSync b) p of
        (p', Some x) \<Rightarrow> (p', Some x)
      | (p', None) \<Rightarrow> deliver process bs p')"

definition deliver_stream :: "('a, 'x, 'p, 'd) generation_rebuild \<Rightarrow> 'a log_event list \<Rightarrow> 'a last_sync \<Rightarrow> 'p \<Rightarrow> 'p \<times> 'x option" where
  "deliver_stream R es newSync p =
     (let batches = batchStreamForDelivery es newSync (gb_feedBatchSize R) in
      case deliver (gb_process R) batches p of
        (p', Some x) \<Rightarrow> (p', Some x)
      | (p', None) \<Rightarrow> if length batches = 0 then gb_process R [] newSync p' else (p', None))"

definition chunk_report :: "('a, 'x, 'p, 'd) generation_rebuild \<Rightarrow> int \<Rightarrow> replay_chunk \<Rightarrow> 'a log_event list \<Rightarrow> rebuild_report" where
  "chunk_report R fromBlock chunk es =
     \<lparr>rr_generation = rebuild_generation R, rr_fromBlock = fromBlock, rr_toBlock = Some (rc_lastToBlock chunk),
      rr_scanned = length (rc_eventStream chunk), rr_replayed = length es, rr_retracted = length (filter removed es),
      rr_highWater = rc_highWater chunk, rr_complete = (\<not> rc_truncated chunk),
      rr_stopped = (if rc_truncated chunk then BudgetSpent else StreamConsumed)\<rparr>"

definition replay_range :: "int \<Rightarrow> int \<Rightarrow> int \<Rightarrow> int \<Rightarrow> range_args" where
  "replay_range newest fromBlock toBlock depth =
     \<lparr>newLatestBlock = newest, newLastFromBlock = fromBlock, newLastToBlock = toBlock, finality_depth = depth\<rparr>"

definition replay_chunk_onto :: "('a, 'x, 'p, 'd) generation_rebuild \<Rightarrow> int \<Rightarrow> 'a last_sync \<Rightarrow> replay_chunk \<Rightarrow> 'p
    \<Rightarrow> ('x rebuild_error, rebuild_report) result \<times> 'p" where
  "replay_chunk_onto R fromBlock lastSync chunk p =
     (case reparse (gb_decode R) (rc_eventStream chunk) of
        None \<Rightarrow>
          (Inr \<lparr>rr_generation = rebuild_generation R, rr_fromBlock = fromBlock, rr_toBlock = None,
             rr_scanned = length (rc_eventStream chunk), rr_replayed = 0, rr_retracted = 0,
             rr_highWater = rc_highWater chunk, rr_complete = False, rr_stopped = Undecodable\<rparr>, p)
      | Some replayable \<Rightarrow>
          if rc_lastToBlock chunk = lastToBlock lastSync \<and> rc_latestBlock chunk = latestBlock lastSync
          then (Inr (chunk_report R fromBlock chunk []), p)
          else
            (case generateStreamFromReplay lastSync (gb_defaultFromBlock R) replayable
                    (replay_range (rc_latestBlock chunk) (rc_lastFromBlock chunk) (rc_lastToBlock chunk) (gb_finality R)) of
               Inl e \<Rightarrow> (Inl (ReplayRefused e), p)
             | Inr r \<Rightarrow>
                 (case deliver_stream R (rp_eventStream r) (rp_newLastSync r) p of
                    (p', Some x) \<Rightarrow> (Inl (FoldFailed x), p')
                  | (p', None) \<Rightarrow> (Inr (chunk_report R fromBlock chunk (rp_eventStream r)), p'))))"

definition rebuild_more :: "('a, 'x, 'p, 'd) generation_rebuild \<Rightarrow> 'd \<Rightarrow> jsnum option \<Rightarrow> 'p
    \<Rightarrow> ('x rebuild_error, rebuild_report) result \<times> 'p" where
  "rebuild_more R stored maxEmissions p =
     (case (if maxEmissions = None then Inr (gb_maxEmissions R) else budgetOf maxEmissions) of
        Inl e \<Rightarrow> (Inl e, p)
      | Inr budget \<Rightarrow>
          (case checkpoint R p of
             (Inl e, p') \<Rightarrow> (Inl e, p')
           | (Inr lastSync, p') \<Rightarrow>
               (let fromBlock = getFromBlock lastSync (gb_defaultFromBlock R) (gb_finality R) in
                case gb_readChunk R stored \<lparr>rq_stream = gb_stream R, rq_fromBlock = fromBlock,
                       rq_foldedThrough = lastToBlock lastSync, rq_maxEmissions = budget\<rparr> of
                  Inl x \<Rightarrow> (Inl (ReadFailed x), p')
                | Inr (NotRead why) \<Rightarrow>
                    (Inr \<lparr>rr_generation = rebuild_generation R, rr_fromBlock = fromBlock, rr_toBlock = None,
                       rr_scanned = 0, rr_replayed = 0, rr_retracted = 0, rr_highWater = 0, rr_complete = False,
                       rr_stopped = stopFor why\<rparr>, p')
                | Inr (ChunkRead chunk) \<Rightarrow> replay_chunk_onto R fromBlock lastSync chunk p')))"

text \<open>What the writer appended is folded at once, when it begins where this fold resumes.\<close>

definition follow :: "('a, 'x, 'p, 'd) generation_rebuild \<Rightarrow> 'a log_event list \<Rightarrow> 'a last_sync \<Rightarrow> 'p
    \<Rightarrow> ('x rebuild_error, bool \<times> nat) result \<times> 'p" where
  "follow R delta deltaSync p =
     (case checkpoint R p of
        (Inl e, p') \<Rightarrow> (Inl e, p')
      | (Inr lastSync, p') \<Rightarrow>
          if getFromBlock lastSync (gb_defaultFromBlock R) (gb_finality R) \<noteq> lastFromBlock deltaSync
          then (Inr (False, 0), p')
          else
            (let replayable = (case reparse (gb_decode R) delta of None \<Rightarrow> delta | Some es \<Rightarrow> es) in
             case generateStreamFromReplay lastSync (gb_defaultFromBlock R) replayable
                    (replay_range (latestBlock deltaSync) (lastFromBlock deltaSync) (lastToBlock deltaSync) (gb_finality R)) of
               Inl (UnexpectedFromBlock a b) \<Rightarrow> (Inr (False, 0), p')
             | Inl e \<Rightarrow> (Inl (ReplayRefused e), p')
             | Inr r \<Rightarrow>
                 (case deliver_stream R (rp_eventStream r) (rp_newLastSync r) p' of
                    (p'', Some x) \<Rightarrow> (Inl (FoldFailed x), p'')
                  | (p'', None) \<Rightarrow> (Inr (True, length (rp_eventStream r)), p''))))"

subsection \<open>Decoding again, and cutting into calls\<close>

lemma reparse_raw:
  "reparse decode es = Some out \<Longrightarrow> map raw_log out = map raw_log es"
  by (induction es arbitrary: out) (auto simp: raw_log_def Let_def split: if_splits)

lemma reparse_total:
  assumes "\<forall>e \<in> set es. data e \<noteq> [] \<and> address e \<noteq> []"
  obtains out where "reparse decode es = Some out"
  using assms by (induction es arbitrary: thesis) (auto simp: Let_def)

lemma raw_log_data [simp]: "data (raw_log e) = data e" "address (raw_log e) = address e"
  by (simp_all add: raw_log_def)

lemma ledger_after_raw: "ledger_after L (map raw_log es) = ledger_after L es"
  by (induction es arbitrary: L) (simp_all add: ledger_after_def ledger_step_def)

lemma ledger_after_same_raw:
  assumes "map raw_log xs = map raw_log ys"
  shows "ledger_after L xs = ledger_after L ys"
  using ledger_after_raw[of L xs] ledger_after_raw[of L ys] assms by simp

lemma groups_at_heights:
  assumes "\<forall>e \<in> set es. blockNumber e = height (blockHash e)"
  shows "\<forall>g \<in> set (groupStreamPerBlock es). group_at height g \<and> (\<exists>e \<in> set es. number g = blockNumber e)"
proof
  fix g assume g: "g \<in> set (groupStreamPerBlock es)"
  have ok: "group_ok g" using groupStreamPerBlock_ok g by blast
  have sub: "set (events g) \<subseteq> set es"
    using g arg_cong[OF groupStreamPerBlock_events[of es], of set] by auto
  obtain e where e: "e \<in> set (events g)" "blockNumber e = number g" using groupStreamPerBlock_number g by blast
  have at: "blockNumber x = height (hash g)" if "x \<in> set (events g)" for x
    using that ok sub assms by (auto simp: group_ok_def)
  then show "group_at height g \<and> (\<exists>e \<in> set es. number g = blockNumber e)"
    using ok e sub unfolding group_at_def by (metis subsetD)
qed

subsection \<open>A ledger, a part of the heights at a time\<close>

lemma ledger_after_Cons [simp]: "ledger_after L (e # es) = ledger_after (ledger_step L e) es"
  "ledger_after L [] = L"
  by (simp_all add: ledger_after_def)

lemma ledger_after_heights:
  "ledger_after L (filter (\<lambda>e. P (blockNumber e)) es) = {k \<in> L. \<not> P (fst k)} \<union> {k \<in> ledger_after L es. P (fst k)}"
proof (induction es arbitrary: L)
  case Nil
  then show ?case by auto
next
  case (Cons e es)
  have "{k \<in> ledger_step L e. \<not> P (fst k)} = {k \<in> L. \<not> P (fst k)}" if "P (blockNumber e)"
    using that by (auto simp: ledger_step_def)
  moreover have "{k \<in> ledger_after L es. P (fst k)} = {k \<in> ledger_after (ledger_step L e) es. P (fst k)}" if "\<not> P (blockNumber e)"
    using that
  proof (induction es arbitrary: L)
    case Nil
    then show ?case by (auto simp: ledger_step_def)
  next
    case (Cons x es)
    have "ledger_step (ledger_step L e) x = ledger_step (ledger_step L x) e \<or> event_key e = event_key x"
      by (auto simp: ledger_step_def)
    then show ?case
    proof
      assume "ledger_step (ledger_step L e) x = ledger_step (ledger_step L x) e"
      then show ?thesis using Cons.IH[of "ledger_step L x"] Cons.prems by simp
    next
      assume "event_key e = event_key x"
      then have "ledger_step (ledger_step L e) x = ledger_step L x" by (auto simp: ledger_step_def)
      then show ?thesis by simp
    qed
  qed
  ultimately show ?case using Cons.IH by auto
qed

lemma ledger_after_mentions:
  "ledger_after L es = ledger_after {} es \<union> {k \<in> L. k \<notin> event_key ` set es}"
proof (induction es rule: rev_induct)
  case Nil
  then show ?case by simp
next
  case (snoc e es)
  then show ?case by (auto simp: ledger_after_append ledger_step_def)
qed

lemma ledger_after_held:
  assumes "L \<subseteq> ledger_after {} es"
  shows "ledger_after L es = ledger_after {} es"
proof -
  have "ledger_after {} es \<subseteq> event_key ` set es"
    by (induction es rule: rev_induct) (auto simp: ledger_after_append ledger_step_def)
  then show ?thesis using ledger_after_mentions[of L es] assms by blast
qed

lemma ledger_after_keys: "ledger_after {} es \<subseteq> event_key ` set es"
  by (induction es rule: rev_induct) (auto simp: ledger_after_append ledger_step_def)

subsection \<open>One chunk\<close>

text \<open>
  A fold caught up to a height: what it applied is what stands of the stored stream up to there, and its
  window is the part of that within the finality.
\<close>

definition caught_up :: "ledger \<Rightarrow> int \<Rightarrow> int \<Rightarrow> 'a last_sync \<Rightarrow> ledger \<Rightarrow> bool" where
  "caught_up whole_ledger depth h s L \<longleftrightarrow>
     L = {k \<in> whole_ledger. fst k \<le> h} \<and> key_of ` set (unconfirmedBlocks s) = {k \<in> whole_ledger. fst k \<le> h \<and> h - fst k \<le> depth}"

lemma replay_walk_window:
  assumes "\<forall>g \<in> set gs. group_at height g" "live_ledger height live = W"
  shows "live_ledger height (fst (replay_walk k live order gs)) = ledger_after W (concat (map events gs))"
proof (rule set_eqI)
  fix x :: "int \<times> string"
  have W: "y \<in> W \<longleftrightarrow> fst y = height (snd y) \<and> live (snd y) \<noteq> None" for y
    unfolding assms(2)[symmetric] by (cases y) (auto simp: live_ledger_def image_iff)
  have "x \<in> live_ledger height (fst (replay_walk k live order gs)) \<longleftrightarrow>
      fst x = height (snd x) \<and> fst (replay_walk k live order gs) (snd x) \<noteq> None"
    by (cases x) (auto simp: live_ledger_def image_iff)
  also have "\<dots> \<longleftrightarrow> fst x = height (snd x) \<and> verdict_live (\<lambda>h. live h \<noteq> None) gs (snd x)"
    using fun_cong[OF replay_walk_live[of k live order gs], of "snd x"] by simp
  also have "\<dots> \<longleftrightarrow> x \<in> ledger_after W (concat (map events gs))"
    unfolding stored_ledger[OF assms(1), of W] verdict_live_def using W[of x] by (auto split: option.splits)
  finally show "x \<in> live_ledger height (fst (replay_walk k live order gs)) \<longleftrightarrow> x \<in> ledger_after W (concat (map events gs))" .
qed

text \<open>
  A replay over a window that holds what is applied from the range on: what it emits leaves what the
  stored emissions would, and its new window is what stands of them and of the old one.
\<close>

lemma replay_over_window:
  assumes run: "generateStreamFromReplay s d out (replay_range newest lo hi depth) = Inr r"
    and out: "\<forall>e \<in> set out. lo \<le> blockNumber e \<and> blockNumber e = height (blockHash e)"
    and W: "W = key_of ` set (unconfirmedBlocks s)" "\<forall>k \<in> W. fst k = height (snd k)"
    and M: "{k \<in> W. lo \<le> fst k} = {k \<in> L. lo \<le> fst k}"
  shows "ledger_after L (rp_eventStream r) = ledger_after L out"
    and "key_of ` set (unconfirmedBlocks (rp_newLastSync r)) = {k \<in> ledger_after W out. hi - fst k \<le> depth}"
proof -
  let ?gs = "groupStreamPerBlock out" and ?w = "seed_window Map.empty [] (unconfirmedBlocks s)"
  let ?walk = "replay_walk (lastToBlock s) (fst ?w) (snd ?w) ?gs"
  have G: "\<forall>g \<in> set ?gs. group_at height g \<and> (\<exists>e \<in> set out. number g = blockNumber e)"
    by (rule groups_at_heights) (use out in blast)
  then have groups: "\<forall>g \<in> set ?gs. group_at height g" by blast
  have low: "\<forall>g \<in> set ?gs. lo \<le> number g"
  proof
    fix g assume "g \<in> set ?gs"
    then obtain e where "e \<in> set out" "number g = blockNumber e" using G by blast
    then show "lo \<le> number g" using out by metis
  qed
  have wheight: "\<forall>b \<in> set (unconfirmedBlocks s). number b = height (hash b)" using W by fastforce
  have "live_at height Map.empty []" by (simp add: live_at_def)
  from seed_window_at[OF this wheight]
  have seeded: "live_at height (fst ?w) (snd ?w)" "dom (fst ?w) = hash ` set (unconfirmedBlocks s)" by simp_all
  have live: "live_ledger height (fst ?w) = W"
    using wheight by (simp add: live_ledger_def seeded(2) W(1) image_image cong: image_cong)
  have es: "rp_eventStream r = snd (snd ?walk)"
    and window: "set (unconfirmedBlocks (rp_newLastSync r)) =
      set (kept_blocks (fst ?walk) (\<lambda>b. hi - number b \<le> depth) [] (fst (snd ?walk)))"
    using run by (auto simp: generateStreamFromReplay_def replay_range_def Let_def split_beta split: if_splits)
  have after: "live_ledger height (fst ?walk) = ledger_after W out"
    using replay_walk_window[OF groups live] by (simp only: groupStreamPerBlock_events)
  have emitted: "ledger_after W (rp_eventStream r) = ledger_after W out"
    using replay_walk_ledger[OF groups, of "fst ?w" "lastToBlock s" "snd ?w"] by (simp only: es live after)
  have heights: "\<forall>e \<in> set (rp_eventStream r). lo \<le> blockNumber e"
    unfolding es by (rule replay_walk_heights) (use groups low in \<open>auto simp: group_at_def\<close>)
  have above: "ledger_after {k \<in> L. lo \<le> fst k} xs = {k \<in> ledger_after W xs. lo \<le> fst k}"
    if "\<forall>e \<in> set xs. lo \<le> blockNumber e" for xs :: "'a log_event list"
  proof -
    have "\<forall>k \<in> ledger_after {k \<in> L. lo \<le> fst k} xs. lo \<le> fst k"
      using ledger_after_mentions[of "{k \<in> L. lo \<le> fst k}" xs] ledger_after_keys[of xs] that by auto
    then show ?thesis using ledger_after_split[OF that, of W] unfolding M by auto
  qed
  have outs: "\<forall>e \<in> set out. lo \<le> blockNumber e" using out by blast
  show "ledger_after L (rp_eventStream r) = ledger_after L out"
    using ledger_after_split[OF heights, of L] ledger_after_split[OF outs, of L] above[OF heights] above[OF outs] emitted by simp
  have "live_at height (fst ?walk) (fst (snd ?walk))" by (rule replay_walk_at[OF groups seeded(1)])
  from kept_blocks_keys[OF this, of "\<lambda>n. hi - n \<le> depth"]
  show "key_of ` set (unconfirmedBlocks (rp_newLastSync r)) = {k \<in> ledger_after W out. hi - fst k \<le> depth}"
    unfolding window after .
qed

text \<open>A chunk holds every stored emission of its range, those a fold has applied before included.\<close>

lemma replay_catches_up:
  fixes es :: "'b log_event list" and out :: "'a log_event list" and d :: int
  defines "whole_ledger \<equiv> ledger_after {} (filter (\<lambda>e. d \<le> blockNumber e) es)"
  assumes run: "generateStreamFromReplay s d out (replay_range newest lo hi depth) = Inr r"
    and raw: "map raw_log out = filter (\<lambda>e. lo \<le> blockNumber e \<and> blockNumber e \<le> hi) (map raw_log es)"
    and height: "\<forall>e \<in> set es. blockNumber e = height (blockHash e)"
    and held: "caught_up whole_ledger depth h s L" and "d \<le> lo"
    and gap: "\<forall>k \<in> whole_ledger. h < fst k \<longrightarrow> lo \<le> fst k"
    and reach: "\<forall>k \<in> whole_ledger. fst k \<le> h \<and> lo \<le> fst k \<longrightarrow> h - fst k \<le> depth"
    and ahead: "\<forall>k \<in> whole_ledger. fst k \<le> h \<or> fst k \<le> hi \<longrightarrow> h \<le> hi"
  shows "caught_up whole_ledger depth hi (rp_newLastSync r) (ledger_after L (rp_eventStream r))"
proof -
  let ?P = "\<lambda>n. lo \<le> n \<and> n \<le> hi" and ?W = "key_of ` set (unconfirmedBlocks s)"
  have L: "L = {k \<in> whole_ledger. fst k \<le> h}" and W: "?W = {k \<in> whole_ledger. fst k \<le> h \<and> h - fst k \<le> depth}"
    using held by (simp_all add: caught_up_def)
  have heights: "\<forall>k \<in> ?W. fst k = height (snd k)"
    using ledger_after_keys[of "filter (\<lambda>e. d \<le> blockNumber e) es"] height unfolding W whole_ledger_def by auto
  have out: "\<forall>e \<in> set out. lo \<le> blockNumber e \<and> blockNumber e = height (blockHash e)"
  proof
    fix e assume "e \<in> set out"
    then have "raw_log e \<in> set (filter (\<lambda>e. ?P (blockNumber e)) (map raw_log es))"
      unfolding raw[symmetric] by simp
    then obtain e' where e': "e' \<in> set es" "raw_log e = raw_log e'" "?P (blockNumber e)" by auto
    from arg_cong[OF e'(2), of blockNumber] arg_cong[OF e'(2), of blockHash]
    show "lo \<le> blockNumber e \<and> blockNumber e = height (blockHash e)" using height e'(1,3) by simp
  qed
  have "{k \<in> ?W. lo \<le> fst k} = {k \<in> L. lo \<le> fst k}" unfolding W L using reach by blast
  note replay = replay_over_window[OF run out refl heights this]
  have "map raw_log out = map raw_log (filter (\<lambda>e. ?P (blockNumber e)) (filter (\<lambda>e. d \<le> blockNumber e) es))"
  proof -
    have "filter (\<lambda>e. ?P (blockNumber e)) (filter (\<lambda>e. d \<le> blockNumber e) es) = filter (\<lambda>e. ?P (blockNumber e)) es"
      using \<open>d \<le> lo\<close> by (auto intro: filter_cong)
    then show ?thesis unfolding raw by (simp add: filter_map comp_def)
  qed
  from ledger_after_same_raw[OF this]
  have stands: "ledger_after X out = {k \<in> X. \<not> ?P (fst k)} \<union> {k \<in> whole_ledger. ?P (fst k)}" if "X \<subseteq> whole_ledger" for X
    using ledger_after_heights[of X ?P "filter (\<lambda>e. d \<le> blockNumber e) es"] ledger_after_held[of X "filter (\<lambda>e. d \<le> blockNumber e) es"] that
    unfolding whole_ledger_def by (simp only:)
  have sub: "L \<subseteq> whole_ledger" "?W \<subseteq> whole_ledger" unfolding L W by blast+
  have below: "fst k \<le> h" if "k \<in> whole_ledger" "\<not> ?P (fst k)" "fst k \<le> hi" for k using gap that by force
  have upto: "fst k \<le> hi" if "k \<in> whole_ledger" "fst k \<le> h" for k using ahead that by force
  have "ledger_after L (rp_eventStream r) = {k \<in> whole_ledger. fst k \<le> hi}"
    unfolding replay(1) stands[OF sub(1)] unfolding L using below upto by blast
  moreover have "key_of ` set (unconfirmedBlocks (rp_newLastSync r)) = {k \<in> whole_ledger. fst k \<le> hi \<and> hi - fst k \<le> depth}"
  proof -
    have "h - fst k \<le> depth" if "k \<in> whole_ledger" "fst k \<le> hi" "hi - fst k \<le> depth" for k using ahead that by force
    then show ?thesis unfolding replay(2) stands[OF sub(2)] unfolding W using below upto by blast
  qed
  ultimately show ?thesis by (simp add: caught_up_def)
qed

text \<open>A delta holds what is new of the stream alone.\<close>

lemma delta_catches_up:
  fixes es :: "'b log_event list" and delta :: "'c log_event list" and out :: "'a log_event list"
  assumes run: "generateStreamFromReplay s d out (replay_range newest lo hi depth) = Inr r"
    and raw: "map raw_log out = map raw_log delta"
    and out: "\<forall>e \<in> set delta. lo \<le> blockNumber e \<and> blockNumber e = height (blockHash e)"
    and heights: "\<forall>k \<in> L. fst k = height (snd k) \<and> fst k \<le> h"
    and held: "caught_up L depth h s L" and "h \<le> hi"
    and reach: "\<forall>k \<in> L. lo \<le> fst k \<longrightarrow> h - fst k \<le> depth"
    and covered: "\<forall>k \<in> ledger_after L delta. fst k \<le> hi"
  shows "caught_up (ledger_after L delta) depth hi (rp_newLastSync r) (ledger_after L (rp_eventStream r))"
proof -
  let ?W = "key_of ` set (unconfirmedBlocks s)"
  have W: "?W = {k \<in> L. h - fst k \<le> depth}" using held heights by (auto simp: caught_up_def)
  have outs: "\<forall>e \<in> set out. lo \<le> blockNumber e \<and> blockNumber e = height (blockHash e)"
  proof
    fix e assume "e \<in> set out"
    then have "raw_log e \<in> raw_log ` set delta" using raw by (metis image_eqI set_map)
    then obtain e' where e': "e' \<in> set delta" "raw_log e = raw_log e'" by blast
    from arg_cong[OF e'(2), of blockNumber] arg_cong[OF e'(2), of blockHash]
    show "lo \<le> blockNumber e \<and> blockNumber e = height (blockHash e)" using out e'(1) raw_log_simps(2,4) by metis
  qed
  have keys: "\<forall>k \<in> ?W. fst k = height (snd k)" unfolding W using heights by blast
  have "{k \<in> ?W. lo \<le> fst k} = {k \<in> L. lo \<le> fst k}" unfolding W using reach by blast
  note replay = replay_over_window[OF run outs refl keys this]
  have "ledger_after ?W out = ledger_after {} delta \<union> {k \<in> ?W. k \<notin> event_key ` set delta}"
    unfolding ledger_after_same_raw[OF raw] by (rule ledger_after_mentions)
  moreover have "ledger_after L delta = ledger_after {} delta \<union> {k \<in> L. k \<notin> event_key ` set delta}"
    by (rule ledger_after_mentions)
  moreover have "h - fst k \<le> depth" if "hi - fst k \<le> depth" for k :: "int \<times> string" using that \<open>h \<le> hi\<close> by simp
  ultimately have "{k \<in> ledger_after ?W out. hi - fst k \<le> depth} = {k \<in> ledger_after L delta. hi - fst k \<le> depth}"
    unfolding W by blast
  then show ?thesis
    using replay covered ledger_after_same_raw[OF raw, of L] by (auto simp: caught_up_def)
qed

subsection \<open>A processor that keeps its cursor\<close>

text \<open>
  What a rebuild relies on: loading answers the cursor that is kept and folds nothing, and a call that
  does not fail folds what it is handed and keeps the cursor it is handed with it.
\<close>

locale replaying_processor =
  fixes load :: "'p \<Rightarrow> ('x, 'a last_sync option) result \<times> 'p"
    and process :: "'a log_event list \<Rightarrow> 'a last_sync \<Rightarrow> 'p \<Rightarrow> 'p \<times> 'x option"
    and cursor_of :: "'p \<Rightarrow> 'a last_sync option"
    and delivered :: "'p \<Rightarrow> 'a log_event list"
    and keeps :: "'a last_sync \<Rightarrow> bool"
  assumes loads: "load p = (r, q) \<Longrightarrow>
      cursor_of q = cursor_of p \<and> delivered q = delivered p \<and> (\<forall>c. r = Inr c \<longrightarrow> c = cursor_of p)"
    and processes: "process es ls p = (q, None) \<Longrightarrow>
      delivered q = delivered p @ es \<and> (keeps ls \<longrightarrow> cursor_of q = Some ls)"
begin

lemma deliver_all:
  assumes "deliver process bs p = (q, None)"
  shows "delivered q = delivered p @ concat (map batch_events bs) \<and>
    (bs \<noteq> [] \<longrightarrow> keeps (batch_lastSync (last bs)) \<longrightarrow> cursor_of q = Some (batch_lastSync (last bs)))"
  using assms
proof (induction bs arbitrary: p)
  case Nil
  then show ?case by simp
next
  case (Cons b bs)
  obtain p' where step: "process (batch_events b) (batch_lastSync b) p = (p', None)" "deliver process bs p' = (q, None)"
    using Cons.prems by (auto split: prod.splits option.splits)
  show ?case
  proof (cases "bs = []")
    case True
    then show ?thesis using processes[OF step(1)] step(2) by simp
  next
    case False
    then show ?thesis using processes[OF step(1)] Cons.IH[OF step(2)] by simp
  qed
qed

lemma deliver_stream_all:
  assumes "deliver_stream R es ls p = (q, None)" "gb_process R = process" "1 \<le> gb_feedBatchSize R" "keeps ls"
  shows "delivered q = delivered p @ es \<and> cursor_of q = Some ls"
proof -
  let ?bs = "batchStreamForDelivery es ls (gb_feedBatchSize R)"
  have ok: "deliveries_ok ls es ?bs"
    using cut_batches_ok[OF groupStreamPerBlock_ok[of es] assms(3), of ls]
    by (simp add: batchStreamForDelivery_def groupStreamPerBlock_events)
  obtain p' where run: "deliver process ?bs p = (p', None)"
    using assms(1,2) by (auto simp: deliver_stream_def Let_def split: prod.splits option.splits)
  show ?thesis
  proof (cases "?bs = []")
    case True
    then have "process [] ls p' = (q, None)" "p' = p" "es = []"
      using assms(1,2) run ok by (simp_all add: deliver_stream_def deliveries_ok_def)
    then show ?thesis using processes[of "[]" ls p q] assms(4) by simp
  next
    case False
    then have "q = p'" using assms(1,2) run by (simp add: deliver_stream_def Let_def)
    then show ?thesis using deliver_all[OF run] ok False assms(4) by (simp add: deliveries_ok_def)
  qed
qed

end

lemma raw_log_twice [simp]: "raw_log (raw_log e) = raw_log e"
  by (simp add: raw_log_def)

text \<open>The table a rebuild reads, the stream it holds, and what its writer guarantees of it.\<close>

definition stored_for :: "('a, 'x, 'p, 'd) generation_rebuild \<Rightarrow> string \<Rightarrow> emission_db \<Rightarrow> 'b log_event list
    \<Rightarrow> stored_coverage \<Rightarrow> (string \<Rightarrow> int) \<Rightarrow> bool" where
  "stored_for R indexer db es coverage height \<longleftrightarrow>
     holds_stream (rows_of (indexer, gb_stream R) db) es \<and>
     readStreamCoverage db (indexer, gb_stream R) = Some coverage \<and>
     sc_startBlock coverage \<le> gb_defaultFromBlock R \<and> 0 < sc_latestBlock coverage \<and>
     sc_lastToBlock coverage \<le> sc_latestBlock coverage \<and>
     (\<forall>e \<in> set es. blockNumber e = height (blockHash e) \<and> blockNumber e \<le> sc_lastToBlock coverage \<and>
        data e \<noteq> [] \<and> address e \<noteq> [])"

text \<open>What stands of a stored stream from the first block a source asks for.\<close>

definition standing :: "('a, 'x, 'p, 'd) generation_rebuild \<Rightarrow> 'b log_event list \<Rightarrow> ledger" where
  "standing R es = ledger_after {} (filter (\<lambda>e. gb_defaultFromBlock R \<le> blockNumber e) es)"

lemma standing_heights: "k \<in> standing R es \<Longrightarrow> gb_defaultFromBlock R \<le> fst k"
  unfolding standing_def using ledger_after_keys[of "filter (\<lambda>e. gb_defaultFromBlock R \<le> blockNumber e) es"] by auto

lemma standing_covered:
  assumes "stored_for R indexer db es coverage height" "k \<in> standing R es"
  shows "fst k \<le> sc_lastToBlock coverage"
proof -
  obtain e where "e \<in> set es" "k = event_key e"
    using assms(2) ledger_after_keys[of "filter (\<lambda>e. gb_defaultFromBlock R \<le> blockNumber e) es"]
    unfolding standing_def by auto
  then show ?thesis using assms(1) by (metis fst_conv stored_for_def)
qed

text \<open>Where a fold stands: it has caught up to \<open>h\<close>, either not begun or at its own cursor.\<close>

definition fold_stands :: "('a, 'x, 'p, 'd) generation_rebuild \<Rightarrow> 'b log_event list \<Rightarrow> stored_coverage
    \<Rightarrow> 'a last_sync option \<Rightarrow> 'a log_event list \<Rightarrow> 'a last_sync \<Rightarrow> int \<Rightarrow> bool" where
  "fold_stands R es coverage kept folds s h \<longleftrightarrow>
     caught_up (standing R es) (gb_finality R) h s (ledger_after {} folds) \<and>
     (kept = None \<and> s = fresh_last_sync (rebuild_context R) \<and> h = gb_defaultFromBlock R - 1 \<or>
      kept = Some s \<and> context_id s = rebuild_context R \<and> latestBlock s = sc_latestBlock coverage \<and>
        h = lastToBlock s \<and> h \<le> sc_lastToBlock coverage)"

lemma stands_step:
  assumes stored: "stored_for R indexer db es coverage height"
    and at: "fold_stands R es coverage kept folds s h"
    and lo: "lo = getFromBlock s (gb_defaultFromBlock R) (gb_finality R)"
    and hi: "hi \<le> sc_lastToBlock coverage" "hi = sc_lastToBlock coverage \<or> lastToBlock s < hi"
    and raw: "map raw_log out = filter (\<lambda>e. lo \<le> blockNumber e \<and> blockNumber e \<le> hi) (map raw_log es)"
    and run: "generateStreamFromReplay s (gb_defaultFromBlock R) out
      (replay_range (sc_latestBlock coverage) lo hi (gb_finality R)) = Inr r"
  shows "fold_stands R es coverage (Some (rp_newLastSync r)) (folds @ rp_eventStream r) (rp_newLastSync r) hi \<and>
    lastToBlock (rp_newLastSync r) = hi"
proof -
  let ?d = "gb_defaultFromBlock R" and ?total = "standing R es"
  have "?d \<le> lo" unfolding lo by (rule getFromBlock_ge_default)
  have fresh: "lo = ?d \<and> h = ?d - 1" if "kept = None"
    using at that unfolding fold_stands_def lo by (auto simp: fresh_last_sync_def getFromBlock_def)
  have own: "lo = max (min (h + 1) (sc_latestBlock coverage - gb_finality R)) ?d \<and> h = lastToBlock s \<and> h \<le> sc_lastToBlock coverage"
    if "kept \<noteq> None"
    using at that stored unfolding fold_stands_def lo stored_for_def by (auto simp: getFromBlock_def)
  have low: "?d \<le> fst k" "fst k \<le> sc_lastToBlock coverage" if "k \<in> ?total" for k
    using standing_heights[OF that] standing_covered[OF stored that] by blast+
  have tip: "sc_lastToBlock coverage \<le> sc_latestBlock coverage" using stored by (simp add: stored_for_def)
  have "caught_up ?total (gb_finality R) hi (rp_newLastSync r) (ledger_after (ledger_after {} folds) (rp_eventStream r))"
    unfolding standing_def
  proof (rule replay_catches_up[OF run raw, where h = h])
    show "\<forall>e \<in> set es. blockNumber e = height (blockHash e)" using stored by (simp add: stored_for_def)
    show "caught_up (ledger_after {} (filter (\<lambda>e. ?d \<le> blockNumber e) es)) (gb_finality R) h s (ledger_after {} folds)"
      using at by (simp add: fold_stands_def standing_def)
    show "?d \<le> lo" by fact
    show "\<forall>k \<in> ledger_after {} (filter (\<lambda>e. ?d \<le> blockNumber e) es). h < fst k \<longrightarrow> lo \<le> fst k"
    proof (intro ballI impI)
      fix k assume k: "k \<in> ledger_after {} (filter (\<lambda>e. ?d \<le> blockNumber e) es)" "h < fst k"
      then have "?d \<le> fst k" using low(1)[unfolded standing_def] by blast
      then show "lo \<le> fst k" using fresh own k(2) by (cases "kept = None") auto
    qed
    show "\<forall>k \<in> ledger_after {} (filter (\<lambda>e. ?d \<le> blockNumber e) es). fst k \<le> h \<and> lo \<le> fst k \<longrightarrow> h - fst k \<le> gb_finality R"
    proof (intro ballI impI)
      fix k assume "k \<in> ledger_after {} (filter (\<lambda>e. ?d \<le> blockNumber e) es)" "fst k \<le> h \<and> lo \<le> fst k"
      then show "h - fst k \<le> gb_finality R" using fresh own tip by (cases "kept = None") auto
    qed
    show "\<forall>k \<in> ledger_after {} (filter (\<lambda>e. ?d \<le> blockNumber e) es). fst k \<le> h \<or> fst k \<le> hi \<longrightarrow> h \<le> hi"
    proof (intro ballI impI)
      fix k assume k: "k \<in> ledger_after {} (filter (\<lambda>e. ?d \<le> blockNumber e) es)" "fst k \<le> h \<or> fst k \<le> hi"
      then have "?d \<le> fst k" using low(1)[unfolded standing_def] by blast
      then show "h \<le> hi" using fresh own hi k(2) by (cases "kept = None") auto
    qed
  qed
  moreover have "context_id (rp_newLastSync r) = context_id s" "latestBlock (rp_newLastSync r) = sc_latestBlock coverage"
    "lastToBlock (rp_newLastSync r) = hi"
    using run by (auto simp: generateStreamFromReplay_def replay_range_def Let_def split_beta split: if_splits)
  moreover have "context_id s = rebuild_context R" using at by (auto simp: fold_stands_def fresh_last_sync_def)
  ultimately show ?thesis using hi(1) by (simp add: fold_stands_def ledger_after_append)
qed

subsection \<open>One call, and calls until the stream is consumed\<close>

text \<open>A host that calls again until a call is complete or fails.\<close>

fun rebuild_rounds :: "('a, 'x, 'p, 'd) generation_rebuild \<Rightarrow> 'd \<Rightarrow> nat \<Rightarrow> 'p
    \<Rightarrow> ('x rebuild_error, rebuild_report list) result \<times> 'p" where
  "rebuild_rounds R stored 0 p = (Inr [], p)"
| "rebuild_rounds R stored (Suc n) p =
     (case rebuild_more R stored None p of
        (Inl e, p') \<Rightarrow> (Inl e, p')
      | (Inr report, p') \<Rightarrow>
          if rr_complete report then (Inr [report], p')
          else
            (case rebuild_rounds R stored n p' of
               (Inl e, q) \<Rightarrow> (Inl e, q)
             | (Inr reports, q) \<Rightarrow> (Inr (report # reports), q)))"

text \<open>A rebuild over the tables of a server whose cursors are accepted back.\<close>

definition over_tables :: "('a, 'x, 'p, emission_db) generation_rebuild \<Rightarrow> string \<Rightarrow> bool" where
  "over_tables R indexer \<longleftrightarrow>
     gb_readChunk R = server_replay indexer \<and> 1 \<le> gb_feedBatchSize R \<and>
     (\<forall>t. stateMatches (wire_source (gb_context R)) (wire_config (gb_context R)) t (rebuild_context R))"

context replaying_processor
begin

lemma checkpoint_stands:
  assumes "fold_stands R es coverage (cursor_of p) (delivered p) s h" "over_tables R indexer" "gb_load R = load"
    and "checkpoint R p = (Inr c, q)"
  shows "c = s \<and> cursor_of q = cursor_of p \<and> delivered q = delivered p"
proof -
  obtain loaded where run: "load p = (Inr loaded, q)"
    and c: "c = (case loaded of None \<Rightarrow> fresh_last_sync (rebuild_context R)
      | Some ls \<Rightarrow> if own_cursor R ls then ls else fresh_last_sync (rebuild_context R))"
    using assms(3,4) by (auto simp: checkpoint_def split: prod.splits sum.splits option.splits)
  have "own_cursor R s" if "cursor_of p = Some s" "context_id s = rebuild_context R"
    using assms(2) that(2) by (simp add: own_cursor_def over_tables_def rebuild_context_def)
  then show ?thesis using loads[OF run] c assms(1) by (auto simp: fold_stands_def)
qed

lemma more_stands:
  assumes stored: "stored_for R indexer db es coverage height" and over: "over_tables R indexer"
    and fields: "gb_load R = load" "gb_process R = process" and keeps: "\<And>ls. keeps ls"
    and at: "fold_stands R es coverage (cursor_of p) (delivered p) s h"
    and run: "rebuild_more R db None p = (Inr report, q)"
  shows "\<exists>s' h'. fold_stands R es coverage (cursor_of q) (delivered q) s' h' \<and> cursor_of q = Some s' \<and>
    (if rr_complete report then h' = sc_lastToBlock coverage \<and> rr_stopped report = StreamConsumed
     else lastToBlock s < h' \<and> h' < sc_lastToBlock coverage \<and> rr_stopped report = BudgetSpent)"
proof -
  obtain p1 c where cp: "checkpoint R p = (Inr c, p1)"
    using run by (auto simp: rebuild_more_def split: prod.splits sum.splits)
  have p1: "c = s" "cursor_of p1 = cursor_of p" "delivered p1 = delivered p"
    using checkpoint_stands[OF at over fields(1) cp] by auto
  define lo where "lo = getFromBlock s (gb_defaultFromBlock R) (gb_finality R)"
  let ?q = "\<lparr>rq_stream = gb_stream R, rq_fromBlock = lo, rq_foldedThrough = lastToBlock s, rq_maxEmissions = gb_maxEmissions R\<rparr>"
  have "gb_defaultFromBlock R \<le> lo" unfolding lo_def by (rule getFromBlock_ge_default)
  then have reach: "holds_stream (rows_of (indexer, rq_stream ?q) db) es" "readStreamCoverage db (indexer, rq_stream ?q) = Some coverage"
    "sc_startBlock coverage \<le> rq_fromBlock ?q"
    using stored by (auto simp: stored_for_def)
  obtain chunk where chunk: "readChunk db indexer ?q = ReplayChunk chunk"
    "rc_eventStream chunk = filter (\<lambda>e. lo \<le> blockNumber e \<and> blockNumber e \<le> rc_lastToBlock chunk) (map raw_log es)"
    "rc_lastToBlock chunk \<le> sc_lastToBlock coverage"
    "rc_lastToBlock chunk = sc_lastToBlock coverage \<or> lastToBlock s < rc_lastToBlock chunk"
    "rc_truncated chunk \<longleftrightarrow> rc_lastToBlock chunk < sc_lastToBlock coverage"
    "rc_lastFromBlock chunk = lo" "rc_latestBlock chunk = sc_latestBlock coverage"
    using read_chunk_facts[OF reach] by auto
  have "\<forall>e \<in> set (rc_eventStream chunk). data e \<noteq> [] \<and> address e \<noteq> []"
    using stored unfolding chunk(2) by (auto simp: stored_for_def)
  then obtain out where out: "reparse (gb_decode R) (rc_eventStream chunk) = Some out" by (rule reparse_total)
  have raw: "map raw_log out = filter (\<lambda>e. lo \<le> blockNumber e \<and> blockNumber e \<le> rc_lastToBlock chunk) (map raw_log es)"
    using reparse_raw[OF out] unfolding chunk(2) by (simp add: filter_map comp_def raw_log_twice)
  have onto: "replay_chunk_onto R lo s chunk p1 = (Inr report, q)"
    using run over chunk(1) unfolding rebuild_more_def cp p1(1) by (simp add: over_tables_def server_replay_def lo_def[symmetric] Let_def)
  have outcome: "rr_complete report = (rc_lastToBlock chunk = sc_lastToBlock coverage)"
    "rr_stopped report = (if rc_lastToBlock chunk = sc_lastToBlock coverage then StreamConsumed else BudgetSpent)"
    using onto chunk(3,5) unfolding replay_chunk_onto_def out
    by (auto simp: chunk_report_def split: if_splits sum.splits prod.splits option.splits)
  show ?thesis
  proof (cases "rc_lastToBlock chunk = lastToBlock s \<and> rc_latestBlock chunk = latestBlock s")
    case True
    then have "q = p1" using onto by (simp add: replay_chunk_onto_def out)
    moreover have "latestBlock s \<noteq> 0" using True chunk(7) stored by (auto simp: stored_for_def)
    then have "cursor_of p = Some s" "h = lastToBlock s" using at by (auto simp: fold_stands_def fresh_last_sync_def)
    ultimately show ?thesis using at p1 True chunk(4) outcome by (intro exI[of _ s] exI[of _ h]) auto
  next
    case False
    then obtain r where r: "generateStreamFromReplay s (gb_defaultFromBlock R) out
        (replay_range (sc_latestBlock coverage) lo (rc_lastToBlock chunk) (gb_finality R)) = Inr r"
      "deliver_stream R (rp_eventStream r) (rp_newLastSync r) p1 = (q, None)"
      using onto unfolding replay_chunk_onto_def out option.case if_not_P[OF False] chunk(6,7)
      by (auto split: sum.splits prod.splits option.splits)
    have feed: "1 \<le> gb_feedBatchSize R" using over by (simp add: over_tables_def)
    have q: "delivered q = delivered p @ rp_eventStream r" "cursor_of q = Some (rp_newLastSync r)"
      using deliver_stream_all[OF r(2) fields(2) feed keeps] p1(3) by simp_all
    have "fold_stands R es coverage (cursor_of q) (delivered q) (rp_newLastSync r) (rc_lastToBlock chunk)"
      unfolding q using stands_step[OF stored at lo_def chunk(3,4) raw r(1)] by blast
    then show ?thesis using q(2) chunk(3,4) outcome
      by (intro exI[of _ "rp_newLastSync r"] exI[of _ "rc_lastToBlock chunk"]) auto
  qed
qed

lemma rounds_stand:
  assumes stored: "stored_for R indexer db es coverage height" and over: "over_tables R indexer"
    and fields: "gb_load R = load" "gb_process R = process" and keeps: "\<And>ls. keeps ls"
    and at: "fold_stands R es coverage (cursor_of p) (delivered p) s h"
    and run: "rebuild_rounds R db n p = (Inr reports, q)" and enough: "sc_lastToBlock coverage - lastToBlock s < int n" "0 < n"
  shows "\<exists>s'. fold_stands R es coverage (cursor_of q) (delivered q) s' (sc_lastToBlock coverage) \<and> cursor_of q = Some s' \<and>
    reports \<noteq> [] \<and> rr_stopped (last reports) = StreamConsumed \<and> rr_complete (last reports) \<and>
    (\<forall>r \<in> set (butlast reports). rr_stopped r = BudgetSpent)"
  using at run enough
proof (induction n arbitrary: p s h reports)
  case 0
  then show ?case by simp
next
  case (Suc n)
  obtain report p' where step: "rebuild_more R db None p = (Inr report, p')"
    using Suc.prems(2) by (auto split: prod.splits sum.splits)
  obtain s' h' where at': "fold_stands R es coverage (cursor_of p') (delivered p') s' h'" "cursor_of p' = Some s'"
    "if rr_complete report then h' = sc_lastToBlock coverage \<and> rr_stopped report = StreamConsumed
     else lastToBlock s < h' \<and> h' < sc_lastToBlock coverage \<and> rr_stopped report = BudgetSpent"
    using more_stands[OF stored over fields keeps Suc.prems(1) step] by blast
  show ?case
  proof (cases "rr_complete report")
    case True
    then have "reports = [report]" "q = p'" using Suc.prems(2) step by auto
    then show ?thesis using at' True by auto
  next
    case False
    then obtain rest where rest: "rebuild_rounds R db n p' = (Inr rest, q)" "reports = report # rest"
      using Suc.prems(2) step by (auto split: prod.splits sum.splits)
    have h': "h' = lastToBlock s'" using at'(1,2) by (simp add: fold_stands_def)
    have left: "sc_lastToBlock coverage - lastToBlock s' < int n" "0 < n"
      using False at'(3) Suc.prems(3) unfolding h' by auto
    obtain t where "fold_stands R es coverage (cursor_of q) (delivered q) t (sc_lastToBlock coverage)" "cursor_of q = Some t"
      "rest \<noteq> []" "rr_stopped (last rest) = StreamConsumed" "rr_complete (last rest)" "\<forall>r \<in> set (butlast rest). rr_stopped r = BudgetSpent"
      using Suc.IH[OF at'(1) rest(1) left] by blast
    then show ?thesis using rest(2) False at'(3) by auto
  qed
qed

text \<open>What can fail is the processor, and nothing else.\<close>

lemma more_fails:
  assumes stored: "stored_for R indexer db es coverage height" and over: "over_tables R indexer"
    and fields: "gb_load R = load" and at: "fold_stands R es coverage (cursor_of p) (delivered p) s h"
    and run: "rebuild_more R db None p = (Inl e, q)"
  shows "\<exists>x. e = LoadFailed x \<or> e = FoldFailed x"
proof -
  obtain r p1 where cp: "checkpoint R p = (r, p1)" by fastforce
  show ?thesis
  proof (cases r)
    case (Inl x)
    then show ?thesis using run cp by (auto simp: rebuild_more_def checkpoint_def split: prod.splits sum.splits option.splits)
  next
    case (Inr c)
    then have "c = s" using checkpoint_stands[OF at over fields] cp by blast
    define lo where "lo = getFromBlock s (gb_defaultFromBlock R) (gb_finality R)"
    let ?q = "\<lparr>rq_stream = gb_stream R, rq_fromBlock = lo, rq_foldedThrough = lastToBlock s, rq_maxEmissions = gb_maxEmissions R\<rparr>"
    have "gb_defaultFromBlock R \<le> lo" unfolding lo_def by (rule getFromBlock_ge_default)
    then have reach: "holds_stream (rows_of (indexer, rq_stream ?q) db) es" "readStreamCoverage db (indexer, rq_stream ?q) = Some coverage"
      "sc_startBlock coverage \<le> rq_fromBlock ?q"
      using stored by (auto simp: stored_for_def)
    obtain chunk where chunk: "readChunk db indexer ?q = ReplayChunk chunk" "rc_lastFromBlock chunk = lo"
      using read_chunk_facts[OF reach] by auto
    have "replay_chunk_onto R lo s chunk p1 = (Inl e, q)"
      using run over chunk(1) unfolding rebuild_more_def cp Inr \<open>c = s\<close>
      by (simp add: over_tables_def server_replay_def lo_def[symmetric] Let_def)
    then show ?thesis
      unfolding replay_chunk_onto_def chunk(2)
      by (auto simp: generateStreamFromReplay_def replay_range_def lo_def Let_def
          split: option.splits if_splits sum.splits prod.splits)
  qed
qed

lemma rounds_fail:
  assumes stored: "stored_for R indexer db es coverage height" and over: "over_tables R indexer"
    and fields: "gb_load R = load" "gb_process R = process" and keeps: "\<And>ls. keeps ls"
    and at: "fold_stands R es coverage (cursor_of p) (delivered p) s h"
    and run: "rebuild_rounds R db n p = (Inl e, q)"
  shows "\<exists>x. e = LoadFailed x \<or> e = FoldFailed x"
  using at run
proof (induction n arbitrary: p s h)
  case 0
  then show ?case by simp
next
  case (Suc n)
  obtain r p' where step: "rebuild_more R db None p = (r, p')" by fastforce
  show ?case
  proof (cases r)
    case (Inl x)
    then show ?thesis using Suc.prems(2) step more_fails[OF stored over fields(1) Suc.prems(1)] by simp
  next
    case (Inr report)
    obtain s' h' where "fold_stands R es coverage (cursor_of p') (delivered p') s' h'"
      using more_stands[OF stored over fields keeps Suc.prems(1)] step Inr by blast
    then show ?thesis
      using Suc.IH Suc.prems(2) step Inr by (auto split: if_splits prod.splits sum.splits)
  qed
qed

text \<open>A fold that is level with the stream takes what is appended to it, or declines.\<close>

lemma follow_stands:
  fixes es :: "'a log_event list"
  assumes stored: "stored_for R indexer db es coverage height" "stored_for R indexer db' (es @ delta) coverage' height"
    and over: "over_tables R indexer" and fields: "gb_load R = load" "gb_process R = process" and keeps: "\<And>ls. keeps ls"
    and at: "fold_stands R es coverage (cursor_of p) (delivered p) s (sc_lastToBlock coverage)" "cursor_of p = Some s"
    and delta: "latestBlock deltaSync = sc_latestBlock coverage'" "lastToBlock deltaSync = sc_lastToBlock coverage'"
      "sc_lastToBlock coverage \<le> sc_lastToBlock coverage'" "\<forall>e \<in> set delta. lastFromBlock deltaSync \<le> blockNumber e"
    and run: "follow R delta deltaSync p = (Inr (took, m), q)"
  shows "(took \<longleftrightarrow> lastFromBlock deltaSync = getFromBlock s (gb_defaultFromBlock R) (gb_finality R)) \<and>
    (if took
     then \<exists>s'. fold_stands R (es @ delta) coverage' (cursor_of q) (delivered q) s' (sc_lastToBlock coverage') \<and> cursor_of q = Some s'
     else cursor_of q = cursor_of p \<and> delivered q = delivered p)"
proof -
  let ?lo = "getFromBlock s (gb_defaultFromBlock R) (gb_finality R)"
  obtain r0 p1 where "checkpoint R p = (r0, p1)" by fastforce
  then obtain c where cp: "checkpoint R p = (Inr c, p1)" using run by (cases r0) (auto simp: follow_def)
  have p1: "c = s" "cursor_of p1 = cursor_of p" "delivered p1 = delivered p"
    using checkpoint_stands[OF at(1) over fields(1) cp] by auto
  show ?thesis
  proof (cases "?lo = lastFromBlock deltaSync")
    case False
    then show ?thesis using run cp p1 by (simp add: follow_def)
  next
    case True
    define out where "out = (case reparse (gb_decode R) delta of None \<Rightarrow> delta | Some es \<Rightarrow> es)"
    have raw: "map raw_log out = map raw_log delta"
      using reparse_raw[of "gb_decode R" delta] by (auto simp: out_def split: option.splits)
    obtain r where r: "generateStreamFromReplay s (gb_defaultFromBlock R) out
        (replay_range (sc_latestBlock coverage') ?lo (sc_lastToBlock coverage') (gb_finality R)) = Inr r"
      using True by (auto simp: generateStreamFromReplay_def replay_range_def Let_def split_beta)
    have rest: "deliver_stream R (rp_eventStream r) (rp_newLastSync r) p1 = (q, None) \<and> took"
      using run cp p1(1) True r delta(1,2) unfolding follow_def
      by (auto simp: out_def[symmetric] Let_def split: prod.splits option.splits)
    have feed: "1 \<le> gb_feedBatchSize R" using over by (simp add: over_tables_def)
    have q: "delivered q = delivered p @ rp_eventStream r" "cursor_of q = Some (rp_newLastSync r)"
      using deliver_stream_all[OF rest[THEN conjunct1] fields(2) feed keeps] p1(3) by simp_all
    let ?L = "standing R es"
    have low: "gb_defaultFromBlock R \<le> ?lo" by (rule getFromBlock_ge_default)
    have L: "ledger_after {} (delivered p) = ?L" and held: "caught_up ?L (gb_finality R) (sc_lastToBlock coverage) s ?L"
      and s: "latestBlock s = sc_latestBlock coverage" "lastToBlock s = sc_lastToBlock coverage" "context_id s = rebuild_context R"
    proof -
      have "{k \<in> ?L. fst k \<le> sc_lastToBlock coverage} = ?L" using standing_covered[OF stored(1)] by blast
      then show "ledger_after {} (delivered p) = ?L" "caught_up ?L (gb_finality R) (sc_lastToBlock coverage) s ?L"
        "latestBlock s = sc_latestBlock coverage" "lastToBlock s = sc_lastToBlock coverage" "context_id s = rebuild_context R"
        using at by (auto simp: fold_stands_def caught_up_def)
    qed
    have "filter (\<lambda>e. gb_defaultFromBlock R \<le> blockNumber e) delta = delta"
      using delta(4) low True by (auto intro!: filter_True)
    then have after: "standing R (es @ delta) = ledger_after ?L delta"
      by (simp add: standing_def ledger_after_append)
    have "caught_up (ledger_after ?L delta) (gb_finality R) (sc_lastToBlock coverage') (rp_newLastSync r) (ledger_after ?L (rp_eventStream r))"
    proof (rule delta_catches_up[OF r raw _ _ held delta(3)])
      show "\<forall>e \<in> set delta. ?lo \<le> blockNumber e \<and> blockNumber e = height (blockHash e)"
        using stored(2) delta(4) True by (simp add: stored_for_def)
      show "\<forall>k \<in> ?L. fst k = height (snd k) \<and> fst k \<le> sc_lastToBlock coverage"
        using stored(1) ledger_after_keys[of "filter (\<lambda>e. gb_defaultFromBlock R \<le> blockNumber e) es"]
          standing_covered[OF stored(1)] by (fastforce simp: stored_for_def standing_def)
      show "\<forall>k \<in> ?L. ?lo \<le> fst k \<longrightarrow> sc_lastToBlock coverage - fst k \<le> gb_finality R"
        using standing_covered[OF stored(1)] stored(1) s by (fastforce simp: stored_for_def getFromBlock_def)
      show "\<forall>k \<in> ledger_after ?L delta. fst k \<le> sc_lastToBlock coverage'"
        using standing_covered[OF stored(2)] unfolding after by blast
    qed
    moreover have "context_id (rp_newLastSync r) = rebuild_context R" "latestBlock (rp_newLastSync r) = sc_latestBlock coverage'"
      "lastToBlock (rp_newLastSync r) = sc_lastToBlock coverage'"
      using r s(3) by (auto simp: generateStreamFromReplay_def replay_range_def Let_def split_beta split: if_splits)
    ultimately show ?thesis
      using True rest q by (auto simp: fold_stands_def after ledger_after_append L)
  qed
qed

end

subsection \<open>The entity processor keeps its cursor\<close>

text \<open>The processor of an entity model over a store in memory, with a record of what it folded.\<close>

type_synonym ('x, 'c) traced_processor =
  "(memory_store, 'x, 'c) event_processor \<times> 'x decoded_event log_event list"

definition traced_load :: "(string \<Rightarrow> 'x decoded_event last_sync option) \<Rightarrow> int \<Rightarrow> ('x, 'c) traced_processor
    \<Rightarrow> (fold_error, 'x decoded_event last_sync option) result \<times> ('x, 'c) traced_processor" where
  "traced_load parse depth p = (let (r, q) = proc_load memory_writable parse depth (fst p) in (r, (q, snd p)))"

definition traced_process :: "('x decoded_event last_sync \<Rightarrow> string) \<Rightarrow> 'x decoded_event log_event list \<Rightarrow> 'x decoded_event last_sync
    \<Rightarrow> ('x, 'c) traced_processor \<Rightarrow> ('x, 'c) traced_processor \<times> fold_error option" where
  "traced_process serialize es ls p =
     (let out = proc_process memory_writable serialize es ls (fst p)
      in (((fst p)\<lparr>pr_store := fo_store out\<rparr>, if fo_error out = None then snd p @ es else snd p), fo_error out))"

definition stored_cursor_of :: "(string \<Rightarrow> 'e last_sync option) \<Rightarrow> (memory_store, 'x, 'c) event_processor \<Rightarrow> 'e last_sync option" where
  "stored_cursor_of parse p = parseStoredCursor parse (memory_readCursor (pr_store p) SYNC_CURSOR_KEY)"

lemma folded_cursor:
  assumes "fo_error (applyEventStream memory_writable serialize processor config (Some (key, ls)) es s) = None"
  shows "memory_readCursor (fo_store (applyEventStream memory_writable serialize processor config (Some (key, ls)) es s)) key = Some (serialize ls)"
proof -
  define s1 where "s1 = (case forkPoint es of None \<Rightarrow> s | Some f \<Rightarrow> memory_revertTo f s)"
  define reports where "reports = (case forkPoint es of None \<Rightarrow> [] | Some f \<Rightarrow> [Retracted f])"
  define o1 where "o1 = apply_blocks memory_writable serialize processor config (Some (key, ls)) (groupByBlock es) s1 reports"
  have run: "applyEventStream memory_writable serialize processor config (Some (key, ls)) es s =
      (if groupByBlock es = [] then o1\<lparr>fo_store := memory_writeCursor key (serialize ls) (fo_store o1)\<rparr> else o1)"
    by (cases "forkPoint es") (simp_all add: o1_def applyEventStream_def s1_def reports_def in_store_def memory_writable_def Let_def)
  show ?thesis
  proof (cases "groupByBlock es = []")
    case True
    then show ?thesis by (simp add: run memory_writeCursor_def memory_readCursor_def)
  next
    case False
    then have "fo_error o1 = None" using assms run by simp
    then show ?thesis
      using apply_blocks_effect[of "groupByBlock es" serialize processor config key ls s1 reports, folded o1_def] False run
      by (auto split: if_splits)
  qed
qed

interpretation traced: replaying_processor "traced_load parse depth" "traced_process serialize"
    "\<lambda>p. stored_cursor_of parse (fst p)" snd "\<lambda>ls. parse (serialize ls) = Some ls"
  for parse depth serialize
proof
  fix p q and r :: "(fold_error, 'a decoded_event last_sync option) result" assume "traced_load parse depth p = (r, q)"
  then show "stored_cursor_of parse (fst q) = stored_cursor_of parse (fst p) \<and> snd q = snd p \<and>
      (\<forall>c. r = Inr c \<longrightarrow> c = stored_cursor_of parse (fst p))"
    by (auto simp: traced_load_def proc_load_def stored_cursor_of_def memory_writable_def and_then_def split: sum.splits)
next
  fix es ls p q assume run: "traced_process serialize es ls p = (q, None)"
  let ?out = "proc_process memory_writable serialize es ls (fst p)"
  have ok: "fo_error ?out = None" "q = ((fst p)\<lparr>pr_store := fo_store ?out\<rparr>, snd p @ es)"
    using run by (auto simp: traced_process_def Let_def)
  have "memory_readCursor (fo_store ?out) SYNC_CURSOR_KEY = Some (serialize ls)"
    using ok(1) folded_cursor by (auto simp: proc_process_def split: if_splits)
  then show "snd q = snd p @ es \<and> (parse (serialize ls) = Some ls \<longrightarrow> stored_cursor_of parse (fst q) = Some ls)"
    using ok(2) by (simp add: stored_cursor_of_def parseStoredCursor_def)
qed

text \<open>
  C11. A generation that shares a stream catches up from what is stored, in bounded calls. On the tables of
  the server, whatever the budget of a call and wherever reorgs fall between chunks, calling again ends after
  at most one call per block; unless the processor fails, the last call has consumed the stream and
  every earlier one spent its budget; what the entity processor folded is, block by block, what stands of the
  whole stored stream; and the cursor it keeps covers the stream, with the window a live fold would hold.
\<close>

theorem rebuild_reproduces_the_stream:
  assumes "stored_for R indexer db es coverage height" and "over_tables R indexer"
    and "gb_load R = traced_load parse depth" and "gb_process R = traced_process serialize"
    and "\<forall>ls. parse (serialize ls) = Some ls" and "stored_cursor_of parse p = None"
    and "sc_lastToBlock coverage < int n" and "0 < n"
  shows "case rebuild_rounds R db n (p, []) of
      (Inl e, q) \<Rightarrow> (\<exists>x. e = LoadFailed x \<or> e = FoldFailed x)
    | (Inr reports, q) \<Rightarrow>
        reports \<noteq> [] \<and> rr_stopped (last reports) = StreamConsumed \<and> (\<forall>r \<in> set (butlast reports). rr_stopped r = BudgetSpent) \<and>
        ledger_after {} (snd q) = standing R es \<and>
        (\<exists>s. stored_cursor_of parse (fst q) = Some s \<and> lastToBlock s = sc_lastToBlock coverage \<and>
          latestBlock s = sc_latestBlock coverage \<and>
          key_of ` set (unconfirmedBlocks s) = {k \<in> standing R es. sc_lastToBlock coverage - fst k \<le> gb_finality R})"
proof -
  let ?s = "fresh_last_sync (rebuild_context R) :: 'a decoded_event last_sync" and ?h = "gb_defaultFromBlock R - 1"
  have keeps: "\<And>ls. parse (serialize ls) = Some ls" using assms(5) by blast
  have none: "{k \<in> standing R es. fst k \<le> ?h} = {}" using standing_heights[of _ R es] by force
  have "caught_up (standing R es) (gb_finality R) ?h ?s (ledger_after {} [])"
    using none standing_heights[of _ R es] by (force simp: caught_up_def fresh_last_sync_def)
  then have at: "fold_stands R es coverage (stored_cursor_of parse (fst (p, []))) (snd (p, [])) ?s ?h"
    using assms(6) by (simp add: fold_stands_def)
  have enough: "sc_lastToBlock coverage - lastToBlock ?s < int n" using assms(7) by (simp add: fresh_last_sync_def)
  show ?thesis
  proof -
    obtain r q where run: "rebuild_rounds R db n (p, []) = (r, q)" by (rule surj_pair[THEN exE], erule exE, rule that)
    show ?thesis
    proof (cases r)
      case (Inl e)
      then show ?thesis using run traced.rounds_fail[OF assms(1-4) keeps at] by simp
    next
      case (Inr reports)
      obtain s where "fold_stands R es coverage (stored_cursor_of parse (fst q)) (snd q) s (sc_lastToBlock coverage)"
        "stored_cursor_of parse (fst q) = Some s" "reports \<noteq> []" "rr_stopped (last reports) = StreamConsumed"
        "\<forall>r \<in> set (butlast reports). rr_stopped r = BudgetSpent"
        using traced.rounds_stand[OF assms(1-4) keeps at _ enough assms(8)] run Inr by blast
      moreover have "{k \<in> standing R es. fst k \<le> sc_lastToBlock coverage} = standing R es"
        using standing_covered[OF assms(1)] by blast
      moreover have "{k \<in> standing R es. fst k \<le> sc_lastToBlock coverage \<and> P k} = {k \<in> standing R es. P k}" for P
        using standing_covered[OF assms(1)] by blast
      ultimately show ?thesis using run Inr by (auto simp: fold_stands_def caught_up_def)
    qed
  qed
qed

subsection \<open>A stream that was told twice\<close>

text \<open>A block is applied, then taken back and replaced at its height.\<close>

definition one_block :: "'a \<Rightarrow> bool \<Rightarrow> string \<Rightarrow> 'a log_event" where
  "one_block x r h =
     \<lparr>blockNumber = 5, blockHash = h, transactionIndex = 0, removed = r, address = ''0x01'', data = ''0x'',
      topics = [], transactionHash = ''0xff'', logIndex = 0, blockTimestamp = Some 1005, decoded = x\<rparr>"

definition reorged_stream :: "'a \<Rightarrow> 'a log_event list" where
  "reorged_stream x = [one_block x False ''0xa5'', one_block x True ''0xa5'', one_block x False ''0xb5'']"

definition covers_until :: "int \<Rightarrow> stream_coverage" where
  "covers_until n = \<lparr>sc_source = [], sc_config = ''c'', sc_latestBlock = 8, sc_lastFromBlock = 0, sc_lastToBlock = n\<rparr>"

definition sample_table :: "int \<Rightarrow> 'a log_event list \<Rightarrow> emission_db" where
  "sample_table n es = appendEmissions \<lparr>ea_key = (''main'', ''s''), ea_coverage = covers_until n, ea_emissions = es\<rparr> empty_db"

definition sample_coverage :: "int \<Rightarrow> stored_coverage" where
  "sample_coverage n =
     \<lparr>sc_source = [], sc_config = ''c'', sc_latestBlock = 8, sc_lastFromBlock = 0, sc_lastToBlock = n, sc_startBlock = 0\<rparr>"

lemma sample_holds: "holds_stream (rows_of (''main'', ''s'') (sample_table n es)) es"
  using append_holds[OF empty_holds, of "(''main'', ''s'')" "\<lparr>ea_key = (''main'', ''s''), ea_coverage = covers_until n, ea_emissions = es\<rparr>"]
  by (simp add: sample_table_def)

lemma sample_read: "readStreamCoverage (sample_table n es) (''main'', ''s'') = Some (sample_coverage n)"
  by (simp add: readStreamCoverage_def sample_table_def covers_until_def appendEmissions_def coverageUpsertOf_def empty_db_def
      sample_coverage_def Let_def)

definition rebuild_with :: "(unit log_event \<Rightarrow> 'a) \<Rightarrow> ('p \<Rightarrow> ('x, 'a last_sync option) result \<times> 'p)
    \<Rightarrow> ('a log_event list \<Rightarrow> 'a last_sync \<Rightarrow> 'p \<Rightarrow> 'p \<times> 'x option) \<Rightarrow> ('a, 'x, 'p, emission_db) generation_rebuild" where
  "rebuild_with decode load process =
     \<lparr>gb_stream = ''s'', gb_finality = 12, gb_maxEmissions = 2000, gb_feedBatchSize = 300, gb_defaultFromBlock = 0,
      gb_context = \<lparr>wire_source = [], wire_config = ''c''\<rparr>, gb_processorIdentity = ''p'', gb_decode = decode,
      gb_readChunk = server_replay ''main'', gb_load = load, gb_process = process\<rparr>"

lemma sample_stored:
  assumes "\<forall>e \<in> set es. blockNumber e = 5 \<and> data e \<noteq> [] \<and> address e \<noteq> []" "es = [] \<or> 5 \<le> n" "n \<le> 8"
  shows "stored_for (rebuild_with decode load process) ''main'' (sample_table n es) es (sample_coverage n) (\<lambda>h. 5)"
  using sample_holds[of n es] sample_read[of n es] assms
  by (auto simp: stored_for_def rebuild_with_def sample_coverage_def)

lemma reorged_blocks: "\<forall>e \<in> set (reorged_stream x). blockNumber e = 5 \<and> data e \<noteq> [] \<and> address e \<noteq> []"
  by (simp add: reorged_stream_def one_block_def)

lemma reorged_over: "over_tables (rebuild_with decode load process) ''main''"
  by (simp add: over_tables_def rebuild_with_def rebuild_context_def stateMatches_def sourceInvalidationOf_def verdictOn_def Let_def)

lemma reorged_standing: "standing (rebuild_with decode load process) (reorged_stream x) = {(5, ''0xb5'')}"
  by (auto simp: standing_def rebuild_with_def reorged_stream_def one_block_def ledger_step_def)

lemma reorged_chunk:
  "readChunk (sample_table 6 (reorged_stream x)) ''main'' \<lparr>rq_stream = ''s'', rq_fromBlock = 0, rq_foldedThrough = n, rq_maxEmissions = 2000\<rparr> =
    ReplayChunk \<lparr>rc_eventStream = reorged_stream (), rc_lastFromBlock = 0, rc_lastToBlock = 6, rc_latestBlock = 8,
      rc_truncated = False, rc_highWater = 3\<rparr>"
proof -
  let ?k = "(''main'', ''s'')" and ?db = "sample_table 6 (reorged_stream x)"
  note held = sample_holds[of 6 "reorged_stream x"]
  have raw: "map raw_log (reorged_stream x) = reorged_stream ()" by (simp add: reorged_stream_def one_block_def raw_log_def)
  have probe: "probeBlocks ?db ?k 0 2001 = [5, 5, 5]"
    unfolding probed_numbers[OF held] by (simp add: numbers_from_def reorged_stream_def one_block_def)
  have rows: "readRange ?db ?k 0 6 = reorged_stream ()"
    unfolding readRange_held[OF held] raw by (simp add: reorged_stream_def one_block_def)
  have high: "readStreamHighWaterMark ?db ?k = 3"
    using high_water_numbered[OF held] holds_stream_length[OF held]
    by (simp add: readStreamHighWaterMark_def high_water_def reorged_stream_def)
  show ?thesis
    using probe rows high unfolding readChunk_def by (simp add: sample_read sample_coverage_def Let_def)
qed

subsection \<open>A rebuild that is interrupted\<close>

text \<open>
  A processor that notes what it folds and keeps the cursor it is handed with each call it finishes, and
  is stopped after a number of calls.
\<close>

type_synonym noted = "nat \<times> unit last_sync option \<times> unit log_event list"

definition note_load :: "noted \<Rightarrow> (unit, unit last_sync option) result \<times> noted" where
  "note_load p = (Inr (fst (snd p)), p)"

fun note_process :: "unit log_event list \<Rightarrow> unit last_sync \<Rightarrow> noted \<Rightarrow> noted \<times> unit option" where
  "note_process es ls (0, kept, folds) = ((0, kept, folds), Some ())"
| "note_process es ls (Suc n, kept, folds) = ((n, Some ls, folds @ es), None)"

interpretation noting: replaying_processor note_load note_process "\<lambda>p. fst (snd p)" "\<lambda>p. snd (snd p)" "\<lambda>_. True"
proof
  fix p q :: noted and r assume "note_load p = (r, q)"
  then show "fst (snd q) = fst (snd p) \<and> snd (snd q) = snd (snd p) \<and> (\<forall>c. r = Inr c \<longrightarrow> c = fst (snd p))"
    by (auto simp: note_load_def)
next
  fix es ls and p q :: noted assume "note_process es ls p = (q, None)"
  then show "snd (snd q) = snd (snd p) @ es \<and> (True \<longrightarrow> fst (snd q) = Some ls)"
    by (cases "(es, ls, p)" rule: note_process.cases) auto
qed

abbreviation noted_rebuild :: "(unit, unit, noted, emission_db) generation_rebuild" where
  "noted_rebuild \<equiv> rebuild_with (\<lambda>_. ()) note_load note_process"

abbreviation told_twice :: emission_db where
  "told_twice \<equiv> sample_table 6 (reorged_stream ())"

lemmas rebuild_eval = rebuild_more_def checkpoint_def own_cursor_def rebuild_context_def fresh_last_sync_def getFromBlock_def
  server_replay_def replay_chunk_onto_def generateStreamFromReplay_def replay_range_def deliver_stream_def
  batchStreamForDelivery_def cut_batches.simps cursorSyncedThrough_def foldedThrough_def chunk_report_def
  rebuild_generation_def block_of_group_def open_group_def stateMatches_def sourceInvalidationOf_def verdictOn_def Let_def

text \<open>
  C31. An interrupted rebuild can lose a reorg for good. A chunk that holds a block, its retraction and its
  replacement at one height is folded in two calls, the block first. The cursor of that first call is the final
  one cut to the block's height, so its window already names the replacement. A fold stopped between the two
  calls that starts again skips the block and its retraction as settled and the replacement as held: it reports
  the stream consumed while it still stands on the block that was taken back, and so does every later call.
\<close>

theorem interrupted_rebuild_keeps_a_retracted_block:
  "let stopped = rebuild_more noted_rebuild told_twice None (1, None, []);
       resumed = rebuild_more noted_rebuild told_twice None (9, snd (snd stopped));
       again = rebuild_more noted_rebuild told_twice None (snd resumed) in
   fst stopped = Inl (FoldFailed ()) \<and>
   (\<exists>report. fst resumed = Inr report \<and> rr_complete report \<and> rr_stopped report = StreamConsumed) \<and>
   ledger_after {} (snd (snd (snd resumed))) = {(5, ''0xa5'')} \<and>
   standing noted_rebuild (reorged_stream ()) = {(5, ''0xb5'')} \<and>
   (\<exists>report. again = (Inr report, snd resumed) \<and> rr_complete report)"
proof -
  let ?ctx = "\<lparr>ctx_source = [], ctx_config = ''c'', ctx_processor = ''p''\<rparr>"
  let ?window = "[\<lparr>number = 5, hash = ''0xb5'', events = [one_block () False ''0xb5'']\<rparr>]"
  let ?at = "\<lambda>n. Some \<lparr>context_id = ?ctx, latestBlock = 8, lastFromBlock = 0, lastToBlock = n, unconfirmedBlocks = ?window\<rparr>"
  let ?folds = "[one_block () False ''0xa5'']"
  let ?report = "\<lparr>rr_generation = \<lparr>gi_stream = ''s'', gi_processor = ''p''\<rparr>, rr_fromBlock = 0, rr_toBlock = Some 6, rr_scanned = 3,
    rr_replayed = 0, rr_retracted = 0, rr_highWater = 3, rr_complete = True, rr_stopped = StreamConsumed\<rparr>"
  have stopped: "rebuild_more noted_rebuild told_twice None (1, None, []) = (Inl (FoldFailed ()), (0, ?at 5, ?folds))"
    using reorged_chunk[of "()" 0] by (simp add: rebuild_eval rebuild_with_def note_load_def reorged_stream_def one_block_def)
  have resumed: "rebuild_more noted_rebuild told_twice None (9, ?at 5, ?folds) = (Inr ?report, (8, ?at 6, ?folds))"
    using reorged_chunk[of "()" 5]
    by (simp add: rebuild_eval rebuild_with_def note_load_def reorged_stream_def one_block_def eval_nat_numeral)
  have again: "rebuild_more noted_rebuild told_twice None (8, ?at 6, ?folds) = (Inr ?report, (8, ?at 6, ?folds))"
    using reorged_chunk[of "()" 6] by (simp add: rebuild_eval rebuild_with_def note_load_def reorged_stream_def one_block_def)
  show ?thesis
    unfolding Let_def stopped fst_conv snd_conv resumed again reorged_standing
    by (auto simp: one_block_def ledger_step_def)
qed

subsection \<open>Cursors as text\<close>

text \<open>Any encoding that is read back will do; this one counts.\<close>

definition log_parts :: "'a log_event \<Rightarrow> (int \<times> string \<times> int \<times> bool \<times> string) \<times> (string \<times> string list \<times> string \<times> int \<times> int option \<times> 'a)" where
  "log_parts e = ((blockNumber e, blockHash e, transactionIndex e, removed e, address e),
     (data e, topics e, transactionHash e, logIndex e, blockTimestamp e, decoded e))"

fun parts_log :: "(int \<times> string \<times> int \<times> bool \<times> string) \<times> (string \<times> string list \<times> string \<times> int \<times> int option \<times> 'a) \<Rightarrow> 'a log_event" where
  "parts_log ((n, h, i, r, a), (d, ts, t, l, s, x)) =
     \<lparr>blockNumber = n, blockHash = h, transactionIndex = i, removed = r, address = a, data = d, topics = ts,
      transactionHash = t, logIndex = l, blockTimestamp = s, decoded = x\<rparr>"

lemma parts_log_parts [simp]: "parts_log (log_parts e) = e"
  by (simp add: log_parts_def)

fun decoded_sum :: "'x decoded_event \<Rightarrow> (string \<times> 'x) option" where
  "decoded_sum (Decoded n x) = Some (n, x)"
| "decoded_sum DecodeError = None"

instance decoded_event :: (countable) countable
proof (rule countable_classI)
  fix x y :: "'a decoded_event"
  assume "to_nat (decoded_sum x) = to_nat (decoded_sum y)"
  then show "x = y" by (cases x; cases y) simp_all
qed

definition sync_text :: "unit decoded_event last_sync \<Rightarrow> string" where
  "sync_text s = replicate (to_nat
     ((map (\<lambda>e. (she_startBlock e, she_hash e, she_streamHash e, she_legacyHash e)) (ctx_source (context_id s)),
       ctx_config (context_id s), ctx_processor (context_id s)),
      (latestBlock s, lastFromBlock s, lastToBlock s),
      map (\<lambda>b. (number b, hash b, map log_parts (events b))) (unconfirmedBlocks s))) (CHR ''a'')"

definition text_sync :: "string \<Rightarrow> unit decoded_event last_sync option" where
  "text_sync t =
     (case from_nat (length t) of ((es, c, p), (newest, lo, hi), bs) \<Rightarrow>
       Some \<lparr>context_id = \<lparr>ctx_source = map (\<lambda>(b, h, s, l). \<lparr>she_startBlock = b, she_hash = h, she_streamHash = s, she_legacyHash = l\<rparr>) es,
           ctx_config = c, ctx_processor = p\<rparr>,
         latestBlock = newest, lastFromBlock = lo, lastToBlock = hi,
         unconfirmedBlocks = map (\<lambda>(n, h, ls). \<lparr>number = n, hash = h, events = map parts_log ls\<rparr>) bs\<rparr>)"

lemma records_again:
  "\<lparr>she_startBlock = she_startBlock x, she_hash = she_hash x, she_streamHash = she_streamHash x, she_legacyHash = she_legacyHash x\<rparr> = x"
  "\<lparr>number = number b, hash = hash b, events = events b\<rparr> = b"
  "\<lparr>ctx_source = ctx_source c, ctx_config = ctx_config c, ctx_processor = ctx_processor c\<rparr> = c"
  by (cases x, simp) (cases b, simp, cases c, simp)

lemma text_sync_text [simp]: "text_sync (sync_text s) = Some s"
  by (cases s) (simp add: text_sync_def sync_text_def comp_def records_again)

subsection \<open>A sample fold\<close>

definition plain_processor :: "(memory_store, unit, unit) event_processor" where
  "plain_processor = \<lparr>pr_store = projr (memory_open [sample_declaration] (Some (SetBlocks (Whole 2))) (Some (Whole 1))),
     pr_processor = \<lparr>ep_on = (\<lambda>_. None), ep_unparsed = None\<rparr>, pr_config = (), pr_declared = None, pr_finality = None\<rparr>"

abbreviation traced_rebuild :: "(unit decoded_event, fold_error, (unit, unit) traced_processor, emission_db) generation_rebuild" where
  "traced_rebuild \<equiv> rebuild_with (\<lambda>_. DecodeError) (traced_load text_sync 12) (traced_process sync_text)"

lemma traced_fields: "gb_load traced_rebuild = traced_load text_sync 12" "gb_process traced_rebuild = traced_process sync_text"
  by (simp_all add: rebuild_with_def)

lemma plain_fresh: "stored_cursor_of text_sync plain_processor = None"
  by (simp add: stored_cursor_of_def plain_processor_def sample_open memory_readCursor_def parseStoredCursor_def)

lemmas traced_eval = rebuild_eval rebuild_with_def traced_load_def traced_process_def proc_load_def proc_process_def
  assertRetentionCoversReorgs_def plain_processor_def memory_writable_def reorged_stream_def one_block_def
  parseStoredCursor_def memory_readCursor_def sample_open fold_eval

lemma rebuild_reproduces_the_stream_witness:
  "\<exists>reports q. rebuild_rounds traced_rebuild told_twice 7 (plain_processor, []) = (Inr reports, q) \<and>
     ledger_after {} (snd q) = {(5, ''0xb5'')} \<and> rr_stopped (last reports) = StreamConsumed"
proof -
  have "\<exists>report q. rebuild_more traced_rebuild told_twice None (plain_processor, []) = (Inr report, q) \<and> rr_complete report"
    using reorged_chunk[of "()" 0] by (simp add: traced_eval)
  then obtain report q where step: "rebuild_more traced_rebuild told_twice None (plain_processor, []) = (Inr report, q)" "rr_complete report"
    by blast
  have "rebuild_rounds traced_rebuild told_twice (Suc 6) (plain_processor, []) = (Inr [report], q)"
    unfolding rebuild_rounds.simps step(1) by (simp add: step(2))
  then have run: "rebuild_rounds traced_rebuild told_twice 7 (plain_processor, []) = (Inr [report], q)"
    by (simp only: eval_nat_numeral BitM.simps)
  have stored: "stored_for traced_rebuild ''main'' told_twice (reorged_stream ()) (sample_coverage 6) (\<lambda>h. 5)"
    by (rule sample_stored) (use reorged_blocks in simp_all)
  have "\<forall>ls. text_sync (sync_text ls) = Some ls" "sc_lastToBlock (sample_coverage 6) < int 7" "0 < (7::nat)"
    by (simp_all add: sample_coverage_def)
  from rebuild_reproduces_the_stream[OF stored reorged_over traced_fields this(1) plain_fresh this(2,3)]
  have "rr_stopped report = StreamConsumed \<and> ledger_after {} (snd q) = standing traced_rebuild (reorged_stream ())"
    unfolding run by simp
  then show ?thesis unfolding reorged_standing using run by auto
qed

text \<open>
  C27. Following the writer is rebuilding from its table. A fold that has caught up with the stored
  stream takes what the writer appends exactly when it begins where the fold resumes; it then stands, with
  its cursor and window, where a rebuild over the longer stream would, and otherwise it declines
  and stands where it stood.
\<close>

theorem following_stays_caught_up:
  fixes es :: "'x decoded_event log_event list"
  assumes "stored_for R indexer db es coverage height" and "stored_for R indexer db' (es @ delta) coverage' height"
    and "over_tables R indexer" and "gb_load R = traced_load parse depth" and "gb_process R = traced_process serialize"
    and "\<forall>ls. parse (serialize ls) = Some ls"
    and "fold_stands R es coverage (Some s) (snd p) s (sc_lastToBlock coverage)" and "stored_cursor_of parse (fst p) = Some s"
    and "latestBlock deltaSync = sc_latestBlock coverage'" and "lastToBlock deltaSync = sc_lastToBlock coverage'"
    and "sc_lastToBlock coverage \<le> sc_lastToBlock coverage'" and "\<forall>e \<in> set delta. lastFromBlock deltaSync \<le> blockNumber e"
    and "follow R delta deltaSync p = (Inr (took, m), q)"
  shows "(took \<longleftrightarrow> lastFromBlock deltaSync = getFromBlock s (gb_defaultFromBlock R) (gb_finality R)) \<and>
    (if took
     then ledger_after {} (snd q) = standing R (es @ delta) \<and>
       (\<exists>s'. stored_cursor_of parse (fst q) = Some s' \<and>
         fold_stands R (es @ delta) coverage' (Some s') (snd q) s' (sc_lastToBlock coverage'))
     else stored_cursor_of parse (fst q) = Some s \<and> snd q = snd p)"
proof -
  have keeps: "\<And>ls. parse (serialize ls) = Some ls" using assms(6) by blast
  have at: "fold_stands R es coverage (stored_cursor_of parse (fst p)) (snd p) s (sc_lastToBlock coverage)"
    using assms(7,8) by simp
  have "{k \<in> standing R (es @ delta). fst k \<le> sc_lastToBlock coverage'} = standing R (es @ delta)"
    using standing_covered[OF assms(2)] by blast
  then have "ledger_after {} (snd q) = standing R (es @ delta)"
    if "fold_stands R (es @ delta) coverage' k (snd q) s' (sc_lastToBlock coverage')" for k and s' :: "'x decoded_event last_sync"
    using that by (simp add: fold_stands_def caught_up_def)
  moreover note traced.follow_stands[OF assms(1-5) keeps at assms(8-13)]
  ultimately show ?thesis using assms(8) by (cases took) auto
qed

definition sample_sync :: "int \<Rightarrow> unit decoded_event last_sync" where
  "sample_sync n = \<lparr>context_id = \<lparr>ctx_source = [], ctx_config = ''c'', ctx_processor = ''p''\<rparr>, latestBlock = 8,
     lastFromBlock = 0, lastToBlock = n, unconfirmedBlocks = []\<rparr>"

definition level_processor :: "(memory_store, unit, unit) event_processor" where
  "level_processor = plain_processor\<lparr>pr_store := memory_writeCursor SYNC_CURSOR_KEY (sync_text (sample_sync 4)) (pr_store plain_processor)\<rparr>"

lemma level_cursor: "stored_cursor_of text_sync level_processor = Some (sample_sync 4)"
  by (simp add: stored_cursor_of_def level_processor_def memory_writeCursor_def memory_readCursor_def parseStoredCursor_def)

lemma following_stays_caught_up_witness:
  "\<exists>m q. follow traced_rebuild (reorged_stream DecodeError) (sample_sync 6) (level_processor, []) = (Inr (True, m), q) \<and>
     ledger_after {} (snd q) = {(5, ''0xb5'')}"
proof -
  have "\<exists>m q. follow traced_rebuild (reorged_stream DecodeError) (sample_sync 6) (level_processor, []) = (Inr (True, m), q)"
    by (simp add: follow_def sample_sync_def level_processor_def memory_writeCursor_def traced_eval)
  then obtain m q where run: "follow traced_rebuild (reorged_stream DecodeError) (sample_sync 6) (level_processor, []) = (Inr (True, m), q)"
    by blast
  have none: "stored_for traced_rebuild ''main'' (sample_table 4 ([] :: unit decoded_event log_event list)) ([] :: unit decoded_event log_event list) (sample_coverage 4) (\<lambda>h. 5)"
    by (rule sample_stored) simp_all
  have all: "stored_for traced_rebuild ''main'' (sample_table 6 (reorged_stream (DecodeError :: unit decoded_event))) ([] @ reorged_stream (DecodeError :: unit decoded_event)) (sample_coverage 6) (\<lambda>h. 5)"
    unfolding append.simps by (rule sample_stored) (use reorged_blocks in simp_all)
  have readback: "\<forall>ls. text_sync (sync_text ls) = Some ls" by simp
  have at: "fold_stands traced_rebuild ([] :: unit decoded_event log_event list) (sample_coverage 4) (Some (sample_sync 4))
      (snd (level_processor, [])) (sample_sync 4) (sc_lastToBlock (sample_coverage 4))"
    by (simp add: fold_stands_def caught_up_def standing_def sample_sync_def sample_coverage_def rebuild_context_def rebuild_with_def)
  have level: "stored_cursor_of text_sync (fst (level_processor, [] :: unit decoded_event log_event list)) = Some (sample_sync 4)"
    using level_cursor by simp
  have "ledger_after {} (snd q) = standing traced_rebuild ([] @ reorged_stream (DecodeError :: unit decoded_event))"
    using following_stays_caught_up[OF none all reorged_over traced_fields readback at level _ _ _ _ run]
    by (simp add: sample_sync_def sample_coverage_def reorged_blocks)
  then show ?thesis using run by (auto simp: reorged_standing)
qed

end
