(* ===== verification/Spec2Isabelle.thy ===== *)
theory Spec2Isabelle
  imports Prelude Stream_Types Invalidation Resume Stream_Delta Stream_Replay Stream_Segments Stream_IndexedDB State_Entities State_Listing State_Retention State_Store State_Memory State_Patch State_Runs State_Lists Mutation_Context Entity_Processor Feed_Cursor Emission_Store Emission_Compaction Receivers Event_Ranges Log_Requests Range_Fetcher Log_Fetcher Stream_Reader Stream_Writer Generation_Registry Generation_Ports Generation_Rebuild
begin

text \<open>
  \<^bold>\<open>A model of the etherfold indexing core.\<close>
\<close>

end
